(* ===== verification/Prelude.thy ===== *)
theory Prelude
  imports Main "HOL-Library.Word" "HOL-Library.Monad_Syntax"
begin

text \<open>
  Shared vocabulary of the development: machine integers, byte spans with checked
  accesses, the error codes of \<^verbatim>\<open>nimrtc/core/error.hpp\<close>, big-endian codecs and the
  generic lemmas the component theories rely on.

  A C++ read or write through a pointer or a \<^verbatim>\<open>std::span\<close> is undefined behaviour when
  it is out of bounds. Every such access is modelled by a function into \<open>option\<close>:
  \<open>None\<close> is the undefined access, so that a theorem of the form \<open>f x \<noteq> None\<close> states
  memory safety of the modelled code. A value of \<^verbatim>\<open>core::Result<T>\<close> is a sum: \<open>Inl\<close>
  an error code, \<open>Inr\<close> the value. The diagnostic message strings are not modelled.
\<close>

unbundle bit_operations_syntax

named_theorems wire_simps \<open>evaluation of checked byte accesses\<close>
named_theorems flag_simps \<open>single-bit tests on a byte\<close>
named_theorems codec_simps \<open>decoding of encoded fields\<close>

section \<open>Machine integers and byte spans\<close>

type_synonym u8 = "8 word"
type_synonym u16 = "16 word"
type_synonym u32 = "32 word"
type_synonym u64 = "64 word"
type_synonym i16 = "16 word"
type_synonym i32 = "32 word"
type_synonym bytes = "u8 list"

datatype error_code =
    InvalidArgument | InvalidState | BufferTooSmall | OutOfMemory | Timeout
  | NetworkError | ProtocolError | CryptoError | NotImplemented | NotFound
  | Cancelled | InternalError

type_synonym 'a result = "error_code + 'a"

subsection \<open>Checked reads\<close>

definition rd :: "bytes \<Rightarrow> nat \<Rightarrow> u8 option" where
  "rd bs i = (if i < length bs then Some (bs ! i) else None)"

definition subspan :: "bytes \<Rightarrow> nat \<Rightarrow> nat \<Rightarrow> bytes option" where
  "subspan bs off n = (if off + n \<le> length bs then Some (take n (drop off bs)) else None)"

definition be16_of :: "u8 \<Rightarrow> u8 \<Rightarrow> u16" where
  "be16_of a b = push_bit 8 (ucast a) OR ucast b"

definition be24_of :: "u8 \<Rightarrow> u8 \<Rightarrow> u8 \<Rightarrow> u32" where
  "be24_of a b c = push_bit 16 (ucast a) OR push_bit 8 (ucast b) OR ucast c"

definition be32_of :: "u8 \<Rightarrow> u8 \<Rightarrow> u8 \<Rightarrow> u8 \<Rightarrow> u32" where
  "be32_of a b c d =
     push_bit 24 (ucast a) OR push_bit 16 (ucast b) OR push_bit 8 (ucast c) OR ucast d"

definition rd_be16 :: "bytes \<Rightarrow> nat \<Rightarrow> u16 option" where
  "rd_be16 bs off = do { a \<leftarrow> rd bs off; b \<leftarrow> rd bs (off + 1); Some (be16_of a b) }"

definition rd_be24 :: "bytes \<Rightarrow> nat \<Rightarrow> u32 option" where
  "rd_be24 bs off =
     do { a \<leftarrow> rd bs off; b \<leftarrow> rd bs (off + 1); c \<leftarrow> rd bs (off + 2); Some (be24_of a b c) }"

definition rd_be32 :: "bytes \<Rightarrow> nat \<Rightarrow> u32 option" where
  "rd_be32 bs off =
     do { a \<leftarrow> rd bs off; b \<leftarrow> rd bs (off + 1); c \<leftarrow> rd bs (off + 2); d \<leftarrow> rd bs (off + 3);
          Some (be32_of a b c d) }"

subsection \<open>Checked writes\<close>

text \<open>\<open>wr buf off xs\<close> stores the bytes \<open>xs\<close> at \<open>buf + off\<close>.\<close>

definition wr :: "bytes \<Rightarrow> nat \<Rightarrow> bytes \<Rightarrow> bytes option" where
  "wr buf off xs =
     (if off + length xs \<le> length buf
      then Some (take off buf @ xs @ drop (off + length xs) buf) else None)"

definition be16 :: "u16 \<Rightarrow> bytes" where
  "be16 v = [ucast (drop_bit 8 v AND 0xFF), ucast (v AND 0xFF)]"

definition be24 :: "u32 \<Rightarrow> bytes" where
  "be24 v = [ucast (drop_bit 16 v AND 0xFF), ucast (drop_bit 8 v AND 0xFF), ucast (v AND 0xFF)]"

definition be32 :: "u32 \<Rightarrow> bytes" where
  "be32 v = [ucast (drop_bit 24 v AND 0xFF), ucast (drop_bit 16 v AND 0xFF),
             ucast (drop_bit 8 v AND 0xFF), ucast (v AND 0xFF)]"

definition be64 :: "u64 \<Rightarrow> bytes" where
  "be64 v = be32 (ucast (drop_bit 32 v AND 0xFFFFFFFF)) @ be32 (ucast (v AND 0xFFFFFFFF))"

text \<open>A sequence of writes at absolute offsets, in program order.\<close>

fun writes :: "(nat \<times> bytes) list \<Rightarrow> bytes \<Rightarrow> bytes option" where
  "writes [] buf = Some buf"
| "writes ((off, xs) # ws) buf = do { buf \<leftarrow> wr buf off xs; writes ws buf }"

text \<open>Indexing a vector: \<open>None\<close> is the out-of-range access.\<close>

definition at_index :: "'a list \<Rightarrow> nat \<Rightarrow> 'a option" where
  "at_index xs i = (if i < length xs then Some (xs ! i) else None)"

section \<open>Lemmas on accesses\<close>

lemma at_index_Some [wire_simps]: "i < length xs \<Longrightarrow> at_index xs i = Some (xs ! i)"
  by (simp add: at_index_def)

lemma rd_Some [wire_simps]: "i < length bs \<Longrightarrow> rd bs i = Some (bs ! i)"
  by (simp add: rd_def)

lemma rd_None [wire_simps]: "length bs \<le> i \<Longrightarrow> rd bs i = None"
  by (simp add: rd_def)

lemma rd_eq_None_iff: "rd bs i = None \<longleftrightarrow> length bs \<le> i"
  by (auto simp: rd_def)

lemma subspan_Some [wire_simps]:
  "off + n \<le> length bs \<Longrightarrow> subspan bs off n = Some (take n (drop off bs))"
  by (simp add: subspan_def)

lemma subspan_eq_None_iff: "subspan bs off n = None \<longleftrightarrow> length bs < off + n"
  by (auto simp: subspan_def)

lemma rd_be16_Some [wire_simps]:
  "off + 1 < length bs \<Longrightarrow> rd_be16 bs off = Some (be16_of (bs ! off) (bs ! (off + 1)))"
  by (simp add: rd_be16_def rd_Some)

lemma rd_be24_Some [wire_simps]:
  "off + 2 < length bs \<Longrightarrow>
     rd_be24 bs off = Some (be24_of (bs ! off) (bs ! (off + 1)) (bs ! (off + 2)))"
  by (simp add: rd_be24_def rd_Some)

lemma rd_be32_Some [wire_simps]:
  "off + 3 < length bs \<Longrightarrow>
     rd_be32 bs off =
       Some (be32_of (bs ! off) (bs ! (off + 1)) (bs ! (off + 2)) (bs ! (off + 3)))"
  by (simp add: rd_be32_def rd_Some)

lemma wr_length: "wr buf off xs = Some buf' \<Longrightarrow> length buf' = length buf"
  by (auto simp: wr_def split: if_splits)

text \<open>
  Sequential writes: storing \<open>xs\<close> at the end of an already written prefix extends the
  prefix by \<open>xs\<close> and leaves the rest of the zero-filled buffer alone.
\<close>

lemma wr_prefix:
  "length xs \<le> n \<Longrightarrow>
     wr (pre @ replicate n 0) (length pre) xs = Some ((pre @ xs) @ replicate (n - length xs) 0)"
  by (simp add: wr_def)

text \<open>
  Writes at absolute offsets that follow one another without a gap fill the buffer with
  the concatenation of what they write.
\<close>

fun consecutive :: "nat \<Rightarrow> (nat \<times> bytes) list \<Rightarrow> bool" where
  "consecutive k [] = True"
| "consecutive k ((off, xs) # ws) = (off = k \<and> consecutive (k + length xs) ws)"

lemma consecutive_append:
  "consecutive k (us @ ws) \<longleftrightarrow>
     consecutive k us \<and> consecutive (k + length (concat (map snd us))) ws"
  by (induction k us rule: consecutive.induct) (auto simp: add.assoc)

lemma writes_consecutive:
  "consecutive (length pre) ws \<Longrightarrow> length (concat (map snd ws)) \<le> n \<Longrightarrow>
     writes ws (pre @ replicate n 0)
       = Some (pre @ concat (map snd ws) @ replicate (n - length (concat (map snd ws))) 0)"
proof (induction ws arbitrary: pre n)
  case (Cons w ws)
  obtain off xs where w: "w = (off, xs)" by (cases w)
  with Cons.prems have "wr (pre @ replicate n 0) off xs
      = Some ((pre @ xs) @ replicate (n - length xs) 0)"
    using wr_prefix [of xs n pre] by simp
  with Cons.IH [of "pre @ xs" "n - length xs"] Cons.prems w show ?case by simp
qed simp

text \<open>The same for a caller-owned output buffer of arbitrary contents.\<close>

lemma writes_into:
  "consecutive (length pre) ws \<Longrightarrow> length (concat (map snd ws)) \<le> length buf \<Longrightarrow>
     writes ws (pre @ buf)
       = Some (pre @ concat (map snd ws) @ drop (length (concat (map snd ws))) buf)"
proof (induction ws arbitrary: pre buf)
  case (Cons w ws)
  obtain off xs where w: "w = (off, xs)" by (cases w)
  with Cons.prems have "wr (pre @ buf) off xs = Some ((pre @ xs) @ drop (length xs) buf)"
    by (simp add: wr_def)
  with Cons.IH [of "pre @ xs" "drop (length xs) buf"] Cons.prems w show ?case
    by (simp add: add.commute)
qed simp

section \<open>Lemmas on codecs\<close>

lemma length_be [simp]:
  "length (be16 v) = 2" "length (be24 w) = 3" "length (be32 w) = 4" "length (be64 z) = 8"
  by (simp_all add: be16_def be24_def be32_def be64_def)

text \<open>The \<^verbatim>\<open>& 0xFF\<close> of the serialisers is absorbed by the narrowing cast to a byte.\<close>

lemma and_255: "(w :: 'a::len word) AND 255 = take_bit 8 w"
proof -
  have "(255 :: 'a word) = mask 8" by (simp add: mask_eq_exp_minus_1)
  then show ?thesis by (simp only: take_bit_eq_mask)
qed

lemma ucast_and_255 [simp]: "(ucast ((w :: 'a::len word) AND 255) :: u8) = ucast w"
  unfolding and_255 by (rule bit_word_eqI) (simp add: bit_simps)

lemma u8_eqI:
  fixes a b :: u8
  assumes "bit a 0 = bit b 0" "bit a 1 = bit b 1" "bit a 2 = bit b 2" "bit a 3 = bit b 3"
    "bit a 4 = bit b 4" "bit a 5 = bit b 5" "bit a 6 = bit b 6" "bit a 7 = bit b 7"
  shows "a = b"
proof (rule bit_word_eqI)
  fix n assume "n < LENGTH(8)"
  then have "n = 0 \<or> n = 1 \<or> n = 2 \<or> n = 3 \<or> n = 4 \<or> n = 5 \<or> n = 6 \<or> n = 7" by simp linarith
  then show "bit a n = bit b n" using assms by blast
qed

text \<open>The \<^verbatim>\<open>x & flag\<close> tests of the source read one bit.\<close>

lemma byte_flags [flag_simps]:
  "(w :: u8) AND 0x80 = 0 \<longleftrightarrow> \<not> bit w 7" "w AND 0x40 = 0 \<longleftrightarrow> \<not> bit w 6"
  "w AND 0x20 = 0 \<longleftrightarrow> \<not> bit w 5" "w AND 0x10 = 0 \<longleftrightarrow> \<not> bit w 4"
  "w AND 0x08 = 0 \<longleftrightarrow> \<not> bit w 3" "w AND 0x04 = 0 \<longleftrightarrow> \<not> bit w 2"
  "w AND 0x02 = 0 \<longleftrightarrow> \<not> bit w 1" "w AND 0x01 = 0 \<longleftrightarrow> \<not> bit w 0"
  using and_exp_eq_0_iff_not_bit [of w 7] and_exp_eq_0_iff_not_bit [of w 6]
    and_exp_eq_0_iff_not_bit [of w 5] and_exp_eq_0_iff_not_bit [of w 4]
    and_exp_eq_0_iff_not_bit [of w 3] and_exp_eq_0_iff_not_bit [of w 2]
    and_exp_eq_0_iff_not_bit [of w 1] and_exp_eq_0_iff_not_bit [of w 0]
  by simp_all

lemma be16_of_be16 [codec_simps]: "be16_of (ucast (drop_bit 8 v)) (ucast v) = v"
  unfolding be16_of_def
proof (rule bit_word_eqI, goal_cases)
  case (1 n)
  then show ?case by (cases "8 \<le> n") (auto simp: bit_simps)
qed

lemma be32_of_be32 [codec_simps]:
  "be32_of (ucast (drop_bit 24 v)) (ucast (drop_bit 16 v)) (ucast (drop_bit 8 v)) (ucast v) = v"
  unfolding be32_of_def
proof (rule bit_word_eqI, goal_cases)
  case (1 n)
  consider "n < 8" | "8 \<le> n" "n < 16" | "16 \<le> n" "n < 24" | "24 \<le> n" by linarith
  then show ?case using 1 by cases (auto simp add: bit_simps)
qed

lemma be24_of_be24 [codec_simps]:
  "be24_of (ucast (drop_bit 16 v)) (ucast (drop_bit 8 v)) (ucast v) = take_bit 24 v"
  unfolding be24_of_def
proof (rule bit_word_eqI, goal_cases)
  case (1 n)
  consider "n < 8" | "8 \<le> n" "n < 16" | "16 \<le> n" "n < 24" | "24 \<le> n" by linarith
  then show ?case using 1 by cases (auto simp add: bit_simps)
qed

lemma unat_and_15: "unat ((w :: 'a::len word) AND 15) = unat w mod 16"
proof -
  have "(15 :: 'a word) = mask 4" by (simp add: mask_eq_exp_minus_1)
  then have "unat (w AND 15) = unat (take_bit 4 w)" by (simp only: take_bit_eq_mask)
  also have "\<dots> = take_bit 4 (unat w)" by (rule unsigned_take_bit_eq)
  finally show ?thesis by (simp add: take_bit_eq_mod)
qed

lemma those_map_Some:
  "(\<And>x. x \<in> set xs \<Longrightarrow> f x = Some (g x)) \<Longrightarrow> those (map f xs) = Some (map g xs)"
  by (induction xs) auto

lemma length_concat_be32 [simp]: "length (concat (map be32 xs)) = length xs * 4"
  by (induction xs) simp_all

text \<open>Reading the \<open>i\<close>-th of consecutive 32-bit fields gives the \<open>i\<close>-th value back.\<close>

lemma be32_of_concat:
  "i < length xs \<Longrightarrow> (let ys = concat (map be32 xs) in
     be32_of (ys ! (i * 4)) (ys ! (i * 4 + 1)) (ys ! (i * 4 + 2)) (ys ! (i * 4 + 3))) = xs ! i"
proof (induction xs arbitrary: i)
  case (Cons x xs)
  show ?case
  proof (cases i)
    case 0
    then show ?thesis by (simp add: be32_def nth_append codec_simps)
  next
    case (Suc k)
    then show ?thesis using Cons by (simp add: nth_append Let_def add.commute [of 3])
  qed
qed simp

lemma bit_u8_high: "\<not> bit (a :: u8) (8 + n)" "\<not> bit (a :: u8) (16 + n)" "\<not> bit (a :: u8) (24 + n)"
  using bit_imp_le_length [of a] by fastforce+

lemma be16_be16_of [codec_simps]: "be16 (be16_of a b) = [a, b]"
  unfolding be16_def be16_of_def
  by simp (intro conjI; rule bit_word_eqI; simp add: bit_simps bit_u8_high)

lemma be32_be32_of [codec_simps]: "be32 (be32_of a b c d) = [a, b, c, d]"
  unfolding be32_def be32_of_def
  by simp (intro conjI; rule bit_word_eqI; auto simp add: bit_simps bit_u8_high)

lemma take4: "k + 3 < length xs \<Longrightarrow> take 4 (drop k xs) = [xs ! k, xs ! (k + 1), xs ! (k + 2), xs ! (k + 3)]"
  by (rule nth_equalityI) (auto simp: numeral_eq_Suc nth_Cons split: nat.splits)

lemma map_sum_eq_Inr: "map_sum f g z = Inr y \<longleftrightarrow> (\<exists>x. z = Inr x \<and> y = g x)"
  by (cases z) auto

lemma take_drop_chain: "take k (drop m xs) @ drop (m + k) xs = drop m xs"
  by (metis add.commute append_take_drop_id drop_drop)

lemma be24_mask: "be24 (t AND 0xFFFFFF) = be24 t"
proof -
  have m: "(0xFFFFFF :: u32) = mask 24" by (simp add: mask_eq_exp_minus_1)
  have "(ucast (drop_bit k (t AND mask 24)) :: u8) = ucast (drop_bit k t)" if "k \<le> 16" for k
    using that by (intro bit_word_eqI) (simp add: bit_simps)
  from this [of 0] this [of 8] this [of 16] show ?thesis
    unfolding m by (simp add: be24_def)
qed

lemma small_u16: "(x :: u16) \<le> of_nat n \<Longrightarrow> n < 65536 \<Longrightarrow> \<exists>k\<le>n. x = of_nat k"
  by (rule exI [of _ "unat x"]) (simp add: word_le_nat_alt unat_of_nat)

lemma uint_u16_neg: "(d::u16) \<noteq> 0 \<Longrightarrow> uint (- d) = 65536 - uint d"
  using uint_lt2p [of d]
  by (simp add: uint_word_ariths zmod_zminus1_eq_if word_uint_eq_iff)

text \<open>Fixed-width elements written one after another are read back one by one.\<close>

lemma those_fixed_width:
  assumes "\<And>x. length (enc x) = w"
    and "\<And>pre x post. x \<in> set xs \<Longrightarrow> dec (pre @ enc x @ post) (length pre) = Some x"
  shows "those (map (\<lambda>i. dec (pre @ concat (map enc xs) @ post) (length pre + i * w)) [0..<length xs])
    = Some xs"
  using assms(2)
proof (induction xs arbitrary: pre)
  case (Cons x xs)
  have "those (map (\<lambda>i. dec ((pre @ enc x) @ concat (map enc xs) @ post) (length (pre @ enc x) + i * w))
     [0..<length xs]) = Some xs"
    by (rule Cons.IH) (use Cons.prems in auto)
  moreover have "dec (pre @ enc x @ concat (map enc xs) @ post) (length pre) = Some x"
    using Cons.prems by simp
  ultimately show ?case
    by (simp add: upt_conv_Cons map_Suc_upt [symmetric] assms(1) comp_def add.assoc add.left_commute del: upt_Suc)
qed simp

lemma bind_Some_defined: "(\<exists>z. x \<bind> (\<lambda>y. Some (g y)) = Some z) \<longleftrightarrow> (\<exists>y. x = Some y)"
  by (cases x) auto

lemma list_all_take: "list_all P xs \<Longrightarrow> list_all P (take n xs)"
  by (auto simp: list_all_iff dest: in_set_takeD)

section \<open>Ordered maps\<close>

text \<open>
  A \<^verbatim>\<open>std::map\<close> whose iteration order matters is an association list with strictly increasing
  keys. \<open>upsert k d f m\<close> is \<^verbatim>\<open>auto& v = m[k]; v = f(v)\<close>, with \<open>d\<close> the default value.
\<close>

fun upsert :: "'k::linorder \<Rightarrow> 'v \<Rightarrow> ('v \<Rightarrow> 'v) \<Rightarrow> ('k \<times> 'v) list \<Rightarrow> ('k \<times> 'v) list" where
  "upsert k d f [] = [(k, f d)]"
| "upsert k d f ((k', v) # m) =
     (if k < k' then (k, f d) # (k', v) # m
      else if k = k' then (k', f v) # m
      else (k', v) # upsert k d f m)"

definition erase_key :: "'k \<Rightarrow> ('k \<times> 'v) list \<Rightarrow> ('k \<times> 'v) list" where
  "erase_key k m = filter (\<lambda>kv. fst kv \<noteq> k) m"

definition ordered :: "('k::linorder \<times> 'v) list \<Rightarrow> bool" where
  "ordered m \<longleftrightarrow> sorted_wrt (<) (map fst m)"

lemma keys_upsert: "fst ` set (upsert k d f m) = insert k (fst ` set m)"
  by (induction k d f m rule: upsert.induct) auto

lemma ordered_simps [simp]:
  "ordered []" "ordered ((k, v) # m) \<longleftrightarrow> (\<forall>k' \<in> fst ` set m. k < k') \<and> ordered m"
  by (auto simp: ordered_def)

lemma ordered_upsert: "ordered m \<Longrightarrow> ordered (upsert k d f m)"
  by (induction k d f m rule: upsert.induct) (auto simp: keys_upsert)

lemma map_of_upsert:
  "ordered m \<Longrightarrow> map_of (upsert k d f m) k' =
     (if k' = k then Some (f (case map_of m k of None \<Rightarrow> d | Some v \<Rightarrow> v)) else map_of m k')"
proof (induction k d f m rule: upsert.induct)
  case (2 k d f k1 v m)
  have "map_of m k = None" if "k < k1"
    using that 2(2) by (force simp: map_of_eq_None_iff)
  with 2 show ?case by auto
qed simp

lemma set_upsert:
  "ordered m \<Longrightarrow> set (upsert k d f m) =
     {kv \<in> set m. fst kv \<noteq> k} \<union> {(k, f (case map_of m k of None \<Rightarrow> d | Some v \<Rightarrow> v))}"
proof (induction k d f m rule: upsert.induct)
  case (2 k d f k1 v m)
  consider "k < k1" | "k = k1" | "k1 < k" by (meson linorder_neqE)
  then show ?case
  proof cases
    case 1
    then have "k \<notin> fst ` set m" "map_of m k = None" using 2(2) by (force simp: map_of_eq_None_iff)+
    then show ?thesis using 1 by (auto simp: image_iff)
  next
    case 2
    then have "k \<notin> fst ` set m" using "2.prems" by auto
    then show ?thesis using 2 by (auto simp: image_iff)
  next
    case 3
    then show ?thesis using 2 by auto
  qed
qed simp

lemma ordered_filter: "ordered m \<Longrightarrow> ordered (filter P m)"
proof (induction m)
  case (Cons kv m)
  then show ?case by (cases kv) auto
qed simp

lemma ordered_erase: "ordered m \<Longrightarrow> ordered (erase_key k m)"
  by (simp add: erase_key_def ordered_filter)

lemma keys_erase: "fst ` set (erase_key k m) = fst ` set m - {k}"
  by (auto simp: erase_key_def)

section \<open>The interface of a wire codec\<close>

text \<open>
  What a builder and a parser promise each other: on well-formed input the builder never
  writes outside its buffer, and the parser reads back the built packet as the intended
  view. The clients' lemmas are proved once here; the RTP, RTCP and payload theories
  interpret the locale on their builders and parsers.
\<close>

locale wire_codec =
  fixes wf :: "'a \<Rightarrow> bool"
    and enc :: "'a \<Rightarrow> 'w option"
    and dec :: "'w \<Rightarrow> 'b result option"
    and view :: "'a \<Rightarrow> 'b"
  assumes enc_defined: "wf a \<Longrightarrow> enc a \<noteq> None"
    and dec_enc: "wf a \<Longrightarrow> enc a = Some raw \<Longrightarrow> dec raw = Some (Inr (view a))"
begin

lemma roundtrip: "wf a \<Longrightarrow> \<exists>raw. enc a = Some raw \<and> dec raw = Some (Inr (view a))"
  using enc_defined [of a] dec_enc [of a] by auto

lemma view_inject: "wf a \<Longrightarrow> wf b \<Longrightarrow> enc a = enc b \<Longrightarrow> view a = view b"
  using roundtrip [of a] roundtrip [of b] by auto

lemma transmit:
  "list_all wf as \<Longrightarrow>
     \<exists>raws. those (map enc as) = Some raws \<and> map dec raws = map (\<lambda>a. Some (Inr (view a))) as"
proof (induction as)
  case (Cons a as)
  then show ?case using roundtrip [of a] by auto
qed simp

end

section \<open>The interface of a payload format\<close>

text \<open>
  The packetizers of the video payload formats share one contract: a builder puts a header
  and the media bytes into the caller's output span and returns the byte count, or 0 when
  they do not fit; the depacketizer recovers header fields and media bytes.
\<close>

locale payload_format =
  fixes wf :: "'d \<Rightarrow> bytes \<Rightarrow> bool"
    and hdr :: "'d \<Rightarrow> bytes"
    and build :: "'d \<Rightarrow> bytes \<Rightarrow> bytes \<Rightarrow> (nat \<times> bytes) option"
    and parse :: "bytes \<Rightarrow> 'r option"
    and view :: "'d \<Rightarrow> bytes \<Rightarrow> 'r"
  assumes build_fits:
      "length (hdr d) + length bs \<le> length out \<Longrightarrow>
         build d bs out = Some (length (hdr d) + length bs,
           hdr d @ bs @ drop (length (hdr d) + length bs) out)"
    and build_overflow:
      "length out < length (hdr d) + length bs \<Longrightarrow>
         \<exists>out'. build d bs out = Some (0, out') \<and> length out' = length out"
    and parse_built: "wf d bs \<Longrightarrow> parse (hdr d @ bs) = Some (view d bs)"
begin

lemma build_total: "\<exists>n out'. build d bs out = Some (n, out') \<and> length out' = length out"
proof (cases "length (hdr d) + length bs \<le> length out")
  case True
  then show ?thesis using build_fits [OF True] by simp
next
  case False
  then show ?thesis using build_overflow [of out d bs] by auto
qed

lemma roundtrip:
  "wf d bs \<Longrightarrow> length (hdr d) + length bs \<le> length out \<Longrightarrow>
     \<exists>n out'. build d bs out = Some (n, out') \<and> parse (take n out') = Some (view d bs)
       \<and> drop n out' = drop n out"
  using build_fits [of d bs out] parse_built [of d bs] by simp

end

section \<open>The interface of a message codec\<close>

text \<open>
  The feedback messages are built into a caller's output span: the builder writes the whole message and
  returns its size, or writes nothing and returns 0 when it does not fit. \<open>wire out p\<close> is the message as it
  stands in the span \<open>out\<close> afterwards (a field the builder skips keeps what was there).
\<close>

locale message_codec =
  fixes wf :: "'a \<Rightarrow> bool"
    and wire :: "bytes \<Rightarrow> 'a \<Rightarrow> bytes"
    and build :: "bytes \<Rightarrow> 'a \<Rightarrow> (nat \<times> bytes) option"
    and parse :: "bytes \<Rightarrow> 'b result option"
    and view :: "'a \<Rightarrow> 'b"
  assumes build_fits: "length (wire out p) \<le> length out \<Longrightarrow>
        build out p = Some (length (wire out p), wire out p @ drop (length (wire out p)) out)"
    and build_small: "length out < length (wire out p) \<Longrightarrow> build out p = Some (0, out)"
    and parse_wire: "wf p \<Longrightarrow> length (wire out p) \<le> length out \<Longrightarrow> parse (wire out p) = Some (Inr (view p))"
begin

lemma build_total: "\<exists>n out'. build out p = Some (n, out') \<and> length out' = length out"
  using build_fits [of out p] build_small [of out p] by (cases "length (wire out p) \<le> length out") auto

lemma roundtrip:
  "wf p \<Longrightarrow> length (wire out p) \<le> length out \<Longrightarrow>
     \<exists>n out'. build out p = Some (n, out') \<and> parse (take n out') = Some (Inr (view p)) \<and> drop n out' = drop n out"
  using build_fits [of out p] parse_wire [of p out] by simp

end

section \<open>The interface of a stateful component\<close>

text \<open>
  A component with an initial state and operations that keep an invariant: the invariant
  holds after every sequence of operations, and so does everything it implies. The stateful
  components interpret the locale with their own operations and invariants.
\<close>

locale component =
  fixes init :: 's
    and step :: "'op \<Rightarrow> 's \<Rightarrow> 's"
    and inv :: "'s \<Rightarrow> bool"
  assumes init_inv: "inv init"
    and step_inv: "inv s \<Longrightarrow> inv (step op s)"
begin

lemma run_from: "inv s \<Longrightarrow> inv (fold step ops s)"
  by (induction ops arbitrary: s) (simp_all add: step_inv)

lemma run_inv: "inv (fold step ops init)"
  by (rule run_from) (rule init_inv)

lemma run_implies: "(\<And>s. inv s \<Longrightarrow> P s) \<Longrightarrow> P (fold step ops init)"
  using run_inv by blast

end

section \<open>The interface of a refinement\<close>

text \<open>
  A component that implements an abstract machine: every operation commutes with the
  abstraction function on states that satisfy the invariant, and so does every run.
\<close>

locale refinement = component init step inv
  for init :: 's and step :: "'op \<Rightarrow> 's \<Rightarrow> 's" and inv :: "'s \<Rightarrow> bool" +
  fixes abs :: "'s \<Rightarrow> 'a"
    and spec :: "'op \<Rightarrow> 'a \<Rightarrow> 'a"
  assumes simulation: "inv s \<Longrightarrow> abs (step op s) = spec op (abs s)"
begin

lemma run_abs_from: "inv s \<Longrightarrow> abs (fold step ops s) = fold spec ops (abs s)"
  by (induction ops arbitrary: s) (simp_all add: simulation step_inv)

lemma run_abs: "abs (fold step ops init) = fold spec ops (abs init)"
  by (rule run_abs_from) (rule init_inv)

end

section \<open>The interface of a source that is drained\<close>

text \<open>
  A source hands out items until it has none ready: every item takes away some of the work that is left, so
  a loop that pops until there is nothing ends, and what holds when the source is empty and is kept
  by each item holds for it.
\<close>

locale item_source =
  fixes pop :: "'s \<Rightarrow> 'f option \<times> 's"
    and inv :: "'s \<Rightarrow> bool"
    and work :: "'s \<Rightarrow> nat"
  assumes pop_item: "inv s \<Longrightarrow> pop s = (Some f, s') \<Longrightarrow> inv s' \<and> work s' < work s"
    and pop_empty: "inv s \<Longrightarrow> pop s = (None, s') \<Longrightarrow> inv s'"
begin

lemma drain_induct [consumes 1, case_names empty item]:
  assumes "inv s" "\<And>s s'. inv s \<Longrightarrow> pop s = (None, s') \<Longrightarrow> P s"
    and "\<And>s f s'. inv s \<Longrightarrow> pop s = (Some f, s') \<Longrightarrow> inv s' \<Longrightarrow> P s' \<Longrightarrow> P s"
  shows "P s"
  using assms(1)
proof (induction "work s" arbitrary: s rule: less_induct)
  case less
  show ?case
  proof (cases "pop s")
    case (Pair f s')
    then show ?thesis
      using less assms(2) [of s s'] assms(3) [of s _ s'] pop_item [of s _ s'] by (cases f) auto
  qed
qed

end

end
