(* ===== verification/Rtp_Parser.thy ===== *)
theory Rtp_Parser
  imports Prelude "HOL-Library.AList"
begin

text \<open>
  The RTP half of \<^verbatim>\<open>src/modules/rtp/src/parser.cpp\<close>: the packet view, the registry of
  declared extension URIs, the header-extension walkers, \<^verbatim>\<open>find_extension_element\<close>,
  \<^verbatim>\<open>Parser::parse\<close> and the 16-bit sequence arithmetic. Spans are byte lists; an
  access outside a span is \<open>None\<close> (see \<open>Prelude\<close>).
\<close>

section \<open>Data\<close>

record extension =
  ext_type :: u16
  ext_data :: bytes

record packet_view =
  pv_raw :: bytes
  pv_payload :: bytes
  pv_ssrc :: u32
  pv_seq :: u16
  pv_timestamp :: u32
  pv_payload_type :: u8
  pv_marker :: bool
  pv_csrc :: "u32 list"
  pv_extension :: "extension option"
  pv_extmap_uri :: "u16 \<rightharpoonup> string"

text \<open>\<^verbatim>\<open>Parser::Impl::extension_uris_\<close>: the hash map from extension id to URI.\<close>

record parser =
  extension_uris :: "(u16 \<times> string) list"

definition kVersion :: u8 where "kVersion = 2"
definition kExtProfileOneByte :: u16 where "kExtProfileOneByte = 0xBEDE"
definition kExtProfileTwoByte :: u16 where "kExtProfileTwoByte = 0x1000"
definition kExtProfileOneByteMaxId :: u16 where "kExtProfileOneByteMaxId = 14"
definition kFixedHeaderSize :: nat where "kFixedHeaderSize = 12"

lemmas rtp_consts = kVersion_def kExtProfileOneByte_def kExtProfileTwoByte_def
  kExtProfileOneByteMaxId_def kFixedHeaderSize_def

section \<open>The URI registry\<close>

definition new_parser :: parser where
  "new_parser = \<lparr>extension_uris = []\<rparr>"

definition declare_extension_uri :: "u16 \<Rightarrow> string \<Rightarrow> parser \<Rightarrow> parser" where
  "declare_extension_uri type uri p =
     p\<lparr>extension_uris := AList.update type uri (extension_uris p)\<rparr>"

definition clear_extension_uris :: "parser \<Rightarrow> parser" where
  "clear_extension_uris p = p\<lparr>extension_uris := []\<rparr>"

definition declared_extension_uri_count :: "parser \<Rightarrow> nat" where
  "declared_extension_uri_count p = length (extension_uris p)"

definition declared_extension_uri :: "u16 \<Rightarrow> parser \<Rightarrow> string option" where
  "declared_extension_uri type p = map_of (extension_uris p) type"

section \<open>Looking an extension element up\<close>

function find_one_byte :: "bytes \<Rightarrow> u16 \<Rightarrow> nat \<Rightarrow> bytes result option" where
  "find_one_byte blk xid off =
     (if off < length blk then do {
        hdr \<leftarrow> rd blk off;
        let elem_id = (ucast (drop_bit 4 hdr) :: u16);
        let len = unat (hdr AND 0x0F) + 1;
        if off + 1 + len > length blk then Some (Inl ProtocolError)
        else if elem_id = xid \<and> xid \<noteq> 0 then map_option Inr (subspan blk (off + 1) len)
        else find_one_byte blk xid (off + (1 + len))
      } else Some (Inl NotFound))"
  by pat_completeness auto
termination by (relation "measure (\<lambda>(blk, xid, off). length blk - off)") auto

function find_two_byte :: "bytes \<Rightarrow> u16 \<Rightarrow> nat \<Rightarrow> bytes result option" where
  "find_two_byte blk xid off =
     (if off + 1 < length blk then do {
        eid \<leftarrow> rd blk off;
        l \<leftarrow> rd blk (off + 1);
        let elem_id = (ucast eid :: u16);
        let len = unat l;
        if off + 2 + len > length blk then Some (Inl ProtocolError)
        else if elem_id = xid \<and> xid \<noteq> 0 then map_option Inr (subspan blk (off + 2) len)
        else find_two_byte blk xid (off + (2 + len))
      } else Some (Inl NotFound))"
  by pat_completeness auto
termination by (relation "measure (\<lambda>(blk, xid, off). length blk - off)") auto

definition find_extension_element :: "bytes \<Rightarrow> u16 \<Rightarrow> u16 \<Rightarrow> bytes result option" where
  "find_extension_element ext_block profile xid =
     (if ext_block = [] then Some (Inl InvalidArgument)
      else if profile = kExtProfileOneByte then find_one_byte ext_block xid 0
      else if profile = kExtProfileTwoByte then find_two_byte ext_block xid 0
      else Some (Inl ProtocolError))"

section \<open>Walking the extension block during a parse\<close>

text \<open>\<^verbatim>\<open>if (auto it = extension_uris_.find(id); ...) uri_out[id] = it->second;\<close>\<close>

definition record_uri :: "parser \<Rightarrow> u8 \<Rightarrow> (u16 \<rightharpoonup> string) \<Rightarrow> (u16 \<rightharpoonup> string)" where
  "record_uri p xid out =
     (case map_of (extension_uris p) (ucast xid) of
        None \<Rightarrow> out | Some uri \<Rightarrow> out(ucast xid \<mapsto> uri))"

function walk_one_byte ::
  "parser \<Rightarrow> bytes \<Rightarrow> nat \<Rightarrow> (u16 \<rightharpoonup> string) \<Rightarrow> (u16 \<rightharpoonup> string) option" where
  "walk_one_byte p block i out =
     (if i + 1 \<le> length block then do {
        hdr \<leftarrow> rd block i;
        if hdr = 0 then Some out
        else do {
          let xid = drop_bit 4 hdr AND 0x0F;
          let len = unat (hdr AND 0x0F);
          if xid < 1 \<or> xid > 14 then Some out
          else if i + 1 + len > length block then Some out
          else walk_one_byte p block (i + 1 + len) (record_uri p xid out)
        }
      } else Some out)"
  by pat_completeness auto
termination by (relation "measure (\<lambda>(p, block, i, out). length block - i)") auto

function walk_two_byte ::
  "parser \<Rightarrow> bytes \<Rightarrow> nat \<Rightarrow> (u16 \<rightharpoonup> string) \<Rightarrow> (u16 \<rightharpoonup> string) option" where
  "walk_two_byte p block i out =
     (if i + 2 \<le> length block then do {
        xid \<leftarrow> rd block (i + 1);
        if xid = 0 then Some out
        else do {
          l \<leftarrow> rd block (i + 2);
          let len = unat l;
          if i + 3 + len > length block then Some out
          else walk_two_byte p block (i + (3 + len)) (record_uri p xid out)
        }
      } else Some out)"
  by pat_completeness auto
termination by (relation "measure (\<lambda>(p, block, i, out). length block - i)") auto

declare find_one_byte.simps [simp del] find_two_byte.simps [simp del]
  walk_one_byte.simps [simp del] walk_two_byte.simps [simp del]

section \<open>Parser::parse\<close>

text \<open>
  The \<^verbatim>\<open>has_extension\<close> block: the extension, the bytes it takes and the URIs found.
\<close>

definition parse_extension ::
  "parser \<Rightarrow> bytes \<Rightarrow> nat \<Rightarrow> (extension \<times> nat \<times> (u16 \<rightharpoonup> string)) result option" where
  "parse_extension p raw header_size =
     (if length raw < header_size + 4 then Some (Inl ProtocolError)
      else do {
        ext_profile \<leftarrow> rd_be16 raw header_size;
        ext_length \<leftarrow> rd_be16 raw (header_size + 2);
        let ext_total = 4 + unat ext_length * 4;
        if length raw < header_size + ext_total then Some (Inl ProtocolError)
        else do {
          ext \<leftarrow> subspan raw (header_size + 4) (unat ext_length * 4);
          uris \<leftarrow>
            (if extension_uris p \<noteq> [] then
               (if ext_profile = kExtProfileOneByte then walk_one_byte p ext 0 Map.empty
                else if ext_profile = kExtProfileTwoByte then walk_two_byte p ext 0 Map.empty
                else Some Map.empty)
             else Some Map.empty);
          Some (Inr (\<lparr>ext_type = ext_profile, ext_data = ext\<rparr>, ext_total, uris))
        }
      })"

definition parse_opt_extension ::
  "parser \<Rightarrow> bytes \<Rightarrow> bool \<Rightarrow> nat
     \<Rightarrow> (extension option \<times> nat \<times> (u16 \<rightharpoonup> string)) result option" where
  "parse_opt_extension p raw has_extension header_size =
     (if has_extension
      then map_option (map_sum id (\<lambda>(e, n, u). (Some e, n, u))) (parse_extension p raw header_size)
      else Some (Inr (None, 0, Map.empty)))"

definition read_csrcs :: "bytes \<Rightarrow> nat \<Rightarrow> u32 list option" where
  "read_csrcs raw csrc_count =
     those (map (\<lambda>i. rd_be32 raw (kFixedHeaderSize + i * 4)) [0..<csrc_count])"

text \<open>The padding block: how many bytes to strip from the end of the packet.\<close>

definition padding_trailer :: "bytes \<Rightarrow> bool \<Rightarrow> nat \<Rightarrow> nat result option" where
  "padding_trailer raw has_padding payload_start =
     (if has_padding \<and> length raw > payload_start then do {
        n \<leftarrow> rd raw (length raw - 1);
        let padding_count = unat n;
        if padding_count = 0 \<or> padding_count + 1 > length raw - payload_start
        then Some (Inl ProtocolError)
        else Some (Inr (padding_count + 1))
      } else Some (Inr 0))"

definition parse :: "parser \<Rightarrow> bytes \<Rightarrow> packet_view result option" where
  "parse p raw =
     (if length raw < 12 then Some (Inl ProtocolError)
      else do {
        b0 \<leftarrow> rd raw 0;
        let version = drop_bit 6 b0 AND 0x03;
        let has_padding = bit b0 5;
        let has_extension = bit b0 4;
        let csrc_count = unat (b0 AND 0x0F);
        if version \<noteq> kVersion then Some (Inl ProtocolError)
        else do {
          b1 \<leftarrow> rd raw 1;
          seq \<leftarrow> rd_be16 raw 2;
          timestamp \<leftarrow> rd_be32 raw 4;
          ssrc \<leftarrow> rd_be32 raw 8;
          let header_size = kFixedHeaderSize + csrc_count * 4;
          if length raw < header_size then Some (Inl ProtocolError)
          else do {
            ext \<leftarrow> parse_opt_extension p raw has_extension header_size;
            case ext of
              Inl err \<Rightarrow> Some (Inl err)
            | Inr (extension, ext_size, uris) \<Rightarrow> do {
                csrc \<leftarrow> read_csrcs raw csrc_count;
                let payload_start = header_size + ext_size;
                padding \<leftarrow> padding_trailer raw has_padding payload_start;
                case padding of
                  Inl err \<Rightarrow> Some (Inl err)
                | Inr trailer \<Rightarrow> do {
                    payload \<leftarrow> subspan raw payload_start (length raw - payload_start - trailer);
                    Some (Inr \<lparr>pv_raw = raw, pv_payload = payload, pv_ssrc = ssrc, pv_seq = seq,
                      pv_timestamp = timestamp, pv_payload_type = b1 AND 0x7F,
                      pv_marker = bit b1 7, pv_csrc = csrc, pv_extension = extension,
                      pv_extmap_uri = uris\<rparr>)
                  }
              }
          }
        }
      })"

section \<open>The abs-send-time element\<close>

definition parse_abs_send_time_extension :: "bytes \<Rightarrow> u32 result option" where
  "parse_abs_send_time_extension d =
     (if length d = 3 then map_option Inr (rd_be24 d 0)
      else if length d = 4 then do {
        hdr \<leftarrow> rd d 0;
        let xid = drop_bit 4 hdr AND 0x0F;
        let len = hdr AND 0x0F;
        if xid \<noteq> 1 \<or> len \<noteq> 2 then Some (Inl ProtocolError)
        else map_option Inr (rd_be24 d 1)
      } else Some (Inl ProtocolError))"

text \<open>The output span is passed in and returned updated, with the number of bytes written.\<close>

definition build_abs_send_time_extension :: "u32 \<Rightarrow> bytes \<Rightarrow> (nat \<times> bytes) result option" where
  "build_abs_send_time_extension t out =
     (if length out < 3 then Some (Inl InvalidArgument)
      else map_option (\<lambda>out'. Inr (3, out'))
        (wr out 0 [ucast (drop_bit 16 t), ucast (drop_bit 8 t), ucast t]))"

section \<open>Sequence arithmetic\<close>

definition seq_distance :: "u16 \<Rightarrow> u16 \<Rightarrow> u16 option" where
  "seq_distance a b =
     (if a \<ge> b then Some (a - b)
      else Some (ucast (65536 - (ucast b :: u32) + ucast a)))"

definition seq_is_newer :: "u16 \<Rightarrow> u16 \<Rightarrow> bool" where
  "seq_is_newer seq prev = (let diff = seq - prev in diff \<noteq> 0 \<and> diff < 32768)"

section \<open>Memory safety of the readers\<close>

lemma find_one_byte_safe: "find_one_byte blk xid off \<noteq> None"
proof (induction blk xid off rule: find_one_byte.induct)
  case (1 blk xid off)
  then show ?case
    by (subst find_one_byte.simps) (auto simp: wire_simps Let_def)
qed

lemma find_two_byte_safe: "find_two_byte blk xid off \<noteq> None"
proof (induction blk xid off rule: find_two_byte.induct)
  case (1 blk xid off)
  then show ?case
    by (subst find_two_byte.simps) (auto simp: wire_simps Let_def)
qed

lemma walk_one_byte_safe: "walk_one_byte p block i out \<noteq> None"
proof (induction p block i out rule: walk_one_byte.induct)
  case (1 p block i out)
  then show ?case
    by (subst walk_one_byte.simps) (auto simp: wire_simps Let_def)
qed

text \<open>The \<open>i\<close>-th CSRC word of a packet.\<close>

definition csrc_at :: "bytes \<Rightarrow> nat \<Rightarrow> u32" where
  "csrc_at raw i = (let o' = 12 + i * 4 in be32_of (raw ! o') (raw ! (o' + 1)) (raw ! (o' + 2)) (raw ! (o' + 3)))"

lemma read_csrcs_Some:
  "12 + n * 4 \<le> length raw \<Longrightarrow> read_csrcs raw n = Some (map (csrc_at raw) [0..<n])"
  unfolding read_csrcs_def
  by (rule those_map_Some) (simp add: wire_simps csrc_at_def Let_def kFixedHeaderSize_def)


lemma parse_extension_safe:
  assumes "extension_uris p = [] \<or> rd_be16 raw h \<noteq> Some kExtProfileTwoByte"
  shows "parse_extension p raw h \<noteq> None"
proof
  assume "parse_extension p raw h = None"
  with assms show False
    using walk_one_byte_safe [of p]
    by (auto simp: parse_extension_def Let_def wire_simps Option.bind_eq_None_conv split: if_splits
      simp del: not_None_eq)
qed

lemma padding_trailer_safe: "padding_trailer raw hp ps \<noteq> None"
  by (auto simp: padding_trailer_def wire_simps Let_def)

lemma padding_trailer_le: "padding_trailer raw hp ps = Some (Inr t) \<Longrightarrow> ps \<le> length raw \<Longrightarrow> ps + t \<le> length raw"
  by (auto simp: padding_trailer_def wire_simps Let_def split: if_splits)

lemma parse_extension_le:
  "parse_extension p raw h = Some (Inr (e, n, u)) \<Longrightarrow> h + n \<le> length raw"
  by (auto simp: parse_extension_def wire_simps Let_def bind_eq_Some_conv split: if_splits)



lemma parse_opt_extension_le:
  "parse_opt_extension p raw b h = Some (Inr (e, n, u)) \<Longrightarrow> h \<le> length raw \<Longrightarrow> h + n \<le> length raw"
  using parse_extension_le [of p raw h]
  by (auto simp: parse_opt_extension_def map_option_case map_sum_def split: if_splits option.splits sum.splits)

lemma parse_eq:
  assumes "12 \<le> length raw"
  defines "b0 \<equiv> raw ! 0" and "b1 \<equiv> raw ! 1" and "n \<equiv> unat (raw ! 0 AND 0x0F)"
  shows "parse p raw =
    (if drop_bit 6 b0 AND 3 \<noteq> 2 \<or> length raw < 12 + n * 4 then Some (Inl ProtocolError)
     else (case parse_opt_extension p raw (bit b0 4) (12 + n * 4) of
       None \<Rightarrow> None
     | Some (Inl e) \<Rightarrow> Some (Inl e)
     | Some (Inr (ext, esz, uris)) \<Rightarrow>
         (case the (padding_trailer raw (bit b0 5) (12 + n * 4 + esz)) of
            Inl e \<Rightarrow> Some (Inl e)
          | Inr t \<Rightarrow> Some (Inr \<lparr>pv_raw = raw,
              pv_payload = take (length raw - (12 + n * 4 + esz) - t) (drop (12 + n * 4 + esz) raw),
              pv_ssrc = be32_of (raw ! 8) (raw ! 9) (raw ! 10) (raw ! 11),
              pv_seq = be16_of (raw ! 2) (raw ! 3),
              pv_timestamp = be32_of (raw ! 4) (raw ! 5) (raw ! 6) (raw ! 7),
              pv_payload_type = b1 AND 0x7F, pv_marker = bit b1 7,
              pv_csrc = map (csrc_at raw) [0..<n], pv_extension = ext, pv_extmap_uri = uris\<rparr>))))"
proof -
  have ne: "raw \<noteq> []" using assms(1) by auto
  consider (version) "drop_bit 6 b0 AND 3 \<noteq> 2"
    | (short) "drop_bit 6 b0 AND 3 = 2" "length raw < 12 + n * 4"
    | (ok) "drop_bit 6 b0 AND 3 = 2" "12 + n * 4 \<le> length raw" by linarith
  then show ?thesis
  proof cases
    case version
    with assms(1) ne show ?thesis
      by (simp add: parse_def Let_def wire_simps rtp_consts b0_def n_def)
  next
    case short
    with assms(1) ne show ?thesis
      by (simp add: parse_def Let_def wire_simps rtp_consts b0_def n_def)
  next
    case False: ok
  show ?thesis
  proof (cases "parse_opt_extension p raw (bit b0 4) (12 + n * 4)")
    case None
    with False assms(1) ne show ?thesis
      by (simp add: parse_def Let_def wire_simps rtp_consts b0_def n_def)
  next
    case (Some ext)
    show ?thesis
    proof (cases ext)
      case (Inl e)
      with Some False assms(1) ne show ?thesis
        by (simp add: parse_def Let_def wire_simps rtp_consts b0_def n_def)
    next
      case (Inr r)
      obtain e esz u where r: "r = (e, esz, u)" by (cases r)
      have le: "12 + n * 4 + esz \<le> length raw"
        using parse_opt_extension_le Some Inr r False by force
      obtain pt where pt: "padding_trailer raw (bit b0 5) (12 + n * 4 + esz) = Some pt"
        using padding_trailer_safe by blast
      show ?thesis
      proof (cases pt)
        case (Inl e)
        with Some False Inr r pt assms(1) ne show ?thesis
          by (simp add: parse_def Let_def wire_simps rtp_consts b0_def n_def read_csrcs_Some)
      next
        case (Inr t)
        with padding_trailer_le pt le have "12 + n * 4 + esz + t \<le> length raw" by blast
        with Inr Some False \<open>ext = Inr r\<close> r pt assms(1) ne show ?thesis
          by (simp add: parse_def Let_def wire_simps rtp_consts b0_def b1_def n_def read_csrcs_Some)
      qed
    qed
  qed
  qed
qed

section \<open>What an accepted packet is made of\<close>

lemma csrc_at_bytes:
  "12 + n * 4 \<le> length raw \<Longrightarrow> concat (map (be32 \<circ> csrc_at raw) [0..<n]) = take (n * 4) (drop 12 raw)"
proof (induction n)
  case (Suc n)
  have "take (Suc n * 4) (drop 12 raw) = take (n * 4) (drop 12 raw) @ take 4 (drop (12 + n * 4) raw)"
    using take_add [of "n * 4" 4 "drop 12 raw"] by (simp add: add.commute)
  with Suc show ?case
    by (simp add: take4 csrc_at_def Let_def be32_be32_of)
qed simp

lemma header_bytes_of:
  "12 \<le> length raw \<Longrightarrow> take 12 raw = [raw ! 0, raw ! 1, raw ! 2, raw ! 3, raw ! 4, raw ! 5, raw ! 6,
     raw ! 7, raw ! 8, raw ! 9, raw ! 10, raw ! 11]"
  by (rule nth_equalityI) (auto simp: numeral_eq_Suc nth_Cons split: nat.splits)

text \<open>An accepted extension is exactly the bytes that encode it.\<close>

lemma parse_extension_bytes:
  assumes "parse_extension p raw h = Some (Inr (e, n, u))"
  shows "h + n \<le> length raw \<and> take n (drop h raw) = be16 (ext_type e) @ be16 (of_nat (length (ext_data e) div 4)) @ ext_data e
     \<and> n = 4 + length (ext_data e)"
proof -
  from assms have l: "h + 4 \<le> length raw"
    by (simp add: parse_extension_def split: if_splits)
  define w where "w = unat (be16_of (raw ! (h + 2)) (raw ! (h + 3)))"
  from assms l have *: "h + 4 + w * 4 \<le> length raw" "n = 4 + w * 4"
     "e = \<lparr>ext_type = be16_of (raw ! h) (raw ! (h + 1)), ext_data = take (w * 4) (drop (h + 4) raw)\<rparr>"
    by (auto simp: parse_extension_def wire_simps Let_def w_def bind_eq_Some_conv subspan_def numeral_eq_Suc split: if_splits)
  have "take n (drop h raw) = take 4 (drop h raw) @ take (w * 4) (drop (h + 4) raw)"
    using *(2) take_add [of 4 "w*4" "drop h raw"] by (simp add: add.commute)
  moreover have "be16 (word_of_nat w) = [raw ! (h+2), raw ! (h+3)]"
    by (simp add: w_def codec_simps)
  ultimately show ?thesis using * l
    by (simp add: take4 codec_simps)
qed

lemma parse_opt_extension_bytes:
  assumes "parse_opt_extension p raw b h = Some (Inr (eo, n, u))" "h \<le> length raw"
  shows "h + n \<le> length raw \<and> take n (drop h raw) = (case eo of None \<Rightarrow> []
     | Some e \<Rightarrow> be16 (ext_type e) @ be16 (of_nat (length (ext_data e) div 4)) @ ext_data e)"
proof (cases b)
  case True
  with assms(1) obtain e where "parse_extension p raw h = Some (Inr (e, n, u))" "eo = Some e"
    by (auto simp: parse_opt_extension_def map_sum_eq_Inr)
  then show ?thesis using parse_extension_bytes [of p raw h e n u] by auto
next
  case False
  then show ?thesis using assms by (simp add: parse_opt_extension_def)
qed

lemma padding_trailer_cases:
  assumes "padding_trailer raw hp ps = Some (Inr t)" "ps \<le> length raw"
  shows "ps + t \<le> length raw \<and> (if hp \<and> ps < length raw then t = unat (last raw) + 1 \<and> last raw \<noteq> 0 else t = 0)"
  using assms by (cases "raw = []")
   (auto simp: padding_trailer_def wire_simps Let_def last_conv_nth unat_eq_0 split: if_splits)

lemma parse_opt_extension_flag: "parse_opt_extension p raw b h = Some (Inr (eo, n, u)) \<Longrightarrow> b \<longleftrightarrow> eo \<noteq> None"
  by (auto simp: parse_opt_extension_def map_sum_eq_Inr split: if_splits)

lemma marker_byte: "(if bit b 7 then 0x80 else 0) OR (b AND 0x7F) = b" for b :: u8
proof (rule bit_word_eqI)
  fix n assume "n < LENGTH(8)"
  then have "n \<in> {0, 1, 2, 3, 4, 5, 6, 7}" by auto
  moreover have "(0x7F :: u8) = mask 7" "(0x80 :: u8) = push_bit 7 1" by (simp_all add: mask_eq_exp_minus_1 push_bit_eq_mult)
  ultimately show "bit ((if bit b 7 then 0x80 else 0) OR (b AND 0x7F)) n = bit b n" by (auto simp: bit_simps)
qed

lemma seven_bits: "b AND 0x7F < 0x80" for b :: u8
proof -
  have "b AND 0x7F = take_bit 7 b" by (simp add: take_bit_eq_mask mask_eq_exp_minus_1)
  moreover have "uint (take_bit 7 b) < 2 ^ 7" unfolding unsigned_take_bit_eq by (rule take_bit_int_less_exp)
  ultimately show ?thesis by (simp add: word_less_def)
qed

lemma version_byte: "drop_bit 6 b AND 3 = drop_bit 6 b" for b :: u8
proof (rule bit_word_eqI)
  fix n assume "n < LENGTH(8)"
  have m: "(3 :: u8) = mask 2" by (simp add: mask_eq_exp_minus_1)
  show "bit (drop_bit 6 b AND 3) n = bit (drop_bit 6 b) n" unfolding m using bit_imp_le_length [of b "6 + n"] by (auto simp: bit_simps)
qed

lemma seq_distance_eq: "seq_distance a b = Some (a - b)"
proof -
  have "(65536 - y + x) mod 4294967296 mod 65536 = (x - y) mod 65536" for x y :: int
  proof -
    have "(65536 - y + x) mod 4294967296 mod 65536 = (65536 - y + x) mod 65536"
      by (rule mod_mod_cancel) simp
    then show ?thesis using mod_add_self2 [of "x - y" 65536] by (simp add: algebra_simps)
  qed
  then show ?thesis
    by (simp add: seq_distance_def word_uint_eq_iff unsigned_ucast_eq uint_word_ariths take_bit_eq_mod mod_simps)
qed

section \<open>Properties\<close>

text \<open>
  C13: parsing never reads outside the packet, whatever the bytes, as long as no extension
  URI is declared or the header extension does not carry the two-byte profile: for every
  input \<open>parse\<close> returns a view or an error code.
\<close>

theorem rtp_parse_memory_safe:
  assumes "extension_uris p = [] \<or>
    rd_be16 raw (kFixedHeaderSize + unat (raw ! 0 AND 0x0F) * 4) \<noteq> Some kExtProfileTwoByte"
  shows "parse p raw \<noteq> None"
proof (cases "length raw < 12")
  case True
  then show ?thesis by (simp add: parse_def)
next
  case False
  with parse_extension_safe [OF assms] show ?thesis
    by (auto simp: parse_eq parse_opt_extension_def kFixedHeaderSize_def
        split: sum.splits option.splits prod.splits)
qed

theorem rtp_parse_memory_safe_witness:
  "parse new_parser [0x90, 0, 0, 1, 0, 0, 0, 0, 0, 0, 0, 0, 0x10, 0, 0, 1, 0, 1, 3, 9] \<noteq> None"
  by (rule rtp_parse_memory_safe) (simp add: new_parser_def)

text \<open>
  C14: soundness of \<open>parse\<close>. An accepted packet is, byte for byte, the version-2 header of the reported
  fields: the second byte holds the reported marker and payload type, the extension bit is set exactly when an extension is
  reported, the CSRC count is the number of reported CSRCs; then come the reported CSRC list, extension
  and payload. What remains at the end is padding: there is some exactly when the padding bit is set and bytes follow the
  header and the extension, and its last byte, which is not zero, counts the padding bytes before it (RFC 3550 counts that byte too).
\<close>

theorem rtp_parse_structure:
  assumes "parse p raw = Some (Inr pv)"
  shows "\<exists>b0 pad.
    raw = [b0, (if pv_marker pv then 0x80 else 0) OR pv_payload_type pv] @ be16 (pv_seq pv) @ be32 (pv_timestamp pv) @ be32 (pv_ssrc pv)
        @ concat (map be32 (pv_csrc pv))
        @ (case pv_extension pv of None \<Rightarrow> []
           | Some e \<Rightarrow> be16 (ext_type e) @ be16 (of_nat (length (ext_data e) div 4)) @ ext_data e)
        @ pv_payload pv @ pad
    \<and> drop_bit 6 b0 = kVersion \<and> pv_payload_type pv < 0x80
    \<and> (bit b0 4 \<longleftrightarrow> pv_extension pv \<noteq> None)
    \<and> unat (b0 AND 0x0F) = length (pv_csrc pv)
    \<and> (if bit b0 5 \<and> pv_payload pv @ pad \<noteq> [] then pad \<noteq> [] \<and> length pad = unat (last pad) + 1 \<and> last pad \<noteq> 0 else pad = [])"
proof -
  from assms have l: "12 \<le> length raw" by (auto simp: parse_def split: if_splits)
  define n where "n = unat (raw ! 0 AND 0x0F)"
  from assms l obtain eo esz u t where
    v: "drop_bit 6 (raw ! 0) AND 3 = 2" "12 + n * 4 \<le> length raw"
    and e: "parse_opt_extension p raw (bit (raw ! 0) 4) (12 + n * 4) = Some (Inr (eo, esz, u))"
    and t: "the (padding_trailer raw (bit (raw ! 0) 5) (12 + n * 4 + esz)) = Inr t"
    and pv: "pv = \<lparr>pv_raw = raw,
              pv_payload = take (length raw - (12 + n * 4 + esz) - t) (drop (12 + n * 4 + esz) raw),
              pv_ssrc = be32_of (raw ! 8) (raw ! 9) (raw ! 10) (raw ! 11),
              pv_seq = be16_of (raw ! 2) (raw ! 3),
              pv_timestamp = be32_of (raw ! 4) (raw ! 5) (raw ! 6) (raw ! 7),
              pv_payload_type = raw ! 1 AND 0x7F, pv_marker = bit (raw ! 1) 7,
              pv_csrc = map (csrc_at raw) [0..<n], pv_extension = eo, pv_extmap_uri = u\<rparr>"
    by (auto simp: parse_eq n_def split: if_splits option.splits sum.splits)
  define st where "st = 12 + n * 4 + esz"
  have t': "padding_trailer raw (bit (raw ! 0) 5) st = Some (Inr t)"
    using t padding_trailer_safe [of raw "bit (raw ! 0) 5" st] by (auto simp: st_def)
  note ext = parse_opt_extension_bytes [OF e v(2)]
  then have pad: "st + t \<le> length raw" "if bit (raw ! 0) 5 \<and> st < length raw then t = unat (last raw) + 1 \<and> last raw \<noteq> 0 else t = 0"
    using padding_trailer_cases [OF t'] by (auto simp: st_def)
  define pad' where "pad' = drop (length raw - t) raw"
  have pay: "drop st raw = pv_payload pv @ pad'"
    using take_drop_chain [of "length raw - st - t" st raw] pad(1) by (simp add: pad'_def pv st_def)
  have "raw = take 12 raw @ take (n * 4) (drop 12 raw) @ take esz (drop (12 + n * 4) raw) @ drop st raw"
    using take_drop_chain [of 12 0 raw] take_drop_chain [of "n * 4" 12 raw]
      take_drop_chain [of esz "12 + n * 4" raw] by (simp add: st_def)
  also have "take (n * 4) (drop 12 raw) = concat (map be32 (pv_csrc pv))"
    using csrc_at_bytes [OF v(2)] by (simp add: pv)
  also have "take 12 raw = [raw ! 0, raw ! 1] @ be16 (pv_seq pv) @ be32 (pv_timestamp pv) @ be32 (pv_ssrc pv)"
    by (simp add: header_bytes_of [OF l] pv codec_simps)
  also have "raw ! 1 = (if pv_marker pv then 0x80 else 0) OR pv_payload_type pv" by (simp add: pv marker_byte)
  also have "take esz (drop (12 + n * 4) raw) = (case pv_extension pv of None \<Rightarrow> []
      | Some e \<Rightarrow> be16 (ext_type e) @ be16 (of_nat (length (ext_data e) div 4)) @ ext_data e)" using ext by (simp add: pv)
  finally have "raw = [raw ! 0, (if pv_marker pv then 0x80 else 0) OR pv_payload_type pv] @ be16 (pv_seq pv) @ be32 (pv_timestamp pv) @ be32 (pv_ssrc pv)
    @ concat (map be32 (pv_csrc pv)) @ (case pv_extension pv of None \<Rightarrow> []
      | Some e \<Rightarrow> be16 (ext_type e) @ be16 (of_nat (length (ext_data e) div 4)) @ ext_data e) @ pv_payload pv @ pad'"
    unfolding pay by (simp only: append_assoc)
  note bytes = this
  have more: "st < length raw \<longleftrightarrow> pv_payload pv @ pad' \<noteq> []" unfolding pay [symmetric] by (simp add: not_le)
  have len: "length pad' = t" "pad' \<noteq> [] \<longrightarrow> last pad' = last raw" using pad(1) by (simp_all add: pad'_def)
  have padding: "if bit (raw ! 0) 5 \<and> pv_payload pv @ pad' \<noteq> []
      then pad' \<noteq> [] \<and> length pad' = unat (last pad') + 1 \<and> last pad' \<noteq> 0 else pad' = []"
  proof (cases "bit (raw ! 0) 5 \<and> st < length raw")
    case True
    with pad(2) have t1: "t = unat (last raw) + 1" "last raw \<noteq> 0" by simp_all
    with len(1) have "pad' \<noteq> []" by auto
    then show ?thesis using True len t1 more by simp
  next
    case False
    with pad(2) have "t = 0" by (simp only: if_False)
    with len(1) have "pad' = []" by simp
    then show ?thesis using False more by simp
  qed
  have flags: "drop_bit 6 (raw ! 0) = kVersion" using v(1) by (simp add: version_byte kVersion_def)
  have pt: "pv_payload_type pv < 0x80" using seven_bits by (simp add: pv)
  have x: "bit (raw ! 0) 4 \<longleftrightarrow> pv_extension pv \<noteq> None" using parse_opt_extension_flag [OF e] by (simp add: pv)
  have cc: "unat (raw ! 0 AND 0x0F) = length (pv_csrc pv)" by (simp add: pv n_def)
  show ?thesis
    by (intro exI [of _ "raw ! 0"] exI [of _ pad'] conjI) (rule bytes flags pt x cc padding)+
qed

theorem rtp_parse_structure_witness:
  "\<exists>pv b0 pad. parse new_parser [0xA0, 96, 0, 7, 0, 0, 0, 9, 0, 0, 0, 5, 42, 0, 1] = Some (Inr pv)
     \<and> pv_payload_type pv < 0x80 \<and> drop_bit 6 b0 = kVersion
     \<and> (if bit b0 5 \<and> pv_payload pv @ pad \<noteq> [] then pad \<noteq> [] \<and> length pad = unat (last pad) + 1 \<and> last pad \<noteq> 0 else pad = [])"
proof -
  let ?raw = "[0xA0, 96, 0, 7, 0, 0, 0, 9, 0, 0, 0, 5, 42, 0, 1] :: bytes"
  have "\<exists>pv. parse new_parser ?raw = Some (Inr pv)"
    by (simp add: parse_eq parse_opt_extension_def padding_trailer_def rd_def)
  then obtain pv where pv: "parse new_parser ?raw = Some (Inr pv)" ..
  show ?thesis using rtp_parse_structure [OF pv] by (elim exE conjE) (intro exI conjI; (rule pv | assumption))
qed

text \<open>
  16-bit sequence arithmetic. \<open>seq_distance\<close> is subtraction modulo \<open>2 ^ 16\<close> and never
  fails; \<open>seq_is_newer\<close> holds exactly when the first number is 1 to 32767 steps ahead of
  the second, is antisymmetric, and decides every pair of distinct numbers except the two
  that are half the number space apart.
\<close>

theorem rtp_seq_arithmetic:
  "seq_distance a b = Some (a - b)
   \<and> (seq_is_newer a b \<longleftrightarrow> (\<exists>k. 0 < k \<and> k < 32768 \<and> a = b + of_nat k))
   \<and> \<not> (seq_is_newer a b \<and> seq_is_newer b a)
   \<and> (seq_is_newer a b \<or> seq_is_newer b a \<longleftrightarrow> a \<noteq> b \<and> a - b \<noteq> 32768)"
proof -
  let ?d = "a - b"
  have neg: "b - a = - ?d" by simp
  have z: "?d = 0 \<longleftrightarrow> a = b" by simp
  have k: "?d \<noteq> 0 \<and> ?d < 32768 \<longleftrightarrow> (\<exists>k. 0 < k \<and> k < 32768 \<and> a = b + of_nat k)"
  proof
    assume "?d \<noteq> 0 \<and> ?d < 32768"
    then show "\<exists>k. 0 < k \<and> k < 32768 \<and> a = b + of_nat k"
      by (intro exI [of _ "unat ?d"]) (auto simp: word_less_nat_alt unat_gt_0)
  next
    assume "\<exists>k. 0 < k \<and> k < 32768 \<and> a = b + of_nat k"
    then obtain k where k: "0 < k" "k < 32768" "?d = of_nat k" by auto
    then have "unat ?d = k" by (simp add: unat_of_nat)
    with k show "?d \<noteq> 0 \<and> ?d < 32768" by (auto simp: word_less_nat_alt)
  qed
  have less: "x < 32768 \<longleftrightarrow> uint x < 32768" for x :: u16 by (simp add: word_less_def)
  have half: "x = 32768 \<longleftrightarrow> uint x = 32768" for x :: u16 by (simp add: word_uint_eq_iff)
  show ?thesis
  proof (cases "?d = 0")
    case True
    then show ?thesis using k by (simp add: seq_distance_eq seq_is_newer_def)
  next
    case False
    then have "a \<noteq> b" "b - a \<noteq> 0" by auto
    with False k uint_u16_neg [OF False] show ?thesis
      by (auto simp: seq_distance_eq seq_is_newer_def Let_def less half neg simp del: minus_diff_eq)
  qed
qed

text \<open>
  With one URI declared, a header extension of the two-byte profile makes
  \<open>walk_two_byte\<close> read one byte past the end of the extension block: the loop guard admits
  an element of which only two of the three header bytes are left.
\<close>

theorem rtp_walk_two_byte_overread:
  "walk_two_byte (declare_extension_uri 1 ''a'' new_parser) [0, 1, 3, 9, 9, 9, 0, 7] 0 Map.empty
     = None
   \<and> parse (declare_extension_uri 1 ''a'' new_parser)
       [0x90, 0, 0, 1, 0, 0, 0, 0, 0, 0, 0, 0, 0x10, 0, 0, 2, 0, 1, 3, 9, 9, 9, 0, 7] = None"
  by (rule conjI; code_simp)

text \<open>
  The walkers \<open>walk_one_byte\<close> and \<open>find_extension_element\<close> disagree on the length nibble. On a block
  with the single element 2 of three data bytes, the lookup of id 1 reports it absent, while
  \<open>parse\<close> reports the URI of id 1 as present, having read the third data byte as a header.
\<close>

theorem rtp_walk_one_byte_misread:
  "find_extension_element [0x22, 9, 9, 0x10] kExtProfileOneByte 1 = Some (Inl NotFound)
   \<and> find_extension_element [0x22, 9, 9, 0x10] kExtProfileOneByte 2 = Some (Inr [9, 9, 0x10])
   \<and> map_option (map_sum id (\<lambda>pv. pv_extmap_uri pv 1))
       (parse (declare_extension_uri 1 ''a'' new_parser)
         [0x90, 0, 0, 1, 0, 0, 0, 0, 0, 0, 0, 0, 0xBE, 0xDE, 0, 1, 0x22, 9, 9, 0x10])
     = Some (Inr (Some ''a''))"
  by (intro conjI; code_simp)

end
