(* ===== verification/Rtp_Builder.thy ===== *)
theory Rtp_Builder
  imports Rtp_Parser
begin

text \<open>
  \<^verbatim>\<open>PacketBuilder\<close> of \<^verbatim>\<open>src/modules/rtp/src/builder.cpp\<close>: the builder state and its
  setters, \<^verbatim>\<open>compute_size\<close>, and \<^verbatim>\<open>build\<close> as a sequence of checked writes at a moving
  offset into a zero-filled buffer of \<^verbatim>\<open>compute_size()\<close> bytes. The lemmas show that
  the writes stay inside the buffer and produce the RFC 3550 layout, and that
  \<open>parse\<close> inverts \<open>build\<close>.
\<close>

section \<open>State and setters\<close>

record packet_builder =
  b_ssrc :: u32
  b_seq :: u16
  b_timestamp :: u32
  b_payload_type :: u8
  b_marker :: bool
  b_csrc :: "u32 list"
  b_extension :: "extension option"
  b_abs_send_time :: "u32 option"
  b_abs_send_time_id :: u16
  b_payload :: bytes
  b_padding_bytes :: nat

definition reset_builder :: packet_builder where
  "reset_builder = \<lparr>b_ssrc = 0, b_seq = 0, b_timestamp = 0, b_payload_type = 0, b_marker = False,
     b_csrc = [], b_extension = None, b_abs_send_time = None, b_abs_send_time_id = 1,
     b_payload = [], b_padding_bytes = 0\<rparr>"

definition set_ssrc :: "u32 \<Rightarrow> packet_builder \<Rightarrow> packet_builder" where
  "set_ssrc v b = b\<lparr>b_ssrc := v\<rparr>"
definition set_seq :: "u16 \<Rightarrow> packet_builder \<Rightarrow> packet_builder" where
  "set_seq v b = b\<lparr>b_seq := v\<rparr>"
definition set_timestamp :: "u32 \<Rightarrow> packet_builder \<Rightarrow> packet_builder" where
  "set_timestamp v b = b\<lparr>b_timestamp := v\<rparr>"
definition set_payload_type :: "u8 \<Rightarrow> packet_builder \<Rightarrow> packet_builder" where
  "set_payload_type v b = b\<lparr>b_payload_type := v\<rparr>"
definition set_marker :: "bool \<Rightarrow> packet_builder \<Rightarrow> packet_builder" where
  "set_marker v b = b\<lparr>b_marker := v\<rparr>"
definition add_csrc :: "u32 \<Rightarrow> packet_builder \<Rightarrow> packet_builder" where
  "add_csrc v b = b\<lparr>b_csrc := b_csrc b @ [v]\<rparr>"

definition set_extension :: "u16 \<Rightarrow> bytes \<Rightarrow> packet_builder \<Rightarrow> packet_builder" where
  "set_extension type dat b =
     b\<lparr>b_extension := Some \<lparr>ext_type = type, ext_data = dat\<rparr>,
       b_abs_send_time := None, b_abs_send_time_id := 1\<rparr>"

definition set_abs_send_time_id :: "u32 \<Rightarrow> u16 \<Rightarrow> packet_builder \<Rightarrow> packet_builder" where
  "set_abs_send_time_id t xid b =
     b\<lparr>b_abs_send_time := Some t, b_abs_send_time_id := (if xid = 0 then 1 else xid),
       b_extension := None\<rparr>"

definition set_abs_send_time :: "u32 \<Rightarrow> packet_builder \<Rightarrow> packet_builder" where
  "set_abs_send_time t b = set_abs_send_time_id t 1 b"

definition clear_extension :: "packet_builder \<Rightarrow> packet_builder" where
  "clear_extension b = b\<lparr>b_extension := None, b_abs_send_time := None, b_abs_send_time_id := 1\<rparr>"

definition set_payload :: "bytes \<Rightarrow> packet_builder \<Rightarrow> packet_builder" where
  "set_payload dat b = b\<lparr>b_payload := dat\<rparr>"
definition set_padding :: "nat \<Rightarrow> packet_builder \<Rightarrow> packet_builder" where
  "set_padding n b = b\<lparr>b_padding_bytes := n\<rparr>"

section \<open>Size and serialisation\<close>

definition has_ext :: "packet_builder \<Rightarrow> bool" where
  "has_ext b \<longleftrightarrow> b_extension b \<noteq> None \<or> b_abs_send_time b \<noteq> None"

definition compute_size :: "packet_builder \<Rightarrow> nat" where
  "compute_size b =
     kFixedHeaderSize + length (b_csrc b) * 4
     + (if has_ext b then
          4 + ((case b_extension b of
                  Some e \<Rightarrow> length (ext_data e)
                | None \<Rightarrow> (if b_abs_send_time_id b \<le> kExtProfileOneByteMaxId then 4 else 5))
               + 3) div 4 * 4
        else 0)
     + length (b_payload b)
     + (if b_padding_bytes b > 0 then b_padding_bytes b + 1 else 0)"

definition byte0 :: "packet_builder \<Rightarrow> u8" where
  "byte0 b =
     push_bit 6 kVersion
     OR (if b_padding_bytes b > 0 then 0x20 else 0)
     OR (if has_ext b then 0x10 else 0)
     OR ucast ((of_nat (length (b_csrc b)) :: u64) AND 0x0F)"

definition byte1 :: "packet_builder \<Rightarrow> u8" where
  "byte1 b = (if b_marker b then 0x80 else 0) OR (b_payload_type b AND 0x7F)"

text \<open>A cursor: the output buffer and the running offset.\<close>

type_synonym cursor = "bytes \<times> nat"

definition put :: "bytes \<Rightarrow> cursor \<Rightarrow> cursor option" where
  "put xs c = (case c of (buf, off) \<Rightarrow> map_option (\<lambda>buf'. (buf', off + length xs)) (wr buf off xs))"

fun put_all :: "bytes list \<Rightarrow> cursor \<Rightarrow> cursor option" where
  "put_all [] c = Some c"
| "put_all (xs # xss) c = do { c \<leftarrow> put xs c; put_all xss c }"

definition skip :: "nat \<Rightarrow> cursor \<Rightarrow> cursor" where
  "skip n c = (case c of (buf, off) \<Rightarrow> (buf, off + n))"

definition put_extension :: "packet_builder \<Rightarrow> cursor \<Rightarrow> cursor option" where
  "put_extension b c =
     (if has_ext b then
        (case b_abs_send_time b of
           Some t \<Rightarrow>
             (let ts24 = t AND 0x00FFFFFF in
              if b_abs_send_time_id b \<le> kExtProfileOneByteMaxId
              then put_all [be16 kExtProfileOneByte, be16 1,
                     [ucast (push_bit 4 (ucast (b_abs_send_time_id b) :: u32) OR 0x02)],
                     be24 ts24] c
              else put_all [be16 kExtProfileTwoByte, be16 2,
                     [ucast (b_abs_send_time_id b)], [3], be24 ts24, [0], [0], [0]] c)
         | None \<Rightarrow>
             (case b_extension b of
                None \<Rightarrow> Some c
              | Some e \<Rightarrow> do {
                  let ext_words = (length (ext_data e) + 3) div 4;
                  c \<leftarrow> put_all [be16 (ext_type e), be16 (of_nat ext_words), ext_data e] c;
                  Some (skip (ext_words * 4 - length (ext_data e)) c)
                }))
      else Some c)"

definition put_padding :: "packet_builder \<Rightarrow> cursor \<Rightarrow> cursor option" where
  "put_padding b c =
     (if b_padding_bytes b > 0
      then put_all [replicate (b_padding_bytes b) 0, [of_nat (b_padding_bytes b)]] c
      else Some c)"

definition build :: "packet_builder \<Rightarrow> bytes option" where
  "build b = do {
     let c = (replicate (compute_size b) 0, 0);
     c \<leftarrow> put_all [[byte0 b], [byte1 b], be16 (b_seq b), be32 (b_timestamp b), be32 (b_ssrc b)] c;
     c \<leftarrow> put_all (map be32 (b_csrc b)) c;
     c \<leftarrow> put_extension b c;
     c \<leftarrow> (if b_payload b \<noteq> [] then put (b_payload b) c else Some c);
     c \<leftarrow> put_padding b c;
     Some (fst c)
   }"

section \<open>The wire layout\<close>

text \<open>The reference layout: what the packet must look like, as one concatenation.\<close>

definition ext_bytes :: "packet_builder \<Rightarrow> bytes" where
  "ext_bytes b =
     (case b_abs_send_time b of
        Some t \<Rightarrow>
          (if b_abs_send_time_id b \<le> 14
           then be16 0xBEDE @ be16 1 @
             [ucast (push_bit 4 (ucast (b_abs_send_time_id b) :: u32) OR 2)] @ be24 (t AND 0xFFFFFF)
           else be16 0x1000 @ be16 2 @
             [ucast (b_abs_send_time_id b), 3] @ be24 (t AND 0xFFFFFF) @ [0, 0, 0])
      | None \<Rightarrow>
          (case b_extension b of
             None \<Rightarrow> []
           | Some e \<Rightarrow>
               (let words = (length (ext_data e) + 3) div 4 in
                be16 (ext_type e) @ be16 (of_nat words) @ ext_data e
                  @ replicate (words * 4 - length (ext_data e)) 0)))"

definition pad_bytes :: "packet_builder \<Rightarrow> bytes" where
  "pad_bytes b =
     (if b_padding_bytes b > 0
      then replicate (b_padding_bytes b) 0 @ [of_nat (b_padding_bytes b)] else [])"

definition header_bytes :: "packet_builder \<Rightarrow> bytes" where
  "header_bytes b = [byte0 b, byte1 b] @ be16 (b_seq b) @ be32 (b_timestamp b) @ be32 (b_ssrc b)"

definition layout :: "packet_builder \<Rightarrow> bytes" where
  "layout b = header_bytes b @ concat (map be32 (b_csrc b)) @ ext_bytes b @ b_payload b @ pad_bytes b"

definition builder_wf :: "packet_builder \<Rightarrow> bool" where
  "builder_wf b \<longleftrightarrow> (b_extension b = None \<or> b_abs_send_time b = None) \<and> b_abs_send_time_id b \<noteq> 0"

section \<open>Every setter keeps the builder well formed\<close>

lemmas setter_defs = reset_builder_def set_ssrc_def set_seq_def set_timestamp_def
  set_payload_type_def set_marker_def add_csrc_def set_extension_def set_abs_send_time_id_def
  set_abs_send_time_def clear_extension_def set_payload_def set_padding_def

lemma builder_wf_setters [intro, simp]:
  "builder_wf reset_builder"
  "builder_wf b \<Longrightarrow> builder_wf (set_ssrc v b)"
  "builder_wf b \<Longrightarrow> builder_wf (set_seq w b)"
  "builder_wf b \<Longrightarrow> builder_wf (set_timestamp v b)"
  "builder_wf b \<Longrightarrow> builder_wf (set_payload_type x b)"
  "builder_wf b \<Longrightarrow> builder_wf (set_marker m b)"
  "builder_wf b \<Longrightarrow> builder_wf (add_csrc v b)"
  "builder_wf (set_extension w dat b)"
  "builder_wf (set_abs_send_time_id v w b)"
  "builder_wf (set_abs_send_time v b)"
  "builder_wf (clear_extension b)"
  "builder_wf b \<Longrightarrow> builder_wf (set_payload dat b)"
  "builder_wf b \<Longrightarrow> builder_wf (set_padding n b)"
  by (simp_all add: builder_wf_def setter_defs)

section \<open>Writes stay in bounds and give the layout\<close>

definition filled :: "bytes \<Rightarrow> nat \<Rightarrow> cursor" where
  "filled pre n = (pre @ replicate n 0, length pre)"

lemma put_filled [simp]:
  "length xs \<le> n \<Longrightarrow> put xs (filled pre n) = Some (filled (pre @ xs) (n - length xs))"
  using wr_prefix [of xs n pre] by (simp add: put_def filled_def)

lemma put_all_filled [simp]:
  "length (concat xss) \<le> n \<Longrightarrow>
     put_all xss (filled pre n) = Some (filled (pre @ concat xss) (n - length (concat xss)))"
  by (induction xss arbitrary: pre n) simp_all

lemma skip_filled [simp]:
  "k \<le> n \<Longrightarrow> skip k (filled pre n) = filled (pre @ replicate k 0) (n - k)"
  by (simp add: skip_def filled_def replicate_add [symmetric])

lemma put_padding_filled:
  "length (pad_bytes b) \<le> n \<Longrightarrow>
     put_padding b (filled pre n) = Some (filled (pre @ pad_bytes b) (n - length (pad_bytes b)))"
  by (auto simp: put_padding_def pad_bytes_def)

lemma Suc4: "Suc (Suc (Suc (Suc k))) = 4 + k"
  by simp

lemma put_extension_filled:
  assumes "length (ext_bytes b) \<le> n"
  shows "put_extension b (filled pre n)
    = Some (filled (pre @ ext_bytes b) (n - length (ext_bytes b)))"
  using assms
  by (auto simp: put_extension_def ext_bytes_def has_ext_def rtp_consts Let_def
      Suc4 split: option.splits if_splits)

lemma length_header_bytes [simp]: "length (header_bytes b) = 12"
  by (simp add: header_bytes_def)

lemma length_ext_bytes:
  "builder_wf b \<Longrightarrow> length (ext_bytes b) =
     (if has_ext b then
        4 + ((case b_extension b of
                Some e \<Rightarrow> length (ext_data e)
              | None \<Rightarrow> (if b_abs_send_time_id b \<le> kExtProfileOneByteMaxId then 4 else 5))
             + 3) div 4 * 4
      else 0)"
  by (auto simp: ext_bytes_def has_ext_def builder_wf_def rtp_consts Let_def split: option.splits)

lemma length_layout: "builder_wf b \<Longrightarrow> length (layout b) = compute_size b"
  by (simp add: layout_def compute_size_def length_ext_bytes pad_bytes_def kFixedHeaderSize_def)

lemma build_layout:
  assumes "builder_wf b"
  shows "build b = Some (layout b)"
proof -
  let ?n = "compute_size b"
  have start: "(replicate ?n (0::u8), 0::nat) = filled [] ?n" by (simp add: filled_def)
  have size: "?n = 12 + length (b_csrc b) * 4 + length (ext_bytes b) + length (b_payload b)
      + length (pad_bytes b)"
    using length_layout [OF assms] by (simp add: layout_def)
  have hdr: "concat [[byte0 b], [byte1 b], be16 (b_seq b), be32 (b_timestamp b), be32 (b_ssrc b)]
      = header_bytes b"
    by (simp add: header_bytes_def)
  have fst_filled: "fst (filled pre 0) = pre" for pre by (simp add: filled_def)
  show ?thesis
    unfolding build_def Let_def start
    by (simp add: hdr size put_extension_filled put_padding_filled layout_def fst_filled del: concat.simps put_all.simps)
qed


lemma byte0_version: "drop_bit 6 (byte0 b) AND 3 = 2"
  unfolding byte0_def
  by (rule u8_eqI) (simp_all add: bit_simps kVersion_def)

lemma byte0_bits: "bit (byte0 b) 5 = (b_padding_bytes b > 0)" "bit (byte0 b) 4 = has_ext b"
  unfolding byte0_def
  by (simp_all add: bit_simps kVersion_def)


section \<open>Parsing a built packet\<close>

lemma byte0_cc: "length (b_csrc b) \<le> 15 \<Longrightarrow> unat (byte0 b AND 0x0F) = length (b_csrc b)"
proof -
  assume l: "length (b_csrc b) \<le> 15"
  have "byte0 b AND 0x0F = ucast ((of_nat (length (b_csrc b)) :: u64) AND 0x0F)"
    unfolding byte0_def by (rule u8_eqI) (simp_all add: bit_simps kVersion_def)
  moreover have "unat ((of_nat (length (b_csrc b)) :: u64) AND 0x0F) = length (b_csrc b)"
    using l by (simp add: unat_and_15 unat_of_nat)
  ultimately show ?thesis using l by (simp add: unsigned_ucast_eq take_bit_eq_mod)
qed

lemma byte1_pt: "byte1 b AND 0x7F = b_payload_type b AND 0x7F"
  unfolding byte1_def by (rule u8_eqI) (simp_all add: bit_simps)

lemma byte1_marker: "bit (byte1 b) 7 = b_marker b"
  unfolding byte1_def by (simp add: bit_simps)

text \<open>positions\<close>
lemma header_nth:
  "header_bytes b ! 0 = byte0 b" "header_bytes b ! Suc 0 = byte1 b"
  "be16_of (header_bytes b ! 2) (header_bytes b ! 3) = b_seq b"
  "be32_of (header_bytes b ! 4) (header_bytes b ! 5) (header_bytes b ! 6) (header_bytes b ! 7) = b_timestamp b"
  "be32_of (header_bytes b ! 8) (header_bytes b ! 9) (header_bytes b ! 10) (header_bytes b ! 11) = b_ssrc b"
  by (simp_all add: header_bytes_def be16_def be32_def codec_simps)

lemma nth_layout: "i < 12 \<Longrightarrow> layout b ! i = header_bytes b ! i"
  by (simp add: layout_def nth_append)

lemma parse_extension_append:
  assumes "extension_uris p = []" "length dat = w * 4" "w < 65536"
  shows "parse_extension p (pre @ be16 prof @ be16 (of_nat w) @ dat @ post) (length pre)
    = Some (Inr (\<lparr>ext_type = prof, ext_data = dat\<rparr>, 4 + w * 4, Map.empty))"
proof -
  let ?raw = "pre @ be16 prof @ be16 (of_nat w) @ dat @ post"
  have 1: "rd_be16 ?raw (length pre) = Some prof"
    by (simp add: rd_be16_Some nth_append be16_def codec_simps)
  have 2: "rd_be16 ?raw (length pre + 2) = Some (of_nat w)"
    by (simp add: rd_be16_Some nth_append be16_def codec_simps)
  have 3: "unat (of_nat w :: u16) = w" using assms(3) by (simp add: unat_of_nat)
  have 4: "subspan ?raw (length pre + 4) (w * 4) = Some dat"
    using assms(2) by (simp add: subspan_def)
  show ?thesis
    using assms 2 by (simp add: parse_extension_def 1 3 4 Let_def)
qed

lemma padding_trailer_append:
  assumes "0 < n" "n \<le> 255"
  shows "padding_trailer (pre @ pay @ replicate n 0 @ [of_nat n]) True (length pre) = Some (Inr (n + 1))"
proof -
  have "rd (pre @ pay @ replicate n 0 @ [of_nat n]) (length pre + (length pay + n)) = Some (of_nat n)"
    by (simp add: rd_def nth_append)
  with assms show ?thesis
    by (simp add: padding_trailer_def unat_of_nat Let_def)
qed

definition wire_extension :: "packet_builder \<Rightarrow> extension option" where
  "wire_extension b =
     (case b_abs_send_time b of
        Some t \<Rightarrow> Some \<lparr>ext_type = (if b_abs_send_time_id b \<le> 14 then 0xBEDE else 0x1000),
                       ext_data = drop 4 (ext_bytes b)\<rparr>
      | None \<Rightarrow> map_option (\<lambda>e. \<lparr>ext_type = ext_type e, ext_data = drop 4 (ext_bytes b)\<rparr>) (b_extension b))"

lemma ext_bytes_form:
  assumes "builder_wf b" "has_ext b" "\<And>e. b_extension b = Some e \<Longrightarrow> length (ext_data e) \<le> 4 * 65535"
  obtains e w where "wire_extension b = Some e"
    "ext_bytes b = be16 (ext_type e) @ be16 (of_nat w) @ ext_data e"
    "length (ext_data e) = w * 4" "w < 65536"
proof (cases "b_abs_send_time b")
  case None
  then obtain e where e: "b_extension b = Some e" using assms(2) by (auto simp: has_ext_def)
  show ?thesis
    by (rule that [of "the (wire_extension b)" "(length (ext_data e) + 3) div 4"])
      (use None e assms(3) in \<open>auto simp: wire_extension_def ext_bytes_def Let_def\<close>)
next
  case (Some t)
  show ?thesis
    by (rule that [of "the (wire_extension b)" "if b_abs_send_time_id b \<le> 14 then 1 else 2"])
      (use Some in \<open>auto simp: wire_extension_def ext_bytes_def be16_def\<close>)
qed

text \<open>The view a built packet must parse to.\<close>

definition rtp_view :: "packet_builder \<Rightarrow> packet_view" where
  "rtp_view b =
     \<lparr>pv_raw = layout b, pv_payload = b_payload b, pv_ssrc = b_ssrc b, pv_seq = b_seq b,
      pv_timestamp = b_timestamp b, pv_payload_type = b_payload_type b AND 0x7F,
      pv_marker = b_marker b, pv_csrc = b_csrc b, pv_extension = wire_extension b,
      pv_extmap_uri = Map.empty\<rparr>"

text \<open>
  The field widths of the header bound what can be encoded: 4 bits of CSRC count, 16 bits
  of extension words, 8 bits of padding count.
\<close>

definition encodable :: "packet_builder \<Rightarrow> bool" where
  "encodable b \<longleftrightarrow> builder_wf b \<and> length (b_csrc b) \<le> 15 \<and> b_padding_bytes b \<le> 255 \<and>
     (case b_extension b of None \<Rightarrow> True | Some e \<Rightarrow> length (ext_data e) \<le> 4 * 65535)"

lemma csrc_layout: "map (csrc_at (layout b)) [0..<length (b_csrc b)] = b_csrc b"
proof (rule nth_equalityI)
  fix i assume "i < length (map (csrc_at (layout b)) [0..<length (b_csrc b)])"
  then show "map (csrc_at (layout b)) [0..<length (b_csrc b)] ! i = b_csrc b ! i"
    using be32_of_concat [of i "b_csrc b"]
    by (simp add: csrc_at_def layout_def nth_append Let_def add.commute [of 3])
qed simp

lemma parse_opt_extension_layout:
  assumes "encodable b" and "extension_uris p = []"
  shows "parse_opt_extension p (layout b) (has_ext b) (12 + length (b_csrc b) * 4)
    = Some (Inr (wire_extension b, length (ext_bytes b), Map.empty))"
proof (cases "has_ext b")
  case True
  let ?pre = "header_bytes b @ concat (map be32 (b_csrc b))"
  from assms(1) have wf: "builder_wf b"
    and ext: "\<And>e. b_extension b = Some e \<Longrightarrow> length (ext_data e) \<le> 4 * 65535"
    by (auto simp: encodable_def)
  from ext_bytes_form [OF wf True ext] obtain x w where x: "wire_extension b = Some x"
    "ext_bytes b = be16 (ext_type x) @ be16 (of_nat w) @ ext_data x"
    "length (ext_data x) = w * 4" "w < 65536" by blast
  with parse_extension_append [OF assms(2) x(3,4), of ?pre "ext_type x" "b_payload b @ pad_bytes b"]
    True
  show ?thesis by (simp add: parse_opt_extension_def layout_def)
next
  case False
  then show ?thesis
    by (simp add: parse_opt_extension_def has_ext_def wire_extension_def ext_bytes_def)
qed

lemma padding_trailer_layout:
  assumes "encodable b"
  shows "padding_trailer (layout b) (b_padding_bytes b > 0)
    (12 + length (b_csrc b) * 4 + length (ext_bytes b)) = Some (Inr (length (pad_bytes b)))"
  using padding_trailer_append [of "b_padding_bytes b"
      "header_bytes b @ concat (map be32 (b_csrc b)) @ ext_bytes b" "b_payload b"] assms
  by (cases "b_padding_bytes b > 0")
    (simp_all add: layout_def pad_bytes_def padding_trailer_def encodable_def)

lemma parse_layout:
  assumes "encodable b" and "extension_uris p = []"
  shows "parse p (layout b) = Some (Inr (rtp_view b))"
proof -
  let ?raw = "layout b" and ?n = "length (b_csrc b)"
  have len: "12 + ?n * 4 + length (ext_bytes b) + length (b_payload b) + length (pad_bytes b)
      = length ?raw"
    by (simp add: layout_def)
  have cc: "unat (byte0 b AND 0x0F) = ?n"
    using assms(1) by (simp add: byte0_cc encodable_def)
  have hdr: "?raw ! 0 = byte0 b" "?raw ! Suc 0 = byte1 b" "be16_of (?raw ! 2) (?raw ! 3) = b_seq b"
    "be32_of (?raw ! 4) (?raw ! 5) (?raw ! 6) (?raw ! 7) = b_timestamp b"
    "be32_of (?raw ! 8) (?raw ! 9) (?raw ! 10) (?raw ! 11) = b_ssrc b"
    by (simp_all add: nth_layout header_nth)
  have payload: "take (length ?raw - (12 + ?n * 4 + length (ext_bytes b)) - length (pad_bytes b))
      (drop (12 + ?n * 4 + length (ext_bytes b)) ?raw) = b_payload b"
    by (simp add: layout_def)
  show ?thesis
    using len payload
    by (simp add: parse_eq hdr byte0_version byte0_bits cc parse_opt_extension_layout [OF assms]
        padding_trailer_layout [OF assms(1)] csrc_layout byte1_pt byte1_marker rtp_view_def)
qed

lemma one_byte_header:
  assumes "0 < xid" "xid \<le> (14::u16)"
  defines "hdr \<equiv> (ucast (push_bit 4 (ucast xid :: u32) OR 2) :: u8)"
  shows "(ucast (drop_bit 4 hdr) :: u16) = xid" "hdr AND 15 = 2"
proof -
  obtain k where k: "k \<le> 14" "xid = of_nat k" using small_u16 [of xid 14] assms(2) by auto
  have "k \<in> set [0..<15]" using k(1) by auto
  then show "(ucast (drop_bit 4 hdr) :: u16) = xid" "hdr AND 15 = 2"
    unfolding k(2) hdr_def by (auto simp: upt_rec)
qed

lemma two_byte_header: "xid \<le> (255::u16) \<Longrightarrow> (ucast (ucast xid :: u8) :: u16) = xid"
  by (simp add: word_unat_eq_iff unsigned_ucast_eq take_bit_eq_mod word_le_nat_alt unat_mod)

interpretation rtp: wire_codec encodable build "parse new_parser" rtp_view
  by unfold_locales
    (auto simp: encodable_def build_layout intro!: parse_layout, simp add: new_parser_def)

section \<open>Properties\<close>

text \<open>
  C1: building an RTP packet and parsing it back returns exactly the fields that were set,
  for every builder whose fields fit the header: all header fields, the CSRC list, the
  payload, the header extension padded to 32-bit words, and the padding removed.
\<close>

theorem rtp_roundtrip:
  assumes "encodable b"
  shows "\<exists>raw. build b = Some raw \<and> parse new_parser raw = Some (Inr (rtp_view b))"
  by (rule rtp.roundtrip [OF assms])

theorem rtp_roundtrip_witness:
  "\<exists>raw. build (set_padding 3 (set_payload [1, 2] (set_abs_send_time 70000 (add_csrc 9 reset_builder))))
     = Some raw \<and> parse new_parser raw = Some (Inr (rtp_view
         (set_padding 3 (set_payload [1, 2] (set_abs_send_time 70000 (add_csrc 9 reset_builder))))))"
  by (rule rtp_roundtrip) (simp add: encodable_def builder_wf_def setter_defs)

text \<open>
  \<open>build\<close> never writes outside its buffer of \<open>compute_size\<close> bytes, and what it leaves
  there is the RFC 3550 layout, with nothing left over.
\<close>

theorem rtp_build_layout:
  assumes "builder_wf b"
  shows "build b = Some (layout b) \<and> length (layout b) = compute_size b"
  using build_layout [OF assms] length_layout [OF assms] by simp

theorem rtp_build_layout_witness:
  "build (set_seq 7 reset_builder) = Some (layout (set_seq 7 reset_builder))
   \<and> length (layout (set_seq 7 reset_builder)) = compute_size (set_seq 7 reset_builder)"
  by (rule rtp_build_layout) simp

text \<open>
  The abs-send-time element survives the wire under every negotiated id from 1 to 255,
  in the one-byte form up to 14 and the two-byte form above: the lookup by that id in the
  emitted extension returns the three payload bytes, and parsing them returns the low 24
  bits of the time that was set.
\<close>

theorem abs_send_time_roundtrip:
  assumes "0 < xid" "xid \<le> 255"
  shows "\<exists>e. wire_extension (set_abs_send_time_id t xid b) = Some e
    \<and> find_extension_element (ext_data e) (ext_type e) xid = Some (Inr (be24 t))
    \<and> parse_abs_send_time_extension (be24 t) = Some (Inr (t AND 0xFFFFFF))"
proof -
  have nz: "xid \<noteq> 0" using assms(1) by auto
  have p: "parse_abs_send_time_extension (be24 t) = Some (Inr (take_bit 24 t))"
    by (simp add: parse_abs_send_time_extension_def wire_simps be24_def codec_simps)
  have m: "take_bit 24 t = t AND 0xFFFFFF"
    by (simp add: take_bit_eq_mask mask_eq_exp_minus_1)
  show ?thesis
  proof (cases "xid \<le> 14")
    case True
    then show ?thesis using one_byte_header [OF assms(1) True] nz p m
      by (simp add: wire_extension_def ext_bytes_def set_abs_send_time_id_def be24_mask be16_def
          find_extension_element_def rtp_consts find_one_byte.simps [of _ _ 0] wire_simps)
  next
    case False
    then show ?thesis using two_byte_header [OF assms(2)] nz p m
      by (simp add: wire_extension_def ext_bytes_def set_abs_send_time_id_def be24_mask be16_def
          find_extension_element_def rtp_consts find_two_byte.simps [of _ _ 0] wire_simps)
  qed
qed

theorem abs_send_time_roundtrip_witness:
  "\<exists>e. wire_extension (set_abs_send_time_id 0x1234567 20 reset_builder) = Some e
    \<and> find_extension_element (ext_data e) (ext_type e) 20 = Some (Inr (be24 0x1234567))
    \<and> parse_abs_send_time_extension (be24 0x1234567) = Some (Inr (0x1234567 AND 0xFFFFFF))"
  by (rule abs_send_time_roundtrip) simp_all

end
