(* ===== verification/Rtcp.thy ===== *)
theory Rtcp
  imports Prelude
begin

text \<open>
  RTCP sender reports, receiver reports and generic NACKs: the RTCP halves of
  \<^verbatim>\<open>src/modules/rtp/src/parser.cpp\<close> and \<^verbatim>\<open>src/modules/rtp/src/builder.cpp\<close>. A builder
  object holds exactly the fields of the report it builds, so its state is the report
  record itself. \<^verbatim>\<open>int32_t\<close> is kept as its 32-bit pattern.
\<close>

section \<open>Data\<close>

definition kRtcpHeaderSize :: nat where "kRtcpHeaderSize = 4"
definition kReportBlockSize :: nat where "kReportBlockSize = 24"
definition kNackFciSize :: nat where "kNackFciSize = 4"

lemmas rtcp_consts = kRtcpHeaderSize_def kReportBlockSize_def kNackFciSize_def

datatype rtcp_type = SR | RR | SDES | BYE | APP | RTPFB | PSFB | XR

fun rtcp_type_code :: "rtcp_type \<Rightarrow> u8" where
  "rtcp_type_code SR = 200" | "rtcp_type_code RR = 201" | "rtcp_type_code SDES = 202"
| "rtcp_type_code BYE = 203" | "rtcp_type_code APP = 204" | "rtcp_type_code RTPFB = 205"
| "rtcp_type_code PSFB = 206" | "rtcp_type_code XR = 207"

record report_block =
  rb_ssrc :: u32
  fraction_lost :: u8
  cumulative_packets_lost :: i32
  extended_highest_seq :: u32
  interarrival_jitter :: u32
  last_sr_ntp :: u32
  delay_since_last_sr :: u32

record sender_report =
  sr_ssrc :: u32
  sr_ntp_timestamp :: u64
  sr_rtp_timestamp :: u32
  sr_packet_count :: u32
  sr_octet_count :: u32
  sr_blocks :: "report_block list"

record receiver_report =
  rr_ssrc :: u32
  rr_blocks :: "report_block list"

record nack_entry =
  packet_id :: u16
  blp :: u16

record nack_packet =
  nk_sender_ssrc :: u32
  nk_media_ssrc :: u32
  nk_entries :: "nack_entry list"

section \<open>Parsing\<close>

definition sign_extend_24 :: "u32 \<Rightarrow> i32" where
  "sign_extend_24 x = (if x AND 0x800000 \<noteq> 0 then x OR 0xFF000000 else x)"

record rtcp_header_info =
  h_version :: u8
  h_padding :: u8
  h_rc_or_fmt :: u8
  h_payload_type :: u8
  h_length_words :: u16

definition parse_rtcp_header :: "bytes \<Rightarrow> u8 \<Rightarrow> nat \<Rightarrow> rtcp_header_info result option" where
  "parse_rtcp_header raw expected_pt body_offset_after_header =
     (if length raw < kRtcpHeaderSize then Some (Inl ProtocolError)
      else do {
        b0 \<leftarrow> rd raw 0;
        pt \<leftarrow> rd raw 1;
        len \<leftarrow> rd_be16 raw 2;
        let h = \<lparr>h_version = drop_bit 6 b0 AND 0x03, h_padding = drop_bit 5 b0 AND 0x01,
                 h_rc_or_fmt = b0 AND 0x1F, h_payload_type = pt, h_length_words = len\<rparr>;
        if h_version h \<noteq> 2 then Some (Inl ProtocolError)
        else if h_payload_type h \<noteq> expected_pt then Some (Inl ProtocolError)
        else do {
          let total_bytes = (unat (h_length_words h) + 1) * 4;
          if total_bytes > length raw then Some (Inl ProtocolError)
          else if total_bytes < body_offset_after_header then Some (Inl ProtocolError)
          else Some (Inr h)
        }
      })"

definition parse_report_block :: "bytes \<Rightarrow> nat \<Rightarrow> report_block option" where
  "parse_report_block raw p = do {
     ssrc \<leftarrow> rd_be32 raw p;
     fl \<leftarrow> rd raw (p + 4);
     lost24 \<leftarrow> rd_be24 raw (p + 5);
     ehs \<leftarrow> rd_be32 raw (p + 8);
     jit \<leftarrow> rd_be32 raw (p + 12);
     lsr \<leftarrow> rd_be32 raw (p + 16);
     dlsr \<leftarrow> rd_be32 raw (p + 20);
     Some \<lparr>rb_ssrc = ssrc, fraction_lost = fl, cumulative_packets_lost = sign_extend_24 lost24,
       extended_highest_seq = ehs, interarrival_jitter = jit, last_sr_ntp = lsr,
       delay_since_last_sr = dlsr\<rparr>
   }"

definition parse_report_blocks :: "bytes \<Rightarrow> nat \<Rightarrow> nat \<Rightarrow> report_block list option" where
  "parse_report_blocks raw bp rc =
     those (map (\<lambda>i. parse_report_block raw (bp + i * kReportBlockSize)) [0..<rc])"

definition parse_sr :: "bytes \<Rightarrow> sender_report result option" where
  "parse_sr raw = do {
     h \<leftarrow> parse_rtcp_header raw (rtcp_type_code SR) (kRtcpHeaderSize + 4 + 20);
     case h of
       Inl e \<Rightarrow> Some (Inl e)
     | Inr h \<Rightarrow>
         if h_rc_or_fmt h > 31 then Some (Inl ProtocolError)
         else if length raw < kRtcpHeaderSize + 4 + 20 then Some (Inl ProtocolError)
         else do {
           ssrc \<leftarrow> rd_be32 raw kRtcpHeaderSize;
           ntp_hi \<leftarrow> rd_be32 raw (kRtcpHeaderSize + 4);
           ntp_lo \<leftarrow> rd_be32 raw (kRtcpHeaderSize + 8);
           rtp_ts \<leftarrow> rd_be32 raw (kRtcpHeaderSize + 12);
           pkts \<leftarrow> rd_be32 raw (kRtcpHeaderSize + 16);
           octets \<leftarrow> rd_be32 raw (kRtcpHeaderSize + 20);
           let rc = unat (h_rc_or_fmt h);
           let need = kRtcpHeaderSize + 4 + 20 + rc * kReportBlockSize;
           if length raw < need then Some (Inl ProtocolError)
           else do {
             blocks \<leftarrow> parse_report_blocks raw (kRtcpHeaderSize + 4 + 20) rc;
             Some (Inr \<lparr>sr_ssrc = ssrc, sr_ntp_timestamp = push_bit 32 (ucast ntp_hi) OR ucast ntp_lo,
               sr_rtp_timestamp = rtp_ts, sr_packet_count = pkts, sr_octet_count = octets,
               sr_blocks = blocks\<rparr>)
           }
         }
   }"

definition parse_rr :: "bytes \<Rightarrow> receiver_report result option" where
  "parse_rr raw = do {
     h \<leftarrow> parse_rtcp_header raw (rtcp_type_code RR) (kRtcpHeaderSize + 4);
     case h of
       Inl e \<Rightarrow> Some (Inl e)
     | Inr h \<Rightarrow>
         if h_rc_or_fmt h > 31 then Some (Inl ProtocolError)
         else if length raw < kRtcpHeaderSize + 4 then Some (Inl ProtocolError)
         else do {
           ssrc \<leftarrow> rd_be32 raw kRtcpHeaderSize;
           let rc = unat (h_rc_or_fmt h);
           let need = kRtcpHeaderSize + 4 + rc * kReportBlockSize;
           if length raw < need then Some (Inl ProtocolError)
           else do {
             blocks \<leftarrow> parse_report_blocks raw (kRtcpHeaderSize + 4) rc;
             Some (Inr \<lparr>rr_ssrc = ssrc, rr_blocks = blocks\<rparr>)
           }
         }
   }"

definition parse_nack_entry :: "bytes \<Rightarrow> nat \<Rightarrow> nack_entry option" where
  "parse_nack_entry raw p = do {
     pid \<leftarrow> rd_be16 raw p;
     b \<leftarrow> rd_be16 raw (p + 2);
     Some \<lparr>packet_id = pid, blp = b\<rparr>
   }"

definition parse_nack :: "bytes \<Rightarrow> nack_packet result option" where
  "parse_nack raw = do {
     h \<leftarrow> parse_rtcp_header raw (rtcp_type_code RTPFB) (kRtcpHeaderSize + 8);
     case h of
       Inl e \<Rightarrow> Some (Inl e)
     | Inr h \<Rightarrow>
         if h_rc_or_fmt h \<noteq> 1 then Some (Inl ProtocolError)
         else if length raw < kRtcpHeaderSize + 8 then Some (Inl ProtocolError)
         else do {
           sender \<leftarrow> rd_be32 raw kRtcpHeaderSize;
           media \<leftarrow> rd_be32 raw (kRtcpHeaderSize + 4);
           let fci_bytes = length raw - kRtcpHeaderSize - 8;
           if fci_bytes mod kNackFciSize \<noteq> 0 then Some (Inl ProtocolError)
           else do {
             es \<leftarrow> those (map (\<lambda>i. parse_nack_entry raw (kRtcpHeaderSize + 8 + i * kNackFciSize))
                     [0..<fci_bytes div kNackFciSize]);
             Some (Inr \<lparr>nk_sender_ssrc = sender, nk_media_ssrc = media, nk_entries = es\<rparr>)
           }
         }
   }"

section \<open>Building\<close>

definition rtcp_byte0 :: "u8 \<Rightarrow> u8 \<Rightarrow> u8" where
  "rtcp_byte0 padding rc_or_fmt =
     push_bit 6 2 OR push_bit 5 (padding AND 1) OR (rc_or_fmt AND 0x1F)"

text \<open>The writes of \<^verbatim>\<open>serialise_report_block(p, rb)\<close>.\<close>

definition serialise_report_block :: "nat \<Rightarrow> report_block \<Rightarrow> (nat \<times> bytes) list" where
  "serialise_report_block p rb =
     [(p, be32 (rb_ssrc rb)), (p + 4, [fraction_lost rb]),
      (p + 5, be24 (cumulative_packets_lost rb AND 0xFFFFFF)),
      (p + 8, be32 (extended_highest_seq rb)), (p + 12, be32 (interarrival_jitter rb)),
      (p + 16, be32 (last_sr_ntp rb)), (p + 20, be32 (delay_since_last_sr rb))]"

fun serialise_report_blocks :: "nat \<Rightarrow> report_block list \<Rightarrow> (nat \<times> bytes) list" where
  "serialise_report_blocks bp [] = []"
| "serialise_report_blocks bp (rb # rbs) =
     serialise_report_block bp rb @ serialise_report_blocks (bp + kReportBlockSize) rbs"

text \<open>The four header bytes common to the three builders.\<close>

definition header_writes :: "u8 \<Rightarrow> u8 \<Rightarrow> nat \<Rightarrow> (nat \<times> bytes) list" where
  "header_writes rc_or_fmt pt nbytes =
     (let length_words = (of_nat (nbytes div 4 - 1) :: u16) in
      [(0, [rtcp_byte0 0 rc_or_fmt]), (1, [pt]), (2, be16 length_words)])"

definition new_sr :: sender_report where
  "new_sr = \<lparr>sr_ssrc = 0, sr_ntp_timestamp = 0, sr_rtp_timestamp = 0, sr_packet_count = 0,
     sr_octet_count = 0, sr_blocks = []\<rparr>"

definition sr_set_ssrc :: "u32 \<Rightarrow> sender_report \<Rightarrow> sender_report" where
  "sr_set_ssrc v b = b\<lparr>sr_ssrc := v\<rparr>"
definition sr_set_ntp_timestamp :: "u64 \<Rightarrow> sender_report \<Rightarrow> sender_report" where
  "sr_set_ntp_timestamp v b = b\<lparr>sr_ntp_timestamp := v\<rparr>"
definition sr_set_rtp_timestamp :: "u32 \<Rightarrow> sender_report \<Rightarrow> sender_report" where
  "sr_set_rtp_timestamp v b = b\<lparr>sr_rtp_timestamp := v\<rparr>"
definition sr_set_sender_packet_count :: "u32 \<Rightarrow> sender_report \<Rightarrow> sender_report" where
  "sr_set_sender_packet_count v b = b\<lparr>sr_packet_count := v\<rparr>"
definition sr_set_sender_octet_count :: "u32 \<Rightarrow> sender_report \<Rightarrow> sender_report" where
  "sr_set_sender_octet_count v b = b\<lparr>sr_octet_count := v\<rparr>"

definition sr_add_report_block :: "report_block \<Rightarrow> sender_report \<Rightarrow> sender_report" where
  "sr_add_report_block rb b =
     (if length (sr_blocks b) \<ge> 31 then b else b\<lparr>sr_blocks := sr_blocks b @ [rb]\<rparr>)"

definition sr_compute_size :: "sender_report \<Rightarrow> nat" where
  "sr_compute_size b = kRtcpHeaderSize + 4 + 20 + length (sr_blocks b) * kReportBlockSize"

definition sr_build :: "sender_report \<Rightarrow> bytes option" where
  "sr_build b =
     writes (header_writes (of_nat (length (sr_blocks b))) (rtcp_type_code SR) (sr_compute_size b)
       @ [(kRtcpHeaderSize, be32 (sr_ssrc b)), (kRtcpHeaderSize + 4, be64 (sr_ntp_timestamp b)),
          (kRtcpHeaderSize + 12, be32 (sr_rtp_timestamp b)),
          (kRtcpHeaderSize + 16, be32 (sr_packet_count b)),
          (kRtcpHeaderSize + 20, be32 (sr_octet_count b))]
       @ serialise_report_blocks (kRtcpHeaderSize + 4 + 20) (sr_blocks b))
     (replicate (sr_compute_size b) 0)"

definition new_rr :: receiver_report where
  "new_rr = \<lparr>rr_ssrc = 0, rr_blocks = []\<rparr>"

definition rr_set_ssrc :: "u32 \<Rightarrow> receiver_report \<Rightarrow> receiver_report" where
  "rr_set_ssrc v b = b\<lparr>rr_ssrc := v\<rparr>"

definition rr_add_report_block :: "report_block \<Rightarrow> receiver_report \<Rightarrow> receiver_report" where
  "rr_add_report_block rb b =
     (if length (rr_blocks b) \<ge> 31 then b else b\<lparr>rr_blocks := rr_blocks b @ [rb]\<rparr>)"

definition rr_compute_size :: "receiver_report \<Rightarrow> nat" where
  "rr_compute_size b = kRtcpHeaderSize + 4 + length (rr_blocks b) * kReportBlockSize"

definition rr_build :: "receiver_report \<Rightarrow> bytes option" where
  "rr_build b =
     writes (header_writes (of_nat (length (rr_blocks b))) (rtcp_type_code RR) (rr_compute_size b)
       @ [(kRtcpHeaderSize, be32 (rr_ssrc b))]
       @ serialise_report_blocks (kRtcpHeaderSize + 4) (rr_blocks b))
     (replicate (rr_compute_size b) 0)"

definition new_nack :: nack_packet where
  "new_nack = \<lparr>nk_sender_ssrc = 0, nk_media_ssrc = 0, nk_entries = []\<rparr>"

definition nack_set_sender_ssrc :: "u32 \<Rightarrow> nack_packet \<Rightarrow> nack_packet" where
  "nack_set_sender_ssrc v n = n\<lparr>nk_sender_ssrc := v\<rparr>"
definition nack_set_media_ssrc :: "u32 \<Rightarrow> nack_packet \<Rightarrow> nack_packet" where
  "nack_set_media_ssrc v n = n\<lparr>nk_media_ssrc := v\<rparr>"

definition nack_add_entry :: "u16 \<Rightarrow> u16 \<Rightarrow> nack_packet \<Rightarrow> nack_packet" where
  "nack_add_entry pid b n = n\<lparr>nk_entries := nk_entries n @ [\<lparr>packet_id = pid, blp = b\<rparr>]\<rparr>"

definition nack_compute_size :: "nack_packet \<Rightarrow> nat" where
  "nack_compute_size n = kRtcpHeaderSize + 8 + length (nk_entries n) * kNackFciSize"

fun nack_entry_writes :: "nat \<Rightarrow> nack_entry list \<Rightarrow> (nat \<times> bytes) list" where
  "nack_entry_writes fp [] = []"
| "nack_entry_writes fp (e # es) =
     [(fp, be16 (packet_id e)), (fp + 2, be16 (blp e))] @ nack_entry_writes (fp + kNackFciSize) es"

definition nack_build :: "nack_packet \<Rightarrow> bytes option" where
  "nack_build n =
     writes (header_writes 1 (rtcp_type_code RTPFB) (nack_compute_size n)
       @ [(kRtcpHeaderSize, be32 (nk_sender_ssrc n)), (kRtcpHeaderSize + 4, be32 (nk_media_ssrc n))]
       @ nack_entry_writes (kRtcpHeaderSize + 8) (nk_entries n))
     (replicate (nack_compute_size n) 0)"

section \<open>Layout of the built packets\<close>

definition block_bytes :: "report_block \<Rightarrow> bytes" where
  "block_bytes rb =
     be32 (rb_ssrc rb) @ [fraction_lost rb] @ be24 (cumulative_packets_lost rb AND 0xFFFFFF)
     @ be32 (extended_highest_seq rb) @ be32 (interarrival_jitter rb)
     @ be32 (last_sr_ntp rb) @ be32 (delay_since_last_sr rb)"

definition entry_bytes :: "nack_entry \<Rightarrow> bytes" where
  "entry_bytes e = be16 (packet_id e) @ be16 (blp e)"

definition rtcp_header :: "u8 \<Rightarrow> u8 \<Rightarrow> nat \<Rightarrow> bytes" where
  "rtcp_header rc_or_fmt pt nbytes = [rtcp_byte0 0 rc_or_fmt, pt] @ be16 (of_nat (nbytes div 4 - 1))"

lemma length_block_bytes [simp]: "length (block_bytes rb) = 24"
  by (simp add: block_bytes_def)

lemma length_entry_bytes [simp]: "length (entry_bytes e) = 4"
  by (simp add: entry_bytes_def)

lemma length_rtcp_header [simp]: "length (rtcp_header x pt n) = 4"
  by (simp add: rtcp_header_def)

lemma serialise_report_blocks_consecutive:
  "consecutive p (serialise_report_blocks p rbs)
   \<and> concat (map snd (serialise_report_blocks p rbs)) = concat (map block_bytes rbs)"
proof (induction rbs arbitrary: p)
  case (Cons rb rbs)
  have "consecutive p (serialise_report_block p rb)"
    "concat (map snd (serialise_report_block p rb)) = block_bytes rb"
    by (simp_all add: serialise_report_block_def block_bytes_def)
  with Cons [of "p + 24"] show ?case by (simp add: consecutive_append rtcp_consts)
qed simp

lemma nack_entry_writes_consecutive:
  "consecutive p (nack_entry_writes p es)
   \<and> concat (map snd (nack_entry_writes p es)) = concat (map entry_bytes es)"
proof (induction es arbitrary: p)
  case (Cons e es)
  have eq: "p + 4 = Suc (Suc (Suc (Suc p)))" by simp
  show ?case using Cons [of "p + 4"] by (simp add: entry_bytes_def kNackFciSize_def eq)
qed simp

lemma header_writes_consecutive:
  "consecutive 0 (header_writes x pt n)
   \<and> concat (map snd (header_writes x pt n)) = rtcp_header x pt n"
  by (simp add: header_writes_def rtcp_header_def Let_def)

lemma length_concat_block_bytes [simp]: "length (concat (map block_bytes rbs)) = length rbs * 24"
  by (induction rbs) simp_all

lemma length_concat_entry_bytes [simp]: "length (concat (map entry_bytes es)) = length es * 4"
  by (induction es) simp_all

lemma sr_build_layout:
  "sr_build b = Some (rtcp_header (of_nat (length (sr_blocks b))) 200 (sr_compute_size b)
     @ be32 (sr_ssrc b) @ be64 (sr_ntp_timestamp b) @ be32 (sr_rtp_timestamp b)
     @ be32 (sr_packet_count b) @ be32 (sr_octet_count b) @ concat (map block_bytes (sr_blocks b)))"
  unfolding sr_build_def
  by (subst writes_consecutive [of "[]", simplified])
    (simp_all add: consecutive_append header_writes_consecutive serialise_report_blocks_consecutive
      rtcp_consts sr_compute_size_def)

lemma rr_build_layout:
  "rr_build b = Some (rtcp_header (of_nat (length (rr_blocks b))) 201 (rr_compute_size b)
     @ be32 (rr_ssrc b) @ concat (map block_bytes (rr_blocks b)))"
  unfolding rr_build_def
  by (subst writes_consecutive [of "[]", simplified])
    (simp_all add: consecutive_append header_writes_consecutive serialise_report_blocks_consecutive
      rtcp_consts rr_compute_size_def)

lemma nack_build_layout:
  "nack_build n = Some (rtcp_header 1 205 (nack_compute_size n)
     @ be32 (nk_sender_ssrc n) @ be32 (nk_media_ssrc n) @ concat (map entry_bytes (nk_entries n)))"
  unfolding nack_build_def
  by (subst writes_consecutive [of "[]", simplified])
    (simp_all add: consecutive_append header_writes_consecutive nack_entry_writes_consecutive
      rtcp_consts nack_compute_size_def)

section \<open>Parsing what was built\<close>

lemma rtcp_byte0_bits:
  "drop_bit 6 (rtcp_byte0 0 x) AND 3 = 2" "drop_bit 5 (rtcp_byte0 0 x) AND 1 = 0"
  "rtcp_byte0 0 x AND 0x1F = x AND 0x1F"
  unfolding rtcp_byte0_def by (rule u8_eqI; simp add: bit_simps)+

lemma be64_join:
  "push_bit 32 (ucast (ucast (drop_bit 32 v AND 0xFFFFFFFF) :: u32)) OR ucast (ucast (v AND 0xFFFFFFFF) :: u32) = (v :: u64)"
proof -
  have m: "(0xFFFFFFFF :: u64) = mask 32" by (simp add: mask_eq_exp_minus_1)
  show ?thesis unfolding m
  proof (rule bit_word_eqI, goal_cases)
    case (1 n)
    then show ?case by (cases "32 \<le> n") (auto simp: bit_simps)
  qed
qed

lemma parse_rtcp_header_ok:
  assumes "length body + 4 = n" "4 dvd n" "n div 4 \<le> 65536" "m \<le> n"
  shows "parse_rtcp_header (rtcp_header x pt n @ body) pt m = Some (Inr
    \<lparr>h_version = 2, h_padding = 0, h_rc_or_fmt = x AND 0x1F, h_payload_type = pt,
     h_length_words = of_nat (n div 4 - 1)\<rparr>)"
proof -
  have "unat (of_nat (n div 4 - 1) :: u16) = n div 4 - 1" using assms(3) by (simp add: unat_of_nat)
  moreover have "(n div 4 - 1 + 1) * 4 = n" using assms(1,2) by auto
  ultimately show ?thesis using assms
    by (simp add: parse_rtcp_header_def rtcp_header_def be16_def wire_simps rtcp_consts
        rtcp_byte0_bits codec_simps)
qed

definition lost_fits :: "report_block \<Rightarrow> bool" where
  "lost_fits rb \<longleftrightarrow> - (2 ^ 23) \<le> sint (cumulative_packets_lost rb) \<and> sint (cumulative_packets_lost rb) < 2 ^ 23"

definition lost_24 :: "report_block \<Rightarrow> report_block" where
  "lost_24 rb = rb\<lparr>cumulative_packets_lost := signed_take_bit 23 (cumulative_packets_lost rb)\<rparr>"

lemma low_24: "x AND 0xFFFFFF = take_bit 24 x" for x :: u32
  by (simp add: take_bit_eq_mask mask_eq_exp_minus_1)

lemma sign_extend_24_low: "sign_extend_24 (x AND 0xFFFFFF) = signed_take_bit 23 x"
proof -
  have m: "(0x800000 :: u32) = 2 ^ 23" "(0xFF000000 :: u32) = NOT (mask 24)"
    by (simp_all add: mask_eq_exp_minus_1 not_eq_complement)
  have b: "take_bit 24 x AND 2 ^ 23 \<noteq> 0 \<longleftrightarrow> bit x 23"
    by (subst and_exp_eq_0_iff_not_bit) (simp add: bit_take_bit_iff)
  have n: "n < 24 \<longleftrightarrow> n < 23 \<or> n = 23" for n :: nat by auto
  show ?thesis unfolding sign_extend_24_def low_24 m b
    by (rule bit_word_eqI) (cases "bit x 23"; auto simp: n bit_simps min_def)
qed

lemma lost_24_self: "lost_24 rb = rb \<longleftrightarrow> lost_fits rb"
proof -
  let ?x = "cumulative_packets_lost rb"
  have "lost_24 rb = rb \<longleftrightarrow> signed_take_bit 23 ?x = ?x" by (cases rb) (simp add: lost_24_def)
  also have "\<dots> \<longleftrightarrow> signed_take_bit 23 (sint ?x) = sint ?x"
  proof -
    have "sint (signed_take_bit 23 w) = signed_take_bit 23 (sint w)" for w :: i32
      by (rule bit_eqI) (auto simp: bit_simps min_def)
    then show ?thesis using signed_word_eqI [of "signed_take_bit 23 ?x" ?x] by metis
  qed
  also have "\<dots> \<longleftrightarrow> lost_fits rb" by (simp add: signed_take_bit_int_eq_self_iff lost_fits_def)
  finally show ?thesis .
qed

lemma be24_of_24: "be24_of (ucast (drop_bit 16 v)) (ucast (drop_bit 8 v)) (ucast v) = v AND 0xFFFFFF"
  by (simp add: codec_simps take_bit_eq_mask mask_eq_exp_minus_1)

lemma parse_block_bytes:
  "parse_report_block (pre @ block_bytes rb @ post) (length pre) = Some (lost_24 rb)"
  unfolding block_bytes_def be24_mask
  by (simp add: parse_report_block_def be32_def be24_def wire_simps nth_append codec_simps
      be24_of_24 sign_extend_24_low lost_24_def del: be24_of_be24)

lemma block_bytes_lost_24: "block_bytes (lost_24 rb) = block_bytes rb"
proof -
  have "signed_take_bit 23 x AND 0xFFFFFF = x AND 0xFFFFFF" for x :: u32
  proof -
    have n: "n < 24 \<longleftrightarrow> n < 23 \<or> n = 23" for n :: nat by auto
    show ?thesis unfolding low_24 by (rule bit_word_eqI) (auto simp: n bit_simps min_def)
  qed
  then show ?thesis unfolding block_bytes_def lost_24_def by simp
qed

lemma parse_blocks_bytes:
  "parse_report_blocks (pre @ concat (map block_bytes rbs) @ post) (length pre) (length rbs) = Some (map lost_24 rbs)"
proof -
  have "those (map (\<lambda>i. parse_report_block (pre @ concat (map block_bytes (map lost_24 rbs)) @ post) (length pre + i * 24))
      [0..<length (map lost_24 rbs)]) = Some (map lost_24 rbs)"
    by (rule those_fixed_width) (auto simp: parse_block_bytes, simp add: lost_24_def)
  then show ?thesis
    by (simp add: parse_report_blocks_def kReportBlockSize_def block_bytes_lost_24 o_def)
qed

lemma parse_entries_bytes:
  "those (map (\<lambda>i. parse_nack_entry (pre @ concat (map entry_bytes es) @ post) (length pre + i * 4)) [0..<length es])
    = Some es"
proof (rule those_fixed_width)
  fix pre x post
  show "parse_nack_entry (pre @ entry_bytes x @ post) (length pre) = Some x"
    by (simp add: parse_nack_entry_def entry_bytes_def be16_def wire_simps nth_append codec_simps)
qed simp

lemma rc_field: "n \<le> 31 \<Longrightarrow> unat ((of_nat n :: u8) AND 0x1F) = n"
proof -
  assume n: "n \<le> 31"
  have "(0x1F :: u8) = mask 5" by (simp add: mask_eq_exp_minus_1)
  then have "unat ((of_nat n :: u8) AND 0x1F) = unat (take_bit 5 (of_nat n :: u8))" by (simp only: take_bit_eq_mask)
  also have "\<dots> = take_bit 5 (unat (of_nat n :: u8))" by (rule unsigned_take_bit_eq)
  finally show ?thesis using n by (simp add: take_bit_eq_mod unat_of_nat)
qed

definition sr_wf :: "sender_report \<Rightarrow> bool" where
  "sr_wf b \<longleftrightarrow> length (sr_blocks b) \<le> 31"
definition rr_wf :: "receiver_report \<Rightarrow> bool" where
  "rr_wf b \<longleftrightarrow> length (rr_blocks b) \<le> 31"
definition sr_lost_24 :: "sender_report \<Rightarrow> sender_report" where
  "sr_lost_24 b = b\<lparr>sr_blocks := map lost_24 (sr_blocks b)\<rparr>"
definition rr_lost_24 :: "receiver_report \<Rightarrow> receiver_report" where
  "rr_lost_24 b = b\<lparr>rr_blocks := map lost_24 (rr_blocks b)\<rparr>"
definition nack_wf :: "nack_packet \<Rightarrow> bool" where
  "nack_wf n \<longleftrightarrow> length (nk_entries n) \<le> 65533"

lemma parse_sr_build:
  assumes "sr_wf b" "sr_build b = Some raw"
  shows "parse_sr raw = Some (Inr (sr_lost_24 b))"
proof -
  let ?n = "length (sr_blocks b)" and ?blocks = "concat (map block_bytes (sr_blocks b))"
  define body where "body = be32 (sr_ssrc b) @ be64 (sr_ntp_timestamp b) @ be32 (sr_rtp_timestamp b)
     @ be32 (sr_packet_count b) @ be32 (sr_octet_count b) @ ?blocks"
  have raw: "raw = rtcp_header (of_nat ?n) 200 (sr_compute_size b) @ body"
    using assms(2) by (simp add: sr_build_layout body_def)
  have len: "length raw = sr_compute_size b" "length body + 4 = sr_compute_size b"
    by (simp_all add: raw body_def sr_compute_size_def rtcp_consts)
  have h: "parse_rtcp_header raw 200 28 = Some (Inr
    \<lparr>h_version = 2, h_padding = 0, h_rc_or_fmt = of_nat ?n AND 0x1F, h_payload_type = 200,
     h_length_words = of_nat (sr_compute_size b div 4 - 1)\<rparr>)"
    unfolding raw by (rule parse_rtcp_header_ok [OF len(2)])
      (use assms(1) in \<open>auto simp: sr_compute_size_def rtcp_consts sr_wf_def\<close>)
  have n: "unat ((of_nat ?n :: u8) AND 0x1F) = ?n" "\<not> ((of_nat ?n :: u8) AND 0x1F > 31)"
    using rc_field [of ?n] assms(1) by (auto simp: sr_wf_def word_less_nat_alt)
  have blocks: "parse_report_blocks raw 28 ?n = Some (map lost_24 (sr_blocks b))"
    using parse_blocks_bytes [of "take 28 raw" "sr_blocks b" "[]"] assms(1)
    by (simp add: raw body_def sr_wf_def)
  have reads: "rd_be32 raw 4 = Some (sr_ssrc b)"
     "rd_be32 raw 8 = Some (ucast (drop_bit 32 (sr_ntp_timestamp b) AND 0xFFFFFFFF))"
     "rd_be32 raw 12 = Some (ucast (sr_ntp_timestamp b AND 0xFFFFFFFF))"
     "rd_be32 raw 16 = Some (sr_rtp_timestamp b)"
     "rd_be32 raw 20 = Some (sr_packet_count b)"
     "rd_be32 raw 24 = Some (sr_octet_count b)"
    by (simp_all add: raw body_def rtcp_header_def be16_def be32_def be64_def wire_simps codec_simps)
  show ?thesis
    using h n len(1)
    by (simp add: parse_sr_def rtcp_consts reads blocks be64_join sr_compute_size_def sr_lost_24_def)
qed


lemma parse_rr_build:
  assumes "rr_wf b" "rr_build b = Some raw"
  shows "parse_rr raw = Some (Inr (rr_lost_24 b))"
proof -
  let ?n = "length (rr_blocks b)" and ?blocks = "concat (map block_bytes (rr_blocks b))"
  define body where "body = be32 (rr_ssrc b) @ ?blocks"
  have raw: "raw = rtcp_header (of_nat ?n) 201 (rr_compute_size b) @ body"
    using assms(2) by (simp add: rr_build_layout body_def)
  have len: "length raw = rr_compute_size b" "length body + 4 = rr_compute_size b"
    by (simp_all add: raw body_def rr_compute_size_def rtcp_consts)
  have h: "parse_rtcp_header raw 201 8 = Some (Inr
    \<lparr>h_version = 2, h_padding = 0, h_rc_or_fmt = of_nat ?n AND 0x1F, h_payload_type = 201,
     h_length_words = of_nat (rr_compute_size b div 4 - 1)\<rparr>)"
    unfolding raw by (rule parse_rtcp_header_ok [OF len(2)])
      (use assms(1) in \<open>auto simp: rr_compute_size_def rtcp_consts rr_wf_def\<close>)
  have n: "unat ((of_nat ?n :: u8) AND 0x1F) = ?n" "\<not> ((of_nat ?n :: u8) AND 0x1F > 31)"
    using rc_field [of ?n] assms(1) by (auto simp: rr_wf_def word_less_nat_alt)
  have blocks: "parse_report_blocks raw 8 ?n = Some (map lost_24 (rr_blocks b))"
    using parse_blocks_bytes [of "take 8 raw" "rr_blocks b" "[]"] assms(1)
    by (simp add: raw body_def rr_wf_def)
  have "rd_be32 raw 4 = Some (rr_ssrc b)"
    by (simp add: raw body_def rtcp_header_def be16_def be32_def wire_simps codec_simps)
  then show ?thesis
    using h n len(1) by (simp add: parse_rr_def rtcp_consts blocks rr_compute_size_def rr_lost_24_def)
qed

lemma parse_nack_build:
  assumes "nack_wf n" "nack_build n = Some raw"
  shows "parse_nack raw = Some (Inr n)"
proof -
  let ?n = "length (nk_entries n)" and ?es = "concat (map entry_bytes (nk_entries n))"
  define body where "body = be32 (nk_sender_ssrc n) @ be32 (nk_media_ssrc n) @ ?es"
  have raw: "raw = rtcp_header 1 205 (nack_compute_size n) @ body"
    using assms(2) by (simp add: nack_build_layout body_def)
  have len: "length raw = nack_compute_size n" "length body + 4 = nack_compute_size n"
    by (simp_all add: raw body_def nack_compute_size_def rtcp_consts)
  have h: "parse_rtcp_header raw 205 12 = Some (Inr
    \<lparr>h_version = 2, h_padding = 0, h_rc_or_fmt = 1 AND 0x1F, h_payload_type = 205,
     h_length_words = of_nat (nack_compute_size n div 4 - 1)\<rparr>)"
    unfolding raw by (rule parse_rtcp_header_ok [OF len(2)])
      (use assms(1) in \<open>auto simp: nack_compute_size_def rtcp_consts nack_wf_def\<close>)
  have es: "those (map (\<lambda>i. parse_nack_entry raw (12 + i * 4)) [0..<?n]) = Some (nk_entries n)"
    using parse_entries_bytes [of "take 12 raw" "nk_entries n" "[]"]
    by (simp add: raw body_def)
  have "rd_be32 raw 4 = Some (nk_sender_ssrc n)" "rd_be32 raw 8 = Some (nk_media_ssrc n)"
    by (simp_all add: raw body_def rtcp_header_def be16_def be32_def wire_simps codec_simps)
  then show ?thesis
    using h len(1) by (simp add: parse_nack_def rtcp_consts es nack_compute_size_def)
qed

lemma parse_rtcp_header_safe: "parse_rtcp_header raw pt m \<noteq> None"
  by (cases "raw = []") (auto simp: parse_rtcp_header_def wire_simps rtcp_consts Let_def)

lemma parse_rtcp_header_len: "parse_rtcp_header raw pt m = Some (Inr h) \<Longrightarrow> m \<le> length raw"
  by (cases "raw = []") (auto simp: parse_rtcp_header_def wire_simps rtcp_consts Let_def split: if_splits)

lemma parse_report_blocks_safe: "bp + rc * 24 \<le> length raw \<Longrightarrow> parse_report_blocks raw bp rc \<noteq> None"
proof -
  assume a: "bp + rc * 24 \<le> length raw"
  have "parse_report_block raw (bp + i * 24) = Some (the (parse_report_block raw (bp + i * 24)))" if "i < rc" for i
  proof -
    have "i * 24 + 24 \<le> rc * 24" using that by simp
    with a have "bp + i * 24 + 24 \<le> length raw" by linarith
    then show ?thesis by (simp add: parse_report_block_def wire_simps)
  qed
  then show ?thesis unfolding parse_report_blocks_def kReportBlockSize_def
    by (subst those_map_Some [where g = "\<lambda>i. the (parse_report_block raw (bp + i * 24))"]) auto
qed

lemma parse_nack_entries_safe:
  "12 \<le> length raw \<Longrightarrow> those (map (\<lambda>i. parse_nack_entry raw (12 + i * 4)) [0..<(length raw - 12) div 4]) \<noteq> None"
proof -
  assume a: "12 \<le> length raw"
  have "parse_nack_entry raw (12 + i * 4) = Some (the (parse_nack_entry raw (12 + i * 4)))"
    if "i < (length raw - 12) div 4" for i
  proof -
    have "12 + i * 4 + 4 \<le> length raw" using that a by linarith
    then show ?thesis by (simp add: parse_nack_entry_def wire_simps)
  qed
  then show ?thesis
    by (subst those_map_Some [where g = "\<lambda>i. the (parse_nack_entry raw (12 + i * 4))"]) auto
qed

interpretation sr: wire_codec sr_wf sr_build parse_sr sr_lost_24
  by unfold_locales (simp_all add: sr_build_layout parse_sr_build)

interpretation rr: wire_codec rr_wf rr_build parse_rr rr_lost_24
  by unfold_locales (simp_all add: rr_build_layout parse_rr_build)

interpretation nack: wire_codec nack_wf nack_build parse_nack "\<lambda>n. n"
  by unfold_locales (simp_all add: nack_build_layout parse_nack_build)

lemma fold_sr_add_report_block:
  "length (sr_blocks b) \<le> 31 \<Longrightarrow>
     fold sr_add_report_block rbs b = b\<lparr>sr_blocks := take 31 (sr_blocks b @ rbs)\<rparr>"
proof (induction rbs arbitrary: b)
  case (Cons rb rbs)
  show ?case
    by (cases "length (sr_blocks b) \<ge> 31") (use Cons in \<open>simp_all add: take_Cons' sr_add_report_block_def\<close>)
qed simp

lemma fold_rr_add_report_block:
  "length (rr_blocks b) \<le> 31 \<Longrightarrow>
     fold rr_add_report_block rbs b = b\<lparr>rr_blocks := take 31 (rr_blocks b @ rbs)\<rparr>"
proof (induction rbs arbitrary: b)
  case (Cons rb rbs)
  show ?case
    by (cases "length (rr_blocks b) \<ge> 31") (use Cons in \<open>simp_all add: take_Cons' rr_add_report_block_def\<close>)
qed simp

lemma fold_nack_add_entry:
  "fold (\<lambda>e. nack_add_entry (packet_id e) (blp e)) es n = n\<lparr>nk_entries := nk_entries n @ es\<rparr>"
  by (induction es arbitrary: n) (simp_all add: nack_add_entry_def)

section \<open>Properties\<close>

text \<open>
  C19: whatever report blocks the caller adds, \<^verbatim>\<open>SrBuilder\<close> and \<^verbatim>\<open>RrBuilder\<close> keep the first
  31 of them, build without writing outside the packet, and \<^verbatim>\<open>parse_sr\<close>/\<^verbatim>\<open>parse_rr\<close> read the
  report back field for field, except that the cumulative loss of a block comes back as its low
  24 bits, sign-extended; a block therefore comes back unchanged exactly when that loss lies
  from \<open>- 2 ^ 23\<close> to \<open>2 ^ 23 - 1\<close>.
\<close>

theorem rtcp_report_roundtrip:
  "(\<exists>raw. sr_build (fold sr_add_report_block rbs (s\<lparr>sr_blocks := []\<rparr>)) = Some raw
      \<and> parse_sr raw = Some (Inr (s\<lparr>sr_blocks := map lost_24 (take 31 rbs)\<rparr>)))
   \<and> (\<exists>raw. rr_build (fold rr_add_report_block rbs (r\<lparr>rr_blocks := []\<rparr>)) = Some raw
      \<and> parse_rr raw = Some (Inr (r\<lparr>rr_blocks := map lost_24 (take 31 rbs)\<rparr>)))
   \<and> (lost_24 rb = rb \<longleftrightarrow> - (2 ^ 23) \<le> sint (cumulative_packets_lost rb) \<and> sint (cumulative_packets_lost rb) < 2 ^ 23)"
  using sr.roundtrip [of "s\<lparr>sr_blocks := take 31 rbs\<rparr>"]
    rr.roundtrip [of "r\<lparr>rr_blocks := take 31 rbs\<rparr>"] lost_24_self [of rb]
  by (simp add: fold_sr_add_report_block fold_rr_add_report_block sr_wf_def rr_wf_def sr_lost_24_def rr_lost_24_def lost_fits_def)

definition sample_block :: report_block where
  "sample_block = \<lparr>rb_ssrc = 7, fraction_lost = 12, cumulative_packets_lost = - 3,
     extended_highest_seq = 70000, interarrival_jitter = 5, last_sr_ntp = 1, delay_since_last_sr = 2\<rparr>"

theorem rtcp_report_roundtrip_witness:
  "\<exists>raw. sr_build (fold sr_add_report_block [sample_block] new_sr) = Some raw
     \<and> parse_sr raw = Some (Inr (new_sr\<lparr>sr_blocks := [sample_block]\<rparr>))"
proof -
  have "lost_24 sample_block = sample_block"
    using rtcp_report_roundtrip [where rb = sample_block] by (simp add: sample_block_def)
  with rtcp_report_roundtrip [of "[sample_block]" new_sr] show ?thesis by (simp add: new_sr_def)
qed

text \<open>
  A generic NACK with any list of (packet id, bitmask) entries that fits the 16-bit
  length field is built in bounds and parsed back unchanged.
\<close>

theorem rtcp_nack_roundtrip:
  "length es \<le> 65533 \<Longrightarrow>
   \<exists>raw. nack_build (fold (\<lambda>e. nack_add_entry (packet_id e) (blp e)) es (n\<lparr>nk_entries := []\<rparr>)) = Some raw
     \<and> parse_nack raw = Some (Inr (n\<lparr>nk_entries := es\<rparr>))"
  using nack.roundtrip [of "n\<lparr>nk_entries := es\<rparr>"] by (simp add: fold_nack_add_entry nack_wf_def)

theorem rtcp_nack_roundtrip_witness:
  "\<exists>raw. nack_build (nack_add_entry 17 0x8001 new_nack) = Some raw
     \<and> parse_nack raw = Some (Inr (new_nack\<lparr>nk_entries := [\<lparr>packet_id = 17, blp = 0x8001\<rparr>]\<rparr>))"
  using rtcp_nack_roundtrip [of "[\<lparr>packet_id = 17, blp = 0x8001\<rparr>]" new_nack] by (simp add: new_nack_def)

text \<open>
  C18: on every input, hostile or not, the RTCP parsers read only inside the buffer: they
  return a report or an error, never perform an out-of-range access.
\<close>

theorem rtcp_parse_memory_safe:
  "parse_sr raw \<noteq> None \<and> parse_rr raw \<noteq> None \<and> parse_nack raw \<noteq> None"
proof -
  note s = rtcp_consts wire_simps Let_def bind_Some_defined
  have "parse_sr raw \<noteq> None"
    using parse_rtcp_header_safe [of raw 200 28] parse_report_blocks_safe [of 28 _ raw]
    by (auto simp: parse_sr_def s split: sum.splits)
  moreover have "parse_rr raw \<noteq> None"
    using parse_rtcp_header_safe [of raw 201 8] parse_report_blocks_safe [of 8 _ raw]
    by (auto simp: parse_rr_def s split: sum.splits)
  moreover have "parse_nack raw \<noteq> None"
    using parse_rtcp_header_safe [of raw 205 12] parse_nack_entries_safe [of raw]
    by (auto simp: parse_nack_def s split: sum.splits)
  ultimately show ?thesis by blast
qed

end
