(* ===== verification/Rtcp_Transport_Cc.thy ===== *)
theory Rtcp_Transport_Cc
  imports Rtcp
begin

text \<open>
  Transport-wide congestion-control feedback: \<^verbatim>\<open>Parser::parse_transport_cc\<close> of
  \<^verbatim>\<open>src/modules/rtp/src/parser.cpp\<close>. A \<^verbatim>\<open>PacketStatus\<close> is kept as the byte the C++ enum
  stores (the parser casts two raw bits to it, so the value 3 occurs although the enum
  names only 0, 1 and 2). The accesses \<^verbatim>\<open>symbols[i]\<close> and \<^verbatim>\<open>deltas[i]\<close> are checked like the
  accesses to the packet.
\<close>

section \<open>Data\<close>

type_synonym packet_status = u8

definition NotReceived :: packet_status where "NotReceived = 0"
definition Received :: packet_status where "Received = 1"
definition ReceivedSmall :: packet_status where "ReceivedSmall = 2"

record transport_cc_packet_status =
  status :: packet_status
  delta_250us :: i16

record transport_cc_feedback =
  cc_sender_ssrc :: u32
  cc_media_ssrc :: u32
  cc_base_seq :: u16
  cc_packet_status_count :: u16
  cc_reference_time_24mhz :: u32
  cc_packets :: "transport_cc_packet_status list"

section \<open>Vector chunks: the packed status list\<close>

text \<open>
  The inner loop over the symbols of one byte, from bit offset \<open>m\<close>; the result is the
  extended symbol list and \<open>bits_read\<close>.
\<close>

function unpack_byte ::
  "nat \<Rightarrow> nat \<Rightarrow> u8 \<Rightarrow> nat \<Rightarrow> packet_status list \<Rightarrow> nat \<Rightarrow> packet_status list \<times> nat" where
  "unpack_byte sym_bits total_bits byte m symbols bits_read =
     (if sym_bits = 0 then (symbols, bits_read)
      else if m < 8 \<and> bits_read < total_bits then
        (let bits = (if sym_bits = 1 then drop_bit (7 - m) byte AND 0x1
                     else drop_bit (6 - m) byte AND 0x3)
         in unpack_byte sym_bits total_bits byte (m + sym_bits) (symbols @ [bits]) (bits_read + sym_bits))
      else (symbols, bits_read))"
  by pat_completeness auto
termination by (relation "measure (\<lambda>(sb, t, b, m, s, r). 8 - m)") auto

text \<open>
  The loop over the bytes of the status list. The C++ loop has no guard on \<^verbatim>\<open>sym_bits\<close>: it
  is 1 or 2, so every byte read makes progress.
\<close>

function read_symbols ::
  "bytes \<Rightarrow> nat \<Rightarrow> nat \<Rightarrow> nat \<Rightarrow> packet_status list \<Rightarrow> nat \<Rightarrow> (packet_status list \<times> nat) option" where
  "read_symbols raw sym_bits total_bits off symbols bits_read =
     (if bits_read < total_bits then
        (if off \<ge> length raw then Some (symbols, off)
         else do {
           byte \<leftarrow> rd raw off;
           let (symbols, bits_read) = unpack_byte sym_bits total_bits byte 0 symbols bits_read;
           read_symbols raw sym_bits total_bits (off + 1) symbols bits_read
         })
      else Some (symbols, off))"
  by pat_completeness auto
termination by (relation "measure (\<lambda>(raw, sb, t, off, s, r). length raw - off)") auto

section \<open>Vector chunks: the receive deltas\<close>

text \<open>\<^verbatim>\<open>while (bits_left < 14) { ... }\<close>: state \<open>(off, bits_left, acc)\<close>.\<close>

function fill_acc :: "bytes \<Rightarrow> nat \<Rightarrow> nat \<Rightarrow> u32 \<Rightarrow> (nat \<times> nat \<times> u32) option" where
  "fill_acc raw off bits_left acc =
     (if bits_left < 14 then
        (if off \<ge> length raw then Some (length raw, bits_left, acc)
         else do {
           b \<leftarrow> rd raw off;
           fill_acc raw (off + 1) (bits_left + 8) (push_bit 8 acc OR ucast b)
         })
      else Some (off, bits_left, acc))"
  by pat_completeness auto
termination by (relation "measure (\<lambda>(raw, off, bl, acc). 14 - bl)") auto

definition sign_extend_14 :: "u32 \<Rightarrow> i16" where
  "sign_extend_14 delta14 =
     ucast (if delta14 AND 0x2000 \<noteq> 0 then delta14 OR 0xFFFFC000 else delta14)"

text \<open>
  The loop over the symbols, \<open>i\<close> counting up to \<open>symbol_count\<close>; the result is the delta
  list and the read offset.
\<close>

function read_deltas ::
  "bytes \<Rightarrow> packet_status list \<Rightarrow> nat \<Rightarrow> nat \<Rightarrow> nat \<Rightarrow> nat \<Rightarrow> u32 \<Rightarrow> i16 list
     \<Rightarrow> (i16 list \<times> nat) option" where
  "read_deltas raw symbols symbol_count i off bits_left acc deltas =
     (if i < symbol_count then do {
        (off, bits_left, acc) \<leftarrow> fill_acc raw off bits_left acc;
        if bits_left < 14 then
          read_deltas raw symbols symbol_count (i + 1) off bits_left acc (deltas @ [0])
        else do {
          let delta14 = drop_bit (bits_left - 14) acc AND 0x3FFF;
          let bits_left = bits_left - 14;
          let acc = acc AND (if bits_left = 0 then 0 else push_bit bits_left 1 - 1);
          s \<leftarrow> at_index symbols i;
          read_deltas raw symbols symbol_count (i + 1) off bits_left acc
            (deltas @ [if s = NotReceived then 0 else sign_extend_14 delta14])
        }
      } else Some (deltas, off))"
  by pat_completeness auto
termination by (relation "measure (\<lambda>(raw, s, n, i, off, bl, acc, ds). n - i)") auto

section \<open>The chunk loop\<close>

text \<open>The final loop of a vector chunk: pushes at most up to \<open>psc\<close> packets.\<close>

function push_symbols ::
  "nat \<Rightarrow> bool \<Rightarrow> packet_status list \<Rightarrow> i16 list \<Rightarrow> nat
     \<Rightarrow> transport_cc_packet_status list \<Rightarrow> transport_cc_packet_status list option" where
  "push_symbols psc s_bit symbols deltas i packets =
     (if i < length symbols \<and> length packets < psc then do {
        s \<leftarrow> at_index symbols i;
        d \<leftarrow> (if s_bit then at_index deltas i else Some 0);
        push_symbols psc s_bit symbols deltas (i + 1) (packets @ [\<lparr>status = s, delta_250us = d\<rparr>])
      } else Some packets)"
  by pat_completeness auto
termination by (relation "measure (\<lambda>(psc, sb, s, d, i, p). length s - i)") auto

text \<open>A run-length chunk: \<^verbatim>\<open>run\<close> packets of one status, capped at \<open>psc\<close>.\<close>

definition push_run ::
  "nat \<Rightarrow> u16 \<Rightarrow> transport_cc_packet_status list \<Rightarrow> transport_cc_packet_status list" where
  "push_run psc word packets =
     packets @ replicate (min (unat (word AND 0x1FFF)) (psc - length packets))
       \<lparr>status = ucast (drop_bit 13 word AND 0x3), delta_250us = 0\<rparr>"

text \<open>One vector chunk: the packets and the offset after it.\<close>

definition vector_chunk ::
  "bytes \<Rightarrow> nat \<Rightarrow> u16 \<Rightarrow> nat \<Rightarrow> transport_cc_packet_status list
     \<Rightarrow> (transport_cc_packet_status list \<times> nat) option" where
  "vector_chunk raw psc word off packets = do {
     let s_bit = bit word 14;
     let symbol_count = unat (word AND 0x3FFF);
     let sym_bits = (if s_bit then 2 else 1);
     (symbols, off) \<leftarrow> read_symbols raw sym_bits (symbol_count * sym_bits) off [] 0;
     (deltas, off) \<leftarrow> (if s_bit then read_deltas raw symbols symbol_count 0 off 0 0 []
                        else Some ([], off));
     packets \<leftarrow> push_symbols psc s_bit symbols deltas 0 packets;
     Some (packets, off)
   }"

declare unpack_byte.simps [simp del] read_symbols.simps [simp del] fill_acc.simps [simp del]
  read_deltas.simps [simp del] push_symbols.simps [simp del]


section \<open>Every loop stays inside its buffers\<close>

lemma unpack_byte_count:
  assumes "unpack_byte sb t byte m syms r = (syms', r')" "r = length syms * sb" "t = n * sb"
    "length syms \<le> n"
  shows "r' = length syms' * sb \<and> length syms \<le> length syms' \<and> length syms' \<le> n"
  using assms
proof (induction sb t byte m syms r rule: unpack_byte.induct)
  case (1 sb t byte m syms r)
  show ?case
  proof (cases "sb \<noteq> 0 \<and> m < 8 \<and> r < t")
    case True
    let ?x = "if sb = 1 then drop_bit (7 - m) byte AND 1 else drop_bit (6 - m) byte AND 3"
    have "unpack_byte sb t byte (m + sb) (syms @ [?x]) (r + sb) = (syms', r')"
      using True 1(2) by (subst (asm) unpack_byte.simps) (simp add: Let_def)
    moreover have "length (syms @ [?x]) \<le> n" using True 1(3,4) by simp
    ultimately show ?thesis using 1(1) [OF _ _ refl] True 1(3,4) by fastforce
  next
    case False
    then show ?thesis using 1(2-5) by (subst (asm) unpack_byte.simps) (auto split: if_splits)
  qed
qed

lemma read_symbols_ok:
  assumes "off \<le> length raw" "r = length syms * sb" "t = n * sb" "length syms \<le> n" "0 < sb"
  shows "\<exists>syms' off'. read_symbols raw sb t off syms r = Some (syms', off')
    \<and> off \<le> off' \<and> off' \<le> length raw \<and> length syms' \<le> n
    \<and> (length syms' = n \<or> off' = length raw)"
  using assms
proof (induction raw sb t off syms r rule: read_symbols.induct)
  case (1 raw sb t off syms r)
  show ?case
  proof (cases "r < t \<and> off < length raw")
    case True
    obtain syms1 r1 where u: "unpack_byte sb t (raw ! off) 0 syms r = (syms1, r1)" by fastforce
    note c = unpack_byte_count [OF u 1(3-5)]
    have "\<exists>syms' off'. read_symbols raw sb t (off + 1) syms1 r1 = Some (syms', off')
       \<and> off + 1 \<le> off' \<and> off' \<le> length raw \<and> length syms' \<le> n \<and> (length syms' = n \<or> off' = length raw)"
      by (rule 1(1) [of "raw ! off" "(syms1, r1)"]) (use True u c 1(4,6) in \<open>auto simp: wire_simps\<close>)
    moreover have "read_symbols raw sb t off syms r = read_symbols raw sb t (off + 1) syms1 r1"
      using True u by (subst read_symbols.simps) (simp add: wire_simps)
    ultimately show ?thesis by auto
  next
    case False
    then have "read_symbols raw sb t off syms r = Some (syms, off)"
      by (subst read_symbols.simps) auto
    then show ?thesis using 1(2-6) False by auto
  qed
qed

lemma fill_acc_ok:
  assumes "off \<le> length raw"
  shows "\<exists>off' bl' acc'. fill_acc raw off bl acc = Some (off', bl', acc') \<and> off \<le> off' \<and> off' \<le> length raw
    \<and> (bl < 14 \<and> off = length raw \<longrightarrow> off' = off \<and> bl' = bl)"
  using assms
proof (induction raw off bl acc rule: fill_acc.induct)
  case (1 raw off bl acc)
  show ?case
  proof (cases "bl < 14 \<and> off < length raw")
    case True
    then have "fill_acc raw off bl acc = fill_acc raw (off + 1) (bl + 8) (push_bit 8 acc OR ucast (raw ! off))"
      by (subst fill_acc.simps) (simp add: wire_simps)
    then show ?thesis using 1(1) [of "raw ! off"] True by (fastforce simp: wire_simps)
  next
    case False
    then show ?thesis using 1(2) by (auto simp: fill_acc.simps [of raw off bl])
  qed
qed

lemma read_deltas_ok:
  assumes "off \<le> length raw" "n \<le> length syms \<or> off = length raw \<and> bl < 14" "i \<le> n" "length ds = i"
  shows "\<exists>ds' off'. read_deltas raw syms n i off bl acc ds = Some (ds', off')
    \<and> off \<le> off' \<and> off' \<le> length raw \<and> length ds' = n"
  using assms
proof (induction "n - i" arbitrary: i off bl acc ds)
  case 0
  then show ?case by (subst read_deltas.simps) simp
next
  case (Suc k)
  then have i: "i < n" "k = n - (i + 1)" by auto
  obtain off1 bl1 acc1 where f: "fill_acc raw off bl acc = Some (off1, bl1, acc1)"
    and b: "off \<le> off1" "off1 \<le> length raw" "bl < 14 \<and> off = length raw \<longrightarrow> off1 = off \<and> bl1 = bl"
    using fill_acc_ok [OF Suc(3)] by blast
  obtain bl2 acc2 d where
    step: "read_deltas raw syms n i off bl acc ds = read_deltas raw syms n (i + 1) off1 bl2 acc2 (ds @ [d])"
    and c: "n \<le> length syms \<or> off1 = length raw \<and> bl2 < 14"
  proof (cases "bl1 < 14")
    case True
    then show ?thesis using i f b Suc(4)
      by (intro that [of bl1 acc1 0]) (auto simp: read_deltas.simps [of raw syms n i])
  next
    case False
    then have "n \<le> length syms" using Suc(4) b by auto
    then show ?thesis using i f False
      by (intro that) (auto simp: read_deltas.simps [of raw syms n i] wire_simps Let_def)
  qed
  show ?case
    using Suc.hyps(1) [OF i(2) b(2) c, of "ds @ [d]" acc2] i b Suc.prems(4) unfolding step by fastforce
qed

lemma push_symbols_ok:
  assumes "s_bit \<longrightarrow> length syms \<le> length ds" "length ps \<le> psc"
  shows "\<exists>ps'. push_symbols psc s_bit syms ds i ps = Some ps' \<and> length ps' \<le> psc"
  using assms
proof (induction psc s_bit syms ds i ps rule: push_symbols.induct)
  case (1 psc s_bit syms ds i ps)
  show ?case
    using 1(1) [of "syms ! i" "if s_bit then ds ! i else 0"] 1(2,3)
    by (cases "i < length syms \<and> length ps < psc"; cases s_bit)
      (auto simp add: push_symbols.simps [of psc _ syms ds i ps] wire_simps)
qed

lemma vector_chunk_ok:
  assumes "off \<le> length raw" "length ps \<le> psc"
  shows "\<exists>ps' off'. vector_chunk raw psc word off ps = Some (ps', off')
    \<and> off \<le> off' \<and> length ps' \<le> psc"
proof -
  let ?n = "unat (word AND 0x3FFF)" and ?sb = "if bit word 14 then 2 else 1 :: nat"
  have sb: "0 < ?sb" "0 = length ([] :: packet_status list) * ?sb" by simp_all
  obtain syms off1 where s: "read_symbols raw ?sb (?n * ?sb) off [] 0 = Some (syms, off1)"
    and o1: "off \<le> off1" "off1 \<le> length raw" "length syms \<le> ?n" "length syms = ?n \<or> off1 = length raw"
    using read_symbols_ok [OF assms(1) sb(2) refl _ sb(1), of ?n] by auto
  obtain ds off2 where d: "(if bit word 14 then read_deltas raw syms ?n 0 off1 0 0 [] else Some ([], off1))
      = Some (ds, off2)"
    and o2: "off1 \<le> off2" "bit word 14 \<longrightarrow> length ds = ?n"
    using read_deltas_ok [OF o1(2), of ?n syms 0 0 "[]" 0] o1(4) by (cases "bit word 14") auto
  obtain ps' where "push_symbols psc (bit word 14) syms ds 0 ps = Some ps'" "length ps' \<le> psc"
    using push_symbols_ok [of "bit word 14" syms ds ps psc 0] o1(3) o2(2) assms(2) by auto
  then show ?thesis using s d o1(1) o2(1) by (simp add: vector_chunk_def Let_def)
qed

section \<open>The chunk loop and the parser\<close>

text \<open>
  \<^verbatim>\<open>while (f.packets.size() < f.packet_status_count && off + 2 <= raw.size())\<close>; it ends because
  every chunk consumes at least its two header bytes.
\<close>

function read_chunks ::
  "bytes \<Rightarrow> nat \<Rightarrow> nat \<Rightarrow> transport_cc_packet_status list \<Rightarrow> transport_cc_packet_status list option" where
  "read_chunks raw psc off packets =
     (if length packets < psc \<and> off + 2 \<le> length raw then do {
        word \<leftarrow> rd_be16 raw off;
        if \<not> bit word 15 then read_chunks raw psc (off + 2) (push_run psc word packets)
        else do {
          (packets, off) \<leftarrow> vector_chunk raw psc word (off + 2) packets;
          read_chunks raw psc off packets
        }
      } else Some packets)"
  by pat_completeness auto
termination
proof (relation "measure (\<lambda>(raw, psc, off, ps). length raw - off)", goal_cases)
  case (3 raw psc off packets word r ps' off')
  then show ?case using vector_chunk_ok [of "off + 2" raw packets psc word] by auto
qed auto

declare read_chunks.simps [simp del]

definition parse_transport_cc :: "bytes \<Rightarrow> transport_cc_feedback result option" where
  "parse_transport_cc raw = do {
     h \<leftarrow> parse_rtcp_header raw (rtcp_type_code RTPFB) (kRtcpHeaderSize + 16);
     case h of
       Inl e \<Rightarrow> Some (Inl e)
     | Inr h \<Rightarrow>
         if h_rc_or_fmt h \<noteq> 15 then Some (Inl ProtocolError)
         else if length raw < kRtcpHeaderSize + 16 then Some (Inl ProtocolError)
         else do {
           sender \<leftarrow> rd_be32 raw kRtcpHeaderSize;
           media \<leftarrow> rd_be32 raw (kRtcpHeaderSize + 4);
           base \<leftarrow> rd_be16 raw (kRtcpHeaderSize + 8);
           psc \<leftarrow> rd_be16 raw (kRtcpHeaderSize + 10);
           ref \<leftarrow> rd_be24 raw (kRtcpHeaderSize + 12);
           packets \<leftarrow> read_chunks raw (unat psc) (kRtcpHeaderSize + 16) [];
           Some (Inr \<lparr>cc_sender_ssrc = sender, cc_media_ssrc = media, cc_base_seq = base,
             cc_packet_status_count = psc, cc_reference_time_24mhz = ref, cc_packets = packets\<rparr>)
         }
   }"


lemma push_run_le: "length ps \<le> psc \<Longrightarrow> length (push_run psc word ps) \<le> psc"
  by (simp add: push_run_def)

lemma read_chunks_ok:
  "length ps \<le> psc \<Longrightarrow> \<exists>ps'. read_chunks raw psc off ps = Some ps' \<and> length ps' \<le> psc"
proof (induction raw psc off ps rule: read_chunks.induct)
  case (1 raw psc off ps)
  show ?case
  proof (cases "length ps < psc \<and> off + 2 \<le> length raw")
    case True
    let ?w = "be16_of (raw ! off) (raw ! (off + 1))"
    have w: "rd_be16 raw off = Some ?w" using True by (simp add: wire_simps)
    note step = read_chunks.simps [of raw psc off ps]
    show ?thesis
    proof (cases "bit ?w 15")
      case vec: True
      obtain ps1 off1 where v: "vector_chunk raw psc ?w (off + 2) ps = Some (ps1, off1)" "length ps1 \<le> psc"
        using vector_chunk_ok [of "off + 2" raw ps psc ?w] True 1(3) by auto
      then have "read_chunks raw psc off ps = read_chunks raw psc off1 ps1"
        using True vec w by (simp add: step)
      then show ?thesis using 1(2) [OF True w _ v(1) refl v(2)] vec by simp
    next
      case False
      then have "read_chunks raw psc off ps = read_chunks raw psc (off + 2) (push_run psc ?w ps)"
        using True w by (simp add: step)
      then show ?thesis using 1(1) [OF True w] False push_run_le [OF 1(3)] by simp
    qed
  next
    case False
    then show ?thesis using 1(3) by (subst read_chunks.simps) auto
  qed
qed

text \<open>
  C27: \<^verbatim>\<open>parse_transport_cc\<close> ends on every input without an out-of-range access to the packet,
  to \<^verbatim>\<open>symbols\<close> or to \<^verbatim>\<open>deltas\<close> (the delta loop reads \<^verbatim>\<open>symbols[i]\<close> up to the announced count,
  which a truncated status list does not reach), and never reports more packets than the
  packet announces.
\<close>

theorem transport_cc_safe:
  "\<exists>r. parse_transport_cc raw = Some r
     \<and> (\<forall>f. r = Inr f \<longrightarrow> length (cc_packets f) \<le> unat (cc_packet_status_count f))"
proof (cases "parse_rtcp_header raw 205 20")
  case (Some h)
  show ?thesis
  proof (cases h)
    case (Inr info)
    show ?thesis
    proof (cases "h_rc_or_fmt info \<noteq> 15 \<or> length raw < 20")
      case False
      then obtain ps where "read_chunks raw (unat (be16_of (raw ! 14) (raw ! 15))) 20 [] = Some ps"
        "length ps \<le> unat (be16_of (raw ! 14) (raw ! 15))"
        using read_chunks_ok [of "[]" "unat (be16_of (raw ! 14) (raw ! 15))" raw 20] by auto
      then show ?thesis using Some Inr False
        by (simp add: parse_transport_cc_def rtcp_consts wire_simps)
    qed (use Some Inr in \<open>auto simp: parse_transport_cc_def rtcp_consts\<close>)
  qed (simp add: parse_transport_cc_def rtcp_consts Some)
qed (simp add: parse_rtcp_header_safe)

theorem transport_cc_safe_witness:
  "\<exists>f. parse_transport_cc [0x8F, 205, 0, 4, 0, 0, 0, 1, 0, 0, 0, 2, 0, 100, 0, 3, 0, 0, 9, 0] = Some (Inr f)
     \<and> length (cc_packets f) \<le> unat (cc_packet_status_count f)"
proof -
  let ?raw = "[0x8F, 205, 0, 4, 0, 0, 0, 1, 0, 0, 0, 2, 0, 100, 0, 3, 0, 0, 9, 0] :: bytes"
  have "map_option isl (parse_transport_cc ?raw) = Some False" by code_simp
  then obtain f where "parse_transport_cc ?raw = Some (Inr f)" by (auto simp: isl_def split: sum.splits) (metis sum.exhaust)
  with transport_cc_safe [of ?raw] show ?thesis by auto
qed

section \<open>What run-length chunks mean\<close>

definition run_word :: "u8 \<Rightarrow> u16 \<Rightarrow> u16" where
  "run_word s n = push_bit 13 (ucast s AND 3) OR (n AND 0x1FFF)"

lemma run_word_fields:
  "\<not> bit (run_word s n) 15" "run_word s n AND 0x1FFF = n AND 0x1FFF"
  "ucast (drop_bit 13 (run_word s n) AND 3) = s AND 3"
proof -
  have m: "(3 :: u16) = mask 2" "(3 :: u8) = mask 2" "(0x1FFF :: u16) = mask 13" by (simp_all add: mask_eq_exp_minus_1)
  show "\<not> bit (run_word s n) 15" unfolding run_word_def m by (simp add: bit_simps)
  show "run_word s n AND 0x1FFF = n AND 0x1FFF" unfolding run_word_def m
    by (rule bit_word_eqI) (auto simp: bit_simps)
  show "ucast (drop_bit 13 (run_word s n) AND 3) = s AND 3" unfolding run_word_def m
    by (rule bit_word_eqI) (auto simp: bit_simps)
qed

definition run_packets :: "(u8 \<times> u16) list \<Rightarrow> transport_cc_packet_status list" where
  "run_packets runs =
     concat (map (\<lambda>(s, n). replicate (unat (n AND 0x1FFF)) \<lparr>status = s AND 3, delta_250us = 0\<rparr>) runs)"

abbreviation run_chunks :: "(u8 \<times> u16) list \<Rightarrow> bytes" where
  "run_chunks runs \<equiv> concat (map (\<lambda>(s, n). be16 (run_word s n)) runs)"

lemma take_append_replicate:
  "length ps \<le> k \<Longrightarrow> take k (ps @ replicate (min n (k - length ps)) x @ ys) = take k (ps @ replicate n x @ ys)"
  by (cases "n \<le> k - length ps") (auto simp: min_def)

lemma read_chunks_runs:
  assumes "length ps \<le> psc"
  shows "read_chunks (pre @ run_chunks runs) psc (length pre) ps = Some (take psc (ps @ run_packets runs))"
  using assms
proof (induction runs arbitrary: pre ps)
  case Nil
  then show ?case by (subst read_chunks.simps) (simp add: run_packets_def)
next
  case (Cons r runs)
  obtain s n where r: "r = (s, n)" by (cases r)
  let ?w = "run_word s n"
  let ?ps = "push_run psc ?w ps"
  have w: "rd_be16 (pre @ run_chunks (r # runs)) (length pre) = Some ?w"
    by (simp add: r be16_def wire_simps nth_append codec_simps)
  have ps: "?ps = ps @ replicate (min (unat (n AND 0x1FFF)) (psc - length ps)) \<lparr>status = s AND 3, delta_250us = 0\<rparr>"
    by (simp add: push_run_def run_word_fields)
  show ?case
  proof (cases "length ps < psc")
    case True
    have "read_chunks (pre @ run_chunks (r # runs)) psc (length pre) ps
       = read_chunks ((pre @ be16 ?w) @ run_chunks runs) psc (length (pre @ be16 ?w)) ?ps"
      using True w run_word_fields(1) [of s n] by (subst read_chunks.simps) (simp add: r)
    also have "\<dots> = Some (take psc (?ps @ run_packets runs))"
      by (rule Cons.IH) (use Cons.prems in \<open>simp add: push_run_le\<close>)
    finally show ?thesis using Cons.prems
      by (simp add: ps run_packets_def r take_append_replicate del: take_append)
  next
    case False
    then show ?thesis using Cons.prems by (subst read_chunks.simps) simp
  qed
qed

text \<open>
  A feedback packet of run-length chunks is parsed into exactly the statuses the runs
  stand for, cut at the announced count. When the runs cover fewer packets than announced
  the packet is accepted with fewer statuses.
\<close>

theorem transport_cc_runs:
  assumes "even (length runs)" "length runs \<le> 1000"
  shows "parse_transport_cc (rtcp_header 15 205 (20 + 2 * length runs) @ be32 sender @ be32 media
       @ be16 base @ be16 psc @ be24 ref @ [fb_count] @ run_chunks runs)
     = Some (Inr \<lparr>cc_sender_ssrc = sender, cc_media_ssrc = media, cc_base_seq = base,
         cc_packet_status_count = psc, cc_reference_time_24mhz = ref AND 0xFFFFFF,
         cc_packets = take (unat psc) (run_packets runs)\<rparr>)"
proof -
  define fields where "fields = be32 sender @ be32 media @ be16 base @ be16 psc @ be24 ref @ [fb_count]"
  define raw where "raw = rtcp_header 15 205 (20 + 2 * length runs) @ fields @ run_chunks runs"
  have fl: "length fields = 16" by (simp add: fields_def)
  have rl: "length (run_chunks runs) = 2 * length runs" by (induction runs) auto
  have h: "parse_rtcp_header raw 205 20 = Some (Inr \<lparr>h_version = 2, h_padding = 0, h_rc_or_fmt = 15,
     h_payload_type = 205, h_length_words = of_nat ((20 + 2 * length runs) div 4 - 1)\<rparr>)"
    unfolding raw_def using parse_rtcp_header_ok [of "fields @ run_chunks runs" "20 + 2 * length runs" 20 15 205] assms
    by (simp add: fl rl)
  have reads: "rd_be32 raw 4 = Some sender" "rd_be32 raw 8 = Some media" "rd_be16 raw 12 = Some base"
    "rd_be16 raw 14 = Some psc" "rd_be24 raw 16 = Some (ref AND 0xFFFFFF)"
    by (simp_all add: raw_def fields_def rtcp_header_def be16_def be32_def be24_def wire_simps codec_simps be24_of_24
      del: be24_of_be24)
  have "read_chunks raw (unat psc) 20 [] = Some (take (unat psc) (run_packets runs))"
    using read_chunks_runs [of "[]" "unat psc" "rtcp_header 15 205 (20 + 2 * length runs) @ fields" runs]
    by (simp add: raw_def fl)
  then have "parse_transport_cc raw = Some (Inr \<lparr>cc_sender_ssrc = sender, cc_media_ssrc = media, cc_base_seq = base,
         cc_packet_status_count = psc, cc_reference_time_24mhz = ref AND 0xFFFFFF,
         cc_packets = take (unat psc) (run_packets runs)\<rparr>)"
    using h reads by (simp add: parse_transport_cc_def rtcp_consts raw_def fl)
  then show ?thesis by (simp add: raw_def fields_def)
qed

theorem transport_cc_runs_witness:
  "parse_transport_cc (rtcp_header 15 205 24 @ be32 1 @ be32 2 @ be16 100 @ be16 5 @ be24 9 @ [0]
       @ be16 (run_word Received 2) @ be16 (run_word NotReceived 1))
     = Some (Inr \<lparr>cc_sender_ssrc = 1, cc_media_ssrc = 2, cc_base_seq = 100,
         cc_packet_status_count = 5, cc_reference_time_24mhz = 9,
         cc_packets = [\<lparr>status = 1, delta_250us = 0\<rparr>, \<lparr>status = 1, delta_250us = 0\<rparr>,
           \<lparr>status = 0, delta_250us = 0\<rparr>]\<rparr>)"
proof -
  have "run_packets [(Received, 2), (NotReceived, 1)] = [\<lparr>status = 1, delta_250us = 0\<rparr>,
      \<lparr>status = 1, delta_250us = 0\<rparr>, \<lparr>status = 0, delta_250us = 0\<rparr>]" by code_simp
  then show ?thesis
    using transport_cc_runs [of "[(Received, 2), (NotReceived, 1)]" 1 2 100 5 9 0]
    by simp
qed

end
