(* ===== verification/H264_Payload.thy ===== *)
theory H264_Payload
  imports Prelude
begin

text \<open>
  The H.264 RTP payload format (RFC 6184): \<^verbatim>\<open>src/modules/video_payload/src/h264.cpp\<close>. Parsers
  return \<open>None\<close> on an out-of-range access (an inner \<open>option\<close> is the source's
  \<^verbatim>\<open>std::optional\<close> or \<^verbatim>\<open>bool\<close>); builders take the caller's output span and return the byte
  count with the updated span.
\<close>

section \<open>Data\<close>

text \<open>\<^verbatim>\<open>NaluType\<close> is cast from five bits of the wire; it is kept as the byte the enum stores.\<close>

type_synonym nalu_type = u8

definition kFuAType :: u8 where "kFuAType = 28"
definition kStapAType :: u8 where "kStapAType = 24"
definition kFuBType :: u8 where "kFuBType = 29"
definition kNaluTypeMask :: u8 where "kNaluTypeMask = 0x1F"
definition kNriMask :: u8 where "kNriMask = 0x60"

lemmas h264_consts = kFuAType_def kStapAType_def kFuBType_def kNaluTypeMask_def kNriMask_def

definition is_keyframe_nalu :: "nalu_type \<Rightarrow> bool" where
  "is_keyframe_nalu t \<longleftrightarrow> t = 5"

definition is_parameter_set_nalu :: "nalu_type \<Rightarrow> bool" where
  "is_parameter_set_nalu t \<longleftrightarrow> t = 7 \<or> t = 8 \<or> t = 13 \<or> t = 15"

record nalu =
  nalu_kind :: nalu_type
  nalu_data :: bytes
  nalu_marker :: bool

record stap_a_result =
  stap_nalus :: "nalu list"
  stap_parsed_ok :: bool

record fu_a_header =
  fu_indicator :: u8
  fu_header :: u8
  fu_fragment :: bytes

datatype parse_kind = kSingle | kStapA | kFuAFragment | kFuBFragment | kUnsupported

record h264_parse_result =
  pr_kind :: parse_kind
  pr_primary :: nalu
  pr_fu_a_header :: fu_a_header
  pr_fu_a_start :: bool
  pr_fu_a_end :: bool
  pr_parsed_ok :: bool

definition make_indicator :: "u8 \<Rightarrow> u8 \<Rightarrow> u8" where
  "make_indicator nri type = push_bit 5 (nri AND 0x03) OR (type AND kNaluTypeMask)"

definition no_nalu :: nalu where
  "no_nalu = \<lparr>nalu_kind = 0, nalu_data = [], nalu_marker = False\<rparr>"

definition no_fu_a_header :: fu_a_header where
  "no_fu_a_header = \<lparr>fu_indicator = 0, fu_header = 0, fu_fragment = []\<rparr>"

definition no_result :: h264_parse_result where
  "no_result = \<lparr>pr_kind = kUnsupported, pr_primary = no_nalu, pr_fu_a_header = no_fu_a_header,
     pr_fu_a_start = False, pr_fu_a_end = False, pr_parsed_ok = False\<rparr>"

section \<open>Single NAL unit packets\<close>

definition parse_single :: "bytes \<Rightarrow> nalu option option" where
  "parse_single payload =
     (if length payload < 1 then Some None
      else do {
        first \<leftarrow> rd payload 0;
        let type = first AND kNaluTypeMask;
        if type \<ge> 1 \<and> type \<le> 23
        then Some (Some \<lparr>nalu_kind = type, nalu_data = payload, nalu_marker = False\<rparr>)
        else Some None
      })"

definition build_single :: "nalu_type \<Rightarrow> bytes \<Rightarrow> bytes \<Rightarrow> (nat \<times> bytes) option" where
  "build_single type nalu_datum out =
     (if length out < length nalu_datum then Some (0, out)
      else do {
        out \<leftarrow> (if nalu_datum \<noteq> [] then wr out 0 nalu_datum else Some out);
        Some (length nalu_datum, out)
      })"

section \<open>STAP-A\<close>

function stap_a_loop :: "bytes \<Rightarrow> nat \<Rightarrow> nalu list \<Rightarrow> nalu list option" where
  "stap_a_loop payload pos nalus =
     (if pos + 2 \<le> length payload then do {
        nalu_len \<leftarrow> rd_be16 payload pos;
        let pos = pos + 2;
        if nalu_len = 0 \<or> pos + unat nalu_len > length payload then Some nalus
        else do {
          first \<leftarrow> rd payload pos;
          d \<leftarrow> subspan payload pos (unat nalu_len);
          stap_a_loop payload (pos + unat nalu_len)
            (nalus @ [\<lparr>nalu_kind = first AND kNaluTypeMask, nalu_data = d, nalu_marker = False\<rparr>])
        }
      } else Some nalus)"
  by pat_completeness auto
termination by (relation "measure (\<lambda>(p, pos, ns). length p - pos)") auto

declare stap_a_loop.simps [simp del]

definition parse_stap_a :: "bytes \<Rightarrow> stap_a_result option" where
  "parse_stap_a payload =
     (if length payload < 1 then Some \<lparr>stap_nalus = [], stap_parsed_ok = False\<rparr>
      else do {
        first \<leftarrow> rd payload 0;
        if first AND kNaluTypeMask \<noteq> kStapAType
        then Some \<lparr>stap_nalus = [], stap_parsed_ok = False\<rparr>
        else do {
          nalus \<leftarrow> stap_a_loop payload 1 [];
          Some \<lparr>stap_nalus = nalus, stap_parsed_ok = (nalus \<noteq> [])\<rparr>
        }
      })"

text \<open>The loop of \<^verbatim>\<open>build_stap_a\<close> over the remaining NAL units; the byte count and the output.\<close>

fun build_stap_a_loop :: "bytes list \<Rightarrow> nat \<Rightarrow> bytes \<Rightarrow> (nat \<times> bytes) option" where
  "build_stap_a_loop [] pos out = Some (pos, out)"
| "build_stap_a_loop (n # ns) pos out =
     (if n = [] then build_stap_a_loop ns pos out
      else do {
        first \<leftarrow> rd n 0;
        let nri = drop_bit 5 (first AND kNriMask);
        out \<leftarrow> (if pos = 1 then wr out 0 [make_indicator nri kStapAType] else Some out);
        if pos + 2 + length n > length out then Some (0, out)
        else do {
          out \<leftarrow> wr out (pos + 0) [of_nat (length n div 256)];
          out \<leftarrow> wr out (pos + 1) [of_nat (length n)];
          out \<leftarrow> wr out (pos + 2) n;
          build_stap_a_loop ns (pos + (2 + length n)) out
        }
      })"

definition build_stap_a :: "bytes list \<Rightarrow> bytes \<Rightarrow> (nat \<times> bytes) option" where
  "build_stap_a nalu_datas out =
     (if nalu_datas = [] then Some (0, out)
      else if length out < 1 then Some (0, out)
      else build_stap_a_loop nalu_datas 1 out)"

section \<open>FU-A\<close>

definition parse_fu_a_header :: "bytes \<Rightarrow> fu_a_header option option" where
  "parse_fu_a_header payload =
     (if length payload < 2 then Some None
      else do {
        indicator \<leftarrow> rd payload 0;
        if indicator AND kNaluTypeMask \<noteq> kFuAType then Some None
        else do {
          header_byte \<leftarrow> rd payload 1;
          frag \<leftarrow> subspan payload 2 (length payload - 2);
          Some (Some \<lparr>fu_indicator = indicator, fu_header = header_byte, fu_fragment = frag\<rparr>)
        }
      })"

definition fu_a_byte1 :: "nalu_type \<Rightarrow> bool \<Rightarrow> bool \<Rightarrow> u8" where
  "fu_a_byte1 type start fin =
     (type AND kNaluTypeMask) OR (if start then 0x80 else 0) OR (if fin then 0x40 else 0)"

definition build_fu_a :: "nalu_type \<Rightarrow> bytes \<Rightarrow> bool \<Rightarrow> bool \<Rightarrow> bytes \<Rightarrow> (nat \<times> bytes) option" where
  "build_fu_a type fragment_data start fin out =
     (if length out < length fragment_data + 2 then Some (0, out)
      else do {
        out \<leftarrow> wr out 0 [make_indicator 0 kFuAType];
        out \<leftarrow> wr out 1 [fu_a_byte1 type start fin];
        out \<leftarrow> (if fragment_data \<noteq> [] then wr out 2 fragment_data else Some out);
        Some (length fragment_data + 2, out)
      })"

section \<open>Dispatcher\<close>

definition peek_nalu_type :: "bytes \<Rightarrow> nalu_type option" where
  "peek_nalu_type payload =
     (if payload = [] then Some 0 else map_option (\<lambda>b. b AND kNaluTypeMask) (rd payload 0))"

definition h264_parse :: "bytes \<Rightarrow> h264_parse_result option" where
  "h264_parse payload =
     (if payload = [] then Some no_result
      else do {
        first \<leftarrow> rd payload 0;
        let type = first AND kNaluTypeMask;
        if type \<ge> 1 \<and> type \<le> 23 then do {
          n \<leftarrow> parse_single payload;
          case n of
            Some n \<Rightarrow> Some (no_result\<lparr>pr_kind := kSingle, pr_primary := n, pr_parsed_ok := True\<rparr>)
          | None \<Rightarrow> Some no_result
        }
        else if type = kStapAType then do {
          stap \<leftarrow> parse_stap_a payload;
          if stap_parsed_ok stap \<and> stap_nalus stap \<noteq> []
          then Some (no_result\<lparr>pr_kind := kStapA, pr_primary := hd (stap_nalus stap),
                 pr_parsed_ok := True\<rparr>)
          else Some no_result
        }
        else if type = kFuAType then do {
          h \<leftarrow> parse_fu_a_header payload;
          case h of
            Some h \<Rightarrow> Some \<lparr>pr_kind = kFuAFragment,
                pr_primary = no_nalu\<lparr>nalu_kind := fu_header h AND kNaluTypeMask,
                  nalu_data := fu_fragment h\<rparr>,
                pr_fu_a_header = h, pr_fu_a_start = (fu_header h AND 0x80 \<noteq> 0),
                pr_fu_a_end = (fu_header h AND 0x40 \<noteq> 0), pr_parsed_ok = True\<rparr>
          | None \<Rightarrow> Some no_result
        }
        else if type = kFuBType then
          (if length payload \<ge> 4 then do {
             hb \<leftarrow> rd payload 1;
             frag \<leftarrow> subspan payload 4 (length payload - 4);
             Some \<lparr>pr_kind = kFuBFragment,
                pr_primary = no_nalu\<lparr>nalu_kind := hb AND kNaluTypeMask, nalu_data := frag\<rparr>,
                pr_fu_a_header = no_fu_a_header\<lparr>fu_indicator := first, fu_header := hb\<rparr>,
                pr_fu_a_start = (hb AND 0x80 \<noteq> 0), pr_fu_a_end = (hb AND 0x40 \<noteq> 0),
                pr_parsed_ok = True\<rparr>
           } else Some no_result)
        else Some no_result
      })"

section \<open>Layout of a STAP-A packet\<close>

text \<open>The bytes one NAL unit takes in a STAP-A packet.\<close>

definition stap_unit :: "bytes \<Rightarrow> bytes" where
  "stap_unit n = (if n = [] then [] else [of_nat (length n div 256), of_nat (length n)] @ n)"

definition stap_units :: "bytes list \<Rightarrow> bytes" where
  "stap_units ns = concat (map stap_unit ns)"

lemma stap_units_simps [simp]:
  "stap_units [] = []" "stap_units (n # ns) = stap_unit n @ stap_units ns"
  by (simp_all add: stap_units_def)

lemma length_stap_unit [simp]: "length (stap_unit n) = (if n = [] then 0 else 2 + length n)"
  by (simp add: stap_unit_def)

text \<open>Writing one unit at the end of an already written prefix.\<close>

lemma write_stap_unit:
  assumes "2 + length n \<le> length buf"
  shows "do { out \<leftarrow> wr (pre @ buf) (length pre) [a]; out \<leftarrow> wr out (length pre + 1) [b];
           wr out (length pre + 2) n } = Some ((pre @ [a, b] @ n) @ drop (2 + length n) buf)"
  using assms by (simp add: wr_def) linarith

lemma bind_chain3:
  fixes f :: "'a option" and g :: "'a \<Rightarrow> 'b option" and h :: "'b \<Rightarrow> 'c option" and k :: "'c \<Rightarrow> 'd option"
  shows "do { x \<leftarrow> f; y \<leftarrow> g x; z \<leftarrow> h y; k z } = do { z \<leftarrow> do { x \<leftarrow> f; y \<leftarrow> g x; h y }; k z }"
  by (cases f) (auto split: bind_splits)

lemma build_stap_a_step:
  assumes "n \<noteq> []" "1 < length pre" "2 + length n \<le> length buf"
  shows "build_stap_a_loop (n # ns) (length pre) (pre @ buf)
    = build_stap_a_loop ns (length (pre @ stap_unit n)) ((pre @ stap_unit n) @ drop (2 + length n) buf)"
  using assms write_stap_unit [OF assms(3), of pre "of_nat (length n div 256)" "of_nat (length n)"]
  by (simp add: stap_unit_def wire_simps Let_def bind_chain3)

lemma build_stap_a_loop_layout:
  "1 < length pre \<Longrightarrow> length (stap_units ns) \<le> length buf \<Longrightarrow>
     build_stap_a_loop ns (length pre) (pre @ buf)
       = Some (length pre + length (stap_units ns), pre @ stap_units ns @ drop (length (stap_units ns)) buf)"
proof (induction ns arbitrary: pre buf)
  case (Cons n ns)
  show ?case
  proof (cases "n = []")
    case True
    then show ?thesis using Cons by (simp add: stap_unit_def)
  next
    case False
    then show ?thesis using Cons.prems
        Cons.IH [of "pre @ stap_unit n" "drop (2 + length n) buf"] build_stap_a_step [of n pre buf ns]
      by (simp add: ac_simps)
  qed
qed simp

lemma build_stap_a_loop_overflow:
  "1 < length pre \<Longrightarrow> length (stap_units ns) > length buf \<Longrightarrow>
     \<exists>out'. build_stap_a_loop ns (length pre) (pre @ buf) = Some (0, out') \<and> length out' = length pre + length buf"
proof (induction ns arbitrary: pre buf)
  case (Cons n ns)
  show ?case
  proof (cases "n = []")
    case True
    then show ?thesis using Cons by (simp add: stap_unit_def)
  next
    case n: False
    show ?thesis
    proof (cases "2 + length n \<le> length buf")
      case True
      then show ?thesis using Cons.prems n
        Cons.IH [of "pre @ stap_unit n" "drop (2 + length n) buf"] build_stap_a_step [of n pre buf ns]
        by fastforce
    next
      case False
      then show ?thesis using n Cons.prems by (simp add: wire_simps Let_def)
    qed
  qed
qed simp

text \<open>The whole builder on a list whose first NAL unit is not empty.\<close>

definition stap_indicator :: "bytes \<Rightarrow> u8" where
  "stap_indicator n = make_indicator (drop_bit 5 (hd n AND kNriMask)) kStapAType"

lemma build_stap_a_layout:
  assumes "n \<noteq> []" "length (stap_units (n # ns)) < length out"
  shows "build_stap_a (n # ns) out
    = Some (1 + length (stap_units (n # ns)),
        stap_indicator n # stap_units (n # ns) @ drop (1 + length (stap_units (n # ns))) out)"
proof -
  obtain o0 buf where out: "out = o0 # buf" using assms by (cases out) auto
  let ?a = "of_nat (length n div 256) :: u8" and ?b = "of_nat (length n) :: u8"
  have w0: "wr out 0 [stap_indicator n] = Some ([stap_indicator n] @ buf)"
    by (simp add: out wr_def)
  have len: "2 + length n \<le> length buf" using assms by (simp add: out)
  note w = write_stap_unit [OF len, of "[stap_indicator n]" ?a ?b]
  have "build_stap_a (n # ns) out = do {
      out \<leftarrow> wr out 0 [stap_indicator n];
      if 1 + 2 + length n > length out then Some (0, out)
      else do { out \<leftarrow> wr out (1 + 0) [?a]; out \<leftarrow> wr out (1 + 1) [?b]; out \<leftarrow> wr out (1 + 2) n;
        build_stap_a_loop ns (1 + (2 + length n)) out } }"
    using assms out by (simp add: build_stap_a_def wire_simps Let_def stap_indicator_def hd_conv_nth
        flip: One_nat_def)
  also have "\<dots> = build_stap_a_loop ns (length ([stap_indicator n] @ stap_unit n))
      (([stap_indicator n] @ stap_unit n) @ drop (2 + length n) buf)"
    using w assms(1) len by (simp add: w0 bind_chain3 stap_unit_def)
  also have "\<dots> = Some (1 + length (stap_units (n # ns)),
        stap_indicator n # stap_units (n # ns) @ drop (1 + length (stap_units (n # ns))) out)"
    using assms by (subst build_stap_a_loop_layout) (simp_all add: out add.commute)
  finally show ?thesis .
qed

lemma be16_of_nat: "be16_of (of_nat (n div 256)) (of_nat n) = of_nat n"
proof -
  have d: "(of_nat (n div 256) :: u8) = ucast (drop_bit 8 (of_nat n :: u16))"
  proof (rule word_unat_eq_iff [THEN iffD2])
    have "n div 256 mod 256 = n mod 65536 div 256"
      using mod_mult2_eq [of n 256 256] by simp
    then show "unat (of_nat (n div 256) :: u8) = unat (ucast (drop_bit 8 (of_nat n :: u16)) :: u8)"
      by (simp add: unat_of_nat unsigned_ucast_eq take_bit_eq_mod unat_drop_bit_eq drop_bit_eq_div unat_div)
  qed
  have l: "(of_nat n :: u8) = ucast (of_nat n :: u16)"
    by (rule word_unat_eq_iff [THEN iffD2]) (simp add: unat_of_nat unsigned_ucast_eq take_bit_eq_mod mod_mod_cancel)
  show ?thesis unfolding d l by (rule be16_of_be16)
qed

lemma stap_a_loop_units:
  assumes "list_all (\<lambda>n. n \<noteq> [] \<and> length n < 65536) ns"
  shows "stap_a_loop (pre @ stap_units ns) (length pre) acc
    = Some (acc @ map (\<lambda>n. \<lparr>nalu_kind = hd n AND kNaluTypeMask, nalu_data = n, nalu_marker = False\<rparr>) ns)"
  using assms
proof (induction ns arbitrary: pre acc)
  case Nil
  then show ?case by (subst stap_a_loop.simps) simp
next
  case (Cons n ns)
  let ?a = "of_nat (length n div 256) :: u8" and ?b = "of_nat (length n) :: u8"
  let ?raw = "pre @ stap_units (n # ns)"
  have n: "n \<noteq> []" "length n < 65536" using Cons.prems by auto
  have raw: "?raw = (pre @ [?a, ?b]) @ n @ stap_units ns" using n by (simp add: stap_unit_def)
  have len: "be16_of ?a ?b = of_nat (length n)" by (rule be16_of_nat)
  then have l: "rd_be16 ?raw (length pre) = Some (of_nat (length n))"
    using n by (simp add: stap_unit_def wire_simps nth_append)
  have u: "unat (of_nat (length n) :: u16) = length n" using n by (simp add: unat_of_nat)
  have nz: "(of_nat (length n) :: u16) \<noteq> 0" using u n(1) by (metis length_0_conv unat_0)
  have "stap_a_loop ?raw (length pre) acc
    = stap_a_loop ((pre @ stap_unit n) @ stap_units ns) (length (pre @ stap_unit n))
        (acc @ [\<lparr>nalu_kind = hd n AND kNaluTypeMask, nalu_data = n, nalu_marker = False\<rparr>])"
    using n u l nz
    by (subst stap_a_loop.simps) (simp add: raw wire_simps Let_def nth_append hd_conv_nth stap_unit_def)
  also have "\<dots> = Some ((acc @ [\<lparr>nalu_kind = hd n AND kNaluTypeMask, nalu_data = n, nalu_marker = False\<rparr>])
      @ map (\<lambda>n. \<lparr>nalu_kind = hd n AND kNaluTypeMask, nalu_data = n, nalu_marker = False\<rparr>) ns)"
    using Cons.prems by (intro Cons.IH) simp
  finally show ?case by simp
qed


lemma stap_indicator_type: "stap_indicator n AND kNaluTypeMask = kStapAType"
  unfolding stap_indicator_def make_indicator_def h264_consts
  by (rule u8_eqI) (simp_all add: bit_simps)

lemma make_indicator_type: "make_indicator nri t AND kNaluTypeMask = t AND kNaluTypeMask"
  unfolding make_indicator_def h264_consts by (rule u8_eqI) (simp_all add: bit_simps)

lemma fu_a_byte1_fields:
  "fu_a_byte1 t s e AND kNaluTypeMask = t AND kNaluTypeMask"
  "fu_a_byte1 t s e AND 0x80 = 0 \<longleftrightarrow> \<not> s" "fu_a_byte1 t s e AND 0x40 = 0 \<longleftrightarrow> \<not> e"
  subgoal by (rule u8_eqI) (simp_all add: fu_a_byte1_def h264_consts bit_simps)
  by (simp_all only: flag_simps) (simp_all add: fu_a_byte1_def h264_consts bit_simps)

lemma build_fu_a_layout:
  "length fragment + 2 \<le> length out \<Longrightarrow>
   build_fu_a t fragment s e out = Some (length fragment + 2,
     [make_indicator 0 kFuAType, fu_a_byte1 t s e] @ fragment @ drop (length fragment + 2) out)"
  by (cases out; cases "tl out") (auto simp: build_fu_a_def wr_def)

lemma h264_parse_fu_a:
  "h264_parse ([make_indicator 0 kFuAType, fu_a_byte1 t s e] @ fragment) =
     Some \<lparr>pr_kind = kFuAFragment,
       pr_primary = \<lparr>nalu_kind = t AND kNaluTypeMask, nalu_data = fragment, nalu_marker = False\<rparr>,
       pr_fu_a_header = \<lparr>fu_indicator = make_indicator 0 kFuAType, fu_header = fu_a_byte1 t s e, fu_fragment = fragment\<rparr>,
       pr_fu_a_start = s, pr_fu_a_end = e, pr_parsed_ok = True\<rparr>"
proof -
  have t: "kFuAType AND kNaluTypeMask = kFuAType" by (simp add: h264_consts)
  have k: "\<not> (kFuAType \<le> 23)" "kFuAType \<noteq> kStapAType" by (simp_all add: h264_consts)
  show ?thesis
    by (simp add: h264_parse_def parse_fu_a_header_def wire_simps make_indicator_type t k
        fu_a_byte1_fields no_nalu_def)
qed

definition subrange_of :: "bytes \<Rightarrow> bytes \<Rightarrow> bool" where
  "subrange_of d p \<longleftrightarrow> d \<noteq> [] \<and> (\<exists>k. d = take (length d) (drop k p))"

lemma stap_a_loop_safe:
  "\<exists>ns. stap_a_loop p pos acc = Some ns \<and> (\<forall>n \<in> set ns. n \<in> set acc \<or> subrange_of (nalu_data n) p)"
proof (induction p pos acc rule: stap_a_loop.induct)
  case (1 p pos acc)
  show ?case
  proof (cases "pos + 2 \<le> length p")
    case True
    let ?l = "be16_of (p ! pos) (p ! (pos + 1))"
    have l: "rd_be16 p pos = Some ?l" using True by (simp add: wire_simps)
    show ?thesis
    proof (cases "?l = 0 \<or> pos + 2 + unat ?l > length p")
      case True
      then show ?thesis using \<open>pos + 2 \<le> length p\<close> l by (subst stap_a_loop.simps) (simp add: Let_def)
    next
      case False
      then have nz: "0 < unat ?l" by (simp add: unat_gt_0)
      define x where "x = \<lparr>nalu_kind = p ! (pos + 2) AND kNaluTypeMask,
        nalu_data = take (unat ?l) (drop (pos + 2) p), nalu_marker = False\<rparr>"
      have step: "stap_a_loop p pos acc = stap_a_loop p (pos + 2 + unat ?l) (acc @ [x])"
        using False l nz True unfolding x_def by (subst stap_a_loop.simps) (simp add: Let_def wire_simps)
      have r: "rd p (pos + 2) = Some (p ! (pos + 2))"
        "subspan p (pos + 2) (unat ?l) = Some (take (unat ?l) (drop (pos + 2) p))"
        using False nz by (simp_all add: wire_simps)
      have "length (nalu_data x) = unat ?l" using False by (auto simp: x_def min_def)
      then have "subrange_of (nalu_data x) p"
        using nz unfolding subrange_of_def by (intro conjI exI [of _ "pos + 2"]) (auto simp: x_def)
      then show ?thesis using 1 [OF True l refl False r, folded x_def] unfolding step by auto
    qed
  next
    case False
    then show ?thesis by (subst stap_a_loop.simps) simp
  qed
qed

lemma h264_parse_safe: "h264_parse payload \<noteq> None"
proof (cases "payload = []")
  case False
  obtain ns where "stap_a_loop payload 1 [] = Some ns" using stap_a_loop_safe [of payload 1 "[]"] by blast
  then have st: "parse_stap_a payload \<noteq> None"
    using False by (simp add: parse_stap_a_def wire_simps)
  show ?thesis using False st
    by (auto simp: h264_parse_def parse_single_def parse_fu_a_header_def wire_simps Let_def split: option.splits)
qed (simp add: h264_parse_def)

section \<open>Interface\<close>

interpretation fu_a: payload_format
  "\<lambda>_ _. True"
  "\<lambda>(t, s, e). [make_indicator 0 kFuAType, fu_a_byte1 t s e]"
  "\<lambda>(t, s, e) fragment out. build_fu_a t fragment s e out"
  h264_parse
  "\<lambda>(t, s, e) fragment. \<lparr>pr_kind = kFuAFragment,
       pr_primary = \<lparr>nalu_kind = t AND kNaluTypeMask, nalu_data = fragment, nalu_marker = False\<rparr>,
       pr_fu_a_header = \<lparr>fu_indicator = make_indicator 0 kFuAType, fu_header = fu_a_byte1 t s e,
         fu_fragment = fragment\<rparr>,
       pr_fu_a_start = s, pr_fu_a_end = e, pr_parsed_ok = True\<rparr>"
proof (unfold_locales, goal_cases)
  case (1 d bs out)
  then show ?case by (cases d) (simp add: build_fu_a_layout)
next
  case (2 out d bs)
  then show ?case by (cases d) (simp add: build_fu_a_def)
next
  case (3 d bs)
  then show ?case using h264_parse_fu_a by (cases d) simp
qed

interpretation single_nalu: payload_format
  "\<lambda>_ n. n \<noteq> [] \<and> 1 \<le> hd n AND kNaluTypeMask \<and> hd n AND kNaluTypeMask \<le> 23"
  "\<lambda>_. []" build_single h264_parse
  "\<lambda>_ n. no_result\<lparr>pr_kind := kSingle,
     pr_primary := \<lparr>nalu_kind = hd n AND kNaluTypeMask, nalu_data = n, nalu_marker = False\<rparr>,
     pr_parsed_ok := True\<rparr>"
proof (unfold_locales, goal_cases)
  case (1 d bs out)
  then show ?case by (simp add: build_single_def wr_def)
next
  case (2 out d bs)
  then show ?case by (simp add: build_single_def)
next
  case (3 d bs)
  then show ?case
    by (cases bs) (simp_all add: h264_parse_def parse_single_def wire_simps Let_def)
qed

section \<open>Properties\<close>

text \<open>
  Aggregating non-empty NAL units shorter than \<open>2 ^ 16\<close> bytes with \<^verbatim>\<open>build_stap_a\<close> into any
  output span they fit in writes nothing behind the returned count, and \<^verbatim>\<open>parse_stap_a\<close> splits
  the packet into exactly these NAL units, in order.
\<close>

theorem h264_stap_a_roundtrip:
  assumes "ns \<noteq> []" "list_all (\<lambda>n. n \<noteq> [] \<and> length n < 65536) ns"
    and "length (stap_units ns) < length out"
  shows "\<exists>k out'. build_stap_a ns out = Some (k, out') \<and> drop k out' = drop k out
    \<and> parse_stap_a (take k out') = Some \<lparr>stap_nalus =
        map (\<lambda>n. \<lparr>nalu_kind = hd n AND kNaluTypeMask, nalu_data = n, nalu_marker = False\<rparr>) ns,
        stap_parsed_ok = True\<rparr>"
proof -
  obtain n ms where ns: "ns = n # ms" using assms(1) by (cases ns) auto
  let ?raw = "stap_indicator n # stap_units ns"
  have b: "build_stap_a ns out = Some (1 + length (stap_units ns), ?raw @ drop (1 + length (stap_units ns)) out)"
    using build_stap_a_layout [of n ms out] assms by (simp add: ns)
  have "stap_a_loop ?raw 1 [] = Some (map (\<lambda>n. \<lparr>nalu_kind = hd n AND kNaluTypeMask, nalu_data = n, nalu_marker = False\<rparr>) ns)"
    using stap_a_loop_units [OF assms(2), of "[stap_indicator n]" "[]"] by simp
  then have "parse_stap_a ?raw = Some \<lparr>stap_nalus =
        map (\<lambda>n. \<lparr>nalu_kind = hd n AND kNaluTypeMask, nalu_data = n, nalu_marker = False\<rparr>) ns,
        stap_parsed_ok = True\<rparr>"
    using assms(1) by (simp add: parse_stap_a_def wire_simps stap_indicator_type)
  with b show ?thesis by (simp add: drop_Cons')
qed

theorem h264_stap_a_roundtrip_witness:
  "\<exists>k out'. build_stap_a [[0x67, 1], [0x68, 2, 3]] (replicate 20 9) = Some (k, out')
    \<and> drop k out' = drop k (replicate 20 9)
    \<and> parse_stap_a (take k out') = Some \<lparr>stap_nalus =
        map (\<lambda>n. \<lparr>nalu_kind = hd n AND kNaluTypeMask, nalu_data = n, nalu_marker = False\<rparr>)
          [[0x67, 1], [0x68, 2, 3]],
        stap_parsed_ok = True\<rparr>"
  by (rule h264_stap_a_roundtrip) (simp_all add: stap_unit_def)

text \<open>
  A FU-A fragment built in an output span it fits in is recognised by the dispatcher with
  its NAL unit type, start and end flags and fragment bytes, and a single NAL unit packet
  comes back as the NAL unit itself.
\<close>

theorem h264_fragment_roundtrip:
  "(length fragment + 2 \<le> length out \<longrightarrow>
     (\<exists>n out'. build_fu_a t fragment s e out = Some (n, out') \<and> h264_parse (take n out') =
        Some \<lparr>pr_kind = kFuAFragment,
          pr_primary = \<lparr>nalu_kind = t AND kNaluTypeMask, nalu_data = fragment, nalu_marker = False\<rparr>,
          pr_fu_a_header = \<lparr>fu_indicator = 28, fu_header = fu_a_byte1 t s e, fu_fragment = fragment\<rparr>,
          pr_fu_a_start = s, pr_fu_a_end = e, pr_parsed_ok = True\<rparr>))
   \<and> (n \<noteq> [] \<and> 1 \<le> hd n AND kNaluTypeMask \<and> hd n AND kNaluTypeMask \<le> 23 \<and> length n \<le> length out \<longrightarrow>
     (\<exists>k out'. build_single t n out = Some (k, out') \<and> h264_parse (take k out') =
        Some (no_result\<lparr>pr_kind := kSingle,
          pr_primary := \<lparr>nalu_kind = hd n AND kNaluTypeMask, nalu_data = n, nalu_marker = False\<rparr>,
          pr_parsed_ok := True\<rparr>)))"
proof -
  have ind: "make_indicator 0 kFuAType = 28" by (simp add: make_indicator_def h264_consts)
  show ?thesis
    using fu_a.roundtrip [of "(t, s, e)" fragment out] single_nalu.roundtrip [of n out t]
    by (auto simp: ind)
qed

theorem h264_fragment_roundtrip_witness:
  "\<exists>n out'. build_fu_a 5 [1, 2, 3] True False (replicate 8 0) = Some (n, out')
    \<and> h264_parse (take n out') = Some \<lparr>pr_kind = kFuAFragment,
          pr_primary = \<lparr>nalu_kind = 5, nalu_data = [1, 2, 3], nalu_marker = False\<rparr>,
          pr_fu_a_header = \<lparr>fu_indicator = 28, fu_header = 0x85, fu_fragment = [1, 2, 3]\<rparr>,
          pr_fu_a_start = True, pr_fu_a_end = False, pr_parsed_ok = True\<rparr>"
  using h264_fragment_roundtrip [of "[1, 2, 3]" "replicate 8 0" 5 True False]
  by (simp add: fu_a_byte1_def h264_consts)

text \<open>
  The dispatcher and the STAP-A splitter read only inside the payload on every input, and
  every NAL unit split off a STAP-A packet is a non-empty subrange of that packet.
\<close>

theorem h264_parse_memory_safe:
  "h264_parse payload \<noteq> None \<and> (\<exists>r. parse_stap_a payload = Some r \<and>
     (\<forall>n \<in> set (stap_nalus r). subrange_of (nalu_data n) payload))"
proof -
  obtain ns where "stap_a_loop payload 1 [] = Some ns"
    "\<forall>n \<in> set ns. subrange_of (nalu_data n) payload"
    using stap_a_loop_safe [of payload 1 "[]"] by auto
  then show ?thesis
    using h264_parse_safe [of payload] by (cases "payload = []") (auto simp: parse_stap_a_def wire_simps)
qed

theorem h264_parse_memory_safe_witness:
  "\<exists>r. parse_stap_a [0x78, 0, 2, 0x67, 1, 0, 9] = Some r \<and>
     (\<forall>n \<in> set (stap_nalus r). subrange_of (nalu_data n) [0x78, 0, 2, 0x67, 1, 0, 9])"
  using h264_parse_memory_safe [of "[0x78, 0, 2, 0x67, 1, 0, 9]"] by blast

end
