(* ===== verification/Vpx_Payload.thy ===== *)
theory Vpx_Payload
  imports Prelude
begin

text \<open>
  The VP8 and VP9 RTP payload formats: \<^verbatim>\<open>src/modules/video_payload/src/vp8.cpp\<close> and
  \<^verbatim>\<open>src/modules/video_payload/src/vp9.cpp\<close>. A parse result keeps the descriptor fields read
  before an early return, as the C++ result object does.
\<close>

section \<open>VP8 (RFC 7741)\<close>

definition kDescByteBitX :: u8 where "kDescByteBitX = 0x80"
definition kDescByteBitN :: u8 where "kDescByteBitN = 0x20"
definition kDescByteBitS :: u8 where "kDescByteBitS = 0x10"
definition kPidMask :: u8 where "kPidMask = 0x07"
definition kExtBitI :: u8 where "kExtBitI = 0x80"

lemmas vp8_consts = kDescByteBitX_def kDescByteBitN_def kDescByteBitS_def kPidMask_def kExtBitI_def

record vp8_descriptor =
  partition_index :: u8
  start_of_partition :: bool
  vp8_non_reference :: bool
  vp8_has_picture_id :: bool
  vp8_picture_id :: i32
  vp8_picture_id_16bit :: bool

record vp8_parse_result =
  vp8_parsed_ok :: bool
  vp8_desc :: vp8_descriptor
  vp8_bitstream :: bytes

definition vp8_descriptor_size :: "vp8_descriptor \<Rightarrow> nat" where
  "vp8_descriptor_size d =
     (if \<not> vp8_has_picture_id d then 1 else 2 + (if vp8_picture_id_16bit d then 2 else 1))"

definition vp8_default_desc :: vp8_descriptor where
  "vp8_default_desc = \<lparr>partition_index = 0, start_of_partition = False, vp8_non_reference = False,
     vp8_has_picture_id = False, vp8_picture_id = 0, vp8_picture_id_16bit = False\<rparr>"

definition vp8_rejected :: "vp8_descriptor \<Rightarrow> vp8_parse_result" where
  "vp8_rejected d = \<lparr>vp8_parsed_ok = False, vp8_desc = d, vp8_bitstream = []\<rparr>"

definition vp8_accepted :: "bytes \<Rightarrow> vp8_descriptor \<Rightarrow> nat \<Rightarrow> vp8_parse_result option" where
  "vp8_accepted payload d pos = do {
     bs \<leftarrow> subspan payload pos (length payload - pos);
     Some \<lparr>vp8_parsed_ok = True, vp8_desc = d, vp8_bitstream = bs\<rparr>
   }"

definition vp8_parse :: "bytes \<Rightarrow> vp8_parse_result option" where
  "vp8_parse payload =
     (if payload = [] then Some (vp8_rejected vp8_default_desc)
      else do {
        b0 \<leftarrow> rd payload 0;
        let d = vp8_default_desc\<lparr>partition_index := b0 AND kPidMask,
                  start_of_partition := (b0 AND kDescByteBitS \<noteq> 0),
                  vp8_non_reference := (b0 AND kDescByteBitN \<noteq> 0)\<rparr>;
        if b0 AND kDescByteBitX = 0 then vp8_accepted payload d 1
        else if 1 \<ge> length payload then Some (vp8_rejected d)
        else do {
          ext \<leftarrow> rd payload 1;
          if ext AND kExtBitI = 0 then vp8_accepted payload d 2
          else do {
            let d = d\<lparr>vp8_has_picture_id := True\<rparr>;
            if 2 \<ge> length payload then Some (vp8_rejected d)
            else do {
              pic \<leftarrow> rd payload 2;
              if pic AND 0x80 \<noteq> 0 then
                (if 3 + 1 \<ge> length payload then Some (vp8_rejected d)
                 else do {
                   lo \<leftarrow> rd payload 3;
                   let pic16 = be16_of (pic AND 0x7F) lo;
                   vp8_accepted payload
                     (d\<lparr>vp8_picture_id_16bit := True, vp8_picture_id := ucast pic16\<rparr>) 4
                 })
              else vp8_accepted payload (d\<lparr>vp8_picture_id := ucast (pic AND 0x7F)\<rparr>) 3
            }
          }
        }
      })"

text \<open>Builders take the caller's output span and return the byte count with the span.\<close>

definition vp8_byte0 :: "vp8_descriptor \<Rightarrow> u8" where
  "vp8_byte0 d =
     (partition_index d AND kPidMask)
     OR (if start_of_partition d then kDescByteBitS else 0)
     OR (if vp8_non_reference d then kDescByteBitN else 0)
     OR (if vp8_has_picture_id d then kDescByteBitX else 0)"

definition vp8_build_descriptor :: "vp8_descriptor \<Rightarrow> bytes \<Rightarrow> (nat \<times> bytes) option" where
  "vp8_build_descriptor d out =
     (if length out < vp8_descriptor_size d then Some (0, out)
      else do {
        out \<leftarrow> wr out 0 [vp8_byte0 d];
        if \<not> vp8_has_picture_id d then Some (1, out)
        else do {
          out \<leftarrow> wr out 1 [kExtBitI];
          if vp8_picture_id_16bit d then do {
            let pid16 = (ucast (vp8_picture_id d) :: u16) AND 0x7FFF;
            out \<leftarrow> wr out 2 [0x80 OR ucast (drop_bit 8 pid16)];
            out \<leftarrow> wr out 3 [ucast (pid16 AND 0xFF)];
            Some (4, out)
          } else do {
            out \<leftarrow> wr out 2 [ucast (vp8_picture_id d AND 0x7F)];
            Some (3, out)
          }
        }
      })"

definition vp8_build :: "vp8_descriptor \<Rightarrow> bytes \<Rightarrow> bytes \<Rightarrow> (nat \<times> bytes) option" where
  "vp8_build d bitstream out = do {
     (desc_bytes, out) \<leftarrow> vp8_build_descriptor d out;
     if desc_bytes = 0 then Some (0, out)
     else if length out < desc_bytes + length bitstream then Some (0, out)
     else do {
       out \<leftarrow> (if bitstream \<noteq> [] then wr out desc_bytes bitstream else Some out);
       Some (desc_bytes + length bitstream, out)
     }
   }"

definition vp8_bitstream_is_keyframe :: "bytes \<Rightarrow> bool option" where
  "vp8_bitstream_is_keyframe bs = (if length bs \<ge> 1 then map_option (\<lambda>b. b AND 1 \<noteq> 0) (rd bs 0) else Some False)"

subsection \<open>Properties\<close>

definition vp8_desc_bytes :: "vp8_descriptor \<Rightarrow> bytes" where
  "vp8_desc_bytes d =
     vp8_byte0 d #
     (if \<not> vp8_has_picture_id d then []
      else if vp8_picture_id_16bit d then
        [0x80, 0x80 OR ucast (drop_bit 8 ((ucast (vp8_picture_id d) :: u16) AND 0x7FFF)),
         ucast (vp8_picture_id d)]
      else [0x80, ucast (vp8_picture_id d AND 0x7F)])"

text \<open>Descriptors whose fields fit the wire; absent fields have their defaults.\<close>

definition vp8_wf :: "vp8_descriptor \<Rightarrow> bool" where
  "vp8_wf d \<longleftrightarrow> partition_index d AND kPidMask = partition_index d \<and>
     (if \<not> vp8_has_picture_id d then vp8_picture_id d = 0 \<and> \<not> vp8_picture_id_16bit d
      else if vp8_picture_id_16bit d then vp8_picture_id d AND 0x7FFF = vp8_picture_id d
      else vp8_picture_id d AND 0x7F = vp8_picture_id d)"

lemma length_vp8_desc_bytes [simp]: "length (vp8_desc_bytes d) = vp8_descriptor_size d"
  by (simp add: vp8_desc_bytes_def vp8_descriptor_size_def)

lemma ucast_pid_lo: "(ucast ((ucast (v :: i32) :: u16) AND 0x7FFF) :: u8) = ucast v"
proof -
  have m: "(0x7FFF :: u16) = mask 15" by (simp add: mask_eq_exp_minus_1)
  show ?thesis unfolding m by (rule bit_word_eqI) (simp add: bit_simps)
qed

lemma vp8_build_descriptor_layout:
  "vp8_build_descriptor d out =
     (if length out < vp8_descriptor_size d then Some (0, out)
      else Some (vp8_descriptor_size d, vp8_desc_bytes d @ drop (vp8_descriptor_size d) out))"
proof (cases "length out < vp8_descriptor_size d")
  case False
  then have "vp8_descriptor_size d \<le> length out" by simp
  then show ?thesis
    by (auto simp: vp8_build_descriptor_def vp8_descriptor_size_def vp8_desc_bytes_def
        vp8_consts Let_def wr_def ucast_pid_lo Suc_le_length_iff numeral_eq_Suc split: if_splits)
qed (simp add: vp8_build_descriptor_def)


lemma vp8_build_layout:
  "vp8_build d bs out =
     (if length out < vp8_descriptor_size d then Some (0, out)
      else if length out < vp8_descriptor_size d + length bs
      then Some (0, vp8_desc_bytes d @ drop (vp8_descriptor_size d) out)
      else Some (vp8_descriptor_size d + length bs,
             vp8_desc_bytes d @ bs @ drop (vp8_descriptor_size d + length bs) out))"
proof -
  have "vp8_descriptor_size d \<noteq> 0" by (simp add: vp8_descriptor_size_def)
  then show ?thesis
    by (auto simp: vp8_build_def vp8_build_descriptor_layout wr_def add.commute)
qed

lemma vp8_byte0_fields:
  "vp8_byte0 d AND kPidMask = partition_index d AND kPidMask"
  "vp8_byte0 d AND kDescByteBitS = 0 \<longleftrightarrow> \<not> start_of_partition d"
  "vp8_byte0 d AND kDescByteBitN = 0 \<longleftrightarrow> \<not> vp8_non_reference d"
  "vp8_byte0 d AND kDescByteBitX = 0 \<longleftrightarrow> \<not> vp8_has_picture_id d"
  subgoal by (rule u8_eqI) (simp_all add: vp8_byte0_def vp8_consts bit_simps)
  by (simp_all only: vp8_consts flag_simps) (simp_all add: vp8_byte0_def vp8_consts bit_simps)

lemma pid16_join:
  fixes v :: i32
  defines "hi \<equiv> 0x80 OR ucast (drop_bit 8 ((ucast v :: u16) AND 0x7FFF)) :: u8"
  shows "hi AND 0x80 \<noteq> 0" "ucast (be16_of (hi AND 0x7F) (ucast v)) = v AND 0x7FFF"
proof -
  have m: "(0x7FFF :: u16) = mask 15" "(0x7FFF :: i32) = mask 15" "(0x7F :: u8) = mask 7"
    by (simp_all add: mask_eq_exp_minus_1)
  show "hi AND 0x80 \<noteq> 0" unfolding hi_def by (simp add: flag_simps bit_simps)
  have h: "\<not> bit (0x80 :: int) k" if "k < 7" for k
    using that bit_push_bit_iff [of 7 "1 :: int" k] by simp
  show "ucast (be16_of (hi AND 0x7F) (ucast v)) = v AND 0x7FFF"
    unfolding hi_def m be16_of_def
  proof (rule bit_word_eqI, goal_cases)
    case (1 n)
    consider "n < 8" | "8 \<le> n" "n < 15" | "15 \<le> n" by linarith
    then show ?case using 1 by cases (auto simp: bit_simps h)
  qed
qed

lemma pid7:
  fixes v :: i32
  shows "(ucast (v AND 0x7F) :: u8) AND 0x80 = 0" "ucast ((ucast (v AND 0x7F) :: u8) AND 0x7F) = v AND 0x7F"
proof -
  have m: "(0x7F :: i32) = mask 7" "(0x7F :: u8) = mask 7" by (simp_all add: mask_eq_exp_minus_1)
  show "(ucast (v AND 0x7F) :: u8) AND 0x80 = 0" unfolding m by (simp add: flag_simps bit_simps)
  show "ucast ((ucast (v AND 0x7F) :: u8) AND 0x7F) = v AND 0x7F" unfolding m
    by (rule bit_word_eqI) (auto simp: bit_simps)
qed

lemma vp8_parse_build:
  assumes "vp8_wf d" "vp8_picture_id_16bit d \<longrightarrow> bs \<noteq> []"
  shows "vp8_parse (vp8_desc_bytes d @ bs)
    = Some \<lparr>vp8_parsed_ok = True, vp8_desc = d, vp8_bitstream = bs\<rparr>"
proof -
  note s = vp8_parse_def vp8_accepted_def vp8_desc_bytes_def vp8_byte0_fields vp8_default_desc_def
    wire_simps kExtBitI_def
  consider "\<not> vp8_has_picture_id d" | "vp8_has_picture_id d" "vp8_picture_id_16bit d"
    | "vp8_has_picture_id d" "\<not> vp8_picture_id_16bit d" by blast
  then show ?thesis
  proof cases
    case 1
    then show ?thesis using assms by (cases d) (simp add: s vp8_wf_def)
  next
    case 2
    then show ?thesis using assms pid16_join [of "vp8_picture_id d"]
      by (cases d; cases bs) (simp_all add: s vp8_wf_def)
  next
    case 3
    then show ?thesis using assms pid7 [of "vp8_picture_id d"]
      by (cases d) (simp add: s vp8_wf_def)
  qed
qed

text \<open>What an accepted packet looks like: a descriptor of one to four bytes, then the bitstream.\<close>

definition splits_header :: "bytes \<Rightarrow> bytes \<Rightarrow> bool" where
  "splits_header payload bs \<longleftrightarrow> (\<exists>hd. payload = hd @ bs \<and> 1 \<le> length hd \<and> length hd \<le> 4)"

lemma splits_header_drop: "1 \<le> k \<Longrightarrow> k \<le> 4 \<Longrightarrow> k \<le> length p \<Longrightarrow> splits_header p (drop k p)"
  unfolding splits_header_def by (intro exI [of _ "take k p"]) auto

lemma vp8_accepted_ok:
  "1 \<le> k \<Longrightarrow> k \<le> 4 \<Longrightarrow> k \<le> length payload \<Longrightarrow>
     \<exists>r. vp8_accepted payload d k = Some r \<and> (vp8_parsed_ok r \<longrightarrow> splits_header payload (vp8_bitstream r))"
  by (simp add: vp8_accepted_def wire_simps splits_header_drop)

lemma vp8_parse_ok:
  "\<exists>r. vp8_parse payload = Some r \<and> (vp8_parsed_ok r \<longrightarrow> splits_header payload (vp8_bitstream r))"
proof (cases "payload = []")
  case False
  then have "1 \<le> length payload" by (cases payload) auto
  then show ?thesis using False
    by (simp add: vp8_parse_def Let_def wire_simps vp8_accepted_ok vp8_rejected_def)
qed (simp add: vp8_parse_def vp8_rejected_def)

section \<open>VP9\<close>

definition kBitZ :: u8 where "kBitZ = 0x80"
definition kBitY :: u8 where "kBitY = 0x40"
definition kBitF :: u8 where "kBitF = 0x20"
definition kBitN :: u8 where "kBitN = 0x02"
definition kBitD :: u8 where "kBitD = 0x01"

lemmas vp9_consts = kBitZ_def kBitY_def kBitF_def kBitN_def kBitD_def

record vp9_descriptor =
  vp9_has_picture_id :: bool
  vp9_picture_id_16bit :: bool
  vp9_picture_id :: i32
  has_layer_info :: bool
  temporal_id :: u8
  spatial_id :: u8
  flexible_mode :: bool
  vp9_non_reference :: bool
  inter_predicted :: bool

record vp9_parse_result =
  vp9_parsed_ok :: bool
  vp9_desc :: vp9_descriptor
  vp9_bitstream :: bytes

definition vp9_descriptor_size :: "vp9_descriptor \<Rightarrow> nat" where
  "vp9_descriptor_size d =
     1 + (if vp9_has_picture_id d then (if vp9_picture_id_16bit d then 2 else 1) else 0)
       + (if has_layer_info d then 1 else 0)"

definition vp9_default_desc :: vp9_descriptor where
  "vp9_default_desc = \<lparr>vp9_has_picture_id = False, vp9_picture_id_16bit = False, vp9_picture_id = 0,
     has_layer_info = False, temporal_id = 0, spatial_id = 0, flexible_mode = False,
     vp9_non_reference = False, inter_predicted = False\<rparr>"

text \<open>
  The picture-id block and the layer-info block of \<^verbatim>\<open>vp9::parse\<close>: the descriptor so far, and
  the new read position, or \<open>Inl\<close> the descriptor of an early return.
\<close>

definition vp9_picture_id_block ::
  "bytes \<Rightarrow> vp9_descriptor \<Rightarrow> nat \<Rightarrow> (vp9_descriptor + vp9_descriptor \<times> nat) option" where
  "vp9_picture_id_block payload d pos =
     (if \<not> vp9_has_picture_id d then Some (Inr (d, pos))
      else if pos \<ge> length payload then Some (Inl d)
      else do {
        pic \<leftarrow> rd payload pos;
        if pic AND 0x80 \<noteq> 0 then
          (if pos + 1 \<ge> length payload then Some (Inl d)
           else do {
             lo \<leftarrow> rd payload (pos + 1);
             Some (Inr (d\<lparr>vp9_picture_id_16bit := True,
                        vp9_picture_id := ucast (be16_of (pic AND 0x7F) lo)\<rparr>, pos + 2))
           })
        else Some (Inr (d\<lparr>vp9_picture_id := ucast (pic AND 0x7F)\<rparr>, pos + 1))
      })"

definition vp9_layer_block ::
  "bytes \<Rightarrow> vp9_descriptor \<Rightarrow> nat \<Rightarrow> (vp9_descriptor + vp9_descriptor \<times> nat) option" where
  "vp9_layer_block payload d pos =
     (if \<not> has_layer_info d then Some (Inr (d, pos))
      else if pos \<ge> length payload then Some (Inl d)
      else do {
        layer \<leftarrow> rd payload pos;
        Some (Inr (d\<lparr>temporal_id := drop_bit 5 layer AND 0x07,
                   spatial_id := drop_bit 3 layer AND 0x03\<rparr>, pos + 1))
      })"

definition vp9_rejected :: "vp9_descriptor \<Rightarrow> vp9_parse_result" where
  "vp9_rejected d = \<lparr>vp9_parsed_ok = False, vp9_desc = d, vp9_bitstream = []\<rparr>"

definition vp9_parse :: "bytes \<Rightarrow> vp9_parse_result option" where
  "vp9_parse payload =
     (if payload = [] then Some (vp9_rejected vp9_default_desc)
      else do {
        b0 \<leftarrow> rd payload 0;
        let d = vp9_default_desc\<lparr>vp9_has_picture_id := (b0 AND kBitZ \<noteq> 0),
                  has_layer_info := (b0 AND kBitY \<noteq> 0), flexible_mode := (b0 AND kBitF \<noteq> 0),
                  vp9_non_reference := (b0 AND kBitN \<noteq> 0), inter_predicted := (b0 AND kBitD \<noteq> 0)\<rparr>;
        p \<leftarrow> vp9_picture_id_block payload d 1;
        case p of
          Inl d \<Rightarrow> Some (vp9_rejected d)
        | Inr (d, pos) \<Rightarrow> do {
            l \<leftarrow> vp9_layer_block payload d pos;
            case l of
              Inl d \<Rightarrow> Some (vp9_rejected d)
            | Inr (d, pos) \<Rightarrow> do {
                bs \<leftarrow> subspan payload pos (length payload - pos);
                Some \<lparr>vp9_parsed_ok = True, vp9_desc = d, vp9_bitstream = bs\<rparr>
              }
          }
      })"

definition vp9_byte0 :: "vp9_descriptor \<Rightarrow> u8" where
  "vp9_byte0 d =
     (if vp9_has_picture_id d then kBitZ else 0) OR (if has_layer_info d then kBitY else 0)
     OR (if flexible_mode d then kBitF else 0) OR (if vp9_non_reference d then kBitN else 0)
     OR (if inter_predicted d then kBitD else 0)"

definition vp9_build_descriptor :: "vp9_descriptor \<Rightarrow> bytes \<Rightarrow> (nat \<times> bytes) option" where
  "vp9_build_descriptor d out =
     (if length out < vp9_descriptor_size d then Some (0, out)
      else do {
        out \<leftarrow> wr out 0 [vp9_byte0 d];
        (pos, out) \<leftarrow>
          (if vp9_has_picture_id d then
             (if vp9_picture_id_16bit d then do {
                let pid16 = (ucast (vp9_picture_id d) :: u16) AND 0x7FFF;
                out \<leftarrow> wr out 1 [0x80 OR ucast (drop_bit 8 pid16)];
                out \<leftarrow> wr out 2 [ucast (pid16 AND 0xFF)];
                Some (3, out)
              } else do {
                out \<leftarrow> wr out 1 [ucast (vp9_picture_id d AND 0x7F)];
                Some (2, out)
              })
           else Some (1, out));
        if has_layer_info d then do {
          out \<leftarrow> wr out pos [push_bit 5 (temporal_id d AND 0x07) OR push_bit 3 (spatial_id d AND 0x03)];
          Some (pos + 1, out)
        } else Some (pos, out)
      })"

definition vp9_build :: "vp9_descriptor \<Rightarrow> bytes \<Rightarrow> bytes \<Rightarrow> (nat \<times> bytes) option" where
  "vp9_build d bitstream out = do {
     (desc_bytes, out) \<leftarrow> vp9_build_descriptor d out;
     if desc_bytes = 0 then Some (0, out)
     else if length out < desc_bytes + length bitstream then Some (0, out)
     else do {
       out \<leftarrow> (if bitstream \<noteq> [] then wr out desc_bytes bitstream else Some out);
       Some (desc_bytes + length bitstream, out)
     }
   }"

definition vp9_desc_bytes :: "vp9_descriptor \<Rightarrow> bytes" where
  "vp9_desc_bytes d =
     vp9_byte0 d #
     (if \<not> vp9_has_picture_id d then []
      else if vp9_picture_id_16bit d then
        [0x80 OR ucast (drop_bit 8 ((ucast (vp9_picture_id d) :: u16) AND 0x7FFF)),
         ucast (vp9_picture_id d)]
      else [ucast (vp9_picture_id d AND 0x7F)])
     @ (if has_layer_info d
        then [push_bit 5 (temporal_id d AND 0x07) OR push_bit 3 (spatial_id d AND 0x03)] else [])"

definition vp9_wf :: "vp9_descriptor \<Rightarrow> bool" where
  "vp9_wf d \<longleftrightarrow>
     (if \<not> vp9_has_picture_id d then vp9_picture_id d = 0 \<and> \<not> vp9_picture_id_16bit d
      else if vp9_picture_id_16bit d then vp9_picture_id d AND 0x7FFF = vp9_picture_id d
      else vp9_picture_id d AND 0x7F = vp9_picture_id d) \<and>
     (if has_layer_info d then temporal_id d AND 0x07 = temporal_id d \<and> spatial_id d AND 0x03 = spatial_id d
      else temporal_id d = 0 \<and> spatial_id d = 0)"

lemma length_vp9_desc_bytes [simp]: "length (vp9_desc_bytes d) = vp9_descriptor_size d"
  by (simp add: vp9_desc_bytes_def vp9_descriptor_size_def)

lemma vp9_build_descriptor_layout:
  "vp9_build_descriptor d out =
     (if length out < vp9_descriptor_size d then Some (0, out)
      else Some (vp9_descriptor_size d, vp9_desc_bytes d @ drop (vp9_descriptor_size d) out))"
proof (cases "length out < vp9_descriptor_size d")
  case False
  then have "vp9_descriptor_size d \<le> length out" by simp
  then show ?thesis
    by (cases "vp9_has_picture_id d"; cases "vp9_picture_id_16bit d"; cases "has_layer_info d")
      (auto simp: vp9_build_descriptor_def vp9_descriptor_size_def vp9_desc_bytes_def
        Let_def wr_def ucast_pid_lo Suc_le_length_iff numeral_eq_Suc)
qed (simp add: vp9_build_descriptor_def)

lemma vp9_build_layout:
  "vp9_build d bs out =
     (if length out < vp9_descriptor_size d then Some (0, out)
      else if length out < vp9_descriptor_size d + length bs
      then Some (0, vp9_desc_bytes d @ drop (vp9_descriptor_size d) out)
      else Some (vp9_descriptor_size d + length bs,
             vp9_desc_bytes d @ bs @ drop (vp9_descriptor_size d + length bs) out))"
proof -
  have "vp9_descriptor_size d \<noteq> 0" by (simp add: vp9_descriptor_size_def)
  then show ?thesis
    by (auto simp: vp9_build_def vp9_build_descriptor_layout wr_def add.commute)
qed

lemma vp9_byte0_fields:
  "vp9_byte0 d AND kBitZ = 0 \<longleftrightarrow> \<not> vp9_has_picture_id d"
  "vp9_byte0 d AND kBitY = 0 \<longleftrightarrow> \<not> has_layer_info d"
  "vp9_byte0 d AND kBitF = 0 \<longleftrightarrow> \<not> flexible_mode d"
  "vp9_byte0 d AND kBitN = 0 \<longleftrightarrow> \<not> vp9_non_reference d"
  "vp9_byte0 d AND kBitD = 0 \<longleftrightarrow> \<not> inter_predicted d"
  by (simp_all only: vp9_consts flag_simps) (simp_all add: vp9_byte0_def vp9_consts bit_simps)

lemma layer_fields:
  fixes t s :: u8
  defines "l \<equiv> push_bit 5 (t AND 0x07) OR push_bit 3 (s AND 0x03)"
  shows "drop_bit 5 l AND 0x07 = t AND 0x07" "drop_bit 3 l AND 0x03 = s AND 0x03"
  unfolding l_def by (rule u8_eqI; simp add: bit_simps)+

lemma vp9_parse_build:
  assumes "vp9_wf d"
  shows "vp9_parse (vp9_desc_bytes d @ bs)
    = Some \<lparr>vp9_parsed_ok = True, vp9_desc = d, vp9_bitstream = bs\<rparr>"
proof -
  note s = vp9_parse_def vp9_desc_bytes_def vp9_byte0_fields vp9_default_desc_def
    vp9_picture_id_block_def vp9_layer_block_def wire_simps
  show ?thesis using assms pid16_join [of "vp9_picture_id d"] pid7 [of "vp9_picture_id d"]
      layer_fields [of "temporal_id d" "spatial_id d"]
    by (cases "vp9_has_picture_id d"; cases "vp9_picture_id_16bit d"; cases "has_layer_info d"; cases d)
      (simp_all add: s vp9_wf_def)
qed

lemma vp9_picture_id_block_ok:
  "1 \<le> length p \<Longrightarrow> \<exists>r. vp9_picture_id_block p d 1 = Some r \<and> (\<forall>d' k. r = Inr (d', k) \<longrightarrow> 1 \<le> k \<and> k \<le> 3 \<and> k \<le> length p)"
  by (auto simp: vp9_picture_id_block_def wire_simps)

lemma vp9_layer_block_ok:
  "1 \<le> pos \<Longrightarrow> pos \<le> 3 \<Longrightarrow> pos \<le> length p \<Longrightarrow>
     \<exists>r. vp9_layer_block p d pos = Some r \<and> (\<forall>d' k. r = Inr (d', k) \<longrightarrow> 1 \<le> k \<and> k \<le> 4 \<and> k \<le> length p)"
  by (auto simp: vp9_layer_block_def wire_simps)

lemma vp9_parse_ok:
  "\<exists>r. vp9_parse payload = Some r \<and> (vp9_parsed_ok r \<longrightarrow> splits_header payload (vp9_bitstream r))"
proof (cases "payload = []")
  case False
  then have len: "1 \<le> length payload" by (cases payload) auto
  let ?b0 = "payload ! 0"
  let ?d = "vp9_default_desc\<lparr>vp9_has_picture_id := (?b0 AND kBitZ \<noteq> 0),
                  has_layer_info := (?b0 AND kBitY \<noteq> 0), flexible_mode := (?b0 AND kBitF \<noteq> 0),
                  vp9_non_reference := (?b0 AND kBitN \<noteq> 0), inter_predicted := (?b0 AND kBitD \<noteq> 0)\<rparr>"
  obtain r1 where r1: "vp9_picture_id_block payload ?d 1 = Some r1"
    "\<forall>d' k. r1 = Inr (d', k) \<longrightarrow> 1 \<le> k \<and> k \<le> 3 \<and> k \<le> length payload"
    using vp9_picture_id_block_ok [OF len] by blast
  show ?thesis
  proof (cases r1)
    case (Inl d)
    then show ?thesis using r1 False by (simp add: vp9_parse_def wire_simps vp9_rejected_def)
  next
    case (Inr dp)
    obtain d pos where dp: "dp = (d, pos)" by (cases dp)
    obtain r2 where r2: "vp9_layer_block payload d pos = Some r2"
      "\<forall>d' k. r2 = Inr (d', k) \<longrightarrow> 1 \<le> k \<and> k \<le> 4 \<and> k \<le> length payload"
      using vp9_layer_block_ok [of pos payload d] r1(2) Inr dp by auto
    show ?thesis
      using r1(1) r2 Inr dp False
      by (cases r2) (auto simp: vp9_parse_def wire_simps vp9_rejected_def splits_header_drop)
  qed
qed (simp add: vp9_parse_def vp9_rejected_def)

section \<open>Interface\<close>

interpretation vp8: payload_format
  "\<lambda>d bs. vp8_wf d \<and> (vp8_picture_id_16bit d \<longrightarrow> bs \<noteq> [])" vp8_desc_bytes vp8_build vp8_parse
  "\<lambda>d bs. \<lparr>vp8_parsed_ok = True, vp8_desc = d, vp8_bitstream = bs\<rparr>"
  by unfold_locales (auto simp: vp8_build_layout vp8_parse_build)

interpretation vp9: payload_format
  "\<lambda>d bs. vp9_wf d" vp9_desc_bytes vp9_build vp9_parse
  "\<lambda>d bs. \<lparr>vp9_parsed_ok = True, vp9_desc = d, vp9_bitstream = bs\<rparr>"
  by unfold_locales (auto simp: vp9_build_layout vp9_parse_build)

section \<open>Properties\<close>

text \<open>
  C36: for every descriptor whose fields fit the wire, \<^verbatim>\<open>vp8::build\<close> and \<^verbatim>\<open>vp9::build\<close> into any
  span the packet fits in leave the rest of the span alone, and the parser returns the same
  descriptor and the same bitstream. For VP8 with a 16-bit picture id the bitstream must not be empty:
  the parser rejects such a packet with an empty one (\<open>vp8_16bit_id_rejected\<close> below).
\<close>

theorem vpx_roundtrip:
  "(vp8_wf d8 \<and> (vp8_picture_id_16bit d8 \<longrightarrow> bs \<noteq> []) \<and> vp8_descriptor_size d8 + length bs \<le> length out \<longrightarrow>
     (\<exists>n out'. vp8_build d8 bs out = Some (n, out') \<and> drop n out' = drop n out
        \<and> vp8_parse (take n out') = Some \<lparr>vp8_parsed_ok = True, vp8_desc = d8, vp8_bitstream = bs\<rparr>))
   \<and> (vp9_wf d9 \<and> vp9_descriptor_size d9 + length bs \<le> length out \<longrightarrow>
     (\<exists>n out'. vp9_build d9 bs out = Some (n, out') \<and> drop n out' = drop n out
        \<and> vp9_parse (take n out') = Some \<lparr>vp9_parsed_ok = True, vp9_desc = d9, vp9_bitstream = bs\<rparr>))"
  using vp8.roundtrip [of d8 bs out] vp9.roundtrip [of d9 bs out] by auto

theorem vpx_roundtrip_witness:
  "(\<exists>n out'. vp8_build (vp8_default_desc\<lparr>vp8_has_picture_id := True, vp8_picture_id_16bit := True,
        vp8_picture_id := 0x1234\<rparr>) [7, 8] (replicate 10 0) = Some (n, out')
     \<and> vp8_parse (take n out') = Some \<lparr>vp8_parsed_ok = True,
         vp8_desc = vp8_default_desc\<lparr>vp8_has_picture_id := True, vp8_picture_id_16bit := True,
           vp8_picture_id := 0x1234\<rparr>, vp8_bitstream = [7, 8]\<rparr>)
   \<and> (\<exists>n out'. vp9_build (vp9_default_desc\<lparr>vp9_has_picture_id := True, vp9_picture_id_16bit := True,
        vp9_picture_id := 0x1234\<rparr>) [7, 8] (replicate 10 0) = Some (n, out')
     \<and> vp9_parse (take n out') = Some \<lparr>vp9_parsed_ok = True,
         vp9_desc = vp9_default_desc\<lparr>vp9_has_picture_id := True, vp9_picture_id_16bit := True,
           vp9_picture_id := 0x1234\<rparr>, vp9_bitstream = [7, 8]\<rparr>)"
proof -
  let ?d = "vp9_default_desc\<lparr>vp9_has_picture_id := True, vp9_picture_id_16bit := True, vp9_picture_id := 0x1234\<rparr>"
    and ?e = "vp8_default_desc\<lparr>vp8_has_picture_id := True, vp8_picture_id_16bit := True, vp8_picture_id := 0x1234\<rparr>"
  have "vp9_wf ?d \<and> vp9_descriptor_size ?d + length [7, 8 :: u8] \<le> length (replicate 10 (0 :: u8))"
    and "vp8_wf ?e \<and> (vp8_picture_id_16bit ?e \<longrightarrow> [7, 8 :: u8] \<noteq> []) \<and> vp8_descriptor_size ?e + length [7, 8 :: u8] \<le> length (replicate 10 (0 :: u8))"
    by code_simp+
  with vpx_roundtrip [of ?e "[7, 8]" "replicate 10 0" ?d] show ?thesis by blast
qed

text \<open>
  C37: both depacketizers read only inside the payload on every input, and an accepted payload
  is a descriptor of one to four bytes followed by exactly the reported bitstream.
\<close>

theorem vpx_parse_memory_safe:
  "(\<exists>r. vp8_parse payload = Some r \<and> (vp8_parsed_ok r \<longrightarrow> splits_header payload (vp8_bitstream r)))
   \<and> (\<exists>r. vp9_parse payload = Some r \<and> (vp9_parsed_ok r \<longrightarrow> splits_header payload (vp9_bitstream r)))"
  using vp8_parse_ok vp9_parse_ok by blast

theorem vpx_parse_memory_safe_witness:
  "splits_header [0x10, 1, 2] [1, 2] \<and> (\<exists>r. vp9_parse [0x08, 1, 2] = Some r \<and> vp9_parsed_ok r \<and> splits_header [0x08, 1, 2] (vp9_bitstream r))"
proof -
  have "vp8_parse [0x10, 1, 2] = Some \<lparr>vp8_parsed_ok = True,
    vp8_desc = vp8_default_desc\<lparr>start_of_partition := True\<rparr>, vp8_bitstream = [1, 2]\<rparr>" by code_simp
  moreover have "case vp9_parse [0x08, 1, 2] of Some r \<Rightarrow> vp9_parsed_ok r | None \<Rightarrow> False" by code_simp
  ultimately show ?thesis
    using vpx_parse_memory_safe [of "[0x10, 1, 2]"] vpx_parse_memory_safe [of "[0x08, 1, 2]"] by auto
qed

text \<open>
  The length check of \<^verbatim>\<open>vp8::parse\<close> for a 16-bit picture id is one byte too strict: the
  descriptor-only payload \<^verbatim>\<open>vp8::build\<close> produces for such a descriptor is rejected, although
  the same payload with a 7-bit id, or in the VP9 format, is accepted.
\<close>

theorem vp8_16bit_id_rejected:
  "\<exists>d out. vp8_build d [] (replicate 4 0) = Some (4, out) \<and> length out = 4
     \<and> map_option vp8_parsed_ok (vp8_parse out) = Some False
     \<and> map_option vp8_parsed_ok (vp8_parse (vp8_desc_bytes (d\<lparr>vp8_picture_id_16bit := False\<rparr>))) = Some True
     \<and> map_option vp9_parsed_ok (vp9_parse (vp9_desc_bytes (vp9_default_desc
          \<lparr>vp9_has_picture_id := True, vp9_picture_id_16bit := True\<rparr>))) = Some True"
proof -
  let ?d = "vp8_default_desc\<lparr>vp8_has_picture_id := True, vp8_picture_id_16bit := True\<rparr>"
  have "vp8_build ?d [] (replicate 4 0) = Some (4, [0x80, 0x80, 0x80, 0])" by code_simp
  moreover have "map_option vp8_parsed_ok (vp8_parse [0x80, 0x80, 0x80, 0]) = Some False" by code_simp
  moreover have "map_option vp8_parsed_ok (vp8_parse (vp8_desc_bytes (?d\<lparr>vp8_picture_id_16bit := False\<rparr>))) = Some True"
    by code_simp
  moreover have "map_option vp9_parsed_ok (vp9_parse (vp9_desc_bytes (vp9_default_desc
          \<lparr>vp9_has_picture_id := True, vp9_picture_id_16bit := True\<rparr>))) = Some True" by code_simp
  ultimately show ?thesis by (intro exI [of _ ?d] exI [of _ "[0x80, 0x80, 0x80, 0]"]) simp
qed

end
