(* ===== verification/Raw_Udp_Arq.thy ===== *)
theory Raw_Udp_Arq
  imports Prelude "HOL-Library.AList"
begin

text \<open>
  The selective-repeat ARQ over UDP: \<^verbatim>\<open>src/raw_udp/include/nimrtc/raw_udp/arq_raw_udp.hpp\<close> and
  \<^verbatim>\<open>src/raw_udp/src/arq_raw_udp.cpp\<close>. The state of an \<^verbatim>\<open>ArqRawUdp\<close> object is the record \<open>arq\<close>;
  the socket is modelled by the list of datagrams handed to \<^verbatim>\<open>send_to\<close>, in order. One iteration
  of the receive thread, one tick of the retransmit thread and one call of the public methods
  are each one step, which is the granularity of the locks \<^verbatim>\<open>rx_mu_\<close> and \<^verbatim>\<open>tx_mu_\<close> for the data
  they guard. \<^verbatim>\<open>send()\<close> takes its number, queues the packet and puts it on the wire in one step, although
  the source releases the locks in between, so interleavings of two concurrent \<^verbatim>\<open>send()\<close> calls are not modelled.
  An overflow of \<^verbatim>\<open>std::int32_t\<close> in the processing of an acknowledgement is undefined: \<open>None\<close>. Times are nanoseconds of \<^verbatim>\<open>steady_clock\<close>, retransmission timeouts milliseconds.
  The out-of-order buffer, a \<^verbatim>\<open>std::map\<close>, is an association list with distinct keys.
\<close>

section \<open>State\<close>

type_synonym endpoint = bytes

datatype frame_type = Data | Ack

fun frame_type_code :: "frame_type \<Rightarrow> u8" where
  "frame_type_code Data = 0x01"
| "frame_type_code Ack = 0x02"

datatype send_status = kOk | kErrNotReady | kErrBufferTooSmall | kErrInternal

record raw_udp_config =
  cfg_peer_endpoint :: endpoint
  rx_window_packets :: u16
  max_retransmits :: u16
  rto_base_ms :: int
  rto_max_ms :: int
  enable_real_socket :: bool

record pending_packet =
  pp_seq :: u16
  framed :: bytes
  sent_at :: int
  rto :: int
  retransmit_count :: u16
  in_flight :: bool

record raw_udp_stats =
  packets_sent :: nat
  packets_recv :: nat
  packets_retransmit :: nat
  packets_dropped :: nat
  acks_sent :: nat
  acks_recv :: nat

record arq =
  cfg :: raw_udp_config
  opened :: bool
  has_socket :: bool
  peer_endpoint :: endpoint
  rx_delivered :: "bytes list"
  rx_buffer :: "(u16 \<times> bytes) list"
  rx_base_seq :: u16
  rx_initialized :: bool
  tx_pending :: "pending_packet list"
  tx_seq :: u16
  stats :: raw_udp_stats
  wire :: "(endpoint \<times> bytes) list"

definition kDataHeaderBytes :: nat where "kDataHeaderBytes = 4"
definition kAckTotalBytes :: nat where "kAckTotalBytes = 12"
definition kSelectiveAckBits :: int where "kSelectiveAckBits = 32"
definition kMaxDatagramBytes :: nat where "kMaxDatagramBytes = 1500"

lemmas arq_consts = kDataHeaderBytes_def kAckTotalBytes_def kSelectiveAckBits_def kMaxDatagramBytes_def

definition new_arq :: "raw_udp_config \<Rightarrow> arq" where
  "new_arq c = \<lparr>cfg = c, opened = False, has_socket = False, peer_endpoint = [], rx_delivered = [],
     rx_buffer = [], rx_base_seq = 0, rx_initialized = False, tx_pending = [], tx_seq = 0,
     stats = \<lparr>packets_sent = 0, packets_recv = 0, packets_retransmit = 0, packets_dropped = 0,
       acks_sent = 0, acks_recv = 0\<rparr>, wire = []\<rparr>"

text \<open>The \<^verbatim>\<open>++stats_.x\<close> of the source.\<close>

definition count_recv :: "nat \<Rightarrow> arq \<Rightarrow> arq" where
  "count_recv n s = s\<lparr>stats := (stats s)\<lparr>packets_recv := packets_recv (stats s) + n\<rparr>\<rparr>"
definition count_dropped :: "nat \<Rightarrow> arq \<Rightarrow> arq" where
  "count_dropped n s = s\<lparr>stats := (stats s)\<lparr>packets_dropped := packets_dropped (stats s) + n\<rparr>\<rparr>"
definition count_retransmit :: "nat \<Rightarrow> arq \<Rightarrow> arq" where
  "count_retransmit n s = s\<lparr>stats := (stats s)\<lparr>packets_retransmit := packets_retransmit (stats s) + n\<rparr>\<rparr>"
definition count_acks_sent :: "arq \<Rightarrow> arq" where
  "count_acks_sent s = s\<lparr>stats := (stats s)\<lparr>acks_sent := acks_sent (stats s) + 1\<rparr>\<rparr>"
definition count_acks_recv :: "nat \<Rightarrow> arq \<Rightarrow> arq" where
  "count_acks_recv n s = s\<lparr>stats := (stats s)\<lparr>acks_recv := acks_recv (stats s) + n\<rparr>\<rparr>"
definition count_sent :: "arq \<Rightarrow> arq" where
  "count_sent s = s\<lparr>stats := (stats s)\<lparr>packets_sent := packets_sent (stats s) + 1\<rparr>\<rparr>"

lemmas count_defs = count_recv_def count_dropped_def count_retransmit_def count_acks_sent_def
  count_acks_recv_def count_sent_def

section \<open>Frames and sequence arithmetic\<close>

definition build_data_frame :: "u16 \<Rightarrow> bytes \<Rightarrow> bytes" where
  "build_data_frame seq d =
     [frame_type_code Data, ucast (seq AND 0xFF), ucast (drop_bit 8 seq AND 0xFF), 0] @ d"

definition build_ack_frame :: "u32 \<Rightarrow> u32 \<Rightarrow> bytes" where
  "build_ack_frame cumulative_ack bitmap =
     [frame_type_code Ack,
      ucast (cumulative_ack AND 0xFF), ucast (drop_bit 8 cumulative_ack AND 0xFF),
      ucast (drop_bit 16 cumulative_ack AND 0xFF), ucast (drop_bit 24 cumulative_ack AND 0xFF),
      ucast (bitmap AND 0xFF), ucast (drop_bit 8 bitmap AND 0xFF),
      ucast (drop_bit 16 bitmap AND 0xFF), ucast (drop_bit 24 bitmap AND 0xFF), 0, 0, 0]"

definition seq_after :: "u16 \<Rightarrow> u16 \<Rightarrow> bool" where
  "seq_after a b \<longleftrightarrow> (uint a - uint b) mod 65536 < 0x8000"

definition seq_in_window :: "u16 \<Rightarrow> u16 \<Rightarrow> u16 \<Rightarrow> bool" where
  "seq_in_window seq base window \<longleftrightarrow>
     (let diff = (uint seq - uint base) mod 65536 in diff \<ge> 0 \<and> diff < uint window)"

text \<open>The DTLS-PSK stub passes the bytes through.\<close>

definition dtls_psk_encrypt :: "bytes \<Rightarrow> bytes" where "dtls_psk_encrypt pt = pt"
definition dtls_psk_decrypt :: "bytes \<Rightarrow> bytes" where "dtls_psk_decrypt ct = ct"

definition next_tx_seq :: "arq \<Rightarrow> u16 \<times> arq" where
  "next_tx_seq s = (tx_seq s, s\<lparr>tx_seq := tx_seq s + 1\<rparr>)"

definition send_to :: "endpoint \<Rightarrow> bytes \<Rightarrow> arq \<Rightarrow> arq" where
  "send_to ep frame s = s\<lparr>wire := wire s @ [(ep, frame)]\<rparr>"

section \<open>Receiving\<close>

text \<open>The bitmap loop of \<^verbatim>\<open>send_ack_to\<close> over the buffered sequence numbers.\<close>

fun ack_bitmap :: "u16 \<Rightarrow> (u16 \<times> bytes) list \<Rightarrow> u32 \<Rightarrow> u32" where
  "ack_bitmap base [] bitmap = bitmap"
| "ack_bitmap base ((seq, _) # kvs) bitmap =
     (let diff = (uint seq - uint base) mod 65536 in
      ack_bitmap base kvs
        (if diff > 0 \<and> diff \<le> kSelectiveAckBits then bitmap OR push_bit (nat (diff - 1)) 1 else bitmap))"

definition send_ack_to :: "endpoint \<Rightarrow> arq \<Rightarrow> arq" where
  "send_ack_to peer s =
     (if \<not> has_socket s \<or> length peer = 0 then s
      else count_acks_sent (send_to peer
        (build_ack_frame (ucast (rx_base_seq s)) (ack_bitmap (rx_base_seq s) (rx_buffer s) 0)) s))"

text \<open>
  The per-packet decision of \<^verbatim>\<open>apply_ack_frame\<close>. The subtraction of \<^verbatim>\<open>std::int32_t\<close> values is undefined when it
  overflows: \<open>None\<close>.
\<close>

definition is_acked :: "u32 \<Rightarrow> u32 \<Rightarrow> u16 \<Rightarrow> bool option" where
  "is_acked cumulative_ack bitmap seq =
     (if uint seq = uint cumulative_ack then Some True
      else if seq_after seq (ucast cumulative_ack) then
        (let d = uint seq - sint cumulative_ack in
         if d > 2 ^ 31 - 1 then None
         else let diff = d mod 65536 in
           Some (diff > 0 \<and> diff \<le> kSelectiveAckBits \<and> bitmap AND push_bit (nat (diff - 1)) 1 \<noteq> 0))
      else Some ((ucast (cumulative_ack - ucast seq) :: u16) \<noteq> 0))"

fun ack_loop :: "u32 \<Rightarrow> u32 \<Rightarrow> pending_packet list \<Rightarrow> (pending_packet list \<times> nat) option" where
  "ack_loop cum bitmap [] = Some ([], 0)"
| "ack_loop cum bitmap (p # ps) = do {
     acked \<leftarrow> is_acked cum bitmap (pp_seq p);
     (rest, n) \<leftarrow> ack_loop cum bitmap ps;
     Some (if acked then (rest, n + 1) else (p # rest, n))
   }"

definition apply_ack_frame :: "u32 \<Rightarrow> u32 \<Rightarrow> arq \<Rightarrow> arq option" where
  "apply_ack_frame cumulative_ack bitmap s = do {
     (pending, n) \<leftarrow> ack_loop cumulative_ack bitmap (tx_pending s);
     Some (count_acks_recv n (s\<lparr>tx_pending := pending\<rparr>))
   }"

lemma length_delete_less: "map_of xs k = Some v \<Longrightarrow> length (AList.delete k xs) < length xs"
proof (induction xs)
  case (Cons x xs)
  have "length (AList.delete k xs) \<le> length xs" by (rule length_delete_le)
  with Cons show ?case by (cases x) (auto split: if_splits)
qed simp

text \<open>\<^verbatim>\<open>while (rx_buffer_.count(new_base)) ...\<close> of \<^verbatim>\<open>recv_main\<close>.\<close>

function drain_buffer :: "u16 \<Rightarrow> arq \<Rightarrow> arq" where
  "drain_buffer new_base s =
     (case map_of (rx_buffer s) new_base of
        None \<Rightarrow> s
      | Some v \<Rightarrow> drain_buffer (new_base + 1)
          (count_recv 1 (s\<lparr>rx_delivered := rx_delivered s @ [v],
             rx_buffer := AList.delete new_base (rx_buffer s), rx_base_seq := new_base + 1\<rparr>)))"
  by pat_completeness auto

termination
  by (relation "measure (\<lambda>(b, s). length (rx_buffer s))")
    (auto simp: count_recv_def length_delete_less)

declare drain_buffer.simps [simp del]

text \<open>One DATA frame in \<^verbatim>\<open>recv_main\<close>.\<close>

definition handle_data :: "endpoint \<Rightarrow> u16 \<Rightarrow> bytes \<Rightarrow> arq \<Rightarrow> arq" where
  "handle_data from seq payload s =
     (let base = rx_base_seq s in
      if \<not> rx_initialized s then
        send_ack_to from (count_recv 1
          (s\<lparr>rx_initialized := True, rx_base_seq := seq, rx_delivered := rx_delivered s @ [payload]\<rparr>))
      else if seq = base then count_dropped 1 (send_ack_to from s)
      else if \<not> seq_in_window seq base (rx_window_packets (cfg s)) then
        send_ack_to from (count_dropped 1 s)
      else send_ack_to from
        (if seq_after seq base then
           (if seq - base = 1 then
              drain_buffer (base + 1) (count_recv 1
                (s\<lparr>rx_delivered := rx_delivered s @ [payload], rx_base_seq := base + 1\<rparr>))
            else s\<lparr>rx_buffer := AList.update seq payload (rx_buffer s)\<rparr>)
         else count_dropped 1 s))"

text \<open>One iteration of \<^verbatim>\<open>recv_main\<close> on a received datagram.\<close>

definition handle_datagram :: "endpoint \<Rightarrow> bytes \<Rightarrow> arq \<Rightarrow> arq option" where
  "handle_datagram from buf s =
     (if length buf = 0 then Some s
      else if length buf < kDataHeaderBytes then Some (count_dropped 1 s)
      else
        let t = buf ! 0; seq = be16_of (buf ! 2) (buf ! 1) in
        if t = frame_type_code Ack then
          (if length buf < kAckTotalBytes then Some (count_dropped 1 s)
           else apply_ack_frame (be32_of (buf ! 4) (buf ! 3) (buf ! 2) (buf ! 1))
                  (be32_of (buf ! 8) (buf ! 7) (buf ! 6) (buf ! 5)) s)
        else if t \<noteq> frame_type_code Data then Some (count_dropped 1 s)
        else Some (handle_data from seq (dtls_psk_decrypt (drop kDataHeaderBytes buf)) s))"

text \<open>
  \<^verbatim>\<open>advance_rx_window_after_insert\<close>: its drain loop, with the sequence number just inserted.
\<close>

function advance_loop :: "u16 \<Rightarrow> u16 \<Rightarrow> arq \<Rightarrow> arq" where
  "advance_loop inserted_seq base s =
     (if base = inserted_seq then
        advance_loop inserted_seq (base + 1)
          (count_recv 1 (s\<lparr>rx_delivered := rx_delivered s @ [[]], rx_base_seq := base + 1\<rparr>))
      else case map_of (rx_buffer s) base of
        None \<Rightarrow> s
      | Some payload \<Rightarrow>
          (let s = s\<lparr>rx_buffer := AList.delete base (rx_buffer s)\<rparr>;
               s = (if payload \<noteq> []
                    then count_recv 1 (s\<lparr>rx_delivered := rx_delivered s @ [payload]\<rparr>) else s)
           in advance_loop inserted_seq (base + 1) (s\<lparr>rx_base_seq := base + 1\<rparr>)))"
  by pat_completeness auto
termination
proof (relation "measure (\<lambda>(i, b, s). 2 * length (rx_buffer s) + (if b = i then 1 else 0))", goal_cases)
  case (2 i b s)
  then show ?case by (simp add: count_recv_def)
next
  case (3 i b s payload)
  then show ?case using length_delete_less [of "rx_buffer s" b payload]
    by (auto simp: count_recv_def Let_def)
qed auto

definition advance_rx_window_after_insert :: "u16 \<Rightarrow> arq \<Rightarrow> arq" where
  "advance_rx_window_after_insert inserted_seq s =
     (let s = (if \<not> rx_initialized s
               then s\<lparr>rx_initialized := True, rx_base_seq := inserted_seq, rx_buffer := []\<rparr> else s) in
      if inserted_seq = rx_base_seq s then advance_loop inserted_seq (rx_base_seq s) s
      else if \<not> seq_in_window inserted_seq (rx_base_seq s) (rx_window_packets (cfg s)) then s
      else advance_loop inserted_seq (rx_base_seq s)
             (s\<lparr>rx_buffer := AList.update inserted_seq [] (rx_buffer s)\<rparr>))"

section \<open>The retransmit thread\<close>

text \<open>
  The scan over \<^verbatim>\<open>tx_pending_\<close>: the updated packets, the frames to resend and the sequence
  numbers to drop.
\<close>

fun retransmit_scan ::
  "raw_udp_config \<Rightarrow> int \<Rightarrow> pending_packet list \<Rightarrow> pending_packet list \<times> (u16 \<times> bytes) list \<times> u16 list" where
  "retransmit_scan c now [] = ([], [], [])"
| "retransmit_scan c now (p # ps) =
     (let (ps', resend, drops) = retransmit_scan c now ps in
      if \<not> in_flight p then (p # ps', resend, drops)
      else if now - sent_at p < rto p * 1000000 then (p # ps', resend, drops)
      else if retransmit_count p \<ge> max_retransmits c then (p # ps', resend, pp_seq p # drops)
      else (p\<lparr>retransmit_count := retransmit_count p + 1, sent_at := now,
              rto := min (rto p * 2) (rto_max_ms c)\<rparr> # ps',
            (pp_seq p, framed p) # resend, drops))"

text \<open>Erasing the first pending packet with a given sequence number, as the inner loop does.\<close>

fun erase_seq :: "u16 \<Rightarrow> pending_packet list \<Rightarrow> pending_packet list" where
  "erase_seq seq [] = []"
| "erase_seq seq (p # ps) = (if pp_seq p = seq then ps else p # erase_seq seq ps)"

definition retransmit_tick :: "int \<Rightarrow> arq \<Rightarrow> arq" where
  "retransmit_tick now s =
     (let (pending, resend, drops) = retransmit_scan (cfg s) now (tx_pending s);
          s = count_retransmit (length resend) (s\<lparr>tx_pending := fold erase_seq drops pending\<rparr>);
          s = count_dropped (length pending - length (fold erase_seq drops pending)) s
      in if has_socket s \<and> length (peer_endpoint s) \<noteq> 0
         then fold (\<lambda>(seq, frame). send_to (peer_endpoint s) frame) resend s
         else s)"

section \<open>The public interface\<close>

text \<open>\<^verbatim>\<open>UdpSocket::open\<close> is an argument: whether the bind succeeded.\<close>

definition arq_open :: "bool \<Rightarrow> arq \<Rightarrow> send_status \<times> arq" where
  "arq_open bind_ok s =
     (if opened s then (kOk, s)
      else if enable_real_socket (cfg s) then
        (if \<not> bind_ok then (kErrInternal, s\<lparr>has_socket := False\<rparr>)
         else (kOk, s\<lparr>opened := True, has_socket := True\<rparr>))
      else (kOk, s\<lparr>opened := True\<rparr>))"

definition arq_close :: "arq \<Rightarrow> arq" where
  "arq_close s =
     (if \<not> opened s then s
      else s\<lparr>opened := False, has_socket := False, rx_delivered := [], rx_buffer := [], tx_pending := []\<rparr>)"

definition arq_send :: "int \<Rightarrow> endpoint \<Rightarrow> bytes \<Rightarrow> arq \<Rightarrow> send_status \<times> arq" where
  "arq_send now dst d s =
     (if \<not> opened s then (kErrNotReady, s)
      else if length d + 4 > kMaxDatagramBytes then (kErrBufferTooSmall, s)
      else if length dst = 0 \<and> length (peer_endpoint s) = 0 \<and> enable_real_socket (cfg s)
      then (kErrNotReady, s)
      else
        let s = (if length dst \<noteq> 0
                 then s\<lparr>peer_endpoint := dst, cfg := (cfg s)\<lparr>cfg_peer_endpoint := dst\<rparr>\<rparr>
                 else s\<lparr>cfg := (cfg s)\<lparr>cfg_peer_endpoint := peer_endpoint s\<rparr>\<rparr>);
            (seq, s) = next_tx_seq s;
            frame = build_data_frame seq d;
            p = \<lparr>pp_seq = seq, framed = frame, sent_at = now, rto = rto_base_ms (cfg s),
                 retransmit_count = 0, in_flight = True\<rparr>
        in if length (tx_pending s) \<ge> unat (rx_window_packets (cfg s))
           then (kErrBufferTooSmall, count_dropped 1 s)
           else
             let s = s\<lparr>tx_pending := tx_pending s @ [p]\<rparr>;
                 s = (if has_socket s \<and> length (peer_endpoint s) \<noteq> 0
                      then send_to (peer_endpoint s) frame s else s)
             in (kOk, count_sent s))"

text \<open>\<^verbatim>\<open>recv()\<close> hands the delivered datagrams to the callback and returns their number.\<close>

definition arq_recv :: "arq \<Rightarrow> bytes list \<times> arq" where
  "arq_recv s = (rx_delivered s, s\<lparr>rx_delivered := []\<rparr>)"

text \<open>The test hooks of the in-process path.\<close>

definition arq_test_inject_inbound :: "bytes \<Rightarrow> arq \<Rightarrow> arq" where
  "arq_test_inject_inbound bs s =
     count_recv 1 (s\<lparr>rx_delivered := rx_delivered s @ [dtls_psk_decrypt bs]\<rparr>)"

fun tick_pending :: "u16 \<Rightarrow> pending_packet list \<Rightarrow> pending_packet list \<times> nat \<times> nat" where
  "tick_pending m [] = ([], 0, 0)"
| "tick_pending m (p # ps) =
     (let (ps', r, d) = tick_pending m ps in
      if in_flight p then
        (let c = retransmit_count p + 1; p = p\<lparr>retransmit_count := c\<rparr> in
         if c \<ge> m then (p\<lparr>in_flight := False\<rparr> # ps', r + 1, d + 1) else (p # ps', r + 1, d))
      else (p # ps', r, d))"

definition arq_test_tick_retransmit :: "arq \<Rightarrow> arq" where
  "arq_test_tick_retransmit s =
     (let (ps, r, d) = tick_pending (max_retransmits (cfg s)) (tx_pending s) in
      count_dropped d (count_retransmit r (s\<lparr>tx_pending := ps\<rparr>)))"

section \<open>The interleaving of threads and callers\<close>

datatype arq_event =
    Open bool
  | Close
  | Send int endpoint bytes
  | Datagram endpoint bytes
  | Tick int
  | Recv

text \<open>The receive thread runs while there is a socket, the retransmit thread while opened.\<close>

inductive arq_step :: "arq \<Rightarrow> arq_event \<Rightarrow> arq \<Rightarrow> bool" where
  step_open: "arq_step s (Open ok) (snd (arq_open ok s))"
| step_close: "arq_step s Close (arq_close s)"
| step_send: "arq_step s (Send now dst d) (snd (arq_send now dst d s))"
| step_datagram: "has_socket s \<Longrightarrow> handle_datagram from buf s = Some s' \<Longrightarrow> arq_step s (Datagram from buf) s'"
| step_tick: "opened s \<Longrightarrow> arq_step s (Tick now) (retransmit_tick now s)"
| step_recv: "arq_step s Recv (snd (arq_recv s))"

inductive_cases arq_stepE: "arq_step s e s'"

inductive arq_reachable :: "raw_udp_config \<Rightarrow> arq \<Rightarrow> bool" for c where
  reach_init: "arq_reachable c (new_arq c)"
| reach_step: "arq_reachable c s \<Longrightarrow> arq_step s e s' \<Longrightarrow> arq_reachable c s'"

section \<open>Sequence arithmetic\<close>

lemma seq_diff: "(uint (a :: u16) - uint b) mod 65536 = int (unat (a - b))"
  by (simp add: uint_word_ariths flip: uint_nat)

lemma seq_in_window_iff: "seq_in_window seq base w \<longleftrightarrow> unat (seq - base) < unat w"
  unfolding seq_in_window_def Let_def seq_diff uint_nat [of w] by linarith

lemma seq_after_iff: "seq_after a b \<longleftrightarrow> unat (a - b) < 0x8000"
  unfolding seq_after_def seq_diff by linarith

lemma unat_diff_Suc: "k \<noteq> b \<Longrightarrow> unat (k - (b + 1)) = unat ((k :: u16) - b) - 1"
  using unat_minus_one [of "k - b"] by (simp add: diff_diff_eq)

section \<open>The receive window\<close>

definition buffer_ok :: "nat \<Rightarrow> u16 \<Rightarrow> (u16 \<times> bytes) list \<Rightarrow> bool" where
  "buffer_ok w base buf \<longleftrightarrow> distinct (map fst buf) \<and> (\<forall>k \<in> fst ` set buf. k \<noteq> base \<and> unat (k - base) < w)"

lemma buffer_ok_length:
  assumes "buffer_ok w base buf"
  shows "length buf \<le> w - 1"
proof -
  let ?f = "\<lambda>k. unat (k - base)"
  have "inj_on ?f (fst ` set buf)" by (rule inj_onI) (metis diff_add_cancel word_unat_eq_iff)
  then have "card (fst ` set buf) = card (?f ` (fst ` set buf))" by (rule card_image [symmetric])
  also have "\<dots> \<le> card {1..<w}"
  proof (rule card_mono)
    show "?f ` (fst ` set buf) \<subseteq> {1..<w}"
    proof
      fix x assume "x \<in> ?f ` (fst ` set buf)"
      then obtain k where k: "k \<in> fst ` set buf" "x = ?f k" by auto
      then have "?f k \<noteq> 0" "?f k < w" using assms by (auto simp: buffer_ok_def unat_eq_0)
      then show "x \<in> {1..<w}" using k by auto
    qed
  qed simp
  finally show ?thesis using assms distinct_card [of "map fst buf"] by (simp add: buffer_ok_def)
qed

lemma keys_delete: "fst ` set (AList.delete k xs) = fst ` set xs - {k}"
  using arg_cong [OF delete_keys [of k xs], of set] by simp

lemma drain_buffer_ok:
  assumes "distinct (map fst (rx_buffer s))" "\<forall>k \<in> fst ` set (rx_buffer s). unat (k - nb) < w"
    "rx_base_seq s = nb"
  shows "buffer_ok w (rx_base_seq (drain_buffer nb s)) (rx_buffer (drain_buffer nb s))"
  using assms
proof (induction nb s rule: drain_buffer.induct)
  case (1 nb s)
  show ?case
  proof (cases "map_of (rx_buffer s) nb")
    case None
    then have "nb \<notin> fst ` set (rx_buffer s)" by (simp add: map_of_eq_None_iff)
    then show ?thesis using 1(2-4) None by (subst drain_buffer.simps, subst drain_buffer.simps) (auto simp: buffer_ok_def)
  next
    case (Some v)
    let ?s = "count_recv 1 (s\<lparr>rx_delivered := rx_delivered s @ [v],
             rx_buffer := AList.delete nb (rx_buffer s), rx_base_seq := nb + 1\<rparr>)"
    have "drain_buffer nb s = drain_buffer (nb + 1) ?s" using Some by (subst drain_buffer.simps) simp
    moreover have "buffer_ok w (rx_base_seq (drain_buffer (nb + 1) ?s)) (rx_buffer (drain_buffer (nb + 1) ?s))"
    proof (rule 1(1) [OF Some])
      show "distinct (map fst (rx_buffer ?s))" using 1(2) by (simp add: count_recv_def distinct_delete)
      show "\<forall>k \<in> fst ` set (rx_buffer ?s). unat (k - (nb + 1)) < w"
        using 1(3) by (auto simp: count_recv_def keys_delete unat_diff_Suc less_imp_diff_less)
    qed (simp add: count_recv_def)
    ultimately show ?thesis by simp
  qed
qed


section \<open>Invariant\<close>

text \<open>What every pending packet and every reachable state satisfies.\<close>

definition packet_ok :: "raw_udp_config \<Rightarrow> pending_packet \<Rightarrow> bool" where
  "packet_ok c p \<longleftrightarrow>
     (\<exists>d. framed p = build_data_frame (pp_seq p) d \<and> length (framed p) \<le> kMaxDatagramBytes)
     \<and> in_flight p \<and> retransmit_count p \<le> max_retransmits c
     \<and> rto p \<le> max (rto_base_ms c) (rto_max_ms c)"

definition same_limits :: "raw_udp_config \<Rightarrow> raw_udp_config \<Rightarrow> bool" where
  "same_limits c c' \<longleftrightarrow> c'\<lparr>cfg_peer_endpoint := cfg_peer_endpoint c\<rparr> = c"

definition arq_inv :: "raw_udp_config \<Rightarrow> arq \<Rightarrow> bool" where
  "arq_inv c s \<longleftrightarrow> same_limits c (cfg s)
     \<and> length (tx_pending s) \<le> unat (rx_window_packets c)
     \<and> list_all (packet_ok c) (tx_pending s)
     \<and> buffer_ok (unat (rx_window_packets c)) (rx_base_seq s) (rx_buffer s)
     \<and> (\<not> rx_initialized s \<longrightarrow> rx_buffer s = [])
     \<and> (has_socket s \<longrightarrow> opened s)
     \<and> list_all (\<lambda>(ep, frame). length frame \<le> kMaxDatagramBytes) (wire s)"

lemma same_limits_fields:
  "same_limits c c' \<Longrightarrow> rx_window_packets c' = rx_window_packets c \<and> max_retransmits c' = max_retransmits c
     \<and> rto_base_ms c' = rto_base_ms c \<and> rto_max_ms c' = rto_max_ms c
     \<and> enable_real_socket c' = enable_real_socket c"
  by (cases c; cases c') (simp add: same_limits_def)

text \<open>Counters do not matter to the invariant.\<close>

lemma arq_inv_counts [simp]:
  "arq_inv c (count_recv n s) = arq_inv c s" "arq_inv c (count_dropped n s) = arq_inv c s"
  "arq_inv c (count_retransmit n s) = arq_inv c s" "arq_inv c (count_acks_sent s) = arq_inv c s"
  "arq_inv c (count_acks_recv n s) = arq_inv c s" "arq_inv c (count_sent s) = arq_inv c s"
  by (simp_all add: arq_inv_def count_defs)

lemma count_fields [simp]:
  "rx_buffer (count_recv n s) = rx_buffer s" "rx_base_seq (count_recv n s) = rx_base_seq s"
  "rx_delivered (count_recv n s) = rx_delivered s" "cfg (count_recv n s) = cfg s"
  "rx_initialized (count_recv n s) = rx_initialized s" "has_socket (count_recv n s) = has_socket s"
  "tx_pending (count_recv n s) = tx_pending s" "wire (count_recv n s) = wire s"
  "opened (count_recv n s) = opened s"
  by (simp_all add: count_recv_def)

lemma send_to_inv: "arq_inv c s \<Longrightarrow> length frame \<le> kMaxDatagramBytes \<Longrightarrow> arq_inv c (send_to ep frame s)"
  by (simp add: arq_inv_def send_to_def)

lemma send_ack_to_inv: "arq_inv c s \<Longrightarrow> arq_inv c (send_ack_to ep s)"
  by (simp add: send_ack_to_def send_to_inv build_ack_frame_def arq_consts)

lemma drain_buffer_frame:
  "tx_pending (drain_buffer b s) = tx_pending s \<and> cfg (drain_buffer b s) = cfg s \<and> opened (drain_buffer b s) = opened s
   \<and> has_socket (drain_buffer b s) = has_socket s \<and> wire (drain_buffer b s) = wire s
   \<and> rx_initialized (drain_buffer b s) = rx_initialized s"
proof (induction b s rule: drain_buffer.induct)
  case (1 b s)
  then show ?case by (cases "map_of (rx_buffer s) b") (auto simp: drain_buffer.simps [of b s])
qed

lemma handle_data_inv:
  assumes "arq_inv c s"
  shows "arq_inv c (handle_data from seq payload s)"
proof -
  let ?w = "unat (rx_window_packets c)"
  have w: "rx_window_packets (cfg s) = rx_window_packets c"
    and buf: "buffer_ok ?w (rx_base_seq s) (rx_buffer s)"
    using assms same_limits_fields by (auto simp: arq_inv_def)
  let ?b = "rx_base_seq s"
  let ?t = "count_recv 1 (s\<lparr>rx_delivered := rx_delivered s @ [payload], rx_base_seq := ?b + 1\<rparr>)"
  have first: "arq_inv c (s\<lparr>rx_initialized := True, rx_base_seq := seq, rx_delivered := ds\<rparr>)" if "\<not> rx_initialized s" for ds
    using that assms by (simp add: arq_inv_def buffer_ok_def)
  have "buffer_ok ?w (rx_base_seq (drain_buffer (?b + 1) ?t)) (rx_buffer (drain_buffer (?b + 1) ?t))"
    by (rule drain_buffer_ok) (use buf in \<open>auto simp: buffer_ok_def unat_diff_Suc less_imp_diff_less\<close>)
  then have in_order: "arq_inv c (drain_buffer (?b + 1) ?t)" if "rx_initialized s"
    using assms drain_buffer_frame [of "?b + 1" ?t] that by (simp add: arq_inv_def)
  have out_of_order: "arq_inv c (s\<lparr>rx_buffer := AList.update seq payload (rx_buffer s)\<rparr>)"
    if "rx_initialized s" "seq \<noteq> ?b" "unat (seq - ?b) < ?w"
    using that assms by (auto simp: arq_inv_def buffer_ok_def distinct_update dom_update)
  show ?thesis unfolding handle_data_def Let_def w seq_in_window_iff
    using assms first in_order out_of_order by (auto intro!: send_ack_to_inv)
qed

lemma ack_loop_subset:
  "ack_loop a b ps = Some (qs, n) \<Longrightarrow> set qs \<subseteq> set ps \<and> length qs \<le> length ps"
proof (induction ps arbitrary: qs n)
  case (Cons p ps)
  then obtain acked qs' n' where "ack_loop a b ps = Some (qs', n')" "qs = (if acked then qs' else p # qs')"
    by (auto split: bind_splits if_splits)
  then show ?case using Cons.IH by (auto split: if_splits)
qed simp

lemma apply_ack_frame_inv:
  assumes "arq_inv c s" "apply_ack_frame a b s = Some s'"
  shows "arq_inv c s'"
proof -
  obtain qs n where l: "ack_loop a b (tx_pending s) = Some (qs, n)" "s' = count_acks_recv n (s\<lparr>tx_pending := qs\<rparr>)"
    using assms(2) by (auto simp: apply_ack_frame_def split: bind_splits)
  show ?thesis using ack_loop_subset [OF l(1)] assms(1) by (auto simp: l(2) arq_inv_def list_all_iff count_defs)
qed

lemma handle_datagram_cases:
  assumes "handle_datagram from buf s = Some s'"
  shows "s' = s \<or> s' = count_dropped 1 s \<or> (\<exists>a b. apply_ack_frame a b s = Some s') \<or> (\<exists>q d. s' = handle_data from q d s)"
proof (cases "length buf = 0 \<or> length buf < kDataHeaderBytes")
  case True
  then show ?thesis using assms by (cases "length buf = 0") (simp_all add: handle_datagram_def)
next
  case False
  then show ?thesis using assms by (cases "buf ! 0 = frame_type_code Ack") (auto simp: handle_datagram_def Let_def split: if_split_asm)
qed

lemma handle_datagram_inv:
  assumes "arq_inv c s" "handle_datagram from buf s = Some s'"
  shows "arq_inv c s'"
  using handle_datagram_cases [OF assms(2)]
proof (elim disjE exE)
  fix a b assume "apply_ack_frame a b s = Some s'"
  then show ?thesis by (rule apply_ack_frame_inv [OF assms(1)])
qed (use assms(1) in \<open>simp_all add: handle_data_inv\<close>)

text \<open>A cumulative acknowledgement below \<open>2\<^sup>3\<^sup>1\<close> is processed without overflow.\<close>

lemma ack_loop_defined: "0 \<le> sint cum \<Longrightarrow> ack_loop cum bm ps \<noteq> None"
proof (induction ps)
  case (Cons p ps)
  have "uint (pp_seq p) < 2 ^ 16" using uint_lt2p [of "pp_seq p"] by simp
  with Cons.prems have "\<not> uint (pp_seq p) - sint cum > 2 ^ 31 - 1" by simp
  then have "is_acked cum bm (pp_seq p) \<noteq> None" unfolding is_acked_def Let_def by (simp del: not_None_eq)
  then show ?case using Cons by auto
qed simp

lemma handle_datagram_defined:
  "handle_datagram from buf s \<noteq> None \<or> kAckTotalBytes \<le> length buf \<and> buf ! 0 = frame_type_code Ack \<and> bit (buf ! 4) 7"
proof (cases "bit (buf ! 4) 7")
  case False
  define cum where "cum = be32_of (buf ! 4) (buf ! 3) (buf ! 2) (buf ! 1)"
  have "\<not> bit w n" if "8 \<le> n" for w :: u8 and n using that bit_imp_le_length [of w n] by auto
  then have "\<not> bit cum 31" using False unfolding cum_def be32_of_def by (simp add: bit_simps)
  then have "0 \<le> sint cum" using bit_last_iff [of cum] by simp
  then have "apply_ack_frame cum bm s \<noteq> None" for bm using ack_loop_defined [of cum bm "tx_pending s"] by (auto simp: apply_ack_frame_def)
  then show ?thesis by (simp add: handle_datagram_def Let_def cum_def)
qed (auto simp: handle_datagram_def Let_def)

lemma retransmit_scan_ok:
  assumes "list_all (packet_ok c) ps" "same_limits c c'" "retransmit_scan c' now ps = (ps', rs, ds)"
  shows "list_all (packet_ok c) ps' \<and> length ps' = length ps
    \<and> list_all (\<lambda>(q, frame). length frame \<le> kMaxDatagramBytes) rs"
  using assms(1,3)
proof (induction ps arbitrary: ps' rs ds)
  case (Cons p ps)
  obtain qs r d where r: "retransmit_scan c' now ps = (qs, r, d)" by (cases "retransmit_scan c' now ps")
  note IH = Cons.IH [OF _ r]
  note f = same_limits_fields [OF assms(2)]
  have inc: "retransmit_count p < max_retransmits c \<Longrightarrow> retransmit_count p + 1 \<le> max_retransmits c"
    by (rule inc_le)
  show ?case using Cons.prems IH r f inc
    by (auto simp: packet_ok_def not_le split: if_splits)
qed simp

lemma erase_seq_subset: "set (erase_seq q ps) \<subseteq> set ps \<and> length (erase_seq q ps) \<le> length ps"
  by (induction ps) auto

lemma fold_erase_subset: "set (fold erase_seq ds ps) \<subseteq> set ps \<and> length (fold erase_seq ds ps) \<le> length ps"
proof (induction ds arbitrary: ps)
  case (Cons d ds)
  then show ?case using erase_seq_subset [of d ps] by (fastforce intro: le_trans)
qed simp

lemma fold_send_inv:
  "arq_inv c s \<Longrightarrow> list_all (\<lambda>(q, frame). length frame \<le> kMaxDatagramBytes) rs \<Longrightarrow>
     arq_inv c (fold (\<lambda>(q, frame). send_to ep frame) rs s)"
  by (induction rs arbitrary: s) (auto intro: send_to_inv)

lemma retransmit_tick_inv:
  assumes "arq_inv c s"
  shows "arq_inv c (retransmit_tick now s)"
proof -
  obtain ps rs ds where r: "retransmit_scan (cfg s) now (tx_pending s) = (ps, rs, ds)"
    by (cases "retransmit_scan (cfg s) now (tx_pending s)")
  have ok: "list_all (packet_ok c) ps" "length ps = length (tx_pending s)"
    "list_all (\<lambda>(q, frame). length frame \<le> kMaxDatagramBytes) rs"
    using retransmit_scan_ok [OF _ _ r] assms by (auto simp: arq_inv_def)
  have "arq_inv c (s\<lparr>tx_pending := fold erase_seq ds ps\<rparr>)"
    using assms ok fold_erase_subset [of ds ps] by (auto simp: arq_inv_def list_all_iff)
  then show ?thesis by (simp add: retransmit_tick_def r Let_def fold_send_inv ok(3))
qed

lemma peer_inv:
  "arq_inv c s \<Longrightarrow> arq_inv c (s\<lparr>peer_endpoint := e, cfg := (cfg s)\<lparr>cfg_peer_endpoint := e'\<rparr>\<rparr>)"
  "arq_inv c s \<Longrightarrow> arq_inv c (s\<lparr>cfg := (cfg s)\<lparr>cfg_peer_endpoint := e'\<rparr>\<rparr>)"
  by (simp_all add: arq_inv_def same_limits_def)

lemma tx_seq_inv: "arq_inv c (s\<lparr>tx_seq := q\<rparr>) = arq_inv c s"
  by (simp add: arq_inv_def)

lemma pending_inv:
  "arq_inv c s \<Longrightarrow> length (tx_pending s) < unat (rx_window_packets (cfg s)) \<Longrightarrow> length d + 4 \<le> kMaxDatagramBytes \<Longrightarrow>
     arq_inv c (s\<lparr>tx_pending := tx_pending s @ [\<lparr>pp_seq = q, framed = build_data_frame q d, sent_at = now,
       rto = rto_base_ms (cfg s), retransmit_count = 0, in_flight = True\<rparr>]\<rparr>)"
  using same_limits_fields [of c "cfg s"]
  by (auto simp: arq_inv_def packet_ok_def build_data_frame_def)

lemma arq_send_inv:
  assumes "arq_inv c s"
  shows "arq_inv c (snd (arq_send now dst d s))"
proof -
  let ?s1 = "if length dst \<noteq> 0 then s\<lparr>peer_endpoint := dst, cfg := (cfg s)\<lparr>cfg_peer_endpoint := dst\<rparr>\<rparr>
     else s\<lparr>cfg := (cfg s)\<lparr>cfg_peer_endpoint := peer_endpoint s\<rparr>\<rparr>"
  define s2 where "s2 = ?s1\<lparr>tx_seq := tx_seq ?s1 + 1\<rparr>"
  have inv: "arq_inv c s2" unfolding s2_def tx_seq_inv using assms by (simp add: peer_inv)
  have frame: "length (build_data_frame q d) \<le> kMaxDatagramBytes" if "length d + 4 \<le> kMaxDatagramBytes" for q
    using that by (simp add: build_data_frame_def)
  show ?thesis
    using assms inv pending_inv [OF inv, of d] frame
    unfolding arq_send_def Let_def next_tx_seq_def prod.case s2_def [symmetric]
    by (auto simp: not_le send_to_inv)
qed

lemma arq_step_inv: "arq_step s e s' \<Longrightarrow> arq_inv c s \<Longrightarrow> arq_inv c s'"
proof (induction rule: arq_step.induct)
  case (step_open s ok)
  then show ?case by (auto simp: arq_open_def arq_inv_def)
next
  case (step_close s)
  then show ?case by (auto simp: arq_close_def arq_inv_def buffer_ok_def)
next
  case (step_recv s)
  then show ?case by (simp add: arq_recv_def arq_inv_def)
qed (simp_all add: arq_send_inv handle_datagram_inv [rotated] retransmit_tick_inv)

lemma arq_inv_init: "arq_inv c (new_arq c)"
  by (simp add: new_arq_def arq_inv_def same_limits_def buffer_ok_def)

lemma arq_reachable_inv: "arq_reachable c s \<Longrightarrow> arq_inv c s"
  by (induction rule: arq_reachable.induct) (blast intro: arq_inv_init arq_step_inv)+

section \<open>Acknowledgements\<close>

lemma ack_loop_filter:
  assumes "\<And>q. is_acked cum bm q = Some (f q)"
  shows "ack_loop cum bm ps = Some (filter (\<lambda>p. \<not> f (pp_seq p)) ps, length (filter (\<lambda>p. f (pp_seq p)) ps))"
  by (induction ps) (simp_all add: assms)

lemma and_push_bit_iff: "(bm :: u32) AND push_bit n 1 \<noteq> 0 \<longleftrightarrow> bit bm n"
proof -
  have "bm AND 2 ^ n = 0 \<longleftrightarrow> \<not> bit bm n" by (rule and_exp_eq_0_iff_not_bit)
  then show ?thesis by (simp add: push_bit_eq_mult)
qed

lemma bit_ack_bitmap:
  assumes "n < 32"
  shows "bit (ack_bitmap base buf bm) n \<longleftrightarrow> bit bm n \<or> (\<exists>k \<in> fst ` set buf. unat (k - base) = n + 1)"
proof (induction base buf bm rule: ack_bitmap.induct)
  case (2 base seq v kvs bm)
  obtain m where m: "m = unat (seq - base)" by blast
  have d: "(uint seq - uint base) mod 65536 = int m" unfolding m by (rule seq_diff)
  have e: "nat (int m - 1) = m - 1" "(0 < int m \<and> int m \<le> 32) = (0 < m \<and> m \<le> 32)" by linarith+
  have step: "ack_bitmap base ((seq, v) # kvs) bm
      = ack_bitmap base kvs (if 0 < m \<and> m \<le> 32 then bm OR push_bit (m - 1) 1 else bm)"
    unfolding ack_bitmap.simps Let_def d kSelectiveAckBits_def e ..
  have IH: "bit (ack_bitmap base kvs (if 0 < m \<and> m \<le> 32 then bm OR push_bit (m - 1) 1 else bm)) n
      \<longleftrightarrow> bit (if 0 < m \<and> m \<le> 32 then bm OR push_bit (m - 1) 1 else bm) n
        \<or> (\<exists>k \<in> fst ` set kvs. unat (k - base) = n + 1)"
    using 2 [OF refl] unfolding d kSelectiveAckBits_def e .
  show ?case unfolding step IH using assms by (auto simp: bit_simps m [symmetric])
qed simp

lemma uint_ucast_up: "uint (ucast (b :: u16) :: u32) = uint b"
  by (simp add: unsigned_ucast_eq take_bit_eq_mod) (use uint_lt2p [of b] in simp)

lemma sint_ucast_up: "sint (ucast (b :: u16) :: u32) = uint b"
  by (simp add: signed_ucast_eq signed_take_bit_int_eq_self_iff) (use uint_lt2p [of b] in \<open>simp add: order_trans [OF _ uint_ge_0]\<close>)

lemma is_acked_iff:
  "is_acked (ucast base) bm seq = Some (unat (base - seq) \<le> 0x8000
     \<or> 0 < unat (seq - base) \<and> unat (seq - base) \<le> 32 \<and> bit bm (unat (seq - base) - 1))"
proof -
  have si: "sint (ucast base :: u32) = uint base" by (simp add: sint_ucast_up)
  have d: "(uint seq - uint base) mod 65536 = int (unat (seq - base))" by (rule seq_diff)
  have small: "\<not> uint seq - uint base > 2 ^ 31 - 1" 
  proof -
    have "uint seq < 65536" using uint_lt2p [of seq] by simp
    moreover have "0 \<le> uint base" by (rule uint_ge_0)
    ultimately have "uint seq - uint base \<le> 2147483647" by linarith
    then show ?thesis by simp
  qed
  have u: "(ucast (ucast base :: u32) :: u16) = base" by (rule bit_word_eqI) (simp add: bit_simps)
  have eq: "uint seq = uint (ucast base :: u32) \<longleftrightarrow> seq = base" unfolding uint_ucast_up by (simp add: word_uint_eq_iff)
  have c: "(ucast ((ucast base :: u32) - ucast seq) :: u16) = base - seq"
    using uint_lt2p [of base] uint_lt2p [of seq]
    by (simp add: word_uint_eq_iff uint_word_ariths unsigned_ucast_eq take_bit_eq_mod mod_mod_cancel)
  have n: "unat (base - seq) = 65536 - unat (seq - base)" if "seq \<noteq> base"
  proof -
    have "uint (- (seq - base)) = 65536 - uint (seq - base)" by (rule uint_u16_neg) (simp add: that)
    then have "int (unat (base - seq)) = 65536 - int (unat (seq - base))" by (simp only: uint_nat minus_diff_eq)
    then show ?thesis by linarith
  qed
  show ?thesis
  proof (cases "seq = base")
    case False
    obtain m where m: "m = unat (seq - base)" by blast
    have "0 < m" using False by (simp add: m unat_gt_0)
    then show ?thesis using False n [OF False]
      unfolding is_acked_def eq c Let_def si d kSelectiveAckBits_def and_push_bit_iff u seq_after_iff m [symmetric] if_not_P [OF small]
      by (auto simp: nat_diff_distrib)
  qed (simp add: is_acked_def uint_ucast_up)
qed


text \<open>Decoding the two frame kinds.\<close>

lemma handle_ack_frame: "handle_datagram from (build_ack_frame cum bm) s = apply_ack_frame cum bm s"
  by (simp add: handle_datagram_def build_ack_frame_def arq_consts codec_simps)

lemma handle_data_frame: "handle_datagram from (build_data_frame seq d) s = Some (handle_data from seq d s)"
  by (simp add: handle_datagram_def build_data_frame_def arq_consts codec_simps dtls_psk_decrypt_def)

definition covered_by :: "u16 \<Rightarrow> (u16 \<times> bytes) list \<Rightarrow> u16 \<Rightarrow> bool" where
  "covered_by base buf seq \<longleftrightarrow> unat (base - seq) \<le> 0x8000
     \<or> seq \<in> fst ` set buf \<and> 0 < unat (seq - base) \<and> unat (seq - base) \<le> 32"

lemma is_acked_bitmap: "is_acked (ucast base) (ack_bitmap base buf 0) seq = Some (covered_by base buf seq)"
proof -
  have "bit (ack_bitmap base buf 0) (unat (seq - base) - 1) \<longleftrightarrow> seq \<in> fst ` set buf"
    if "0 < unat (seq - base)" "unat (seq - base) \<le> 32"
  proof -
    have "k = seq" if "unat (k - base) = unat (seq - base)" for k
      using that by (metis diff_add_cancel word_unat_eq_iff)
    then show ?thesis using that bit_ack_bitmap [of "unat (seq - base) - 1" base buf 0] by auto
  qed
  then show ?thesis unfolding is_acked_iff covered_by_def by auto
qed

lemma handle_own_ack:
  "\<exists>n. handle_datagram from (build_ack_frame (ucast base) (ack_bitmap base buf 0)) s
     = Some (count_acks_recv n (s\<lparr>tx_pending := filter (\<lambda>p. \<not> covered_by base buf (pp_seq p)) (tx_pending s)\<rparr>))
   \<and> tx_pending (count_acks_recv n (s\<lparr>tx_pending := filter (\<lambda>p. \<not> covered_by base buf (pp_seq p)) (tx_pending s)\<rparr>))
     = filter (\<lambda>p. \<not> covered_by base buf (pp_seq p)) (tx_pending s)"
  unfolding handle_ack_frame apply_ack_frame_def ack_loop_filter [OF is_acked_bitmap]
  by (intro exI [of _ "length (filter (\<lambda>p. covered_by base buf (pp_seq p)) (tx_pending s))"]) (simp add: count_defs)

text \<open>
  What an acknowledgement does end to end: when the sender receives the ACK frame a
  receiver in state \<open>r\<close> emits, it forgets exactly the pending packets that lie at or behind
  the receiver's base (in the half range of serial arithmetic) or in its out-of-order buffer
  within the 32 selectively acknowledged positions, and keeps the others, in order.
\<close>

theorem arq_ack_exact:
  assumes "has_socket r" "ep \<noteq> []" "send_ack_to ep r = r'"
  shows "\<exists>frame s'. wire r' = wire r @ [(ep, frame)] \<and> handle_datagram from frame s = Some s'
    \<and> tx_pending s' = filter (\<lambda>p. \<not> covered_by (rx_base_seq r) (rx_buffer r) (pp_seq p)) (tx_pending s)"
proof -
  define frame where "frame = build_ack_frame (ucast (rx_base_seq r)) (ack_bitmap (rx_base_seq r) (rx_buffer r) 0)"
  have "wire r' = wire r @ [(ep, frame)]" using assms by (auto simp: frame_def send_ack_to_def send_to_def count_defs)
  then show ?thesis using handle_own_ack [of "from" "rx_base_seq r" "rx_buffer r" s] unfolding frame_def by blast
qed

definition sample_config :: raw_udp_config where
  "sample_config = \<lparr>cfg_peer_endpoint = [], rx_window_packets = 32, max_retransmits = 5,
     rto_base_ms = 50, rto_max_ms = 1000, enable_real_socket = True\<rparr>"

theorem arq_ack_exact_witness:
  "\<exists>frame s'. wire (send_ack_to [9] ((new_arq sample_config)\<lparr>has_socket := True, rx_base_seq := 7, rx_buffer := [(9, [])]\<rparr>))
      = [([9], frame)]
    \<and> handle_datagram [9] frame ((new_arq sample_config)\<lparr>tx_pending :=
        map (\<lambda>q. \<lparr>pp_seq = q, framed = [], sent_at = 0, rto = 50, retransmit_count = 0, in_flight = True\<rparr>) [6, 7, 8, 9]\<rparr>) = Some s'
    \<and> tx_pending s' = [\<lparr>pp_seq = 8, framed = [], sent_at = 0, rto = 50, retransmit_count = 0, in_flight = True\<rparr>]"
proof -
  let ?r = "(new_arq sample_config)\<lparr>has_socket := True, rx_base_seq := 7, rx_buffer := [(9, [])]\<rparr>"
  have "covered_by 7 [(9, [] :: bytes)] 6" "covered_by 7 [(9, [] :: bytes)] 7" "covered_by 7 [(9, [] :: bytes)] 9"
    "\<not> covered_by 7 [(9, [] :: bytes)] 8"
    by (simp_all add: covered_by_def unsigned_minus_1_eq_mask mask_eq_exp_minus_1)
  with arq_ack_exact [of ?r "[9]" "send_ack_to [9] ?r" "[9]" "(new_arq sample_config)\<lparr>tx_pending :=
        map (\<lambda>q. \<lparr>pp_seq = q, framed = [], sent_at = 0, rto = 50, retransmit_count = 0, in_flight = True\<rparr>) [6, 7, 8, 9]\<rparr>"]
  show ?thesis by (simp add: new_arq_def)
qed

section \<open>In-order delivery\<close>

lemma drain_miss: "map_of (rx_buffer s) b = None \<Longrightarrow> drain_buffer b s = s"
  by (subst drain_buffer.simps) simp

lemma seq_succ: "unat ((b :: u16) + 1 - b) = 1" "(b :: u16) + 1 \<noteq> b"
  by simp_all

lemma handle_next_in_order:
  assumes "rx_initialized r" "map_of (rx_buffer r) (rx_base_seq r + 1) = None"
    "2 \<le> unat (rx_window_packets (cfg r))"
  shows "handle_data from (rx_base_seq r + 1) d r
    = send_ack_to from (count_recv 1 (r\<lparr>rx_delivered := rx_delivered r @ [d], rx_base_seq := rx_base_seq r + 1\<rparr>))"
  using assms by (simp add: handle_data_def Let_def seq_in_window_iff seq_after_iff drain_miss)

text \<open>
  A link that neither loses nor reorders: the datagrams each side has put on the wire, in order, reach the other side when the link gets
  to them, interleaved arbitrarily with further sends. \<open>lk_data\<close> and \<open>lk_acks\<close> count the data frames and the acknowledgements
  delivered so far, \<open>lk_sent\<close> collects the datagrams whose \<^verbatim>\<open>send()\<close> returned \<^verbatim>\<open>kOk\<close>. The caller does not send while the window is full.
\<close>

record link =
  lk_s :: arq
  lk_r :: arq
  lk_data :: nat
  lk_acks :: nat
  lk_sent :: "bytes list"

datatype link_op = LSend int bytes | LData | LAck

definition link_start :: "raw_udp_config \<Rightarrow> raw_udp_config \<Rightarrow> link" where
  "link_start cs cr = \<lparr>lk_s = snd (arq_open True (new_arq cs)), lk_r = snd (arq_open True (new_arq cr)), lk_data = 0, lk_acks = 0, lk_sent = []\<rparr>"

definition link_step :: "endpoint \<Rightarrow> endpoint \<Rightarrow> link_op \<Rightarrow> link option \<Rightarrow> link option" where
  "link_step peer me op x = Option.bind x (\<lambda>k. case op of
     LSend now d \<Rightarrow>
       if length (tx_pending (lk_s k)) < unat (rx_window_packets (cfg (lk_s k))) then
         (case arq_send now peer d (lk_s k) of (st, s) \<Rightarrow>
            Some (k\<lparr>lk_s := s, lk_sent := lk_sent k @ (if st = kOk then [d] else [])\<rparr>))
       else Some k
   | LData \<Rightarrow>
       if lk_data k < length (wire (lk_s k)) then
         map_option (\<lambda>r. k\<lparr>lk_r := r, lk_data := lk_data k + 1\<rparr>) (handle_datagram me (snd (wire (lk_s k) ! lk_data k)) (lk_r k))
       else Some k
   | LAck \<Rightarrow>
       if lk_acks k < length (wire (lk_r k)) then
         map_option (\<lambda>s. k\<lparr>lk_s := s, lk_acks := lk_acks k + 1\<rparr>) (handle_datagram peer (snd (wire (lk_r k) ! lk_acks k)) (lk_s k))
       else Some k)"

text \<open>Both sides in step: what is pending, what is on the wires and what has been delivered.\<close>

definition sender_in_step :: "endpoint \<Rightarrow> u16 \<Rightarrow> bytes list \<Rightarrow> nat \<Rightarrow> arq \<Rightarrow> bool" where
  "sender_in_step peer w sent j s \<longleftrightarrow> opened s \<and> has_socket s \<and> rx_window_packets (cfg s) = w \<and> tx_seq s = of_nat (length sent)
     \<and> wire s = map (\<lambda>x. (peer, build_data_frame (of_nat x) (sent ! x))) [0..<length sent]
     \<and> map pp_seq (tx_pending s) = map of_nat [j..<length sent] \<and> length (tx_pending s) \<le> unat w"

definition receiver_in_step :: "endpoint \<Rightarrow> u16 \<Rightarrow> bytes list \<Rightarrow> nat \<Rightarrow> arq \<Rightarrow> bool" where
  "receiver_in_step me w sent i r \<longleftrightarrow> has_socket r \<and> rx_buffer r = [] \<and> rx_window_packets (cfg r) = w \<and> rx_delivered r = take i sent
     \<and> (rx_initialized r \<longleftrightarrow> 0 < i) \<and> (0 < i \<longrightarrow> rx_base_seq r = of_nat (i - 1))
     \<and> wire r = map (\<lambda>x. (me, build_ack_frame (ucast (of_nat x :: u16)) 0)) [0..<i]"

lemma send_in_step:
  assumes "sender_in_step peer w sent j s" "peer \<noteq> []" "j \<le> length sent" "length (tx_pending s) < unat w"
  obtains "arq_send now peer d s = (kErrBufferTooSmall, s)"
  | s' where "arq_send now peer d s = (kOk, s')" "sender_in_step peer w (sent @ [d]) j s'"
proof (cases "length d + 4 > kMaxDatagramBytes")
  case True
  then show ?thesis using that(1) assms(1) by (simp add: arq_send_def sender_in_step_def)
next
  case False
  obtain st s' where e: "arq_send now peer d s = (st, s')" by fastforce
  have f: "st = kOk" "wire s' = wire s @ [(peer, build_data_frame (tx_seq s) d)]" "opened s'" "has_socket s'"
    "rx_window_packets (cfg s') = w" "tx_seq s' = tx_seq s + 1" "map pp_seq (tx_pending s') = map pp_seq (tx_pending s) @ [tx_seq s]"
    "length (tx_pending s') = length (tx_pending s) + 1"
    using e assms False unfolding sender_in_step_def
    by (auto simp: arq_send_def Let_def next_tx_seq_def send_to_def count_defs)
  have "map (\<lambda>x. (peer, build_data_frame (of_nat x) ((sent @ [d]) ! x))) [0..<length sent]
      = map (\<lambda>x. (peer, build_data_frame (of_nat x) (sent ! x))) [0..<length sent]" by (simp add: nth_append)
  then have "sender_in_step peer w (sent @ [d]) j s'"
    using f(2-8) assms(1,3,4) unfolding sender_in_step_def by (simp add: nth_append)
  then show ?thesis using that(2) e f(1) by blast
qed

lemma data_in_step:
  assumes "receiver_in_step me w sent i r" "i < length sent" "me \<noteq> []" "2 \<le> unat w"
  shows "\<exists>r'. handle_datagram me (build_data_frame (of_nat i) (sent ! i)) r = Some r' \<and> receiver_in_step me w sent (i + 1) r'"
proof -
  note a = assms(1) [unfolded receiver_in_step_def]
  define r0 where "r0 = count_recv 1 (r\<lparr>rx_initialized := True, rx_base_seq := of_nat i, rx_delivered := rx_delivered r @ [sent ! i]\<rparr>)"
  have h: "handle_data me (of_nat i) (sent ! i) r = send_ack_to me r0"
  proof (cases "i = 0")
    case True
    then show ?thesis using a by (simp add: handle_data_def r0_def)
  next
    case False
    then have b: "(of_nat i :: u16) = rx_base_seq r + 1" "rx_initialized r" using a by (simp_all add: of_nat_diff)
    have "r\<lparr>rx_initialized := True\<rparr> = r" using b(2) by (cases r) simp
    then show ?thesis using handle_next_in_order [of r me "sent ! i"] a b assms(4) by (cases r) (simp add: r0_def)
  qed
  have "receiver_in_step me w sent (i + 1) (send_ack_to me r0)"
    using a assms(2,3) by (simp add: receiver_in_step_def r0_def send_ack_to_def send_to_def count_defs take_Suc_conv_app_nth)
  then show ?thesis by (auto simp: handle_data_frame h)
qed

lemma covered_ahead:
  assumes "j \<le> x" "x - j < 32768"
  shows "covered_by (of_nat j) [] (of_nat x) \<longleftrightarrow> x = j"
proof (cases "x = j")
  case True
  then show ?thesis by (simp add: covered_by_def)
next
  case False
  define k where "k = x - j"
  have k: "x = j + k" "0 < k" "k < 32768" using False assms by (simp_all add: k_def)
  have "(of_nat j :: u16) - of_nat x = - of_nat k" by (simp add: k(1))
  moreover have "(of_nat k :: u16) \<noteq> 0" using k by (simp add: word_of_nat_eq_0_iff nat_dvd_not_less)
  moreover from this have "uint (- (of_nat k :: u16)) = 65536 - uint (of_nat k :: u16)" by (rule uint_u16_neg)
  moreover have "uint (of_nat k :: u16) = int k" using k by (simp add: unsigned_of_nat take_bit_nat_eq_self)
  ultimately have "int (unat ((of_nat j :: u16) - of_nat x)) = 65536 - int k" by (simp only: uint_nat)
  then have "unat ((of_nat j :: u16) - of_nat x) = 65536 - k" using k by linarith
  then have "\<not> unat ((of_nat j :: u16) - of_nat x) \<le> 32768" using k by simp
  then show ?thesis using False by (simp only: covered_by_def) simp
qed

lemma ack_in_step:
  assumes "sender_in_step peer w sent j s" "j < length sent" "unat w \<le> 32768"
  shows "\<exists>s'. handle_datagram peer (build_ack_frame (ucast (of_nat j :: u16)) 0) s = Some s' \<and> sender_in_step peer w sent (j + 1) s'"
proof -
  note a = assms(1) [unfolded sender_in_step_def]
  let ?keep = "filter (\<lambda>p. \<not> covered_by (of_nat j) [] (pp_seq p)) (tx_pending s)"
  have len: "length sent - j \<le> 32768" using a assms(3) by (metis (no_types, lifting) le_trans length_map length_upt)
  obtain n where n: "handle_datagram peer (build_ack_frame (ucast (of_nat j :: u16)) 0) s = Some (count_acks_recv n (s\<lparr>tx_pending := ?keep\<rparr>))"
    using handle_own_ack [of peer "of_nat j" "[]" s] by auto
  have "map pp_seq ?keep = filter (\<lambda>q. \<not> covered_by (of_nat j) [] q) (map pp_seq (tx_pending s))"
    by (simp add: filter_map comp_def)
  also have "\<dots> = map of_nat (filter (\<lambda>x. \<not> covered_by (of_nat j) [] (of_nat x)) [j..<length sent])"
    using a by (simp add: filter_map comp_def)
  also have "filter (\<lambda>x. \<not> covered_by (of_nat j) [] (of_nat x)) [j..<length sent] = filter (\<lambda>x. x \<noteq> j) [j..<length sent]"
    using len by (intro filter_cong refl) (auto intro!: arg_cong [of _ _ Not] covered_ahead)
  also have "\<dots> = [j + 1..<length sent]" using assms(2) by (simp add: upt_conv_Cons filter_id_conv)
  finally have "map pp_seq ?keep = map of_nat [j + 1..<length sent]" .
  moreover have "length ?keep \<le> unat w" using a by (meson le_trans length_filter_le)
  ultimately show ?thesis using n a by (auto simp: sender_in_step_def count_defs)
qed

definition link_inv :: "endpoint \<Rightarrow> endpoint \<Rightarrow> u16 \<Rightarrow> u16 \<Rightarrow> link \<Rightarrow> bool" where
  "link_inv peer me w w' k \<longleftrightarrow> sender_in_step peer w (lk_sent k) (lk_acks k) (lk_s k) \<and> receiver_in_step me w' (lk_sent k) (lk_data k) (lk_r k)
     \<and> lk_acks k \<le> lk_data k \<and> lk_data k \<le> length (lk_sent k)"

definition link_contract :: "endpoint \<Rightarrow> endpoint \<Rightarrow> raw_udp_config \<Rightarrow> raw_udp_config \<Rightarrow> bool" where
  "link_contract peer me cs cr \<longleftrightarrow> peer \<noteq> [] \<and> me \<noteq> [] \<and> enable_real_socket cs \<and> enable_real_socket cr
     \<and> unat (rx_window_packets cs) \<le> 32768 \<and> 2 \<le> unat (rx_window_packets cr)"

definition link_ok :: "endpoint \<Rightarrow> endpoint \<Rightarrow> raw_udp_config \<Rightarrow> raw_udp_config \<Rightarrow> link option \<Rightarrow> bool" where
  "link_ok peer me cs cr x \<longleftrightarrow>
     (link_contract peer me cs cr \<longrightarrow> (\<exists>k. x = Some k \<and> link_inv peer me (rx_window_packets cs) (rx_window_packets cr) k))"

lemma receiver_more_sent: "receiver_in_step me w sent i r \<Longrightarrow> i \<le> length sent \<Longrightarrow> receiver_in_step me w (sent @ ds) i r"
  by (simp add: receiver_in_step_def)

lemma link_step_inv:
  assumes "link_inv peer me (rx_window_packets cs) (rx_window_packets cr) k" "link_contract peer me cs cr"
  shows "\<exists>k'. link_step peer me op (Some k) = Some k' \<and> link_inv peer me (rx_window_packets cs) (rx_window_packets cr) k'
    \<and> (case op of LSend now d \<Rightarrow> lk_data k' = lk_data k \<and> lk_acks k' = lk_acks k \<and> length (lk_sent k') \<le> Suc (length (lk_sent k))
       | LData \<Rightarrow> lk_data k' = min (length (lk_sent k)) (Suc (lk_data k)) \<and> lk_acks k' = lk_acks k \<and> lk_sent k' = lk_sent k
       | LAck \<Rightarrow> lk_acks k' = min (lk_data k) (Suc (lk_acks k)) \<and> lk_data k' = lk_data k \<and> lk_sent k' = lk_sent k)"
proof -
  let ?ws = "rx_window_packets cs" and ?wr = "rx_window_packets cr"
  have s: "sender_in_step peer ?ws (lk_sent k) (lk_acks k) (lk_s k)" and r: "receiver_in_step me ?wr (lk_sent k) (lk_data k) (lk_r k)"
    and n: "lk_acks k \<le> lk_data k" "lk_data k \<le> length (lk_sent k)" using assms(1) by (simp_all add: link_inv_def)
  have c: "peer \<noteq> []" "me \<noteq> []" "unat ?ws \<le> 32768" "2 \<le> unat ?wr" using assms(2) by (simp_all add: link_contract_def)
  have ws: "rx_window_packets (cfg (lk_s k)) = ?ws" "length (wire (lk_s k)) = length (lk_sent k)" using s by (simp_all add: sender_in_step_def)
  have wr: "length (wire (lk_r k)) = lk_data k" using r by (simp add: receiver_in_step_def)
  show ?thesis
  proof (cases op)
    case (LSend now d)
    show ?thesis
    proof (cases "length (tx_pending (lk_s k)) < unat ?ws")
      case True
      show ?thesis
      proof (rule send_in_step [OF s c(1) _ True, of now d])
        show "lk_acks k \<le> length (lk_sent k)" using n by simp
      next
        assume "arq_send now peer d (lk_s k) = (kErrBufferTooSmall, lk_s k)"
        then show ?thesis using assms(1) by (simp add: LSend link_step_def ws True)
      next
        fix s' assume "arq_send now peer d (lk_s k) = (kOk, s')" "sender_in_step peer ?ws (lk_sent k @ [d]) (lk_acks k) s'"
        then show ?thesis using receiver_more_sent [OF r n(2), of "[d]"] n by (simp add: LSend link_step_def ws True link_inv_def)
      qed
    qed (use assms(1) in \<open>simp add: LSend link_step_def ws\<close>)
  next
    case LData
    show ?thesis
    proof (cases "lk_data k < length (lk_sent k)")
      case True
      then have w: "snd (wire (lk_s k) ! lk_data k) = build_data_frame (of_nat (lk_data k)) (lk_sent k ! lk_data k)"
        using s by (simp add: sender_in_step_def)
      from data_in_step [OF r True c(2,4)] obtain r' where "handle_datagram me (build_data_frame (of_nat (lk_data k)) (lk_sent k ! lk_data k)) (lk_r k) = Some r'"
        "receiver_in_step me ?wr (lk_sent k) (Suc (lk_data k)) r'" by auto
      then show ?thesis using s n True by (simp add: LData link_step_def ws w link_inv_def)
    qed (use assms(1) n in \<open>simp add: LData link_step_def ws\<close>)
  next
    case LAck
    show ?thesis
    proof (cases "lk_acks k < lk_data k")
      case True
      then have w: "snd (wire (lk_r k) ! lk_acks k) = build_ack_frame (ucast (of_nat (lk_acks k) :: u16)) 0"
        using r by (simp add: receiver_in_step_def)
      have "lk_acks k < length (lk_sent k)" using True n by simp
      from ack_in_step [OF s this c(3)] obtain s' where "handle_datagram peer (build_ack_frame (ucast (of_nat (lk_acks k) :: u16)) 0) (lk_s k) = Some s'"
        "sender_in_step peer ?ws (lk_sent k) (Suc (lk_acks k)) s'" by auto
      then show ?thesis using r n True by (simp add: LAck link_step_def wr w link_inv_def)
    qed (use assms(1) n in \<open>simp add: LAck link_step_def wr\<close>)
  qed
qed

interpretation lk: component "Some (link_start cs cr)" "link_step peer me" "link_ok peer me cs cr"
proof
  show "link_ok peer me cs cr (Some (link_start cs cr))"
    by (simp add: link_ok_def link_contract_def link_start_def link_inv_def sender_in_step_def receiver_in_step_def arq_open_def new_arq_def)
next
  fix x op assume ok: "link_ok peer me cs cr x"
  show "link_ok peer me cs cr (link_step peer me op x)" unfolding link_ok_def
  proof
    assume con: "link_contract peer me cs cr"
    then obtain k where "x = Some k" "link_inv peer me (rx_window_packets cs) (rx_window_packets cr) k" using ok by (auto simp: link_ok_def)
    with link_step_inv [OF this(2) con, of op] show "\<exists>k. link_step peer me op x = Some k \<and> link_inv peer me (rx_window_packets cs) (rx_window_packets cr) k" by blast
  qed
qed

text \<open>The link catches up: enough deliveries bring every datagram over, enough acknowledgements empty the pending queue.\<close>

lemma link_catches_up:
  assumes "link_inv peer me (rx_window_packets cs) (rx_window_packets cr) k" "link_contract peer me cs cr"
  shows "\<exists>k'. fold (link_step peer me) (replicate m LData) (Some k) = Some k' \<and> link_inv peer me (rx_window_packets cs) (rx_window_packets cr) k'
      \<and> lk_data k' = min (length (lk_sent k)) (lk_data k + m) \<and> lk_acks k' = lk_acks k \<and> lk_sent k' = lk_sent k"
    and "\<exists>k'. fold (link_step peer me) (replicate m LAck) (Some k) = Some k' \<and> link_inv peer me (rx_window_packets cs) (rx_window_packets cr) k'
      \<and> lk_acks k' = min (lk_data k) (lk_acks k + m) \<and> lk_data k' = lk_data k \<and> lk_sent k' = lk_sent k"
proof -
  show "\<exists>k'. fold (link_step peer me) (replicate m LData) (Some k) = Some k' \<and> link_inv peer me (rx_window_packets cs) (rx_window_packets cr) k'
      \<and> lk_data k' = min (length (lk_sent k)) (lk_data k + m) \<and> lk_acks k' = lk_acks k \<and> lk_sent k' = lk_sent k"
    using assms(1)
  proof (induction m arbitrary: k)
    case 0
    then show ?case by (simp add: link_inv_def)
  next
    case (Suc m)
    from link_step_inv [OF Suc.prems assms(2), of LData] obtain k1 where k1: "link_step peer me LData (Some k) = Some k1"
      "link_inv peer me (rx_window_packets cs) (rx_window_packets cr) k1" "lk_data k1 = min (length (lk_sent k)) (Suc (lk_data k))"
      "lk_acks k1 = lk_acks k" "lk_sent k1 = lk_sent k" by auto
    from Suc.IH [OF k1(2)] show ?case using k1 by auto
  qed
  show "\<exists>k'. fold (link_step peer me) (replicate m LAck) (Some k) = Some k' \<and> link_inv peer me (rx_window_packets cs) (rx_window_packets cr) k'
      \<and> lk_acks k' = min (lk_data k) (lk_acks k + m) \<and> lk_data k' = lk_data k \<and> lk_sent k' = lk_sent k"
    using assms(1)
  proof (induction m arbitrary: k)
    case 0
    then show ?case by (simp add: link_inv_def)
  next
    case (Suc m)
    from link_step_inv [OF Suc.prems assms(2), of LAck] obtain k1 where k1: "link_step peer me LAck (Some k) = Some k1"
      "link_inv peer me (rx_window_packets cs) (rx_window_packets cr) k1" "lk_acks k1 = min (lk_data k) (Suc (lk_acks k))"
      "lk_data k1 = lk_data k" "lk_sent k1 = lk_sent k" by auto
    from Suc.IH [OF k1(2)] show ?case using k1 by auto
  qed
qed

text \<open>
  C39: reliable in-order delivery, with pipelining, on a link that neither loses nor reorders, and on which no retransmission timer fires. From two freshly opened sockets (the sender's window at most
  32768, the receiver's at least 2), after any interleaving of sends, deliveries and acknowledgements, in which the caller does not send into a full window: nothing is
  undefined, the receiver has delivered exactly the first of the accepted datagrams, in order and once, and pending are exactly the numbers not yet acknowledged
  (the 16-bit numbers may wrap). When the link then delivers what is still on the wires, all accepted datagrams have been delivered and none is pending. Sending into a full
  window, loss and reordering are excluded because the protocol breaks there (\<open>arq_window_full_gap\<close>, \<open>arq_reorder_stall\<close> below).
\<close>

theorem arq_lossless_delivery:
  assumes "link_contract peer me cs cr"
  shows "\<exists>k k'. fold (link_step peer me) ops (Some (link_start cs cr)) = Some k
    \<and> rx_delivered (lk_r k) = take (lk_data k) (lk_sent k)
    \<and> map pp_seq (tx_pending (lk_s k)) = map of_nat [lk_acks k..<length (lk_sent k)]
    \<and> fold (link_step peer me) (replicate (length (lk_sent k)) LData @ replicate (length (lk_sent k)) LAck) (Some k) = Some k'
    \<and> rx_delivered (lk_r k') = lk_sent k \<and> tx_pending (lk_s k') = []"
proof -
  obtain k where k: "fold (link_step peer me) ops (Some (link_start cs cr)) = Some k" "link_inv peer me (rx_window_packets cs) (rx_window_packets cr) k"
    using lk.run_inv [of peer me cs cr ops] assms by (auto simp: link_ok_def)
  let ?n = "length (lk_sent k)"
  obtain k1 where k1: "fold (link_step peer me) (replicate ?n LData) (Some k) = Some k1"
    "link_inv peer me (rx_window_packets cs) (rx_window_packets cr) k1" "lk_data k1 = ?n" "lk_sent k1 = lk_sent k"
    using link_catches_up(1) [OF k(2) assms, of ?n] by auto
  obtain k2 where k2: "fold (link_step peer me) (replicate ?n LAck) (Some k1) = Some k2"
    "link_inv peer me (rx_window_packets cs) (rx_window_packets cr) k2" "lk_acks k2 = ?n" "lk_data k2 = ?n" "lk_sent k2 = lk_sent k"
    using link_catches_up(2) [OF k1(2) assms, of ?n] k1 by auto
  have "rx_delivered (lk_r k2) = lk_sent k" "tx_pending (lk_s k2) = []"
    using k2 by (simp_all add: link_inv_def receiver_in_step_def sender_in_step_def)
  moreover have "rx_delivered (lk_r k) = take (lk_data k) (lk_sent k)" "map pp_seq (tx_pending (lk_s k)) = map of_nat [lk_acks k..<?n]"
    using k(2) by (simp_all add: link_inv_def receiver_in_step_def sender_in_step_def)
  ultimately show ?thesis using k(1) k1(1) k2(1) by auto
qed

theorem arq_lossless_delivery_witness:
  "\<exists>k k'. fold (link_step [1] [2]) [LSend 0 [10], LSend 0 [11, 12], LData] (Some (link_start sample_config sample_config)) = Some k
     \<and> lk_sent k = [[10], [11, 12]] \<and> lk_data k = 1 \<and> rx_delivered (lk_r k) = [[10]]
     \<and> fold (link_step [1] [2]) (replicate 2 LData @ replicate 2 LAck) (Some k) = Some k' \<and> rx_delivered (lk_r k') = [[10], [11, 12]]"
proof -
  have "link_contract [1] [2] sample_config sample_config" by (simp add: link_contract_def sample_config_def)
  from arq_lossless_delivery [OF this, of "[LSend 0 [10], LSend 0 [11, 12], LData]"]
  obtain k k' where k: "fold (link_step [1] [2]) [LSend 0 [10], LSend 0 [11, 12], LData] (Some (link_start sample_config sample_config)) = Some k"
    "rx_delivered (lk_r k) = take (lk_data k) (lk_sent k)"
    "fold (link_step [1] [2]) (replicate (length (lk_sent k)) LData @ replicate (length (lk_sent k)) LAck) (Some k) = Some k'"
    "rx_delivered (lk_r k') = lk_sent k" by blast
  have "map_option (\<lambda>k. (lk_sent k, lk_data k)) (fold (link_step [1] [2]) [LSend 0 [10], LSend 0 [11, 12], LData]
      (Some (link_start sample_config sample_config))) = Some ([[10], [11, 12]], 1)" by code_simp
  then have e: "lk_sent k = [[10], [11, 12]]" "lk_data k = 1" using k(1) by simp_all
  show ?thesis using k unfolding e by (intro exI [of _ k] exI [of _ k']) (simp add: e numeral_2_eq_2)
qed

section \<open>Retransmission\<close>

definition due :: "int \<Rightarrow> pending_packet \<Rightarrow> bool" where
  "due now p \<longleftrightarrow> in_flight p \<and> now - sent_at p \<ge> rto p * 1000000"

definition bump :: "raw_udp_config \<Rightarrow> int \<Rightarrow> pending_packet \<Rightarrow> pending_packet" where
  "bump c now p = (if due now p then p\<lparr>retransmit_count := retransmit_count p + 1, sent_at := now,
     rto := min (rto p * 2) (rto_max_ms c)\<rparr> else p)"

definition exhausted :: "raw_udp_config \<Rightarrow> int \<Rightarrow> pending_packet \<Rightarrow> bool" where
  "exhausted c now p \<longleftrightarrow> due now p \<and> retransmit_count p \<ge> max_retransmits c"

definition retried :: "raw_udp_config \<Rightarrow> int \<Rightarrow> pending_packet \<Rightarrow> bool" where
  "retried c now p \<longleftrightarrow> due now p \<and> retransmit_count p < max_retransmits c"

lemma retransmit_scan_spec:
  "retransmit_scan c now ps =
     (map (\<lambda>p. if exhausted c now p then p else bump c now p) ps,
      map (\<lambda>p. (pp_seq p, framed p)) (filter (retried c now) ps),
      map pp_seq (filter (exhausted c now) ps))"
  by (induction ps) (auto simp: due_def bump_def exhausted_def retried_def not_le not_less Let_def)

lemma pp_seq_bump [simp]: "pp_seq (bump c now p) = pp_seq p"
  by (simp add: bump_def)

lemma erase_seq_filter: "distinct (map pp_seq ps) \<Longrightarrow> erase_seq q ps = filter (\<lambda>p. pp_seq p \<noteq> q) ps"
proof (induction ps)
  case (Cons p ps)
  then have "pp_seq p = q \<Longrightarrow> filter (\<lambda>p. pp_seq p \<noteq> q) ps = ps" by (auto simp: filter_id_conv image_iff)
  with Cons show ?case by auto
qed simp

lemma fold_erase_filter:
  "distinct (map pp_seq ps) \<Longrightarrow> fold erase_seq qs ps = filter (\<lambda>p. pp_seq p \<notin> set qs) ps"
proof (induction qs arbitrary: ps)
  case (Cons q qs)
  then show ?case by (simp add: erase_seq_filter distinct_map_filter conj_commute)
qed simp

text \<open>
  One tick of the retransmit thread. The packets whose timeout has elapsed and that have
  retries left are sent again, in queue order, with their retry counter incremented and their
  timeout doubled up to \<^verbatim>\<open>rto_max_ms\<close>; those out of retries are removed; all others stay as
  they are.
\<close>

theorem arq_retransmit_tick:
  assumes "distinct (map pp_seq (tx_pending s))" "has_socket s" "peer_endpoint s \<noteq> []"
  shows "tx_pending (retransmit_tick now s)
      = map (bump (cfg s) now) (filter (\<lambda>p. \<not> exhausted (cfg s) now p) (tx_pending s))
    \<and> wire (retransmit_tick now s)
      = wire s @ map (\<lambda>p. (peer_endpoint s, framed p)) (filter (retried (cfg s) now) (tx_pending s))"
proof -
  let ?c = "cfg s" and ?ps = "tx_pending s"
  let ?m = "map (\<lambda>p. if exhausted ?c now p then p else bump ?c now p) ?ps"
  have seq: "pp_seq (if exhausted ?c now p then p else bump ?c now p) = pp_seq p" for p by simp
  have d: "distinct (map pp_seq ?m)" using assms(1) by (simp add: comp_def seq)
  have "fold erase_seq (map pp_seq (filter (exhausted ?c now) ?ps)) ?m
      = filter (\<lambda>p. pp_seq p \<notin> pp_seq ` {p \<in> set ?ps. exhausted ?c now p}) ?m"
    using fold_erase_filter [OF d] by simp
  also have "\<dots> = map (bump ?c now) (filter (\<lambda>p. \<not> exhausted ?c now p) ?ps)"
  proof -
    have "pp_seq p \<in> pp_seq ` {p \<in> set ?ps. exhausted ?c now p} \<longleftrightarrow> exhausted ?c now p" if "p \<in> set ?ps" for p
      using that assms(1) by (auto simp: distinct_map inj_on_def)
    then have "filter ((\<lambda>p. pp_seq p \<notin> pp_seq ` {p \<in> set ?ps. exhausted ?c now p})
        \<circ> (\<lambda>p. if exhausted ?c now p then p else bump ?c now p)) ?ps = filter (\<lambda>p. \<not> exhausted ?c now p) ?ps"
      by (intro filter_cong) (simp_all only: comp_def seq refl simp_thms)
    then show ?thesis by (simp add: filter_map)
  qed
  finally have pending: "fold erase_seq (map pp_seq (filter (exhausted ?c now) ?ps)) ?m
      = map (bump ?c now) (filter (\<lambda>p. \<not> exhausted ?c now p) ?ps)" .
  have sends: "tx_pending (fold (\<lambda>(q, frame). send_to ep frame) rs t) = tx_pending t
      \<and> wire (fold (\<lambda>(q, frame). send_to ep frame) rs t) = wire t @ map (\<lambda>(q, frame). (ep, frame)) rs" for rs :: "(u16 \<times> bytes) list" and ep t
    by (induction rs arbitrary: t) (auto simp: send_to_def)
  show ?thesis
    using assms(2,3) sends by (simp add: retransmit_tick_def retransmit_scan_spec Let_def pending count_defs comp_def)
qed

theorem arq_retransmit_tick_witness:
  "\<exists>s. distinct (map pp_seq (tx_pending s)) \<and> has_socket s \<and> peer_endpoint s \<noteq> [] \<and>
     map rto (tx_pending (retransmit_tick 60000000 s)) = [100, 50]
     \<and> wire (retransmit_tick 60000000 s) = [([9], [1, 2])]"
proof -
  let ?p = "\<lparr>pp_seq = 1, framed = [1, 2], sent_at = 0, rto = 50, retransmit_count = 0, in_flight = True\<rparr>"
  let ?s = "(new_arq sample_config)\<lparr>has_socket := True, peer_endpoint := [9],
     tx_pending := [?p, ?p\<lparr>pp_seq := 2, sent_at := 50000000\<rparr>, ?p\<lparr>pp_seq := 3, retransmit_count := 5\<rparr>]\<rparr>"
  have "distinct (map pp_seq (tx_pending ?s))" "has_socket ?s" "peer_endpoint ?s \<noteq> []" by simp_all
  with arq_retransmit_tick [of ?s 60000000] show ?thesis
    by (intro exI [of _ ?s]) (simp add: exhausted_def retried_def due_def bump_def new_arq_def sample_config_def)
qed


section \<open>The invariant as a property\<close>



section \<open>Where reliability breaks\<close>

lemma handle_data_not_next:
  "rx_initialized r \<Longrightarrow> seq \<noteq> rx_base_seq r + 1 \<Longrightarrow>
     rx_delivered (handle_data from seq d r) = rx_delivered r \<and> rx_base_seq (handle_data from seq d r) = rx_base_seq r"
proof -
  have "seq - rx_base_seq r = 1 \<longleftrightarrow> seq = rx_base_seq r + 1" by (auto simp: algebra_simps)
  then show "rx_initialized r \<Longrightarrow> seq \<noteq> rx_base_seq r + 1 \<Longrightarrow>
     rx_delivered (handle_data from seq d r) = rx_delivered r \<and> rx_base_seq (handle_data from seq d r) = rx_base_seq r"
    by (auto simp: handle_data_def Let_def send_ack_to_def send_to_def count_defs)
qed

text \<open>
  A single reordering stalls the receiver. When \<open>base + 2\<close> arrives before \<open>base + 1\<close>, the
  drain loop looks the just delivered \<open>base + 1\<close> up instead of its successor, so the buffered
  datagram is not delivered; yet the acknowledgement sent makes any sender forget \<open>base + 2\<close>.
  Only another copy of \<open>base + 2\<close> would ever be delivered again.
\<close>

theorem arq_reorder_stall:
  assumes "rx_initialized r" "rx_buffer r = []" "rx_base_seq r = b" "3 \<le> unat (rx_window_packets (cfg r))"
    and "has_socket r" "me \<noteq> []"
    and "handle_datagram me (build_data_frame (b + 2) d2) r = Some r1" "handle_datagram me (build_data_frame (b + 1) d1) r1 = Some r'"
  shows "rx_delivered r' = rx_delivered r @ [d1] \<and> rx_base_seq r' = b + 1 \<and> rx_buffer r' = [(b + 2, d2)]
    \<and> (\<forall>s p from s'. p \<in> set (tx_pending s) \<and> pp_seq p = b + 2 \<and> handle_datagram from (snd (last (wire r'))) s = Some s' \<longrightarrow>
         p \<notin> set (tx_pending s'))
    \<and> (\<forall>seq d from r''. seq \<noteq> b + 2 \<and> handle_datagram from (build_data_frame seq d) r' = Some r'' \<longrightarrow>
         rx_delivered r'' = rx_delivered r')"
proof -
  have u: "unat (b + 2 - b) = 2" "b + 2 \<noteq> b" "b + 2 - b \<noteq> 1" "b + 1 \<noteq> b" "unat (b + 2 - (b + 1)) = 1"
    by simp_all
  have r1: "r1 = send_ack_to me (r\<lparr>rx_buffer := [(b + 2, d2)]\<rparr>)"
    using assms(1-7) u by (simp add: handle_data_frame handle_data_def Let_def seq_in_window_iff seq_after_iff)
  have k1: "rx_initialized r1" "rx_buffer r1 = [(b + 2, d2)]" "rx_base_seq r1 = b" "cfg r1 = cfg r" "has_socket r1"
    "rx_delivered r1 = rx_delivered r"
    using assms(1-6) by (simp_all add: r1 send_ack_to_def send_to_def count_defs)
  define t where "t = count_recv 1 (r1\<lparr>rx_delivered := rx_delivered r1 @ [d1], rx_base_seq := b + 1\<rparr>)"
  have "r' = handle_data me (b + 1) d1 r1" using assms(8) by (simp add: handle_data_frame)
  also have "\<dots> = send_ack_to me t"
    using handle_next_in_order [of r1 me d1] assms(4) by (simp add: k1 t_def)
  finally have r': "r' = send_ack_to me t" .
  have k2: "rx_delivered r' = rx_delivered r @ [d1]" "rx_base_seq r' = b + 1" "rx_buffer r' = [(b + 2, d2)]"
    "rx_initialized r'"
    using k1 by (simp_all add: r' t_def send_ack_to_def send_to_def count_defs)
  have "has_socket t" "rx_base_seq t = b + 1" "rx_buffer t = [(b + 2, d2)]" by (simp_all add: t_def k1)
  then have w: "snd (last (wire r')) = build_ack_frame (ucast (b + 1)) (ack_bitmap (b + 1) [(b + 2, d2)] 0)"
    using assms(6) by (simp add: r' send_ack_to_def send_to_def count_defs)
  have "covered_by (b + 1) [(b + 2, d2)] (b + 2)" by (simp add: covered_by_def)
  then have acked: "p \<notin> set (tx_pending s')"
    if "pp_seq p = b + 2" "handle_datagram from (snd (last (wire r'))) s = Some s'" for p "from" s s'
    using handle_own_ack [of "from" "b + 1" "[(b + 2, d2)]" s] that unfolding w by auto
  have "rx_delivered r'' = rx_delivered r'" if "seq \<noteq> b + 2" "handle_datagram from (build_data_frame seq d) r' = Some r''" for seq d "from" r''
    using handle_data_not_next [OF k2(4), of seq "from" d] that by (auto simp: handle_data_frame k2 add.assoc)
  then show ?thesis using k2 acked by blast
qed

theorem arq_reorder_stall_witness:
  "\<exists>r'. rx_delivered r' = [[1]] \<and> rx_buffer r' = [(2, [2])] \<and>
     (\<forall>seq d ep r''. seq \<noteq> 2 \<and> handle_datagram ep (build_data_frame seq d) r' = Some r'' \<longrightarrow> rx_delivered r'' = [[1]])"
proof -
  let ?r = "(new_arq sample_config)\<lparr>has_socket := True, rx_initialized := True\<rparr>"
  obtain r1 r' where r': "handle_datagram [9] (build_data_frame (0 + 2) [2]) ?r = Some r1"
      "handle_datagram [9] (build_data_frame (0 + 1) [1]) r1 = Some r'" unfolding handle_data_frame by blast
  have "rx_initialized ?r" "rx_buffer ?r = []" "rx_base_seq ?r = 0" "3 \<le> unat (rx_window_packets (cfg ?r))"
    "has_socket ?r" "[9 :: u8] \<noteq> []" "rx_delivered ?r = []"
    by (simp_all add: new_arq_def sample_config_def)
  with arq_reorder_stall [OF this(1-6) r'] show ?thesis by (intro exI [of _ r']) auto
qed

text \<open>
  A send that fails because the window is full has already consumed its sequence number: it
  reports the error, queues and transmits nothing, but the next packet carries a number one
  higher, so the receiver waits for a packet that will never be sent.
\<close>

theorem arq_window_full_gap:
  assumes "opened s" "peer \<noteq> []" "length d + 4 \<le> kMaxDatagramBytes"
    and "length (tx_pending s) = unat (rx_window_packets (cfg s))"
  shows "\<exists>s'. arq_send now peer d s = (kErrBufferTooSmall, s') \<and> tx_seq s' = tx_seq s + 1
    \<and> tx_pending s' = tx_pending s \<and> wire s' = wire s"
  using assms by (simp add: arq_send_def Let_def next_tx_seq_def count_defs)

theorem arq_window_full_gap_witness:
  "\<exists>s s'. arq_send 0 [9] [1] s = (kErrBufferTooSmall, s') \<and> tx_seq s' = tx_seq s + 1 \<and> wire s' = wire s"
proof -
  let ?s = "(new_arq (sample_config\<lparr>rx_window_packets := 1\<rparr>))\<lparr>opened := True,
     tx_pending := [\<lparr>pp_seq = 0, framed = [1, 0, 0, 0], sent_at = 0, rto = 50, retransmit_count = 0, in_flight = True\<rparr>],
     tx_seq := 1\<rparr>"
  have "opened ?s" "[9 :: u8] \<noteq> []" "length [1 :: u8] + 4 \<le> kMaxDatagramBytes"
    "length (tx_pending ?s) = unat (rx_window_packets (cfg ?s))"
    by (simp_all add: new_arq_def kMaxDatagramBytes_def)
  from arq_window_full_gap [OF this, of 0] show ?thesis by blast
qed

lemma erase_all: "fold erase_seq (map pp_seq ps) ps = []"
  by (induction ps) simp_all

text \<open>
  The setting \<^verbatim>\<open>max_retransmits = 0\<close>, documented as unlimited, means none: the first tick after a timeout
  drops every packet that is due and resends nothing.
\<close>

theorem arq_zero_retransmits:
  assumes "max_retransmits (cfg s) = 0" "list_all (due now) (tx_pending s)"
  shows "wire (retransmit_tick now s) = wire s \<and> tx_pending (retransmit_tick now s) = []"
proof -
  have e: "filter (exhausted (cfg s) now) (tx_pending s) = tx_pending s"
    "filter (retried (cfg s) now) (tx_pending s) = []"
    "map (\<lambda>p. if exhausted (cfg s) now p then p else bump (cfg s) now p) (tx_pending s) = tx_pending s"
    using assms by (auto simp: filter_id_conv filter_empty_conv list_all_iff exhausted_def retried_def intro: map_idI)
  show ?thesis by (simp add: retransmit_tick_def retransmit_scan_spec e erase_all Let_def count_defs)
qed

theorem arq_zero_retransmits_witness:
  "\<exists>s. tx_pending s \<noteq> [] \<and> wire (retransmit_tick 60000000 s) = [] \<and> tx_pending (retransmit_tick 60000000 s) = []"
proof -
  let ?s = "(new_arq (sample_config\<lparr>max_retransmits := 0\<rparr>))\<lparr>has_socket := True, peer_endpoint := [9],
     tx_pending := [\<lparr>pp_seq = 1, framed = [1, 2], sent_at = 0, rto = 50, retransmit_count = 0, in_flight = True\<rparr>]\<rparr>"
  have "max_retransmits (cfg ?s) = 0" "list_all (due 60000000) (tx_pending ?s)"
    by (simp_all add: new_arq_def due_def)
  from arq_zero_retransmits [OF this] show ?thesis by (intro exI [of _ ?s]) (simp add: new_arq_def)
qed

text \<open>
  An acknowledgement from the network whose cumulative field is \<open>2\<^sup>3\<^sup>1\<close> makes the subtraction of a pending number
  overflow \<^verbatim>\<open>std::int32_t\<close>.
\<close>

theorem arq_ack_overflow:
  assumes "tx_pending s = p # ps" "pp_seq p = 1"
  shows "handle_datagram from (build_ack_frame 0x80000000 0) s = None"
proof -
  have "sint (0x80000000 :: u32) = - (2 ^ 31)" by simp
  moreover have "seq_after 1 (ucast (0x80000000 :: u32))" by (simp add: seq_after_def)
  ultimately have "is_acked 0x80000000 0 1 = None" by (simp add: is_acked_def Let_def)
  then show ?thesis using assms by (simp add: handle_ack_frame apply_ack_frame_def)
qed

end
