(* ===== verification/Adaptive_Delay.thy ===== *)
theory Adaptive_Delay
  imports Complex_Main Prelude
begin

text \<open>
  The jitter estimator and playout-delay policy shared by the jitter buffers:
  \<^verbatim>\<open>src/modules/jb_strategy/src/adaptive_delay.cpp\<close>. A \<^verbatim>\<open>double\<close> is a rational number, and every
  arithmetic operation rounds its exact result by \<open>fl\<close>, the rounding of the floating-point
  format, which the definitions take as an argument. What the theorems use of it are facts of
  IEEE 754 round-to-nearest: it is monotone, symmetric about zero, leaves representable numbers
  alone, and never more than doubles a number.
\<close>

section \<open>Model\<close>

record delay_policy =
  base_delay :: int
  pol_min_delay :: int
  pol_max_delay :: int
  jitter_multiplier :: rat
  pol_adaptive :: bool

record delay_tracker =
  policy :: delay_policy
  jitter_ms :: rat
  last_transit_us :: "int option"
  observations :: nat

definition kSmoothingDivisor :: rat where "kSmoothingDivisor = 16"

definition default_policy :: delay_policy where
  "default_policy = \<lparr>base_delay = 20, pol_min_delay = 20, pol_max_delay = 400,
     jitter_multiplier = 4, pol_adaptive = True\<rparr>"

definition new_tracker :: "delay_policy \<Rightarrow> delay_tracker" where
  "new_tracker p = \<lparr>policy = p, jitter_ms = 0, last_transit_us = None, observations = 0\<rparr>"

text \<open>\<^verbatim>\<open>static_cast<int64_t>(double)\<close> and \<^verbatim>\<open>std::llround\<close>.\<close>

definition truncate_rat :: "rat \<Rightarrow> int" where
  "truncate_rat x = (if x \<ge> 0 then \<lfloor>x\<rfloor> else - \<lfloor>- x\<rfloor>)"

definition llround :: "rat \<Rightarrow> int" where
  "llround x = (if x \<ge> 0 then \<lfloor>x + 1/2\<rfloor> else - \<lfloor>- x + 1/2\<rfloor>)"

definition observe :: "(rat \<Rightarrow> rat) \<Rightarrow> int \<Rightarrow> int \<Rightarrow> delay_tracker \<Rightarrow> delay_tracker" where
  "observe fl arrival_us media_clock_us t =
     (let transit_us = arrival_us - media_clock_us;
          t = (case last_transit_us t of
                 None \<Rightarrow> t
               | Some lt \<Rightarrow>
                   let d_us = transit_us - lt;
                       abs_d_ms = fl (fl (of_int (if d_us < 0 then - d_us else d_us)) / 1000)
                   in t\<lparr>jitter_ms := fl (jitter_ms t + fl (fl (abs_d_ms - jitter_ms t) / kSmoothingDivisor))\<rparr>)
      in t\<lparr>last_transit_us := Some transit_us, observations := observations t + 1\<rparr>)"

definition jitter :: "delay_tracker \<Rightarrow> int" where
  "jitter t = truncate_rat (jitter_ms t)"

definition tracker_target_delay :: "(rat \<Rightarrow> rat) \<Rightarrow> delay_tracker \<Rightarrow> int" where
  "tracker_target_delay fl t =
     (let p = policy t in
      if \<not> pol_adaptive p then base_delay p
      else
        let target = fl (fl (of_int (base_delay p)) + fl (jitter_multiplier p * jitter_ms t));
            clamped = llround target
        in if clamped < pol_min_delay p then pol_min_delay p
           else if clamped > pol_max_delay p then pol_max_delay p
           else clamped)"

definition reset_tracker :: "delay_tracker \<Rightarrow> delay_tracker" where
  "reset_tracker t = t\<lparr>jitter_ms := 0, last_transit_us := None, observations := 0\<rparr>"

definition set_policy :: "delay_policy \<Rightarrow> delay_tracker \<Rightarrow> delay_tracker" where
  "set_policy p t = t\<lparr>policy := p\<rparr>"

section \<open>What is used of the rounding\<close>

definition nearest_rounding :: "(rat \<Rightarrow> rat) \<Rightarrow> bool" where
  "nearest_rounding fl \<longleftrightarrow> mono fl \<and> (\<forall>x. fl (- x) = - fl x) \<and> (\<forall>x. fl (fl x) = fl x)
     \<and> (\<forall>x\<ge>0. fl x \<le> 2 * x)"

lemma nearest_rounding_facts:
  assumes "nearest_rounding fl"
  shows "x \<le> y \<Longrightarrow> fl x \<le> fl y" "fl (- x) = - fl x" "fl (fl x) = fl x" "0 \<le> x \<Longrightarrow> fl x \<le> 2 * x"
    "fl 0 = 0" "0 \<le> x \<Longrightarrow> 0 \<le> fl x"
proof -
  show m: "x \<le> y \<Longrightarrow> fl x \<le> fl y" for x y using assms by (auto simp: nearest_rounding_def mono_def)
  show n: "fl (- x) = - fl x" "fl (fl x) = fl x" "0 \<le> x \<Longrightarrow> fl x \<le> 2 * x" for x
    using assms by (auto simp: nearest_rounding_def)
  have "fl 0 = - fl 0" using n(1) [of 0] by simp
  then show z: "fl 0 = 0" by simp
  show "0 \<le> x \<Longrightarrow> 0 \<le> fl x" using m [of 0 x] z by simp
qed

text \<open>One smoothing step stays between zero and any bound on the old estimate and the sample.\<close>

lemma smoothing_bounds:
  assumes fl: "nearest_rounding fl" and M: "fl M = M"
    and j: "0 \<le> j" "j \<le> M" "fl j = j" and a: "0 \<le> a" "a \<le> M"
  shows "0 \<le> fl (j + fl (fl (a - j) / 16)) \<and> fl (j + fl (fl (a - j) / 16)) \<le> M"
proof
  note f = nearest_rounding_facts [OF fl]
  have "- j \<le> fl (a - j)" using f(1) [of "- j" "a - j"] f(2) [of j] a j by simp
  then have "- j \<le> fl (a - j) / 16" using j(1) by simp
  then have "- j \<le> fl (fl (a - j) / 16)" using f(1) [of "- j" "fl (a - j) / 16"] f(2) [of j] j by simp
  then show "0 \<le> fl (j + fl (fl (a - j) / 16))" by (intro f(6)) simp
  have m: "0 \<le> M - j" using j by simp
  have "fl (a - j) \<le> 2 * (M - j)" using f(1) [of "a - j" "M - j"] f(4) [OF m] a by simp
  then have "fl (a - j) / 16 \<le> (M - j) / 8" by simp
  then have "fl (fl (a - j) / 16) \<le> fl ((M - j) / 8)" by (rule f(1))
  also have "\<dots> \<le> (M - j) / 4" using f(4) [of "(M - j) / 8"] m by simp
  also have "\<dots> \<le> M - j" using m by simp
  finally have "j + fl (fl (a - j) / 16) \<le> M" by simp
  then show "fl (j + fl (fl (a - j) / 16)) \<le> M" using f(1) [of _ M] M by simp
qed

text \<open>The transit difference an observation would contribute, in milliseconds.\<close>

definition sample_ms :: "(rat \<Rightarrow> rat) \<Rightarrow> int \<Rightarrow> int \<Rightarrow> rat" where
  "sample_ms fl lt transit = fl (fl (of_int \<bar>transit - lt\<bar>) / 1000)"

fun samples :: "(rat \<Rightarrow> rat) \<Rightarrow> int option \<Rightarrow> (int \<times> int) list \<Rightarrow> rat list" where
  "samples fl lt [] = []"
| "samples fl lt ((arr, media) # obs) =
     (case lt of None \<Rightarrow> [] | Some l \<Rightarrow> [sample_ms fl l (arr - media)]) @ samples fl (Some (arr - media)) obs"

lemma observe_jitter:
  "jitter_ms (observe fl arr media t) =
     (case last_transit_us t of None \<Rightarrow> jitter_ms t
      | Some l \<Rightarrow> fl (jitter_ms t + fl (fl (sample_ms fl l (arr - media) - jitter_ms t) / 16)))"
  by (simp add: observe_def sample_ms_def kSmoothingDivisor_def Let_def abs_if split: option.splits)

lemma observe_last: "last_transit_us (observe fl arr media t) = Some (arr - media)"
  by (simp add: observe_def Let_def)

lemma observe_run_bounds:
  assumes fl: "nearest_rounding fl" and M: "fl M = M" "0 \<le> M"
  shows "list_all (\<lambda>a. a \<le> M) (samples fl (last_transit_us t) obs) \<Longrightarrow>
     0 \<le> jitter_ms t \<Longrightarrow> jitter_ms t \<le> M \<Longrightarrow> fl (jitter_ms t) = jitter_ms t \<Longrightarrow>
     0 \<le> jitter_ms (fold (\<lambda>(arr, media). observe fl arr media) obs t)
     \<and> jitter_ms (fold (\<lambda>(arr, media). observe fl arr media) obs t) \<le> M"
proof (induction obs arbitrary: t)
  case (Cons o1 obs)
  obtain arr media where o1: "o1 = (arr, media)" by (cases o1)
  let ?t = "observe fl arr media t"
  have "0 \<le> jitter_ms ?t \<and> jitter_ms ?t \<le> M \<and> fl (jitter_ms ?t) = jitter_ms ?t"
  proof (cases "last_transit_us t")
    case (Some l)
    have "0 \<le> sample_ms fl l (arr - media)" unfolding sample_ms_def
      by (intro nearest_rounding_facts(6) [OF fl] divide_nonneg_nonneg) simp_all
    moreover have "sample_ms fl l (arr - media) \<le> M" using Cons.prems(1) Some by (simp add: o1)
    ultimately show ?thesis using smoothing_bounds [OF fl M(1)] Cons.prems(2-4)
      by (simp add: observe_jitter Some nearest_rounding_facts(3) [OF fl])
  qed (use Cons.prems in \<open>simp add: observe_jitter\<close>)
  moreover have "list_all (\<lambda>a. a \<le> M) (samples fl (last_transit_us ?t) obs)"
    using Cons.prems(1) by (simp add: o1 observe_last)
  ultimately show ?case using Cons.IH [of ?t] by (simp add: o1)
qed simp

lemma llround_mono: "x \<le> y \<Longrightarrow> llround x \<le> llround y"
proof -
  assume xy: "x \<le> y"
  consider "0 \<le> x" | "x < 0" "0 \<le> y" | "y < 0" using xy by linarith
  then show ?thesis
  proof cases
    case 1
    then show ?thesis using xy by (simp add: llround_def floor_mono)
  next
    case 2
    then have "0 \<le> \<lfloor>- x + 1/2\<rfloor>" "0 \<le> \<lfloor>y + 1/2\<rfloor>" by (simp_all add: zero_le_floor)
    then have "- \<lfloor>- x + 1/2\<rfloor> \<le> \<lfloor>y + 1/2\<rfloor>" by linarith
    then show ?thesis using 2 by (simp add: llround_def)
  next
    case 3
    then show ?thesis using xy by (simp add: llround_def floor_mono)
  qed
qed

section \<open>Properties\<close>

text \<open>
  The jitter estimate never becomes negative and never exceeds the largest transit
  difference observed (any representable bound \<open>M\<close> on the samples bounds it), so that the
  estimator cannot drift or blow up under rounding.
\<close>

theorem jitter_bounded:
  assumes "nearest_rounding fl" "fl M = M" "0 \<le> M"
    and "list_all (\<lambda>a. a \<le> M) (samples fl None obs)"
  shows "0 \<le> jitter_ms (fold (\<lambda>(arr, media). observe fl arr media) obs (new_tracker p))
    \<and> jitter_ms (fold (\<lambda>(arr, media). observe fl arr media) obs (new_tracker p)) \<le> M"
  using observe_run_bounds [OF assms(1-3), of "new_tracker p" obs] assms(3,4)
    nearest_rounding_facts(5) [OF assms(1)]
  by (simp add: new_tracker_def)

theorem jitter_bounded_witness:
  "0 \<le> jitter_ms (fold (\<lambda>(arr, media). observe (\<lambda>x. x) arr media) [(0, 0), (23000, 20000), (40000, 40000)] (new_tracker default_policy))
    \<and> jitter_ms (fold (\<lambda>(arr, media). observe (\<lambda>x. x) arr media) [(0, 0), (23000, 20000), (40000, 40000)] (new_tracker default_policy)) \<le> 3"
  by (rule jitter_bounded) (simp_all add: nearest_rounding_def mono_def sample_ms_def)

text \<open>
  The adaptive playout delay always lies between the configured minimum and maximum, in
  fixed mode it is the base delay, and a larger jitter estimate never gives a smaller delay.
\<close>

theorem target_delay_clamped:
  assumes "nearest_rounding fl" "pol_adaptive (policy t)" "pol_min_delay (policy t) \<le> pol_max_delay (policy t)"
    and "0 \<le> jitter_multiplier (policy t)" "policy u = policy t" "jitter_ms t \<le> jitter_ms u"
  shows "pol_min_delay (policy t) \<le> tracker_target_delay fl t
    \<and> tracker_target_delay fl t \<le> pol_max_delay (policy t)
    \<and> tracker_target_delay fl t \<le> tracker_target_delay fl u
    \<and> tracker_target_delay fl (set_policy ((policy t)\<lparr>pol_adaptive := False\<rparr>) t) = base_delay (policy t)"
proof -
  note f = nearest_rounding_facts(1) [OF assms(1)]
  have "jitter_multiplier (policy t) * jitter_ms t \<le> jitter_multiplier (policy t) * jitter_ms u"
    using assms(4,6) by (rule mult_left_mono [rotated])
  then have "llround (fl (fl (of_int (base_delay (policy t))) + fl (jitter_multiplier (policy t) * jitter_ms t)))
    \<le> llround (fl (fl (of_int (base_delay (policy t))) + fl (jitter_multiplier (policy t) * jitter_ms u)))"
    by (intro llround_mono f add_left_mono)
  then show ?thesis using assms(2,3,5)
    by (auto simp: tracker_target_delay_def Let_def set_policy_def)
qed

theorem target_delay_clamped_witness:
  "20 \<le> tracker_target_delay (\<lambda>x. x) ((new_tracker default_policy)\<lparr>jitter_ms := 3\<rparr>)
    \<and> tracker_target_delay (\<lambda>x. x) ((new_tracker default_policy)\<lparr>jitter_ms := 3\<rparr>) \<le> 400"
  using target_delay_clamped [of "\<lambda>x. x" "(new_tracker default_policy)\<lparr>jitter_ms := 3\<rparr>"
      "(new_tracker default_policy)\<lparr>jitter_ms := 3\<rparr>"]
  by (simp add: nearest_rounding_def mono_def new_tracker_def default_policy_def)

section \<open>Double precision\<close>

text \<open>
  Facts of IEEE 754 double precision with round-to-nearest: rounding is monotone, integers up to \<open>2\<^sup>5\<^sup>3\<close> are representable, and the
  result exceeds the exact value by at most one part in \<open>2\<^sup>5\<^sup>2\<close>, or by less than \<open>2\<^sup>-\<^sup>1\<^sup>0\<^sup>0\<close> for the smallest numbers.
\<close>

definition double_rounding :: "(rat \<Rightarrow> rat) \<Rightarrow> bool" where
  "double_rounding fl \<longleftrightarrow> mono fl \<and> (\<forall>n::nat. n \<le> 2 ^ 53 \<longrightarrow> fl (of_nat n) = of_nat n)
     \<and> (\<forall>x. 0 \<le> x \<and> x \<le> 2 ^ 100 \<longrightarrow> fl x \<le> x * (1 + 1 / 2 ^ 52) + 1 / 2 ^ 100)"

lemma double_rounding_facts:
  assumes "double_rounding fl"
  shows "x \<le> y \<Longrightarrow> fl x \<le> fl y" "n \<le> 2 ^ 53 \<Longrightarrow> fl (of_nat n) = of_nat n"
    "0 \<le> x \<Longrightarrow> 0 \<le> fl x" "0 \<le> x \<Longrightarrow> x \<le> 2 ^ 40 \<Longrightarrow> fl x \<le> x + 1 / 8" "0 \<le> x \<Longrightarrow> x \<le> 1 \<Longrightarrow> fl x \<le> x + 1 / 2 ^ 50" "0 \<le> x \<Longrightarrow> x \<le> 1 \<Longrightarrow> fl x \<le> 1"
proof -
  show m: "x \<le> y \<Longrightarrow> fl x \<le> fl y" for x y using assms by (auto simp: double_rounding_def mono_def)
  show n: "n \<le> 2 ^ 53 \<Longrightarrow> fl (of_nat n) = of_nat n" for n using assms by (simp add: double_rounding_def)
  have z: "fl 0 = 0" "fl 1 = 1" using n [of 0] n [of 1] by simp_all
  show "0 \<le> x \<Longrightarrow> 0 \<le> fl x" using m [of 0 x] z by simp
  show "0 \<le> x \<Longrightarrow> x \<le> 1 \<Longrightarrow> fl x \<le> 1" using m [of x 1] z by simp
  have r: "0 \<le> x \<Longrightarrow> x \<le> 2 ^ 100 \<Longrightarrow> fl x \<le> x + x / 2 ^ 52 + 1 / 2 ^ 100" using assms by (simp add: double_rounding_def algebra_simps)
  show "0 \<le> x \<Longrightarrow> x \<le> 2 ^ 40 \<Longrightarrow> fl x \<le> x + 1 / 8" using r by simp
  show "0 \<le> x \<Longrightarrow> x \<le> 1 \<Longrightarrow> fl x \<le> x + 1 / 2 ^ 50" using r by simp
qed

lemma exact_double: "double_rounding (\<lambda>x. x)"
  by (simp add: double_rounding_def mono_def)

end
