(* ===== verification/Jitter_Buffer.thy ===== *)
theory Jitter_Buffer
  imports Adaptive_Delay Rtp_Parser "HOL-Library.Multiset"
begin

text \<open>
  The audio jitter buffer: \<^verbatim>\<open>src/modules/jb/src/jitter_buffer.cpp\<close>. Times are nanoseconds of the
  monotonic clock, delays milliseconds. The frame map is ordered by RTP timestamp, as the
  \<^verbatim>\<open>std::map\<close> of the source is; log output is not modelled.
\<close>

section \<open>State\<close>

record jb_config =
  initial_delay :: int
  min_delay :: int
  max_delay :: int
  clock_rate_hz :: u32
  max_packets :: nat
  adaptive :: bool

record frame =
  fr_packets :: "packet_view list"
  frame_timestamp :: u32
  capture_latency :: int
  first_arrival :: "int option"
  ref_frame :: "u64 option"

record jitter_buffer =
  jb_cfg :: jb_config
  tracker :: delay_tracker
  frame_buffer :: "(u32 \<times> frame) list"
  frame_arrival_times :: "u32 \<rightharpoonup> int"
  last_seq :: "u16 option"
  jb_packets_received :: nat
  jb_packets_dropped :: nat
  frames_emitted :: nat
  target_delay :: int
  buffered_packets :: nat

record jb_stats =
  st_buffered_packets :: nat
  st_frames_emitted :: nat
  st_packets_dropped :: nat
  st_current_delay :: int
  st_current_jitter :: int

definition kBaseDelayMs :: int where "kBaseDelayMs = 20"

definition default_config :: jb_config where
  "default_config = \<lparr>initial_delay = 50, min_delay = 20, max_delay = 400, clock_rate_hz = 0,
     max_packets = 512, adaptive = True\<rparr>"

definition empty_frame :: frame where
  "empty_frame = \<lparr>fr_packets = [], frame_timestamp = 0, capture_latency = 0, first_arrival = None,
     ref_frame = None\<rparr>"

section \<open>Operations\<close>

definition config_policy :: "jb_config \<Rightarrow> delay_policy" where
  "config_policy c = \<lparr>base_delay = kBaseDelayMs, pol_min_delay = min_delay c,
     pol_max_delay = max_delay c, jitter_multiplier = 4, pol_adaptive = adaptive c\<rparr>"

definition sync_tracker_policy :: "jitter_buffer \<Rightarrow> jitter_buffer" where
  "sync_tracker_policy s = s\<lparr>tracker := set_policy (config_policy (jb_cfg s)) (tracker s)\<rparr>"

definition new_jitter_buffer :: "jb_config \<Rightarrow> jitter_buffer" where
  "new_jitter_buffer c = sync_tracker_policy
     \<lparr>jb_cfg = c, tracker = new_tracker default_policy, frame_buffer = [],
      frame_arrival_times = Map.empty, last_seq = None, jb_packets_received = 0,
      jb_packets_dropped = 0, frames_emitted = 0, target_delay = 0, buffered_packets = 0\<rparr>"

definition base_delay_for_pt :: "u8 \<Rightarrow> int" where
  "base_delay_for_pt pt =
     (if pt \<le> 23 \<or> (pt \<ge> 32 \<and> pt \<le> 35) \<or> (pt \<ge> 64 \<and> pt \<le> 76) \<or> pt = 0 then 60 else 100)"

text \<open>\<^verbatim>\<open>duration_cast<Microseconds>\<close> truncates towards zero.\<close>

definition to_us :: "int \<Rightarrow> int" where
  "to_us ns = (if ns \<ge> 0 then ns div 1000 else - (- ns div 1000))"

definition add_packet :: "packet_view \<Rightarrow> int \<Rightarrow> u64 option \<Rightarrow> frame \<Rightarrow> frame" where
  "add_packet packet arrival ref f =
     (let f = f\<lparr>fr_packets := fr_packets f @ [packet], frame_timestamp := pv_timestamp packet\<rparr>;
          f = (case first_arrival f of
                 Some a \<Rightarrow> f\<lparr>capture_latency := arrival - a\<rparr>
               | None \<Rightarrow> f\<lparr>first_arrival := Some arrival\<rparr>)
      in case ref of None \<Rightarrow> f | Some _ \<Rightarrow> f\<lparr>ref_frame := ref\<rparr>)"

definition jb_push ::
  "(rat \<Rightarrow> rat) \<Rightarrow> packet_view \<Rightarrow> int \<Rightarrow> u64 option \<Rightarrow> jitter_buffer \<Rightarrow> jitter_buffer" where
  "jb_push fl packet arrival ref s =
     (let s = s\<lparr>jb_packets_received := jb_packets_received s + 1, last_seq := Some (pv_seq packet)\<rparr>;
          rate = (if clock_rate_hz (jb_cfg s) \<noteq> 0 then clock_rate_hz (jb_cfg s) else 90000);
          rtp_clock_us = uint (pv_timestamp packet) * 1000000 div uint rate;
          s = s\<lparr>tracker := observe fl (to_us arrival) rtp_clock_us (tracker s)\<rparr>;
          s = (if target_delay s = 0
               then s\<lparr>target_delay := if initial_delay (jb_cfg s) > 0 then initial_delay (jb_cfg s)
                                       else base_delay_for_pt (pv_payload_type packet)\<rparr>
               else s);
          ts = pv_timestamp packet;
          s = s\<lparr>frame_buffer := upsert ts empty_frame (add_packet packet arrival ref) (frame_buffer s)\<rparr>;
          s = (if frame_arrival_times s ts = None
               then s\<lparr>frame_arrival_times := (frame_arrival_times s)(ts \<mapsto> arrival)\<rparr> else s)
      in s\<lparr>buffered_packets := buffered_packets s + 1\<rparr>)"

text \<open>The delay in force for a \<^verbatim>\<open>pop\<close>.\<close>

definition pop_delay :: "(rat \<Rightarrow> rat) \<Rightarrow> jitter_buffer \<Rightarrow> int" where
  "pop_delay fl s =
     (if adaptive (jb_cfg s) then
        (if jitter (tracker s) > 0 then tracker_target_delay fl (tracker s) else target_delay s)
      else initial_delay (jb_cfg s))"

text \<open>The scan of \<^verbatim>\<open>pop\<close>: the first frame with a known arrival decides.\<close>

fun find_due :: "(u32 \<rightharpoonup> int) \<Rightarrow> int \<Rightarrow> int \<Rightarrow> (u32 \<times> frame) list \<Rightarrow> (u32 \<times> frame) option" where
  "find_due arrivals delay now [] = None"
| "find_due arrivals delay now ((ts, f) # rest) =
     (case arrivals ts of
        None \<Rightarrow> find_due arrivals delay now rest
      | Some a \<Rightarrow> if now \<ge> a + delay * 1000000 then Some (ts, f) else None)"

definition jb_pop :: "(rat \<Rightarrow> rat) \<Rightarrow> int \<Rightarrow> jitter_buffer \<Rightarrow> frame option \<times> jitter_buffer" where
  "jb_pop fl now s =
     (let s = s\<lparr>target_delay := pop_delay fl s\<rparr> in
      case find_due (frame_arrival_times s) (target_delay s) now (frame_buffer s) of
        None \<Rightarrow> (None, s)
      | Some (ts, f) \<Rightarrow>
          (Some f, s\<lparr>frame_arrival_times := (frame_arrival_times s)(ts := None),
             frame_buffer := erase_key ts (frame_buffer s),
             buffered_packets := buffered_packets s - length (fr_packets f),
             frames_emitted := frames_emitted s + 1\<rparr>))"

definition jb_flush :: "jitter_buffer \<Rightarrow> frame list \<times> jitter_buffer" where
  "jb_flush s = (map snd (frame_buffer s),
     s\<lparr>frame_buffer := [], frame_arrival_times := Map.empty, buffered_packets := 0\<rparr>)"

definition jb_reset :: "jitter_buffer \<Rightarrow> jitter_buffer" where
  "jb_reset s =
     (let s = s\<lparr>frame_buffer := [], frame_arrival_times := Map.empty, last_seq := None,
                jb_packets_received := 0, jb_packets_dropped := 0, frames_emitted := 0,
                tracker := reset_tracker (tracker s)\<rparr>
      in (sync_tracker_policy s)\<lparr>buffered_packets := 0, target_delay := 0\<rparr>)"

definition jb_stats_of :: "jitter_buffer \<Rightarrow> jb_stats" where
  "jb_stats_of s = \<lparr>st_buffered_packets = buffered_packets s, st_frames_emitted = frames_emitted s,
     st_packets_dropped = jb_packets_dropped s, st_current_delay = target_delay s,
     st_current_jitter = jitter (tracker s)\<rparr>"

definition jb_update_config :: "jb_config \<Rightarrow> jitter_buffer \<Rightarrow> jitter_buffer" where
  "jb_update_config c s =
     (let s = sync_tracker_policy (s\<lparr>jb_cfg := c\<rparr>) in
      if \<not> adaptive c then s\<lparr>target_delay := initial_delay c\<rparr> else s)"

section \<open>Runs\<close>

text \<open>
  The operations as a caller issues them, with the packets pushed, the frames handed out and the packets
  discarded by \<^verbatim>\<open>reset()\<close> kept as history.
\<close>

datatype jb_op = Push packet_view int "u64 option" | Pop int | Flush | Update jb_config | Reset

type_synonym jb_run = "jitter_buffer \<times> packet_view list \<times> frame list \<times> packet_view list"

definition buffered :: "jitter_buffer \<Rightarrow> packet_view list" where
  "buffered s = concat (map (\<lambda>(ts, f). fr_packets f) (frame_buffer s))"

fun jb_step :: "(rat \<Rightarrow> rat) \<Rightarrow> jb_op \<Rightarrow> jb_run \<Rightarrow> jb_run" where
  "jb_step fl (Push p arrival ref) (s, pushed, out, gone) = (jb_push fl p arrival ref s, pushed @ [p], out, gone)"
| "jb_step fl (Pop now) (s, pushed, out, gone) =
     (case jb_pop fl now s of (None, s) \<Rightarrow> (s, pushed, out, gone) | (Some f, s) \<Rightarrow> (s, pushed, out @ [f], gone))"
| "jb_step fl Flush (s, pushed, out, gone) = (case jb_flush s of (fs, s) \<Rightarrow> (s, pushed, out @ fs, gone))"
| "jb_step fl (Update c) (s, pushed, out, gone) = (jb_update_config c s, pushed, out, gone)"
| "jb_step fl Reset (s, pushed, out, gone) = (jb_reset s, pushed, out, gone @ buffered s)"

text \<open>A run during which the number of buffered packets never exceeds the configured \<^verbatim>\<open>max_packets\<close>.\<close>

definition within_cap :: "(rat \<Rightarrow> rat) \<Rightarrow> jb_config \<Rightarrow> jb_op list \<Rightarrow> bool" where
  "within_cap fl c ops \<longleftrightarrow> list_all (\<lambda>k. case fold (jb_step fl) (take k ops) (new_jitter_buffer c, [], [], []) of
     (s, _) \<Rightarrow> buffered_packets s \<le> max_packets (jb_cfg s)) [0..<Suc (length ops)]"

section \<open>Invariant\<close>

definition frame_ok :: "(u32 \<rightharpoonup> int) \<Rightarrow> u32 \<times> frame \<Rightarrow> bool" where
  "frame_ok arrivals = (\<lambda>(ts, f). fr_packets f \<noteq> [] \<and> frame_timestamp f = ts
     \<and> first_arrival f = arrivals ts \<and> (\<forall>p \<in> set (fr_packets f). pv_timestamp p = ts))"

definition jb_inv :: "jitter_buffer \<Rightarrow> bool" where
  "jb_inv s \<longleftrightarrow> ordered (frame_buffer s) \<and> dom (frame_arrival_times s) = fst ` set (frame_buffer s)
     \<and> list_all (frame_ok (frame_arrival_times s)) (frame_buffer s)
     \<and> buffered_packets s = length (buffered s) \<and> jb_packets_dropped s = 0
     \<and> policy (tracker s) = config_policy (jb_cfg s)"

definition run_inv :: "jb_run \<Rightarrow> bool" where
  "run_inv = (\<lambda>(s, pushed, out, gone). jb_inv s
     \<and> mset pushed = mset (concat (map fr_packets out)) + mset (buffered s) + mset gone
     \<and> (\<forall>f \<in> set out. fr_packets f \<noteq> [] \<and> (\<forall>p \<in> set (fr_packets f). pv_timestamp p = frame_timestamp f)))"

section \<open>Lemmas\<close>

lemma mset_upsert_packets:
  assumes "\<And>f. fr_packets (g f) = fr_packets f @ [p]"
  shows "mset (concat (map (\<lambda>(ts, f). fr_packets f) (upsert k empty_frame g m)))
    = mset (concat (map (\<lambda>(ts, f). fr_packets f) m)) + {#p#}"
  by (induction m) (auto simp: assms empty_frame_def)

lemma add_packet_fields [simp]:
  "fr_packets (add_packet p a r f) = fr_packets f @ [p]"
  "frame_timestamp (add_packet p a r f) = pv_timestamp p"
  "first_arrival (add_packet p a r f) = (case first_arrival f of None \<Rightarrow> Some a | Some b \<Rightarrow> Some b)"
  by (auto simp: add_packet_def Let_def split: option.splits)

text \<open>The parts of the state a push changes.\<close>

lemma jb_push_fields:
  fixes s p a
  defines "ts \<equiv> pv_timestamp p"
  shows "frame_buffer (jb_push fl p a r s) = upsert ts empty_frame (add_packet p a r) (frame_buffer s)"
    "frame_arrival_times (jb_push fl p a r s) =
       (if frame_arrival_times s ts = None then (frame_arrival_times s)(ts \<mapsto> a) else frame_arrival_times s)"
    "buffered_packets (jb_push fl p a r s) = buffered_packets s + 1"
    "jb_packets_dropped (jb_push fl p a r s) = jb_packets_dropped s"
    "jb_cfg (jb_push fl p a r s) = jb_cfg s"
    "policy (tracker (jb_push fl p a r s)) = policy (tracker s)"
  by (auto simp add: jb_push_def ts_def Let_def observe_def split: option.splits)

lemma jb_push_buffered: "mset (buffered (jb_push fl p a r s)) = mset (buffered s) + {#p#}"
  unfolding buffered_def jb_push_fields by (rule mset_upsert_packets) simp

lemma frame_ok_update: "fst kv \<noteq> ts \<Longrightarrow> frame_ok (m(ts := x)) kv = frame_ok m kv"
  by (cases kv) (simp add: frame_ok_def)

lemma jb_push_inv:
  assumes "jb_inv s"
  shows "jb_inv (jb_push fl p a r s)"
proof -
  let ?ts = "pv_timestamp p" and ?fb = "frame_buffer s" and ?arr = "frame_arrival_times s"
  let ?arr' = "if ?arr ?ts = None then ?arr(?ts \<mapsto> a) else ?arr"
  have ord: "ordered ?fb" and dom: "dom ?arr = fst ` set ?fb" and ok: "\<forall>kv \<in> set ?fb. frame_ok ?arr kv"
    using assms by (auto simp: jb_inv_def list_all_iff)
  have new: "frame_ok ?arr' (?ts, add_packet p a r (case map_of ?fb ?ts of None \<Rightarrow> empty_frame | Some f \<Rightarrow> f))"
  proof (cases "map_of ?fb ?ts")
    case None
    then have "?arr ?ts = None" using dom by (auto simp: map_of_eq_None_iff domIff)
    then show ?thesis using None by (simp add: frame_ok_def empty_frame_def)
  next
    case (Some f)
    then have "frame_ok ?arr (?ts, f)" using ok map_of_SomeD by fastforce
    moreover have "?arr ?ts \<noteq> None" using Some dom by (metis domIff map_of_eq_None_iff option.discI)
    ultimately show ?thesis using Some by (auto simp: frame_ok_def)
  qed
  have old: "frame_ok ?arr' kv" if "kv \<in> set ?fb" "fst kv \<noteq> ?ts" for kv
    using ok that by (simp add: frame_ok_update)
  have "length (buffered (jb_push fl p a r s)) = length (buffered s) + 1"
    using arg_cong [OF jb_push_buffered [of fl p a r s], of size] by simp
  moreover have "dom ?arr' = insert ?ts (fst ` set ?fb)" using dom by auto
  ultimately show ?thesis
    using assms ord new old
    unfolding jb_inv_def jb_push_fields list_all_iff set_upsert [OF ord]
    by (auto simp: ordered_upsert keys_upsert)
qed

lemma find_due_head:
  assumes "jb_inv s"
  shows "find_due (frame_arrival_times s) delay now (frame_buffer s) =
    (case frame_buffer s of [] \<Rightarrow> None
     | (ts, f) # rest \<Rightarrow> if now \<ge> the (frame_arrival_times s ts) + delay * 1000000 then Some (ts, f) else None)"
proof (cases "frame_buffer s")
  case (Cons kv rest)
  obtain ts f where kv: "kv = (ts, f)" by (cases kv)
  have "ts \<in> dom (frame_arrival_times s)" using assms by (simp add: jb_inv_def Cons kv)
  then obtain a where "frame_arrival_times s ts = Some a" by blast
  then show ?thesis by (simp add: Cons kv)
qed simp

lemma erase_head: "ordered ((k, v) # m) \<Longrightarrow> erase_key k ((k, v) # m) = m"
  by (auto simp: erase_key_def filter_id_conv)

lemma jb_pop_cases:
  assumes "jb_inv s"
  obtains (none) "jb_pop fl now s = (None, s\<lparr>target_delay := pop_delay fl s\<rparr>)"
      "\<And>ts f rest. frame_buffer s = (ts, f) # rest \<Longrightarrow> now < the (frame_arrival_times s ts) + pop_delay fl s * 1000000"
  | (some) ts f rest where "frame_buffer s = (ts, f) # rest"
      "the (frame_arrival_times s ts) + pop_delay fl s * 1000000 \<le> now"
      "jb_pop fl now s = (Some f, s\<lparr>target_delay := pop_delay fl s,
         frame_arrival_times := (frame_arrival_times s)(ts := None), frame_buffer := rest,
         buffered_packets := buffered_packets s - length (fr_packets f), frames_emitted := frames_emitted s + 1\<rparr>)"
proof (cases "frame_buffer s")
  case Nil
  then show ?thesis using none find_due_head [OF assms] by (simp add: jb_pop_def Let_def)
next
  case (Cons kv rest)
  obtain ts f where kv: "kv = (ts, f)" by (cases kv)
  have e: "erase_key ts (frame_buffer s) = rest"
    using assms erase_head [of ts f rest] by (simp add: jb_inv_def Cons kv)
  show ?thesis
  proof (cases "the (frame_arrival_times s ts) + pop_delay fl s * 1000000 \<le> now")
    case True
    show ?thesis
      by (rule some [of ts f rest])
        (use True find_due_head [OF assms, of "pop_delay fl s" now] e in \<open>simp_all add: jb_pop_def Let_def Cons kv\<close>)
  next
    case False
    show ?thesis
      by (rule none)
        (use False find_due_head [OF assms, of "pop_delay fl s" now] in \<open>simp_all add: jb_pop_def Let_def Cons kv\<close>)
  qed
qed

lemma jb_inv_delay: "jb_inv (s\<lparr>target_delay := x\<rparr>) = jb_inv s" "buffered (s\<lparr>target_delay := x\<rparr>) = buffered s"
  by (simp_all add: jb_inv_def buffered_def)

lemma jb_pop_some_inv:
  assumes "jb_inv s" "frame_buffer s = (ts, f) # rest"
  shows "jb_inv (s\<lparr>target_delay := d, frame_arrival_times := (frame_arrival_times s)(ts := None), frame_buffer := rest,
         buffered_packets := buffered_packets s - length (fr_packets f), frames_emitted := n\<rparr>)"
proof -
  have "ts \<notin> fst ` set rest" using assms by (auto simp: jb_inv_def)
  then have "list_all (frame_ok ((frame_arrival_times s)(ts := None))) rest"
    using assms by (auto simp: jb_inv_def list_all_iff frame_ok_update)
  then show ?thesis using assms by (auto simp: jb_inv_def buffered_def)
qed

lemma jb_step_inv: "run_inv r \<Longrightarrow> run_inv (jb_step fl op r)"
proof (cases r)
  case (fields s pushed out gone)
  assume inv: "run_inv r"
  then have jb: "jb_inv s" by (simp add: run_inv_def fields)
  show ?thesis
  proof (cases op)
    case (Push p a ref)
    then show ?thesis using inv jb_push_inv [OF jb] by (simp add: run_inv_def fields jb_push_buffered)
  next
    case (Pop now)
    show ?thesis
    proof (rule jb_pop_cases [OF jb, of fl now])
      assume "jb_pop fl now s = (None, s\<lparr>target_delay := pop_delay fl s\<rparr>)"
      then show ?thesis using inv by (simp add: Pop run_inv_def fields jb_inv_delay)
    next
      fix ts f rest
      assume b: "frame_buffer s = (ts, f) # rest"
        and e: "jb_pop fl now s = (Some f, s\<lparr>target_delay := pop_delay fl s,
         frame_arrival_times := (frame_arrival_times s)(ts := None), frame_buffer := rest,
         buffered_packets := buffered_packets s - length (fr_packets f), frames_emitted := frames_emitted s + 1\<rparr>)"
      have "frame_ok (frame_arrival_times s) (ts, f)" using jb by (simp add: jb_inv_def b)
      then have "fr_packets f \<noteq> [] \<and> (\<forall>p \<in> set (fr_packets f). pv_timestamp p = frame_timestamp f)"
        by (simp add: frame_ok_def)
      then show ?thesis using inv jb_pop_some_inv [OF jb b] b
        by (auto simp: Pop e run_inv_def fields buffered_def)
    qed
  next
    case Flush
    have "\<forall>f \<in> snd ` set (frame_buffer s). fr_packets f \<noteq> [] \<and> (\<forall>p \<in> set (fr_packets f). pv_timestamp p = frame_timestamp f)"
      using jb by (auto simp: jb_inv_def list_all_iff frame_ok_def)
    moreover have "map fr_packets (map snd (frame_buffer s)) = map (\<lambda>(ts, f). fr_packets f) (frame_buffer s)"
      by (simp add: case_prod_beta)
    ultimately show ?thesis using inv
      by (auto simp: Flush run_inv_def fields jb_flush_def jb_inv_def buffered_def simp flip: map_map)
  next
    case (Update c)
    then show ?thesis using inv
      by (auto simp: run_inv_def fields jb_update_config_def sync_tracker_policy_def set_policy_def jb_inv_def buffered_def Let_def)
  next
    case Reset
    then show ?thesis using inv
      by (auto simp: run_inv_def fields jb_reset_def sync_tracker_policy_def set_policy_def jb_inv_def buffered_def Let_def)
  qed
qed

lemma run_inv_init: "run_inv (new_jitter_buffer c, [], [], [])"
  by (simp add: run_inv_def new_jitter_buffer_def sync_tracker_policy_def set_policy_def jb_inv_def buffered_def)

interpretation jb: component "(new_jitter_buffer c, [], [], [])" "jb_step fl" run_inv
  by unfold_locales (rule run_inv_init, rule jb_step_inv)

section \<open>Properties\<close>

text \<open>
  C40: after any sequence of pushes, pops, flushes, reconfigurations and resets during which the buffer stays within the configured
  \<^verbatim>\<open>max_packets\<close>, every pushed packet is either still buffered, or in exactly one frame that was handed out, or was
  discarded by a reset; no packet is invented or duplicated, frames are never empty and hold packets of one RTP timestamp only, and the
  \<^verbatim>\<open>buffered_packets\<close> counter is exact. Beyond \<^verbatim>\<open>max_packets\<close> the header promises trimming from
  the oldest, which the code does not do (\<open>jb_cap_ignored\<close> below); that case is excluded here.
\<close>

theorem jb_conservation:
  assumes "fold (jb_step fl) ops (new_jitter_buffer c, [], [], []) = (s, pushed, out, gone)" "within_cap fl c ops"
  shows "mset pushed = mset (concat (map fr_packets out)) + mset (buffered s) + mset gone
    \<and> buffered_packets s = length (buffered s) \<and> length (buffered s) \<le> max_packets (jb_cfg s)
    \<and> (\<forall>f \<in> set out. fr_packets f \<noteq> [] \<and> (\<forall>p \<in> set (fr_packets f). pv_timestamp p = frame_timestamp f))
    \<and> sorted_wrt (<) (map fst (frame_buffer s))"
proof -
  have "buffered_packets s \<le> max_packets (jb_cfg s)" using assms by (simp add: within_cap_def)
  then show ?thesis using jb.run_inv [of fl ops c] assms(1) by (simp add: run_inv_def jb_inv_def ordered_def)
qed

text \<open>
  \<^verbatim>\<open>pop\<close> hands out the buffered frame with the smallest RTP timestamp, and only once its
  playout time (first arrival plus the delay now in force) has passed; otherwise it hands out
  nothing and keeps every frame. In adaptive mode with measured jitter the delay in force is
  within the configured bounds.
\<close>

theorem jb_pop_earliest_due:
  assumes "fold (jb_step fl) ops (new_jitter_buffer c, [], [], []) = (s, hist)"
    and "jb_pop fl now s = (r, s')"
  shows "(case r of
      Some f \<Rightarrow> \<exists>ts a rest. frame_buffer s = (ts, f) # rest \<and> frame_buffer s' = rest
         \<and> (\<forall>(ts', f') \<in> set rest. ts < ts')
         \<and> first_arrival f = Some a \<and> a + target_delay s' * 1000000 \<le> now
    | None \<Rightarrow> frame_buffer s' = frame_buffer s \<and> (\<forall>ts f rest. frame_buffer s = (ts, f) # rest \<longrightarrow>
         (\<exists>a. first_arrival f = Some a \<and> now < a + target_delay s' * 1000000)))
    \<and> (adaptive (jb_cfg s) \<and> 0 < jitter (tracker s) \<and> min_delay (jb_cfg s) \<le> max_delay (jb_cfg s) \<longrightarrow>
         min_delay (jb_cfg s) \<le> target_delay s' \<and> target_delay s' \<le> max_delay (jb_cfg s))"
proof -
  have bounds: "min_delay (jb_cfg s) \<le> pop_delay fl s \<and> pop_delay fl s \<le> max_delay (jb_cfg s)"
    if "adaptive (jb_cfg s)" "0 < jitter (tracker s)" "min_delay (jb_cfg s) \<le> max_delay (jb_cfg s)" "jb_inv s"
    using that by (auto simp: pop_delay_def tracker_target_delay_def jb_inv_def config_policy_def Let_def)
  have inv: "jb_inv s" using jb.run_inv [of fl ops c] assms(1) by (simp add: run_inv_def)
  have arr: "\<exists>a. first_arrival f = Some a \<and> frame_arrival_times s ts = Some a" if "frame_buffer s = (ts, f) # rest" for ts f rest
  proof -
    have "ts \<in> dom (frame_arrival_times s)" "frame_ok (frame_arrival_times s) (ts, f)"
      using inv that by (simp_all add: jb_inv_def)
    then show ?thesis by (auto simp: frame_ok_def)
  qed
  show ?thesis
  proof (rule jb_pop_cases [OF inv, of fl now])
    assume "jb_pop fl now s = (None, s\<lparr>target_delay := pop_delay fl s\<rparr>)"
      and late: "\<And>ts f rest. frame_buffer s = (ts, f) # rest \<Longrightarrow> now < the (frame_arrival_times s ts) + pop_delay fl s * 1000000"
    then have e: "r = None" "s' = s\<lparr>target_delay := pop_delay fl s\<rparr>" using assms(2) by auto
    have "\<exists>a. first_arrival f = Some a \<and> now < a + target_delay s' * 1000000" if "frame_buffer s = (ts, f) # rest" for ts f rest
      using arr [OF that] late [OF that] by (auto simp: e)
    then show ?thesis using bounds inv by (simp add: e)
  next
    fix ts f rest
    assume b: "frame_buffer s = (ts, f) # rest"
      and d: "the (frame_arrival_times s ts) + pop_delay fl s * 1000000 \<le> now"
      and e: "jb_pop fl now s = (Some f, s\<lparr>target_delay := pop_delay fl s,
         frame_arrival_times := (frame_arrival_times s)(ts := None), frame_buffer := rest,
         buffered_packets := buffered_packets s - length (fr_packets f), frames_emitted := frames_emitted s + 1\<rparr>)"
    have "\<forall>(ts', f') \<in> set rest. ts < ts'" using inv by (auto simp: jb_inv_def b)
    then show ?thesis using assms(2) e d arr [OF b] b bounds inv by auto
  qed
qed

text \<open>Playing a stream of two packets 20 ms apart through the buffer.\<close>

definition sample_packet :: "u16 \<Rightarrow> u32 \<Rightarrow> packet_view" where
  "sample_packet seq ts = \<lparr>pv_raw = [], pv_payload = [], pv_ssrc = 1, pv_seq = seq, pv_timestamp = ts,
     pv_payload_type = 0, pv_marker = False, pv_csrc = [], pv_extension = None, pv_extmap_uri = Map.empty\<rparr>"

definition sample_ops :: "jb_op list" where
  "sample_ops = [Push (sample_packet 1 160) 0 None, Push (sample_packet 2 320) 20000000 None]"

theorem jb_conservation_witness:
  "\<exists>s pushed out gone. fold (jb_step (\<lambda>x. x)) (sample_ops @ [Pop 60000000]) (new_jitter_buffer default_config, [], [], []) = (s, pushed, out, gone)
     \<and> length out = 1 \<and> buffered_packets s = 1
     \<and> mset pushed = mset (concat (map fr_packets out)) + mset (buffered s) + mset gone"
proof -
  obtain s pushed out gone where e: "fold (jb_step (\<lambda>x. x)) (sample_ops @ [Pop 60000000])
      (new_jitter_buffer default_config, [], [], []) = (s, pushed, out, gone)" by (metis prod_cases4)
  have "(\<lambda>(s, pushed, out, gone). length out = 1 \<and> buffered_packets s = 1)
     (fold (jb_step (\<lambda>x. x)) (sample_ops @ [Pop 60000000]) (new_jitter_buffer default_config, [], [], []))"
    by code_simp
  moreover have "within_cap (\<lambda>x. x) default_config (sample_ops @ [Pop 60000000])" by code_simp
  ultimately show ?thesis using jb_conservation [OF e] e by auto
qed

theorem jb_pop_earliest_due_witness:
  "\<exists>s hist f s'. fold (jb_step (\<lambda>x. x)) sample_ops (new_jitter_buffer default_config, [], [], []) = (s, hist)
     \<and> jb_pop (\<lambda>x. x) 60000000 s = (Some f, s') \<and> first_arrival f = Some 0 \<and> target_delay s' * 1000000 \<le> 60000000"
proof -
  obtain s hist where e: "fold (jb_step (\<lambda>x. x)) sample_ops (new_jitter_buffer default_config, [], [], []) = (s, hist)"
    by (metis surj_pair)
  obtain r s' where p: "jb_pop (\<lambda>x. x) 60000000 s = (r, s')" by (cases "jb_pop (\<lambda>x. x) 60000000 s")
  have "(\<lambda>(s, hist). map_option first_arrival (fst (jb_pop (\<lambda>x. x) 60000000 s)) = Some (Some 0))
     (fold (jb_step (\<lambda>x. x)) sample_ops (new_jitter_buffer default_config, [], [], []))" by code_simp
  then obtain f where f: "r = Some f" "first_arrival f = Some 0" using e p by auto
  from jb_pop_earliest_due [OF e p] f have "target_delay s' * 1000000 \<le> 60000000" by auto
  with e p f show ?thesis by blast
qed

text \<open>
  Frames are ordered by the plain 32-bit RTP timestamp, so the wrap-around of the
  timestamp misorders the stream. With a fixed delay of 50 ms, a frame just before the wrap
  that arrived at time 0 is not handed out at its playout time, because the frame after the wrap
  (which arrived 20 ms later) sorts first; at 70 ms the later frame is handed out first.
\<close>

theorem jb_wrap_misorders:
  assumes "pv_timestamp p = 0xFFFFFC40" "pv_timestamp q = 0"
    and "s = jb_push fl q 20000000 None (jb_push fl p 0 None
               (new_jitter_buffer (default_config\<lparr>adaptive := False\<rparr>)))"
  shows "fst (jb_pop fl 50000000 s) = None
    \<and> map_option fr_packets (fst (jb_pop fl 70000000 (snd (jb_pop fl 50000000 s)))) = Some [q]"
  using assms(1,2) unfolding assms(3)
  by (simp add: jb_pop_def pop_delay_def jb_push_fields new_jitter_buffer_def sync_tracker_policy_def
      default_config_def Let_def erase_key_def empty_frame_def)

theorem jb_wrap_misorders_witness:
  "\<exists>s. fst (jb_pop (\<lambda>x. x) 50000000 s) = None \<and> frame_buffer s \<noteq> []"
proof -
  let ?s = "jb_push (\<lambda>x. x) (sample_packet 2 0) 20000000 None (jb_push (\<lambda>x. x) (sample_packet 1 0xFFFFFC40) 0 None
               (new_jitter_buffer (default_config\<lparr>adaptive := False\<rparr>)))"
  have "fst (jb_pop (\<lambda>x. x) 50000000 ?s) = None"
    using jb_wrap_misorders [of "sample_packet 1 0xFFFFFC40" "sample_packet 2 0" ?s "\<lambda>x. x"]
    by (simp add: sample_packet_def)
  moreover have "frame_buffer ?s \<noteq> []" by (simp add: jb_push_fields new_jitter_buffer_def sync_tracker_policy_def)
  ultimately show ?thesis by blast
qed

text \<open>
  The configured cap \<^verbatim>\<open>max_packets\<close>, documented as a hard limit with trimming from the oldest,
  has no effect: any number of packets is buffered and none is counted as dropped.
\<close>

theorem jb_cap_ignored:
  "buffered_packets (fold (\<lambda>(p, a). jb_push fl p a None) ps (new_jitter_buffer c)) = length ps
   \<and> jb_packets_dropped (fold (\<lambda>(p, a). jb_push fl p a None) ps (new_jitter_buffer c)) = 0"
proof -
  have "buffered_packets (fold (\<lambda>(p, a). jb_push fl p a None) ps s) = buffered_packets s + length ps
     \<and> jb_packets_dropped (fold (\<lambda>(p, a). jb_push fl p a None) ps s) = jb_packets_dropped s" for s
    by (induction ps arbitrary: s) (auto simp: jb_push_fields)
  then show ?thesis by (simp add: new_jitter_buffer_def sync_tracker_policy_def)
qed

end
