(* ===== verification/Dtls_Reassembler.thy ===== *)
theory Dtls_Reassembler
  imports Prelude
begin

text \<open>
  The DTLS handshake reassembler of \<^verbatim>\<open>dtls_handshake_reassembler.hpp\<close>: fragments of handshake
  messages are collected per message sequence number and handed on as one unfragmented record.

  Time points are integers in nanoseconds, the time-to-live is in milliseconds. Lengths and offsets
  of the 24-bit header fields are natural numbers: the sums the code forms of them stay below
  \<open>2^25 + 12\<close> and cannot wrap a \<^verbatim>\<open>uint32_t\<close>. Undefined accesses are \<open>None\<close>.
\<close>

section \<open>State\<close>

record fragment_buf =
  fb_msg_type :: u8
  fb_msg_seq :: u16
  fb_total_length :: nat
  fb_body :: bytes
  fb_received :: "bool list"
  fb_epoch :: u16
  fb_first_seq :: u64
  fb_last_seen :: int

record reassembler =
  bufs :: "(u16 \<times> fragment_buf) list"
  gc_ttl :: int

definition new_reassembler :: reassembler where
  "new_reassembler = \<lparr>bufs = [], gc_ttl = 5000\<rparr>"

definition set_gc_ttl :: "int \<Rightarrow> reassembler \<Rightarrow> reassembler" where
  "set_gc_ttl ttl s = s\<lparr>gc_ttl := ttl\<rparr>"

definition reassembler_size :: "reassembler \<Rightarrow> nat" where
  "reassembler_size s = length (bufs s)"

definition reassembler_clear :: "reassembler \<Rightarrow> reassembler" where
  "reassembler_clear s = s\<lparr>bufs := []\<rparr>"

text \<open>The eviction loop over the map, with the number of evicted entries.\<close>

fun gc_loop :: "int \<Rightarrow> int \<Rightarrow> (u16 \<times> fragment_buf) list \<Rightarrow> nat \<times> (u16 \<times> fragment_buf) list" where
  "gc_loop now ttl [] = (0, [])"
| "gc_loop now ttl ((k, b) # m) =
     (case gc_loop now ttl m of (n, m') \<Rightarrow>
        if now - fb_last_seen b \<ge> ttl * 1000000 then (n + 1, m') else (n, (k, b) # m'))"

definition gc_expired :: "int \<Rightarrow> reassembler \<Rightarrow> nat \<times> reassembler" where
  "gc_expired now s = (case gc_loop now (gc_ttl s) (bufs s) of (n, m) \<Rightarrow> (n, s\<lparr>bufs := m\<rparr>))"

section \<open>Parsing\<close>

record fragment =
  fg_version :: "u8 \<times> u8"
  fg_epoch :: u16
  fg_seq :: u64
  fg_msg_type :: u8
  fg_msg_len :: nat
  fg_msg_seq :: u16
  fg_frag_off :: nat
  fg_frag_len :: nat
  fg_payload :: bytes

text \<open>The loop that reads the 48-bit record sequence number.\<close>

fun rd_seq :: "bytes \<Rightarrow> nat \<Rightarrow> nat \<Rightarrow> u64 \<Rightarrow> u64 option" where
  "rd_seq bs off 0 seq = Some seq"
| "rd_seq bs off (Suc n) seq = do { b \<leftarrow> rd bs off; rd_seq bs (off + 1) n (push_bit 8 seq OR ucast b) }"

text \<open>
  The header checks up to the fragment's own fields. The inner \<open>None\<close> is a record that is not
  a readable handshake record and is passed through.
\<close>

definition parse_fragment :: "bytes \<Rightarrow> fragment option option" where
  "parse_fragment record =
     (if length record < 13 then Some None else do {
        typ \<leftarrow> rd record 0;
        if typ \<noteq> 22 then Some None else do {
          v1 \<leftarrow> rd record 1;
          v2 \<leftarrow> rd record 2;
          epoch \<leftarrow> rd_be16 record 3;
          seq \<leftarrow> rd_seq record 5 6 0;
          rec_len \<leftarrow> rd_be16 record 11;
          if length record < 13 + unat rec_len then Some None else do {
            payload \<leftarrow> subspan record 13 (unat rec_len);
            if length payload < 12 then Some None else do {
              msg_type \<leftarrow> rd payload 0;
              msg_len \<leftarrow> rd_be24 payload 1;
              msg_seq \<leftarrow> rd_be16 payload 4;
              frag_off \<leftarrow> rd_be24 payload 6;
              frag_len \<leftarrow> rd_be24 payload 9;
              Some (Some \<lparr>fg_version = (v1, v2), fg_epoch = epoch, fg_seq = seq, fg_msg_type = msg_type,
                fg_msg_len = unat msg_len, fg_msg_seq = msg_seq, fg_frag_off = unat frag_off,
                fg_frag_len = unat frag_len, fg_payload = payload\<rparr>)
            }
          }
        }
      })"

definition is_unfragmented :: "fragment \<Rightarrow> bool" where
  "is_unfragmented f \<longleftrightarrow> fg_frag_off f = 0 \<and> fg_frag_len f = fg_msg_len f
     \<and> length (fg_payload f) = 12 + fg_msg_len f"

definition fragment_sane :: "fragment \<Rightarrow> bool" where
  "fragment_sane f \<longleftrightarrow> \<not> (fg_msg_len f = 0 \<or> fg_msg_len f > 16384)
     \<and> \<not> fg_frag_off f \<ge> fg_msg_len f
     \<and> \<not> fg_frag_len f > fg_msg_len f
     \<and> \<not> fg_frag_off f + fg_frag_len f > fg_msg_len f
     \<and> \<not> length (fg_payload f) < 12 + fg_frag_len f"

section \<open>Collecting fragments\<close>

text \<open>The buffer a fragment goes to: a new one, the matching one, or none.\<close>

definition find_or_create :: "int \<Rightarrow> fragment \<Rightarrow> reassembler \<Rightarrow> fragment_buf option" where
  "find_or_create now f s =
     (case map_of (bufs s) (fg_msg_seq f) of
        None \<Rightarrow>
          if length (fg_payload f) \<noteq> 12 + fg_frag_len f then None
          else Some \<lparr>fb_msg_type = fg_msg_type f, fb_msg_seq = fg_msg_seq f, fb_total_length = fg_msg_len f,
                 fb_body = replicate (fg_msg_len f) 0, fb_received = replicate (fg_msg_len f) False,
                 fb_epoch = fg_epoch f, fb_first_seq = fg_seq f, fb_last_seen = now\<rparr>
      | Some buf \<Rightarrow>
          if fb_msg_type buf \<noteq> fg_msg_type f then None
          else if fb_total_length buf \<noteq> fg_msg_len f then None
          else if fb_epoch buf \<noteq> fg_epoch f then None
          else Some (buf\<lparr>fb_last_seen := now\<rparr>))"

fun mark_received :: "nat \<Rightarrow> nat \<Rightarrow> bool list \<Rightarrow> bool list option" where
  "mark_received off 0 r = Some r"
| "mark_received off (Suc n) r = (if off < length r then mark_received (off + 1) n (r[off := True]) else None)"

definition store_fragment :: "fragment \<Rightarrow> fragment_buf \<Rightarrow> fragment_buf option" where
  "store_fragment f buf = do {
     src \<leftarrow> subspan (fg_payload f) 12 (fg_frag_len f);
     body \<leftarrow> wr (fb_body buf) (fg_frag_off f) src;
     received \<leftarrow> mark_received (fg_frag_off f) (fg_frag_len f) (fb_received buf);
     Some (buf\<lparr>fb_body := body, fb_received := received\<rparr>)
   }"

fun all_received :: "bool list \<Rightarrow> bool" where
  "all_received [] = True"
| "all_received (b # bs) = (if \<not> b then False else all_received bs)"

text \<open>The six-byte loop that stores the synthesised sequence number.\<close>

definition be48 :: "u64 \<Rightarrow> bytes" where
  "be48 v = map (\<lambda>i. ucast (drop_bit (8 * (5 - i)) v AND 0xFF)) [0..<6]"

definition synthesise_record :: "u8 \<times> u8 \<Rightarrow> fragment_buf \<Rightarrow> bytes option" where
  "synthesise_record ver buf =
     (let hs_total = fb_total_length buf;
          new_seq = fb_first_seq buf + 1;
          new_rec_len = (of_nat (12 + hs_total) :: u16)
      in do {
        body \<leftarrow> subspan (fb_body buf) 0 hs_total;
        writes
          [(0, [22]), (1, [fst ver]), (2, [snd ver]), (3, be16 (fb_epoch buf)), (5, be48 new_seq),
           (11, be16 new_rec_len), (13, [fb_msg_type buf]), (14, be24 (of_nat hs_total)),
           (17, be16 (fb_msg_seq buf)), (19, [0, 0, 0]), (22, be24 (of_nat hs_total)), (25, body)]
          (replicate (13 + 12 + hs_total) 0)
      })"

datatype reassembly = PassThrough | FragmentBuffered | Reassembled bytes

definition try_reassemble :: "int \<Rightarrow> bytes \<Rightarrow> reassembler \<Rightarrow> (reassembly \<times> reassembler) option" where
  "try_reassemble now record s = do {
     pf \<leftarrow> parse_fragment record;
     case pf of
       None \<Rightarrow> Some (PassThrough, s)
     | Some f \<Rightarrow>
         if is_unfragmented f then Some (PassThrough, s)
         else if \<not> fragment_sane f then Some (PassThrough, s)
         else (case find_or_create now f s of
             None \<Rightarrow> Some (PassThrough, s)
           | Some buf \<Rightarrow> do {
               buf \<leftarrow> store_fragment f buf;
               if \<not> all_received (fb_received buf)
               then Some (FragmentBuffered, s\<lparr>bufs := upsert (fg_msg_seq f) buf (\<lambda>_. buf) (bufs s)\<rparr>)
               else do {
                 out \<leftarrow> synthesise_record (fg_version f) buf;
                 Some (Reassembled out, s\<lparr>bufs := erase_key (fg_msg_seq f) (bufs s)\<rparr>)
               }
             })
   }"

section \<open>Lemmas on the parts\<close>

lemma all_received_iff: "all_received r \<longleftrightarrow> (\<forall>i < length r. r ! i)"
proof -
  have "all_received r = list_all (\<lambda>b. b) r" by (induction r) simp_all
  then show ?thesis by (simp add: list_all_length)
qed

lemma mark_received_Some:
  "off + n \<le> length r \<Longrightarrow> \<exists>r'. mark_received off n r = Some r' \<and> length r' = length r
     \<and> (\<forall>i < length r. r' ! i = (r ! i \<or> (off \<le> i \<and> i < off + n)))"
proof (induction off n r rule: mark_received.induct)
  case (2 off n r)
  then obtain r' where "mark_received (off + 1) n (r[off := True]) = Some r'" "length r' = length r"
    "\<forall>i < length r. r' ! i = (r[off := True] ! i \<or> (off + 1 \<le> i \<and> i < off + 1 + n))" by auto
  moreover have "(r[off := True] ! i \<or> (off + 1 \<le> i \<and> i < off + 1 + n)) = (r ! i \<or> (off \<le> i \<and> i < off + Suc n))"
    if "i < length r" for i using that by (cases "i = off") auto
  ultimately show ?case using 2(2) by simp
qed (simp, linarith)

lemma wr_nth:
  "off + length xs \<le> length buf \<Longrightarrow> \<exists>buf'. wr buf off xs = Some buf' \<and> length buf' = length buf
     \<and> (\<forall>i < length buf. buf' ! i = (if off \<le> i \<and> i < off + length xs then xs ! (i - off) else buf ! i))"
  by (auto simp: wr_def nth_append)

lemma rd_seq_Some: "off + n \<le> length bs \<Longrightarrow> \<exists>v. rd_seq bs off n seq = Some v"
  by (induction bs off n seq rule: rd_seq.induct) (auto simp: rd_Some)

lemma parse_fragment_safe: "parse_fragment rcd \<noteq> None"
proof (cases "length rcd < 13")
  case True
  then show ?thesis by (simp add: parse_fragment_def)
next
  case False
  then have "rcd \<noteq> []" "13 \<le> length rcd" by auto
  moreover obtain v where "rd_seq rcd 5 6 0 = Some v"
    using False rd_seq_Some [of 5 6 rcd 0] by force
  ultimately show ?thesis by (simp add: parse_fragment_def wire_simps)
qed

lemma length_be48 [simp]: "length (be48 v) = 6" by (simp add: be48_def)

lemma synthesise_record_Some:
  assumes "length (fb_body b) = fb_total_length b"
  shows "synthesise_record ver b = Some ([22, fst ver, snd ver] @ be16 (fb_epoch b) @ be48 (fb_first_seq b + 1)
     @ be16 (of_nat (12 + fb_total_length b)) @ [fb_msg_type b] @ be24 (of_nat (fb_total_length b))
     @ be16 (fb_msg_seq b) @ [0, 0, 0] @ be24 (of_nat (fb_total_length b)) @ fb_body b)"
proof -
  have "subspan (fb_body b) 0 (fb_total_length b) = Some (fb_body b)" using assms by (simp add: wire_simps)
  moreover have "writes ws (replicate n 0) = Some (concat (map snd ws))"
    if "consecutive 0 ws" "length (concat (map snd ws)) = n" for ws n
    using writes_consecutive [of "[]" ws n] that by simp
  ultimately show ?thesis using assms by (simp add: synthesise_record_def Let_def del: writes.simps)
qed

section \<open>Invariant\<close>

definition buf_ok :: "fragment_buf \<Rightarrow> bool" where
  "buf_ok b \<longleftrightarrow> 0 < fb_total_length b \<and> fb_total_length b \<le> 16384
     \<and> length (fb_body b) = fb_total_length b \<and> length (fb_received b) = fb_total_length b"

definition reassembler_inv :: "reassembler \<Rightarrow> bool" where
  "reassembler_inv s \<longleftrightarrow> ordered (bufs s)
     \<and> (\<forall>(k, b) \<in> set (bufs s). fb_msg_seq b = k \<and> buf_ok b \<and> \<not> all_received (fb_received b))"

text \<open>The four outcomes of feeding a record.\<close>

lemma find_or_create_ok:
  assumes "reassembler_inv s" "fragment_sane f" "find_or_create now f s = Some b"
  shows "buf_ok b \<and> fb_msg_seq b = fg_msg_seq f \<and> fb_total_length b = fg_msg_len f"
proof (cases "map_of (bufs s) (fg_msg_seq f)")
  case None
  then show ?thesis using assms
    by (auto simp: find_or_create_def buf_ok_def fragment_sane_def split: if_splits)
next
  case (Some b')
  then have "(fg_msg_seq f, b') \<in> set (bufs s)" by (rule map_of_SomeD)
  then show ?thesis using assms Some
    by (auto simp: find_or_create_def buf_ok_def reassembler_inv_def split: if_splits)
qed

lemma store_fragment_Some:
  assumes "buf_ok b" "fragment_sane f" "fb_total_length b = fg_msg_len f"
  obtains b' where "store_fragment f b = Some b'" "buf_ok b'"
    "fb_msg_type b' = fb_msg_type b" "fb_msg_seq b' = fb_msg_seq b" "fb_total_length b' = fb_total_length b"
    "fb_epoch b' = fb_epoch b" "fb_first_seq b' = fb_first_seq b"
    "\<And>i. i < fb_total_length b \<Longrightarrow> fb_received b' ! i =
       (fb_received b ! i \<or> (fg_frag_off f \<le> i \<and> i < fg_frag_off f + fg_frag_len f))"
    "\<And>i. i < fb_total_length b \<Longrightarrow> fb_body b' ! i =
       (if fg_frag_off f \<le> i \<and> i < fg_frag_off f + fg_frag_len f
        then fg_payload f ! (12 + (i - fg_frag_off f)) else fb_body b ! i)"
proof -
  define src where "src = take (fg_frag_len f) (drop 12 (fg_payload f))"
  have s: "subspan (fg_payload f) 12 (fg_frag_len f) = Some src" "length src = fg_frag_len f"
    using assms(2) by (auto simp: src_def wire_simps fragment_sane_def)
  have le: "fg_frag_off f + fg_frag_len f \<le> fb_total_length b"
    using assms by (auto simp: fragment_sane_def)
  obtain body where body: "wr (fb_body b) (fg_frag_off f) src = Some body" "length body = fb_total_length b"
    "\<forall>i < fb_total_length b. body ! i = (if fg_frag_off f \<le> i \<and> i < fg_frag_off f + fg_frag_len f
        then src ! (i - fg_frag_off f) else fb_body b ! i)"
    using wr_nth [of "fg_frag_off f" src "fb_body b"] assms(1) s(2) le by (auto simp: buf_ok_def)
  obtain r where r: "mark_received (fg_frag_off f) (fg_frag_len f) (fb_received b) = Some r"
    "length r = fb_total_length b" "\<forall>i < fb_total_length b. r ! i =
       (fb_received b ! i \<or> (fg_frag_off f \<le> i \<and> i < fg_frag_off f + fg_frag_len f))"
    using mark_received_Some [of "fg_frag_off f" "fg_frag_len f" "fb_received b"] assms(1) le
    by (auto simp: buf_ok_def)
  have "src ! (i - fg_frag_off f) = fg_payload f ! (12 + (i - fg_frag_off f))"
    if "fg_frag_off f \<le> i" "i < fg_frag_off f + fg_frag_len f" for i
    using that assms(2) by (simp add: src_def fragment_sane_def)
  with s body r assms(1) show ?thesis
    by (intro that [of "b\<lparr>fb_body := body, fb_received := r\<rparr>"]) (simp_all add: store_fragment_def buf_ok_def)
qed

lemma try_reassemble_cases:
  assumes "reassembler_inv s"
  obtains (pass) "try_reassemble now rcd s = Some (PassThrough, s)"
  | (buffered) f b where "parse_fragment rcd = Some (Some f)"
      "try_reassemble now rcd s = Some (FragmentBuffered, s\<lparr>bufs := upsert (fg_msg_seq f) b (\<lambda>_. b) (bufs s)\<rparr>)"
      "buf_ok b" "fb_msg_seq b = fg_msg_seq f" "\<not> all_received (fb_received b)"
  | (complete) f b out where "parse_fragment rcd = Some (Some f)"
      "try_reassemble now rcd s = Some (Reassembled out, s\<lparr>bufs := erase_key (fg_msg_seq f) (bufs s)\<rparr>)"
      "synthesise_record (fg_version f) b = Some out" "buf_ok b"
proof (cases "parse_fragment rcd")
  case None
  then show ?thesis using parse_fragment_safe by blast
next
  case (Some pf)
  show ?thesis
  proof (cases "\<exists>f b. pf = Some f \<and> \<not> is_unfragmented f \<and> fragment_sane f \<and> find_or_create now f s = Some b")
    case False
    then have "try_reassemble now rcd s = Some (PassThrough, s)"
      by (auto simp: try_reassemble_def Some split: option.split)
    then show ?thesis by (rule pass)
  next
    case True
    then obtain f b where f: "pf = Some f" "\<not> is_unfragmented f" "fragment_sane f" "find_or_create now f s = Some b"
      by blast
    note b = find_or_create_ok [OF assms f(3,4)]
    obtain b' where b': "store_fragment f b = Some b'" "buf_ok b'" "fb_msg_seq b' = fb_msg_seq b"
      using store_fragment_Some [of b f] b f(3) by metis
    obtain out where out: "synthesise_record (fg_version f) b' = Some out"
      using synthesise_record_Some [of b'] b'(2) by (auto simp: buf_ok_def)
    show ?thesis
    proof (cases "all_received (fb_received b')")
      case True
      then show ?thesis using complete [of f out b'] f b' out Some by (simp add: try_reassemble_def)
    next
      case False
      then show ?thesis using buffered [of f b'] f b b' Some by (simp add: try_reassemble_def)
    qed
  qed
qed

lemma reassembler_inv_filter: "reassembler_inv s \<Longrightarrow> reassembler_inv (s\<lparr>bufs := filter P (bufs s)\<rparr>)"
  by (auto simp: reassembler_inv_def ordered_filter)

lemma gc_loop_filter:
  "gc_loop now ttl m = (length m - length (filter (\<lambda>(k, b). now - fb_last_seen b < ttl * 1000000) m),
      filter (\<lambda>(k, b). now - fb_last_seen b < ttl * 1000000) m)"
proof (induction now ttl m rule: gc_loop.induct)
  case (2 now ttl k b m)
  have "length (filter (\<lambda>(k, b). now - fb_last_seen b < ttl * 1000000) m) \<le> length m" by simp
  with 2 show ?case by (auto simp: not_le Suc_diff_le)
qed simp

lemma try_reassemble_inv:
  assumes "reassembler_inv s" "try_reassemble now rcd s = Some (r, s')"
  shows "reassembler_inv s'"
proof (rule try_reassemble_cases [OF assms(1), of now rcd])
  fix f b
  assume h: "buf_ok b" "fb_msg_seq b = fg_msg_seq f" "\<not> all_received (fb_received b)"
  assume "try_reassemble now rcd s = Some (FragmentBuffered, s\<lparr>bufs := upsert (fg_msg_seq f) b (\<lambda>_. b) (bufs s)\<rparr>)"
  with assms h show ?thesis by (auto simp: reassembler_inv_def ordered_upsert set_upsert)
next
  fix f :: fragment and b out
  assume "try_reassemble now rcd s = Some (Reassembled out, s\<lparr>bufs := erase_key (fg_msg_seq f) (bufs s)\<rparr>)"
  then show ?thesis using assms reassembler_inv_filter by (auto simp: erase_key_def)
qed (use assms in auto)

section \<open>Runs\<close>

datatype reassembler_op = Feed int bytes | Gc int | Clear | SetTtl int

text \<open>\<open>None\<close> is a run that performed an undefined access.\<close>

fun reassembler_step :: "reassembler_op \<Rightarrow> reassembler option \<Rightarrow> reassembler option" where
  "reassembler_step op None = None"
| "reassembler_step (Feed now rcd) (Some s) = map_option snd (try_reassemble now rcd s)"
| "reassembler_step (Gc now) (Some s) = Some (snd (gc_expired now s))"
| "reassembler_step Clear (Some s) = Some (reassembler_clear s)"
| "reassembler_step (SetTtl ttl) (Some s) = Some (set_gc_ttl ttl s)"

lemma reassembler_step_inv:
  "(\<exists>s. x = Some s \<and> reassembler_inv s) \<Longrightarrow> \<exists>s'. reassembler_step op x = Some s' \<and> reassembler_inv s'"
proof (erule exE, elim conjE)
  fix s assume x: "x = Some s" and inv: "reassembler_inv s"
  show ?thesis
  proof (cases op)
    case (Feed now rcd)
    obtain r s' where "try_reassemble now rcd s = Some (r, s')"
      using try_reassemble_cases [OF inv, of now rcd] by metis
    then show ?thesis using try_reassemble_inv [OF inv] by (auto simp: x Feed)
  next
    case (Gc now)
    then show ?thesis using reassembler_inv_filter [OF inv] by (simp add: x gc_expired_def gc_loop_filter)
  qed (use inv x in \<open>auto simp: reassembler_clear_def set_gc_ttl_def reassembler_inv_def\<close>)
qed

interpretation reasm: component "Some new_reassembler" reassembler_step "\<lambda>x. \<exists>s. x = Some s \<and> reassembler_inv s"
  by unfold_locales (simp add: new_reassembler_def reassembler_inv_def, rule reassembler_step_inv)

section \<open>Reference encoding of a fragmented message\<close>

text \<open>
  The record that carries the bytes \<open>[off, off + len)\<close> of a handshake message, after RFC 6347,
  section 4.2.3. The unfragmented message is the fragment \<open>(0, length m)\<close>.
\<close>

record message =
  m_version :: "u8 \<times> u8"
  m_epoch :: u16
  m_type :: u8
  m_seq :: u16
  m_body :: bytes

definition fragment_record :: "message \<Rightarrow> u64 \<Rightarrow> nat \<Rightarrow> nat \<Rightarrow> bytes" where
  "fragment_record m seq off len = [22, fst (m_version m), snd (m_version m)] @ be16 (m_epoch m) @ be48 seq
     @ be16 (of_nat (12 + len)) @ [m_type m] @ be24 (of_nat (length (m_body m))) @ be16 (m_seq m)
     @ be24 (of_nat off) @ be24 (of_nat len) @ take len (drop off (m_body m))"

text \<open>A fragment on the wire: arrival time, record sequence number, offset and length.\<close>

type_synonym arrival = "int \<times> u64 \<times> nat \<times> nat"

definition covered :: "arrival list \<Rightarrow> nat \<Rightarrow> bool" where
  "covered frs i \<longleftrightarrow> list_ex (\<lambda>(now, seq, off, len). off \<le> i \<and> i < off + len) frs"

definition proper_fragment :: "message \<Rightarrow> arrival \<Rightarrow> bool" where
  "proper_fragment m = (\<lambda>(now, seq, off, len). off < length (m_body m) \<and> off + len \<le> length (m_body m)
     \<and> len < length (m_body m))"

lemma be48_explicit:
  "be48 v = [ucast (drop_bit 40 v), ucast (drop_bit 32 v), ucast (drop_bit 24 v),
             ucast (drop_bit 16 v), ucast (drop_bit 8 v), ucast v]"
  by (simp add: be48_def upt_rec [of _ 6] numeral_eq_Suc)

lemma be48_bits:
  "((((push_bit 40 (ucast (ucast (drop_bit 40 v) :: u8)) OR push_bit 32 (ucast (ucast (drop_bit 32 v) :: u8)))
     OR push_bit 24 (ucast (ucast (drop_bit 24 v) :: u8))) OR push_bit 16 (ucast (ucast (drop_bit 16 v) :: u8)))
     OR push_bit 8 (ucast (ucast (drop_bit 8 v) :: u8))) OR ucast (ucast v :: u8) = take_bit 48 (v :: u64)"
proof (rule bit_word_eqI, goal_cases)
  case (1 n)
  consider "n < 8" | "8 \<le> n" "n < 16" | "16 \<le> n" "n < 24" | "24 \<le> n" "n < 32"
    | "32 \<le> n" "n < 40" | "40 \<le> n" "n < 48" | "48 \<le> n" by linarith
  then show ?case using 1 by cases (auto simp add: bit_simps)
qed

lemma take_bit_24_small: "n < 2 ^ 24 \<Longrightarrow> unat (take_bit 24 (of_nat n :: u32)) = n"
  by (simp only: unsigned_take_bit_eq) (simp add: unat_of_nat take_bit_eq_mod)

lemma rd_seq_six:
  assumes "off + 5 < length bs"
  shows "rd_seq bs off 6 0 = Some (((((push_bit 40 (ucast (bs ! off)) OR push_bit 32 (ucast (bs ! (off + 1))))
     OR push_bit 24 (ucast (bs ! (off + 2)))) OR push_bit 16 (ucast (bs ! (off + 3))))
     OR push_bit 8 (ucast (bs ! (off + 4)))) OR ucast (bs ! (off + 5)))"
proof -
  have six: "6 = Suc (Suc (Suc (Suc (Suc (Suc 0)))))" by simp
  have plus: "Suc (Suc (Suc off)) = off + 3" "Suc (Suc (Suc (Suc off))) = off + 4"
    "Suc (Suc (Suc (Suc (Suc off)))) = off + 5" by simp_all
  show ?thesis using assms unfolding six rd_seq.simps by (simp add: rd_Some plus add.commute [of 4] add.commute [of 5])
qed

lemma parse_fragment_record:
  assumes "length (m_body m) \<le> 16384" "off + len \<le> length (m_body m)"
  shows "parse_fragment (fragment_record m seq off len) = Some (Some
    \<lparr>fg_version = m_version m, fg_epoch = m_epoch m, fg_seq = take_bit 48 seq, fg_msg_type = m_type m,
     fg_msg_len = length (m_body m), fg_msg_seq = m_seq m, fg_frag_off = off, fg_frag_len = len,
     fg_payload = drop 13 (fragment_record m seq off len)\<rparr>)"
proof -
  define body where "body = take len (drop off (m_body m))"
  have len: "length body = len" using assms by (simp add: body_def)
  have rl: "unat (of_nat (12 + len) :: u16) = 12 + len" using assms by (simp only: unat_of_nat) simp
  show ?thesis using assms len rl
    by (simp add: parse_fragment_def fragment_record_def body_def [symmetric] be16_def be24_def be48_explicit
        wire_simps codec_simps rd_seq_six be48_bits take_bit_24_small)
qed


section \<open>Progress of a message\<close>

text \<open>The buffer holds exactly the bytes of the message that the fragments received so far cover.\<close>

definition progress :: "message \<Rightarrow> arrival list \<Rightarrow> fragment_buf \<Rightarrow> bool" where
  "progress m frs b \<longleftrightarrow> buf_ok b \<and> fb_msg_type b = m_type m \<and> fb_msg_seq b = m_seq m
     \<and> fb_total_length b = length (m_body m) \<and> fb_epoch b = m_epoch m
     \<and> (\<forall>i < length (m_body m). fb_received b ! i = covered frs i
          \<and> (covered frs i \<longrightarrow> fb_body b ! i = m_body m ! i))"

definition collecting :: "message \<Rightarrow> arrival list \<Rightarrow> reassembler \<Rightarrow> bool" where
  "collecting m frs s \<longleftrightarrow> (case frs of
       [] \<Rightarrow> map_of (bufs s) (m_seq m) = None
     | (now, seq, off, len) # _ \<Rightarrow> (\<exists>b. map_of (bufs s) (m_seq m) = Some b \<and> progress m frs b
          \<and> fb_first_seq b = take_bit 48 seq))"

lemma store_progress:
  assumes "progress m frs b" "length (m_body m) \<le> 16384" "proper_fragment m (now, seq, off, len)"
    and f: "parse_fragment (fragment_record m seq off len) = Some (Some f)"
  obtains b' where "store_fragment f b = Some b'" "progress m (frs @ [(now, seq, off, len)]) b'"
    "fb_first_seq b' = fb_first_seq b"
proof -
  have le: "off + len \<le> length (m_body m)" "off < length (m_body m)" using assms(3) by (auto simp: proper_fragment_def)
  have f': "fg_frag_off f = off" "fg_frag_len f = len" "fg_msg_len f = length (m_body m)"
     "fg_payload f = drop 13 (fragment_record m seq off len)"
    using f parse_fragment_record [OF assms(2) le(1)] by auto
  have pay: "length (fg_payload f) = 12 + len" "\<And>k. k < len \<Longrightarrow> fg_payload f ! (12 + k) = m_body m ! (off + k)"
    using le by (simp_all add: f' fragment_record_def be16_def be24_def be48_explicit)
  have sane: "fragment_sane f" using le assms(2) f' pay(1) by (auto simp: fragment_sane_def)
  have b: "buf_ok b" "fb_total_length b = fg_msg_len f" using assms(1) f' by (auto simp: progress_def)
  show ?thesis
  proof (rule store_fragment_Some [OF b(1) sane b(2)], goal_cases)
    case (1 b')
    have "covered (frs @ [(now, seq, off, len)]) i = (covered frs i \<or> (off \<le> i \<and> i < off + len))" for i
      by (simp add: covered_def)
    moreover have "fg_payload f ! (12 + (i - off)) = m_body m ! i" if "off \<le> i" "i < off + len" for i
      using pay(2) [of "i - off"] that by simp
    ultimately show ?case using 1 assms(1) f'
      by (intro that [of b']) (auto simp: progress_def)
  qed
qed

lemma find_progress:
  assumes "collecting m frs s" "0 < length (m_body m)" "length (m_body m) \<le> 16384" "off + len \<le> length (m_body m)"
    and f: "parse_fragment (fragment_record m seq off len) = Some (Some f)"
  obtains b where "find_or_create now f s = Some b" "progress m frs b"
    "fb_first_seq b = take_bit 48 (case frs of [] \<Rightarrow> seq | (_, q, _) # _ \<Rightarrow> q)"
proof -
  have f': "f = \<lparr>fg_version = m_version m, fg_epoch = m_epoch m, fg_seq = take_bit 48 seq, fg_msg_type = m_type m,
     fg_msg_len = length (m_body m), fg_msg_seq = m_seq m, fg_frag_off = off, fg_frag_len = len,
     fg_payload = drop 13 (fragment_record m seq off len)\<rparr>"
    using f parse_fragment_record [OF assms(3,4)] by auto
  have pay: "length (fg_payload f) = 12 + len" using assms(4) by (simp add: f' fragment_record_def)
  show ?thesis
  proof (cases frs)
    case Nil
    show ?thesis
      by (rule that [of "\<lparr>fb_msg_type = m_type m, fb_msg_seq = m_seq m, fb_total_length = length (m_body m),
            fb_body = replicate (length (m_body m)) 0, fb_received = replicate (length (m_body m)) False,
            fb_epoch = m_epoch m, fb_first_seq = take_bit 48 seq, fb_last_seen = now\<rparr>"])
        (use assms Nil pay in \<open>simp_all add: find_or_create_def collecting_def progress_def buf_ok_def covered_def f'\<close>)
  next
    case (Cons fr rest)
    obtain a q c d where fr: "fr = (a, q, c, d)" by (cases fr) auto
    obtain b where b: "map_of (bufs s) (m_seq m) = Some b" "progress m frs b" "fb_first_seq b = take_bit 48 q"
      using assms(1) by (auto simp: collecting_def Cons fr)
    show ?thesis
      by (rule that [of "b\<lparr>fb_last_seen := now\<rparr>"])
        (use b assms(2) in \<open>simp_all add: find_or_create_def progress_def buf_ok_def f' Cons fr\<close>)
  qed
qed


lemma collecting_step:
  assumes inv: "collecting m frs s" "0 < length (m_body m)" "length (m_body m) \<le> 16384"
    and p: "proper_fragment m (now, seq, off, len)" and o: "ordered (bufs s)"
  defines "frs' \<equiv> frs @ [(now, seq, off, len)]"
  obtains (more) s' where "try_reassemble now (fragment_record m seq off len) s = Some (FragmentBuffered, s')"
      "collecting m frs' s'" "\<not> (\<forall>i < length (m_body m). covered frs' i)"
  | (complete) "try_reassemble now (fragment_record m seq off len) s = Some (Reassembled
        (fragment_record m (take_bit 48 (fst (snd (hd frs'))) + 1) 0 (length (m_body m))),
        s\<lparr>bufs := erase_key (m_seq m) (bufs s)\<rparr>)"
      "\<forall>i < length (m_body m). covered frs' i"
proof -
  have le: "off + len \<le> length (m_body m)" "len < length (m_body m)" "off < length (m_body m)"
    using p by (auto simp: proper_fragment_def)
  obtain f where f: "parse_fragment (fragment_record m seq off len) = Some (Some f)"
    and f': "fg_version f = m_version m" "fg_msg_len f = length (m_body m)" "fg_msg_seq f = m_seq m"
      "fg_frag_off f = off" "fg_frag_len f = len" "length (fg_payload f) = 12 + len"
    using parse_fragment_record [OF inv(3) le(1)] le by (simp add: fragment_record_def)
  have chk: "\<not> is_unfragmented f" "fragment_sane f"
    using le inv f' by (auto simp: is_unfragmented_def fragment_sane_def)
  obtain b where b: "find_or_create now f s = Some b" "progress m frs b"
    "fb_first_seq b = take_bit 48 (case frs of [] \<Rightarrow> seq | (_, q, _) # _ \<Rightarrow> q)"
    by (rule find_progress [OF inv le(1) f])
  obtain b' where b': "store_fragment f b = Some b'" "progress m frs' b'" "fb_first_seq b' = fb_first_seq b"
    unfolding frs'_def by (rule store_progress [OF b(2) inv(3) p f])
  have first: "fb_first_seq b' = take_bit 48 (fst (snd (hd frs')))"
    using b b' by (auto simp: frs'_def split: list.split)
  have ok: "buf_ok b'" and tot: "fb_total_length b' = length (m_body m)" using b'(2) by (auto simp: progress_def)
  have all: "all_received (fb_received b') \<longleftrightarrow> (\<forall>i < length (m_body m). covered frs' i)"
    using b'(2) ok tot by (simp add: all_received_iff progress_def buf_ok_def)
  show ?thesis
  proof (cases "all_received (fb_received b')")
    case False
    have "collecting m frs' (s\<lparr>bufs := upsert (m_seq m) b' (\<lambda>_. b') (bufs s)\<rparr>)"
      using b'(2) first o by (auto simp: collecting_def frs'_def map_of_upsert split: list.split)
    moreover have "try_reassemble now (fragment_record m seq off len) s =
        Some (FragmentBuffered, s\<lparr>bufs := upsert (m_seq m) b' (\<lambda>_. b') (bufs s)\<rparr>)"
      using False by (simp add: try_reassemble_def f chk b(1) b'(1) f')
    ultimately show ?thesis using False all more by blast
  next
    case True
    then have body: "fb_body b' = m_body m"
      using b'(2) ok tot all by (intro nth_equalityI) (auto simp: progress_def buf_ok_def)
    have fields: "fb_msg_type b' = m_type m" "fb_msg_seq b' = m_seq m" "fb_epoch b' = m_epoch m"
      "length (fb_body b') = fb_total_length b'"
      using b'(2) ok by (simp_all add: progress_def buf_ok_def)
    have "synthesise_record (m_version m) b' = Some (fragment_record m (fb_first_seq b' + 1) 0 (length (m_body m)))"
      by (simp add: synthesise_record_Some [OF fields(4)] fields(1-3) body tot fragment_record_def be24_def)
    with True have "try_reassemble now (fragment_record m seq off len) s = Some (Reassembled
        (fragment_record m (take_bit 48 (fst (snd (hd frs'))) + 1) 0 (length (m_body m))),
        s\<lparr>bufs := erase_key (m_seq m) (bufs s)\<rparr>)"
      by (simp add: try_reassemble_def f chk b(1) b'(1) f' first)
    with True all show ?thesis using complete by blast
  qed
qed

text \<open>Records of other messages do not disturb the collection.\<close>

definition foreign :: "message \<Rightarrow> bytes \<Rightarrow> bool" where
  "foreign m rcd = (case parse_fragment rcd of Some (Some f) \<Rightarrow> fg_msg_seq f \<noteq> m_seq m | _ \<Rightarrow> True)"

lemma map_of_erase_other: "k \<noteq> k' \<Longrightarrow> map_of (erase_key k' m) k = map_of m k"
  unfolding erase_key_def by (induction m) auto

lemma foreign_step:
  assumes "reassembler_inv s" "foreign m rcd" "try_reassemble now rcd s = Some (r, s')"
  shows "map_of (bufs s') (m_seq m) = map_of (bufs s) (m_seq m)"
proof (rule try_reassemble_cases [OF assms(1), of now rcd])
qed (use assms in \<open>auto simp: foreign_def reassembler_inv_def map_of_upsert map_of_erase_other\<close>)

lemma collecting_cong: "map_of (bufs s') (m_seq m) = map_of (bufs s) (m_seq m) \<Longrightarrow> collecting m frs s' = collecting m frs s"
  by (simp add: collecting_def split: list.split)

text \<open>Feeding a sequence of records, and streams in which a message's fragments are interleaved with other records.\<close>

fun feed_all :: "(int \<times> bytes) list \<Rightarrow> reassembler \<Rightarrow> (reassembly list \<times> reassembler) option" where
  "feed_all [] s = Some ([], s)"
| "feed_all ((now, rcd) # rest) s = do {
     (r, s) \<leftarrow> try_reassemble now rcd s;
     (rs, s) \<leftarrow> feed_all rest s;
     Some (r # rs, s)
   }"

fun wire_item :: "message \<Rightarrow> arrival + int \<times> bytes \<Rightarrow> int \<times> bytes" where
  "wire_item m (Inl (now, seq, off, len)) = (now, fragment_record m seq off len)"
| "wire_item m (Inr p) = p"

fun own_fragments :: "(arrival + int \<times> bytes) list \<Rightarrow> arrival list" where
  "own_fragments [] = []"
| "own_fragments (Inl a # items) = a # own_fragments items"
| "own_fragments (Inr p # items) = own_fragments items"

fun item_ok :: "message \<Rightarrow> arrival + int \<times> bytes \<Rightarrow> bool" where
  "item_ok m (Inl a) = proper_fragment m a"
| "item_ok m (Inr (now, rcd)) = foreign m rcd"

definition all_covered :: "message \<Rightarrow> arrival list \<Rightarrow> bool" where
  "all_covered m frs \<longleftrightarrow> list_all (covered frs) [0..<length (m_body m)]"

lemma all_covered_iff: "all_covered m frs \<longleftrightarrow> (\<forall>i < length (m_body m). covered frs i)"
  by (auto simp: all_covered_def list_all_iff)

lemma all_covered_append: "all_covered m frs \<Longrightarrow> all_covered m (frs @ frs')"
  by (auto simp: all_covered_iff covered_def)

lemma collecting_run:
  assumes m: "0 < length (m_body m)" "length (m_body m) \<le> 16384"
  shows "reassembler_inv s \<Longrightarrow> collecting m frs s \<Longrightarrow> list_all (item_ok m) items \<Longrightarrow>
    \<not> all_covered m (frs @ own_fragments items) \<Longrightarrow>
    \<exists>rs s'. feed_all (map (wire_item m) items) s = Some (rs, s') \<and> reassembler_inv s'
      \<and> collecting m (frs @ own_fragments items) s'
      \<and> list_all2 (\<lambda>item r. isl item \<longrightarrow> r = FragmentBuffered) items rs"
proof (induction items arbitrary: frs s)
  case (Cons item items)
  show ?case
  proof (cases item)
    case (Inl a)
    obtain now seq off len where a: "a = (now, seq, off, len)" by (cases a) auto
    have p: "proper_fragment m (now, seq, off, len)" and o: "ordered (bufs s)"
      using Cons.prems by (auto simp: Inl a reassembler_inv_def)
    have nc: "\<not> all_covered m (frs @ [a])"
      using Cons.prems(4) all_covered_append [of m "frs @ [a]" "own_fragments items"] by (auto simp: Inl)
    obtain s' where s': "try_reassemble now (fragment_record m seq off len) s = Some (FragmentBuffered, s')"
      "collecting m (frs @ [a]) s'"
      by (rule collecting_step [OF Cons.prems(2) m p o]) (use nc in \<open>auto simp: a all_covered_iff\<close>)
    have inv: "reassembler_inv s'" by (rule try_reassemble_inv [OF Cons.prems(1) s'(1)])
    obtain rs s'' where "feed_all (map (wire_item m) items) s' = Some (rs, s'')" "reassembler_inv s''"
      "collecting m ((frs @ [a]) @ own_fragments items) s''"
      "list_all2 (\<lambda>item r. isl item \<longrightarrow> r = FragmentBuffered) items rs"
      using Cons.IH [OF inv s'(2)] Cons.prems by (auto simp: Inl)
    then show ?thesis using s'(1) by (simp add: Inl a)
  next
    case (Inr p)
    obtain now rcd where p: "p = (now, rcd)" by (cases p)
    obtain r s' where s': "try_reassemble now rcd s = Some (r, s')"
      using try_reassemble_cases [OF Cons.prems(1), of now rcd] by metis
    have "map_of (bufs s') (m_seq m) = map_of (bufs s) (m_seq m)"
      by (rule foreign_step [OF Cons.prems(1) _ s']) (use Cons.prems in \<open>simp add: Inr p\<close>)
    then have c: "collecting m frs s'" using Cons.prems(2) collecting_cong by blast
    have inv: "reassembler_inv s'" by (rule try_reassemble_inv [OF Cons.prems(1) s'])
    obtain rs s'' where "feed_all (map (wire_item m) items) s' = Some (rs, s'')" "reassembler_inv s''"
      "collecting m (frs @ own_fragments items) s''"
      "list_all2 (\<lambda>item r. isl item \<longrightarrow> r = FragmentBuffered) items rs"
      using Cons.IH [OF inv c] Cons.prems by (auto simp: Inr)
    then show ?thesis using s' by (simp add: Inr p)
  qed
qed simp

lemma unfragmented_passes:
  assumes "length (m_body m) \<le> 16384"
  shows "try_reassemble t (fragment_record m q 0 (length (m_body m))) s = Some (PassThrough, s)"
proof -
  have "length (fragment_record m q 0 (length (m_body m))) = 25 + length (m_body m)"
    by (simp add: fragment_record_def)
  then show ?thesis using parse_fragment_record [OF assms, of 0 "length (m_body m)" q]
    by (simp add: try_reassemble_def is_unfragmented_def)
qed

section \<open>Properties\<close>

text \<open>
  C34: the fragments of a handshake message may arrive in any order, duplicated, overlapping and
  interleaved with records of other messages: every fragment before the one that completes
  the message is absorbed, the completing one yields the unfragmented record of the very
  message (which the reassembler itself passes through), and the buffer is released.
\<close>

theorem dtls_reassembles_message:
  assumes "fold reassembler_step ops (Some new_reassembler) = Some s"
    and "map_of (bufs s) (m_seq m) = None"
    and "0 < length (m_body m)" "length (m_body m) \<le> 16384"
    and "list_all (item_ok m) items" "proper_fragment m (now, seq, off, len)"
    and "\<not> all_covered m (own_fragments items)"
    and "all_covered m (own_fragments items @ [(now, seq, off, len)])"
  shows "\<exists>rs s' s'' out q. feed_all (map (wire_item m) items) s = Some (rs, s')
     \<and> list_all2 (\<lambda>item r. isl item \<longrightarrow> r = FragmentBuffered) items rs
     \<and> try_reassemble now (fragment_record m seq off len) s' = Some (Reassembled out, s'')
     \<and> out = fragment_record m q 0 (length (m_body m))
     \<and> map_of (bufs s'') (m_seq m) = None
     \<and> try_reassemble now out s'' = Some (PassThrough, s'')"
proof -
  have inv: "reassembler_inv s" using reasm.run_inv [of ops] assms(1) by auto
  have "collecting m [] s" using assms(2) by (simp add: collecting_def)
  then obtain rs s' where s': "feed_all (map (wire_item m) items) s = Some (rs, s')" "reassembler_inv s'"
      "collecting m (own_fragments items) s'"
      "list_all2 (\<lambda>item r. isl item \<longrightarrow> r = FragmentBuffered) items rs"
    using collecting_run [OF assms(3,4) inv, of "[]" items] assms(5,7) by auto
  have o: "ordered (bufs s')" using s'(2) by (simp add: reassembler_inv_def)
  have "map_of (erase_key k l) k = None" for k and l :: "(u16 \<times> fragment_buf) list"
    by (simp add: map_of_eq_None_iff keys_erase)
  then show ?thesis
    using collecting_step [OF s'(3) assms(3,4,6) o] assms(8) s'(1,4) unfragmented_passes [OF assms(4)]
    unfolding all_covered_iff
    by (metis (no_types, lifting) reassembler.select_convs(1) reassembler.surjective reassembler.update_convs(1))
qed

text \<open>
  C35: whatever bytes arrive and in whatever order records, garbage collection, resets and
  reconfigurations are interleaved, the reassembler never reads or writes outside a buffer;
  every buffer is incomplete, of the announced length and at most 16384 bytes long; a record
  that is passed through leaves the state alone and a synthesised record stays within bounds.
\<close>

theorem dtls_reassembler_safe:
  "\<exists>s. fold reassembler_step ops (Some new_reassembler) = Some s
     \<and> list_all (\<lambda>(k, b). fb_msg_seq b = k \<and> 0 < fb_total_length b \<and> fb_total_length b \<le> 16384
          \<and> length (fb_body b) = fb_total_length b \<and> length (fb_received b) = fb_total_length b
          \<and> \<not> all_received (fb_received b)) (bufs s)
     \<and> distinct (map fst (bufs s))
     \<and> (\<forall>now rcd. case try_reassemble now rcd s of None \<Rightarrow> False
          | Some (PassThrough, s') \<Rightarrow> s' = s
          | Some (FragmentBuffered, s') \<Rightarrow> reassembler_size s' \<le> reassembler_size s + 1
          | Some (Reassembled out, s') \<Rightarrow> reassembler_size s' \<le> reassembler_size s
               \<and> 25 < length out \<and> length out \<le> 25 + 16384)"
proof -
  obtain s where s: "fold reassembler_step ops (Some new_reassembler) = Some s" and inv: "reassembler_inv s"
    using reasm.run_inv [of ops] by auto
  have len: "length (upsert k d f m) \<le> length m + 1" for k :: u16 and d f and m :: "(u16 \<times> fragment_buf) list"
    by (induction k d f m rule: upsert.induct) auto
  have "case try_reassemble now rcd s of None \<Rightarrow> False
          | Some (PassThrough, s') \<Rightarrow> s' = s
          | Some (FragmentBuffered, s') \<Rightarrow> reassembler_size s' \<le> reassembler_size s + 1
          | Some (Reassembled out, s') \<Rightarrow> reassembler_size s' \<le> reassembler_size s
               \<and> 25 < length out \<and> length out \<le> 25 + 16384" for now rcd
  proof (rule try_reassemble_cases [OF inv, of now rcd])
  next
    fix f b out
    assume "synthesise_record (fg_version f) b = Some out" "buf_ok b"
    then have "25 < length out \<and> length out \<le> 25 + 16384"
      using synthesise_record_Some [of b "fg_version f"] by (auto simp: buf_ok_def)
    then show "try_reassemble now rcd s = Some (Reassembled out, s\<lparr>bufs := erase_key (fg_msg_seq f) (bufs s)\<rparr>) \<Longrightarrow> ?thesis"
      by (simp add: reassembler_size_def erase_key_def)
  qed (use len in \<open>auto simp: reassembler_size_def\<close>)
  moreover have "distinct (map fst (bufs s))"
    using inv by (simp add: reassembler_inv_def ordered_def strict_sorted_iff)
  ultimately show ?thesis using s inv by (auto simp: reassembler_inv_def buf_ok_def list_all_iff)
qed

definition sample_message :: message where
  "sample_message = \<lparr>m_version = (254, 253), m_epoch = 0, m_type = 11, m_seq = 3, m_body = [1, 2, 3, 4, 5]\<rparr>"

text \<open>Three overlapping fragments of a five-byte message, last part first, with a foreign record between them.\<close>

definition sample_items :: "(arrival + int \<times> bytes) list" where
  "sample_items = [Inl (5, 10, 3, 2), Inr (6, [22]), Inl (7, 12, 1, 3)]"

theorem dtls_reassembles_message_witness:
  "\<exists>rs s' s'' q. feed_all (map (wire_item sample_message) sample_items) new_reassembler = Some (rs, s')
     \<and> try_reassemble 8 (fragment_record sample_message 13 0 2) s'
        = Some (Reassembled (fragment_record sample_message q 0 (length (m_body sample_message))), s'')"
proof -
  have ok: "list_all (item_ok sample_message) sample_items" "proper_fragment sample_message (8, 13, 0, 2)"
    "\<not> all_covered sample_message (own_fragments sample_items)"
    "all_covered sample_message (own_fragments sample_items @ [(8, 13, 0, 2)])"
    "map_of (bufs new_reassembler) (m_seq sample_message) = None"
    "0 < length (m_body sample_message)" "length (m_body sample_message) \<le> 16384"
    by (simp_all add: sample_message_def sample_items_def new_reassembler_def proper_fragment_def foreign_def
        parse_fragment_def all_covered_def covered_def upt_rec)
  have "fold reassembler_step [] (Some new_reassembler) = Some new_reassembler" by simp
  from dtls_reassembles_message [OF this ok(5-7,1-4)] show ?thesis by blast
qed

end
