(* ===== verification/Scheduler.thy ===== *)
theory Scheduler
  imports Prelude
begin

text \<open>
  The sending scheduler of \<^verbatim>\<open>modules/sched/src/scheduler.cpp\<close>: five strict-priority queues with a
  bandwidth budget, and three buckets of per-stream priority.

  The mutex makes every public call one atomic step, so a concurrent use is a sequence of
  operations. The drain callback is a \<^verbatim>\<open>std::function\<close>; it may have effects, so it is a
  state transformer over a state of the caller's (it runs under the scheduler's mutex and cannot
  call the scheduler back). Counters keep their 32 and 64 bits. The loops recurse on
  the queue they pop from or on the index they count down.
\<close>

section \<open>Types\<close>

datatype priority = KControl | KAudio | KVideoKeyframe | KVideo | KBestEffort

definition kPriorityCount :: nat where
  "kPriorityCount = 5"

fun priority_rank :: "priority \<Rightarrow> nat" where
  "priority_rank KControl = 0"
| "priority_rank KAudio = 1"
| "priority_rank KVideoKeyframe = 2"
| "priority_rank KVideo = 3"
| "priority_rank KBestEffort = 4"

text \<open>The next lower priority: the enumerator after \<open>p\<close>.\<close>

fun lower_priority :: "priority \<Rightarrow> priority option" where
  "lower_priority KBestEffort = None"
| "lower_priority KControl = Some KAudio"
| "lower_priority KAudio = Some KVideoKeyframe"
| "lower_priority KVideoKeyframe = Some KVideo"
| "lower_priority KVideo = Some KBestEffort"

datatype stream_priority = High | Normal | Low

definition kStreamPriorityCount :: nat where
  "kStreamPriorityCount = 3"

fun stream_priority_rank :: "stream_priority \<Rightarrow> nat" where
  "stream_priority_rank High = 0"
| "stream_priority_rank Normal = 1"
| "stream_priority_rank Low = 2"

record sched_addr =
  addr_data :: bytes
  addr_len :: u32

definition empty_addr :: sched_addr where
  "empty_addr = \<lparr>addr_data = replicate 64 0, addr_len = 0\<rparr>"

record sched_config =
  avg_packet_size_bytes :: u32
  max_queue_depth :: u32
  protect_keyframes :: bool
  sched_enabled :: bool

definition default_sched_config :: sched_config where
  "default_sched_config = \<lparr>avg_packet_size_bytes = 1200, max_queue_depth = 8192,
     protect_keyframes = True, sched_enabled = False\<rparr>"

record sched_stats =
  queued_packets :: u32
  dropped_packets :: u32
  sent_packets :: u32
  sent_bytes :: u64
  target_bitrate_bps :: u32
  current_bitrate_bps :: u32

record packet_record =
  pr_priority :: priority
  pr_stream_id :: u32
  owned_data :: bytes
  dst_addr :: sched_addr
  enqueue_time :: int
  estimated_size_bytes :: u32

record scheduler =
  sched_cfg :: sched_config
  queues :: "packet_record list list"
  target_bps :: u32
  allowed_per_drain :: u32
  packets_sent_this_cycle :: u32
  stream_prio :: "u32 \<rightharpoonup> stream_priority"
  stream_buckets :: "packet_record list list"
  last_dst_addr :: sched_addr
  dropped_total :: u32
  sent_total :: u32
  sent_bytes_total :: u64
  stream_dropped_total :: u32
  stream_sent_total :: u32

definition new_scheduler :: "sched_config \<Rightarrow> scheduler" where
  "new_scheduler config =
     \<lparr>sched_cfg = (if avg_packet_size_bytes config = 0 then default_sched_config else config),
      queues = replicate kPriorityCount [], target_bps = 0, allowed_per_drain = 0, packets_sent_this_cycle = 0,
      stream_prio = Map.empty, stream_buckets = replicate kStreamPriorityCount [],
      last_dst_addr = empty_addr, dropped_total = 0, sent_total = 0, sent_bytes_total = 0,
      stream_dropped_total = 0, stream_sent_total = 0\<rparr>"

definition bits_to_packets_per_second :: "u32 \<Rightarrow> u32 \<Rightarrow> u32" where
  "bits_to_packets_per_second bps avg_size =
     (if bps = 0 \<or> avg_size = 0 then 0
      else let bits_per_packet = (ucast avg_size * 8 :: u64); pps = ucast bps div bits_per_packet
           in ucast (min pps 0xFFFFFFFF))"

definition estimated_packet_bytes :: "packet_record \<Rightarrow> u32 \<Rightarrow> u32" where
  "estimated_packet_bytes r avg_size = (if estimated_size_bytes r \<noteq> 0 then estimated_size_bytes r else avg_size)"

section \<open>Per-packet priority\<close>

definition total_queued :: "packet_record list list \<Rightarrow> u32" where
  "total_queued qs = foldl (\<lambda>sum q. sum + of_nat (length q)) 0 qs"

text \<open>The overflow loop: one packet from the front of the lowest non-empty queue below index \<open>i\<close>.\<close>

fun drop_lowest :: "nat \<Rightarrow> packet_record list list \<Rightarrow> u32 \<Rightarrow> packet_record list list \<times> u32" where
  "drop_lowest 0 qs dropped = (qs, dropped)"
| "drop_lowest (Suc i) qs dropped =
     (if qs ! i \<noteq> [] then (qs[i := tl (qs ! i)], dropped + 1) else drop_lowest i qs dropped)"

definition resolve_dst :: "sched_addr \<Rightarrow> scheduler \<Rightarrow> sched_addr \<times> scheduler" where
  "resolve_dst dst s =
     (if addr_len dst \<noteq> 0 then (dst, s\<lparr>last_dst_addr := dst\<rparr>) else (last_dst_addr s, s))"

definition make_room :: "scheduler \<Rightarrow> scheduler" where
  "make_room s =
     (if total_queued (queues s) \<ge> max_queue_depth (sched_cfg s)
      then case drop_lowest kPriorityCount (queues s) (dropped_total s) of (qs, dropped) \<Rightarrow>
             s\<lparr>queues := qs, dropped_total := dropped\<rparr>
      else s)"

definition enqueue_locked :: "int \<Rightarrow> priority \<Rightarrow> bytes \<Rightarrow> sched_addr \<Rightarrow> scheduler \<Rightarrow> scheduler" where
  "enqueue_locked now p data dst s =
     (case resolve_dst dst s of (dst, s) \<Rightarrow>
      let s = make_room s in
      if total_queued (queues s) \<ge> max_queue_depth (sched_cfg s)
      then s\<lparr>dropped_total := dropped_total s + 1\<rparr>
      else let rec = \<lparr>pr_priority = p, pr_stream_id = 0, owned_data = data, dst_addr = dst,
                      enqueue_time = now, estimated_size_bytes = 0\<rparr>;
               r = priority_rank p
           in s\<lparr>queues := (queues s)[r := queues s ! r @ [rec]]\<rparr>)"

text \<open>The caller's buffer is copied.\<close>

definition enqueue :: "int \<Rightarrow> priority \<Rightarrow> bytes \<Rightarrow> sched_addr \<Rightarrow> scheduler \<Rightarrow> scheduler" where
  "enqueue now p data dst s = (let buf = data in enqueue_locked now p buf dst s)"

definition enqueue_owned :: "int \<Rightarrow> priority \<Rightarrow> bytes \<Rightarrow> sched_addr \<Rightarrow> scheduler \<Rightarrow> scheduler" where
  "enqueue_owned now p owned dst s = enqueue_locked now p owned dst s"

subsection \<open>Draining\<close>

type_synonym 'c drain_callback = "'c \<Rightarrow> priority \<Rightarrow> bytes \<Rightarrow> bool \<times> 'c"

text \<open>The variables the drain loops update, with the state of the callback.\<close>

record 'c drain_state =
  ds_sent :: int
  ds_cycle :: u32
  ds_total :: u32
  ds_bytes :: u64
  ds_cb :: 'c

definition call_back :: "'c drain_callback option \<Rightarrow> packet_record \<Rightarrow> 'c \<Rightarrow> bool \<times> 'c" where
  "call_back cb rec c = (case cb of None \<Rightarrow> (True, c) | Some f \<Rightarrow> f c (pr_priority rec) (owned_data rec))"

definition limit_hit :: "u32 \<Rightarrow> 'c drain_state \<Rightarrow> bool" where
  "limit_hit allowed d \<longleftrightarrow> allowed > 0 \<and> ds_cycle d \<ge> allowed"

fun drain_queue :: "'c drain_callback option \<Rightarrow> u32 \<Rightarrow> u32 \<Rightarrow> int \<Rightarrow> packet_record list \<Rightarrow> 'c drain_state
    \<Rightarrow> packet_record list \<times> 'c drain_state" where
  "drain_queue cb allowed avg max_packets [] d = ([], d)"
| "drain_queue cb allowed avg max_packets (rec # q) d =
     (if \<not> ds_sent d < max_packets then (rec # q, d)
      else if limit_hit allowed d then (rec # q, d)
      else case call_back cb rec (ds_cb d) of
          (False, c) \<Rightarrow> (q, d\<lparr>ds_cb := c\<rparr>)
        | (True, c) \<Rightarrow> drain_queue cb allowed avg max_packets q
            (d\<lparr>ds_cb := c, ds_sent := ds_sent d + 1, ds_cycle := ds_cycle d + 1, ds_total := ds_total d + 1,
               ds_bytes := ds_bytes d + ucast (estimated_packet_bytes rec avg)\<rparr>))"

fun drain_queues :: "'c drain_callback option \<Rightarrow> u32 \<Rightarrow> u32 \<Rightarrow> int \<Rightarrow> packet_record list list \<Rightarrow> 'c drain_state
    \<Rightarrow> packet_record list list \<times> 'c drain_state" where
  "drain_queues cb allowed avg max_packets [] d = ([], d)"
| "drain_queues cb allowed avg max_packets (q # qs) d =
     (if \<not> ds_sent d < max_packets then (q # qs, d)
      else case drain_queue cb allowed avg max_packets q d of (q, d) \<Rightarrow>
        if limit_hit allowed d then (q # qs, d)
        else case drain_queues cb allowed avg max_packets qs d of (qs, d) \<Rightarrow> (q # qs, d))"

definition drain_with :: "int \<Rightarrow> 'c drain_callback option \<Rightarrow> 'c \<Rightarrow> scheduler \<Rightarrow> int \<times> 'c \<times> scheduler" where
  "drain_with max_packets cb c s =
     (if max_packets \<le> 0 then (0, c, s)
      else case drain_queues cb (allowed_per_drain s) (avg_packet_size_bytes (sched_cfg s)) max_packets (queues s)
             \<lparr>ds_sent = 0, ds_cycle = 0, ds_total = sent_total s, ds_bytes = sent_bytes_total s, ds_cb = c\<rparr>
           of (qs, d) \<Rightarrow> (ds_sent d, ds_cb d,
             s\<lparr>queues := qs, packets_sent_this_cycle := ds_cycle d, sent_total := ds_total d, sent_bytes_total := ds_bytes d\<rparr>))"

definition drain :: "int \<Rightarrow> scheduler \<Rightarrow> int \<times> scheduler" where
  "drain max_packets s = (case drain_with max_packets None () s of (n, _, s) \<Rightarrow> (n, s))"

subsection \<open>Bandwidth updates\<close>

definition kDrainsPerSecond :: u64 where
  "kDrainsPerSecond = 8"

definition queue_bytes :: "u32 \<Rightarrow> packet_record list \<Rightarrow> u64" where
  "queue_bytes avg q = of_nat (length q) * ucast avg"

definition total_noncontrol_bytes :: "u32 \<Rightarrow> packet_record list list \<Rightarrow> u64" where
  "total_noncontrol_bytes avg qs = foldl (\<lambda>sum idx. sum + queue_bytes avg (qs ! idx)) 0 [1..<kPriorityCount]"

text \<open>The sender pause: every queue but the first is emptied and counted.\<close>

definition pause_queues :: "packet_record list list \<Rightarrow> u32 \<Rightarrow> packet_record list list \<times> u32" where
  "pause_queues qs dropped = foldl (\<lambda>(qs, dropped) idx. (qs[idx := []], dropped + of_nat (length (qs ! idx))))
     (qs, dropped) [1..<kPriorityCount]"

fun trim_loop :: "u32 \<Rightarrow> nat \<Rightarrow> u64 \<Rightarrow> packet_record list list \<Rightarrow> u32 \<Rightarrow> packet_record list list \<times> u32" where
  "trim_loop avg 0 remaining qs dropped = (qs, dropped)"
| "trim_loop avg (Suc idx) remaining qs dropped =
     (if idx = priority_rank KControl then trim_loop avg idx remaining qs dropped
      else if queue_bytes avg (qs ! idx) \<le> remaining
      then trim_loop avg idx (remaining - queue_bytes avg (qs ! idx)) qs dropped
      else trim_loop avg idx remaining (qs[idx := []]) (dropped + of_nat (length (qs ! idx))))"

definition bwe_budget :: "u32 \<Rightarrow> u64" where
  "bwe_budget bps = ucast bps div 8 div kDrainsPerSecond"

definition on_bwe_update :: "u32 \<Rightarrow> scheduler \<Rightarrow> scheduler" where
  "on_bwe_update bps s =
     (let avg = avg_packet_size_bytes (sched_cfg s);
          s = s\<lparr>target_bps := bps, allowed_per_drain := bits_to_packets_per_second bps avg\<rparr>
      in if bps = 0
         then case pause_queues (queues s) (dropped_total s) of (qs, dropped) \<Rightarrow>
                s\<lparr>queues := qs, dropped_total := dropped\<rparr>
         else if total_noncontrol_bytes avg (queues s) \<le> bwe_budget bps then s
         else case trim_loop avg kPriorityCount (bwe_budget bps) (queues s) (dropped_total s) of (qs, dropped) \<Rightarrow>
                s\<lparr>queues := qs, dropped_total := dropped\<rparr>)"

definition sched_reset :: "scheduler \<Rightarrow> scheduler" where
  "sched_reset s = s\<lparr>queues := map (\<lambda>_. []) (queues s), target_bps := 0, allowed_per_drain := 0,
     packets_sent_this_cycle := 0, dropped_total := 0, sent_total := 0, sent_bytes_total := 0,
     stream_prio := Map.empty, stream_buckets := map (\<lambda>_. []) (stream_buckets s),
     stream_dropped_total := 0, stream_sent_total := 0, last_dst_addr := empty_addr\<rparr>"

definition sched_stats_of :: "scheduler \<Rightarrow> sched_stats" where
  "sched_stats_of s = \<lparr>queued_packets = total_queued (queues s), dropped_packets = dropped_total s,
     sent_packets = sent_total s, sent_bytes = sent_bytes_total s, target_bitrate_bps = target_bps s,
     current_bitrate_bps = 0\<rparr>"

definition sched_config_of :: "scheduler \<Rightarrow> sched_config" where
  "sched_config_of s = sched_cfg s"

section \<open>Per-stream priority\<close>

definition get_stream_priority :: "u32 \<Rightarrow> scheduler \<Rightarrow> stream_priority" where
  "get_stream_priority sid s = (case stream_prio s sid of Some level \<Rightarrow> level | None \<Rightarrow> Normal)"

text \<open>The loop that splits the old bucket into the stream's packets and the others, in order.\<close>

fun split_bucket :: "u32 \<Rightarrow> packet_record list \<Rightarrow> packet_record list \<Rightarrow> packet_record list
    \<Rightarrow> packet_record list \<times> packet_record list" where
  "split_bucket sid [] moved retained = (moved, retained)"
| "split_bucket sid (rec # bucket) moved retained =
     (if pr_stream_id rec = sid then split_bucket sid bucket (moved @ [rec]) retained
      else split_bucket sid bucket moved (retained @ [rec]))"

definition set_stream_priority :: "u32 \<Rightarrow> stream_priority \<Rightarrow> scheduler \<Rightarrow> scheduler" where
  "set_stream_priority sid level s =
     (let prev = (case stream_prio s sid of Some l \<Rightarrow> l | None \<Rightarrow> Normal) in
      if prev = level then s\<lparr>stream_prio := (stream_prio s)(sid \<mapsto> level)\<rparr>
      else case split_bucket sid (stream_buckets s ! stream_priority_rank prev) [] [] of (moved, retained) \<Rightarrow>
        let bs = (stream_buckets s)[stream_priority_rank prev := retained];
            bs = bs[stream_priority_rank level := bs ! stream_priority_rank level @ moved]
        in s\<lparr>stream_buckets := bs, stream_prio := (stream_prio s)(sid \<mapsto> level)\<rparr>)"

definition enqueue_for_stream_owned :: "int \<Rightarrow> u32 \<Rightarrow> bytes \<Rightarrow> sched_addr \<Rightarrow> scheduler \<Rightarrow> scheduler" where
  "enqueue_for_stream_owned now sid data dst s =
     (let (level, s) = (case stream_prio s sid of
            Some l \<Rightarrow> (l, s)
          | None \<Rightarrow> (Normal, s\<lparr>stream_prio := (stream_prio s)(sid \<mapsto> Normal)\<rparr>));
          (dst, s) = resolve_dst dst s;
          rec = \<lparr>pr_priority = KBestEffort, pr_stream_id = sid, owned_data = data, dst_addr = dst,
                 enqueue_time = now, estimated_size_bytes = 0\<rparr>;
          r = stream_priority_rank level
      in s\<lparr>stream_buckets := (stream_buckets s)[r := stream_buckets s ! r @ [rec]]\<rparr>)"

definition enqueue_for_stream :: "int \<Rightarrow> u32 \<Rightarrow> bytes \<Rightarrow> sched_addr \<Rightarrow> scheduler \<Rightarrow> scheduler" where
  "enqueue_for_stream now sid data dst s = (let buf = data in enqueue_for_stream_owned now sid buf dst s)"

text \<open>One bucket; the result is the remaining bucket and the packets sent from it.\<close>

fun drain_stream_bucket :: "'c drain_callback option \<Rightarrow> u32 \<Rightarrow> int \<Rightarrow> packet_record list \<Rightarrow> 'c drain_state
    \<Rightarrow> packet_record list \<times> 'c drain_state" where
  "drain_stream_bucket cb avg max_packets [] d = ([], d)"
| "drain_stream_bucket cb avg max_packets (rec # bucket) d =
     (if \<not> ds_sent d < max_packets then (rec # bucket, d)
      else case call_back cb rec (ds_cb d) of
          (False, c) \<Rightarrow> (bucket, d\<lparr>ds_cb := c\<rparr>)
        | (True, c) \<Rightarrow> drain_stream_bucket cb avg max_packets bucket
            (d\<lparr>ds_cb := c, ds_sent := ds_sent d + 1, ds_total := ds_total d + 1,
               ds_bytes := ds_bytes d + ucast (if estimated_size_bytes rec \<noteq> 0 then estimated_size_bytes rec else avg)\<rparr>))"

text \<open>\<open>sent\<close> is the running total over the buckets; each bucket counts its own packets from 0.\<close>

fun select_buckets :: "'c drain_callback option \<Rightarrow> u32 \<Rightarrow> int \<Rightarrow> packet_record list list \<Rightarrow> int \<Rightarrow> 'c drain_state
    \<Rightarrow> packet_record list list \<times> int \<times> 'c drain_state" where
  "select_buckets cb avg max_packets [] sent d = ([], sent, d)"
| "select_buckets cb avg max_packets (b # bs) sent d =
     (if \<not> sent < max_packets then (b # bs, sent, d)
      else if b = [] then (case select_buckets cb avg max_packets bs sent d of (bs, sent, d) \<Rightarrow> (b # bs, sent, d))
      else case drain_stream_bucket cb avg (max_packets - sent) b (d\<lparr>ds_sent := 0\<rparr>) of (b, d) \<Rightarrow>
        let n = ds_sent d; sent = sent + n in
        if n = 0 then (b # bs, sent, d)
        else case select_buckets cb avg max_packets bs sent d of (bs, sent, d) \<Rightarrow> (b # bs, sent, d))"

definition select_next_packet :: "int \<Rightarrow> 'c drain_callback option \<Rightarrow> 'c \<Rightarrow> scheduler \<Rightarrow> int \<times> 'c \<times> scheduler" where
  "select_next_packet max_packets cb c s =
     (if max_packets \<le> 0 then (0, c, s)
      else case select_buckets cb (avg_packet_size_bytes (sched_cfg s)) max_packets (stream_buckets s) 0
             \<lparr>ds_sent = 0, ds_cycle = 0, ds_total = stream_sent_total s, ds_bytes = sent_bytes_total s, ds_cb = c\<rparr>
           of (bs, sent, d) \<Rightarrow> (sent, ds_cb d,
             s\<lparr>stream_buckets := bs, stream_sent_total := ds_total d, sent_bytes_total := ds_bytes d\<rparr>))"

section \<open>The C interface\<close>

text \<open>A handle is an optional scheduler; \<open>None\<close> is the null pointer. Allocation failure is not modelled.\<close>

definition sched_create :: "sched_config option \<Rightarrow> scheduler option" where
  "sched_create config = (let cfg = (case config of Some c \<Rightarrow> c | None \<Rightarrow> default_sched_config)
     in Some (new_scheduler cfg))"

definition sched_set_stream_priority :: "u32 \<Rightarrow> stream_priority \<Rightarrow> scheduler option \<Rightarrow> scheduler option" where
  "sched_set_stream_priority sid level h = map_option (set_stream_priority sid level) h"

definition sched_get_stream_priority :: "u32 \<Rightarrow> scheduler option \<Rightarrow> stream_priority" where
  "sched_get_stream_priority sid h = (case h of None \<Rightarrow> Normal | Some s \<Rightarrow> get_stream_priority sid s)"

definition sched_enqueue_stream_owned ::
  "int \<Rightarrow> u32 \<Rightarrow> bytes option \<Rightarrow> sched_addr option \<Rightarrow> scheduler option \<Rightarrow> scheduler option" where
  "sched_enqueue_stream_owned now sid data dst h =
     map_option (enqueue_for_stream_owned now sid (case data of Some bs \<Rightarrow> bs | None \<Rightarrow> [])
       (case dst of Some a \<Rightarrow> a | None \<Rightarrow> empty_addr)) h"

definition sched_select_next_packet ::
  "int \<Rightarrow> ('c \<Rightarrow> u32 \<Rightarrow> stream_priority \<Rightarrow> bytes \<Rightarrow> 'c) option \<Rightarrow> 'c \<Rightarrow> scheduler option
    \<Rightarrow> int \<times> 'c \<times> scheduler option" where
  "sched_select_next_packet max_packets on_packet c h = (case h of
       None \<Rightarrow> (0, c, None)
     | Some s \<Rightarrow>
         (case select_next_packet max_packets
            (map_option (\<lambda>f c p span. (True, f c 0 Normal span)) on_packet) c s of
          (n, c, s) \<Rightarrow> (n, c, Some s)))"

section \<open>Lemmas on queues\<close>

lemma length_concat_update:
  "i < length qs \<Longrightarrow> length (concat (qs[i := q])) + length (qs ! i) = length (concat qs) + length q"
proof (induction qs arbitrary: i)
  case (Cons a qs)
  show ?case
  proof (cases i)
    case (Suc k)
    then show ?thesis using Cons.IH [of k] Cons.prems by simp
  qed simp
qed simp

lemma length_concat_nth: "i < length qs \<Longrightarrow> length (qs ! i) \<le> length (concat qs)"
  using length_concat_update [of i qs "[]"] by simp

lemma total_queued_length: "total_queued qs = of_nat (length (concat qs))"
proof -
  have "foldl (\<lambda>sum q. sum + of_nat (length q)) n qs = n + of_nat (length (concat qs))" for n :: u32
    by (induction qs arbitrary: n) (simp_all add: add.assoc)
  then show ?thesis by (simp add: total_queued_def)
qed

text \<open>What every way of dropping packets keeps: the count of packets queued and dropped, and a subset of each queue.\<close>

definition drops :: "packet_record list list \<Rightarrow> u32 \<Rightarrow> packet_record list list \<Rightarrow> u32 \<Rightarrow> bool" where
  "drops qs d qs' d' \<longleftrightarrow> length qs' = length qs \<and> length (concat qs') \<le> length (concat qs)
     \<and> d' + of_nat (length (concat qs')) = d + of_nat (length (concat qs))
     \<and> (\<forall>i < length qs. set (qs' ! i) \<subseteq> set (qs ! i))"

lemma drops_refl: "drops qs d qs d" by (simp add: drops_def)

lemma drops_trans: "drops qs d qs' d' \<Longrightarrow> drops qs' d' qs'' d'' \<Longrightarrow> drops qs d qs'' d''"
  by (fastforce simp: drops_def)

lemma drops_update:
  assumes "i < length qs" "set q \<subseteq> set (qs ! i)" "length q + k = length (qs ! i)"
  shows "drops qs d (qs[i := q]) (d + of_nat k)"
proof -
  have "length (concat (qs[i := q])) + k = length (concat qs)"
    using length_concat_update [OF assms(1), of q] assms(3) by simp
  then have "length (concat (qs[i := q])) \<le> length (concat qs)"
    "d + of_nat k + of_nat (length (concat (qs[i := q]))) = d + of_nat (length (concat qs))"
    by (simp_all flip: of_nat_add add: add.assoc add.commute)
  then show ?thesis using assms(1,2) by (auto simp: drops_def nth_list_update)
qed

lemma drop_lowest_drops:
  "i \<le> length qs \<Longrightarrow> drop_lowest i qs d = (qs', d') \<Longrightarrow> drops qs d qs' d'"
proof (induction i qs d rule: drop_lowest.induct)
  case (2 i qs d)
  then show ?case
    using drops_update [of i qs "tl (qs ! i)" 1 d] by (auto split: if_splits dest: list.set_sel(2))
qed (simp add: drops_refl)

lemma drop_lowest_frees:
  "i \<le> length qs \<Longrightarrow> j < i \<Longrightarrow> qs ! j \<noteq> [] \<Longrightarrow> drop_lowest i qs d = (qs', d') \<Longrightarrow>
     length (concat qs') < length (concat qs)"
proof (induction i qs d rule: drop_lowest.induct)
  case (2 i qs d)
  show ?case
  proof (cases "qs ! i = []")
    case True
    then have "j < i" using 2 by (auto simp: less_Suc_eq)
    then show ?thesis using 2 True by auto
  next
    case False
    then have "length (tl (qs ! i)) < length (qs ! i)" by simp
    moreover have "qs' = qs[i := tl (qs ! i)]" using 2 False by simp
    ultimately show ?thesis using length_concat_update [OF Suc_le_lessD [OF 2(2)], of "tl (qs ! i)"] by simp
  qed
qed simp

lemma pause_queues_drops:
  assumes "length qs = kPriorityCount" "pause_queues qs d = (qs', d')"
  shows "drops qs d qs' d' \<and> qs' = [qs ! 0, [], [], [], []]"
proof -
  have step: "drops qs d (qs[i := []]) (d + of_nat (length (qs ! i)))" if "i < length qs" for qs d i
    using drops_update [OF that, of "[]" "length (qs ! i)" d] by simp
  have five: "[1..<kPriorityCount] = [1, 2, 3, 4]" by (simp add: kPriorityCount_def upt_rec)
  define q1 q2 q3 where "q1 = qs[1 := []]" and "q2 = q1[2 := []]" and "q3 = q2[3 := []]"
  define d1 d2 d3 where "d1 = d + of_nat (length (qs ! 1))" and "d2 = d1 + of_nat (length (q1 ! 2))"
    and "d3 = d2 + of_nat (length (q2 ! 3))"
  have r: "qs' = q3[4 := []]" "d' = d3 + of_nat (length (q3 ! 4))"
    using assms(2) unfolding pause_queues_def five q1_def q2_def q3_def d1_def d2_def d3_def by auto
  have l: "length qs = 5" "length q1 = 5" "length q2 = 5" "length q3 = 5"
    using assms(1) by (simp_all add: kPriorityCount_def q1_def q2_def q3_def)
  have "drops qs d q1 d1" "drops q1 d1 q2 d2" "drops q2 d2 q3 d3" "drops q3 d3 qs' d'"
    using step [of 1 qs d] step [of 2 q1 d1] step [of 3 q2 d2] step [of 4 q3 d3] l
    unfolding r q1_def [symmetric] q2_def [symmetric] q3_def [symmetric] d1_def [symmetric] d2_def [symmetric] d3_def [symmetric]
    by simp_all
  then have "drops qs d qs' d'" by (blast intro: drops_trans)
  moreover obtain a b c e f where "qs = [a, b, c, e, f]"
    using l(1) by (auto simp: numeral_eq_Suc length_Suc_conv)
  ultimately show ?thesis by (simp add: r q3_def q2_def q1_def)
qed

lemma trim_loop_drops:
  "i \<le> length qs \<Longrightarrow> trim_loop avg i rem qs d = (qs', d') \<Longrightarrow> drops qs d qs' d'"
proof (induction avg i rem qs d rule: trim_loop.induct)
  case (2 avg i rem qs d)
  consider (control) "i = 0" | (keep) "i \<noteq> 0" "queue_bytes avg (qs ! i) \<le> rem"
    | (clear) "i \<noteq> 0" "\<not> queue_bytes avg (qs ! i) \<le> rem" by blast
  then show ?case
  proof cases
    case clear
    have "drops qs d (qs[i := []]) (d + of_nat (length (qs ! i)))"
      using drops_update [of i qs "[]" "length (qs ! i)" d] 2(4) by simp
    then show ?thesis using 2 clear by (auto intro: drops_trans)
  qed (use 2 in auto)
qed (simp add: drops_refl)

text \<open>A trimmed queue is either untouched or empty, the kept ones fit the budget, control is untouched.\<close>

lemma trim_loop_spec:
  "i \<le> length qs \<Longrightarrow> trim_loop avg i rem qs d = (qs', d') \<Longrightarrow>
     (\<forall>j. qs' ! j = qs ! j \<or> 0 < j \<and> j < i \<and> qs' ! j = [])
     \<and> (\<Sum>j \<in> {1..<i}. unat (queue_bytes avg (qs' ! j))) \<le> unat rem"
proof (induction avg i rem qs d rule: trim_loop.induct)
  case (2 avg i rem qs d)
  have set: "{1..<Suc i} = insert i {1..<i}" if "i \<noteq> 0" using that by auto
  consider (control) "i = 0" | (keep) "i \<noteq> 0" "queue_bytes avg (qs ! i) \<le> rem"
    | (clear) "i \<noteq> 0" "\<not> queue_bytes avg (qs ! i) \<le> rem" by blast
  then show ?case
  proof cases
    case control
    then show ?thesis using 2 by auto
  next
    case keep
    have IH: "\<forall>j. qs' ! j = qs ! j \<or> 0 < j \<and> j < i \<and> qs' ! j = []"
      "(\<Sum>j \<in> {1..<i}. unat (queue_bytes avg (qs' ! j))) \<le> unat (rem - queue_bytes avg (qs ! i))"
      using 2(2) [of] 2(4,5) keep by auto
    have "qs' ! i = qs ! i" using IH(1) by blast
    moreover have "unat (rem - queue_bytes avg (qs ! i)) + unat (queue_bytes avg (qs ! i)) = unat rem"
      using keep(2) by (simp add: unat_sub word_le_nat_alt)
    ultimately have "(\<Sum>j \<in> {1..<Suc i}. unat (queue_bytes avg (qs' ! j))) \<le> unat rem"
      using IH(2) keep(1) by (simp add: set)
    then show ?thesis using IH(1) less_SucI by blast
  next
    case clear
    have IH: "\<forall>j. qs' ! j = qs[i := []] ! j \<or> 0 < j \<and> j < i \<and> qs' ! j = []"
      "(\<Sum>j \<in> {1..<i}. unat (queue_bytes avg (qs' ! j))) \<le> unat rem"
      using 2(3) [of] 2(4,5) clear by auto
    have e: "qs' ! i = []" using IH(1) 2(4) by (metis less_irrefl Suc_le_lessD nth_list_update_eq)
    then have "(\<Sum>j \<in> {1..<Suc i}. unat (queue_bytes avg (qs' ! j))) \<le> unat rem"
      using IH(2) clear(1) by (simp add: set queue_bytes_def)
    moreover have "qs' ! j = qs ! j \<or> 0 < j \<and> j < Suc i \<and> qs' ! j = []" for j
      using IH(1) e clear(1) by (cases "j = i") (auto dest: spec [of _ j])
    ultimately show ?thesis by blast
  qed
qed simp


section \<open>Lemmas on draining\<close>

text \<open>What sending one packet does to the loop variables.\<close>

definition send_one :: "'c drain_callback option \<Rightarrow> u32 \<Rightarrow> 'c drain_state \<Rightarrow> packet_record \<Rightarrow> 'c drain_state" where
  "send_one cb avg d rec = d\<lparr>ds_cb := snd (call_back cb rec (ds_cb d)), ds_sent := ds_sent d + 1,
     ds_cycle := ds_cycle d + 1, ds_total := ds_total d + 1,
     ds_bytes := ds_bytes d + ucast (estimated_packet_bytes rec avg)\<rparr>"

lemma send_one_fields [simp]:
  "ds_sent (send_one cb avg d rec) = ds_sent d + 1" "ds_cycle (send_one cb avg d rec) = ds_cycle d + 1"
  "ds_total (send_one cb avg d rec) = ds_total d + 1"
  by (simp_all add: send_one_def)

lemma send_all_fields:
  "ds_sent (foldl (send_one cb avg) d rs) = ds_sent d + int (length rs)"
  "ds_cycle (foldl (send_one cb avg) d rs) = ds_cycle d + of_nat (length rs)"
  "ds_total (foldl (send_one cb avg) d rs) = ds_total d + of_nat (length rs)"
  "ds_cb (foldl (send_one cb avg) d rs) = foldl (\<lambda>c r. snd (call_back cb r c)) (ds_cb d) rs"
  by (induction rs arbitrary: d) (simp_all add: send_one_def)

text \<open>A callback that accepts every packet (in particular none).\<close>

definition accepting :: "'c drain_callback option \<Rightarrow> bool" where
  "accepting cb \<longleftrightarrow> (\<forall>rec c. fst (call_back cb rec c))"

text \<open>How many of \<open>n\<close> queued packets the limits let through.\<close>

definition room :: "u32 \<Rightarrow> int \<Rightarrow> 'c drain_state \<Rightarrow> nat \<Rightarrow> nat" where
  "room allowed max_packets d n = min (nat (max_packets - ds_sent d))
     (if allowed = 0 then n else min n (unat allowed - unat (ds_cycle d)))"

definition cycle_ok :: "u32 \<Rightarrow> 'c drain_state \<Rightarrow> bool" where
  "cycle_ok allowed d \<longleftrightarrow> allowed = 0 \<or> ds_cycle d \<le> allowed"

lemma limit_hit_iff: "limit_hit allowed d \<longleftrightarrow> allowed \<noteq> 0 \<and> allowed \<le> ds_cycle d"
  by (auto simp: limit_hit_def word_neq_0_conv)

lemma cycle_step:
  assumes "cycle_ok allowed d" "\<not> limit_hit allowed d" "allowed \<noteq> 0"
  shows "unat (ds_cycle d + 1) = unat (ds_cycle d) + 1" "unat (ds_cycle d) < unat allowed"
proof -
  have "ds_cycle d < allowed" using assms by (auto simp: limit_hit_iff)
  then show "unat (ds_cycle d) < unat allowed" by (simp add: word_less_nat_alt)
  moreover have "unat allowed < 2 ^ 32" using unsigned_less [of allowed] by simp
  ultimately show "unat (ds_cycle d + 1) = unat (ds_cycle d) + 1"
    by (simp add: unat_word_ariths)
qed

lemma room_send:
  assumes "cycle_ok allowed d" "\<not> limit_hit allowed d" "ds_sent d < max_packets"
  shows "room allowed max_packets d (Suc n) = Suc (room allowed max_packets (send_one cb avg d rec) n)"
    "cycle_ok allowed (send_one cb avg d rec)"
proof -
  have "nat (max_packets - ds_sent d) = Suc (nat (max_packets - (ds_sent d + 1)))" using assms(3) by simp
  moreover have "unat allowed - unat (ds_cycle d) = Suc (unat allowed - unat (ds_cycle d + 1))" if "allowed \<noteq> 0"
    using cycle_step [OF assms(1,2) that] by simp
  ultimately show "room allowed max_packets d (Suc n) = Suc (room allowed max_packets (send_one cb avg d rec) n)"
    by (simp add: room_def)
  show "cycle_ok allowed (send_one cb avg d rec)"
    using cycle_step [OF assms(1,2)] by (cases "allowed = 0") (auto simp: cycle_ok_def word_le_nat_alt)
qed

lemma drain_queue_room:
  assumes "accepting cb"
  shows "cycle_ok allowed d \<Longrightarrow> drain_queue cb allowed avg max_packets q d =
    (drop (room allowed max_packets d (length q)) q,
     foldl (send_one cb avg) d (take (room allowed max_packets d (length q)) q))"
proof (induction q arbitrary: d)
  case (Cons rec q)
  obtain c where c: "call_back cb rec (ds_cb d) = (True, c)"
    using assms by (metis accepting_def prod.collapse)
  consider (full) "\<not> ds_sent d < max_packets" | (limit) "limit_hit allowed d"
    | (send) "ds_sent d < max_packets" "\<not> limit_hit allowed d" by blast
  then show ?case
  proof cases
    case full
    then show ?thesis by (simp add: room_def)
  next
    case limit
    then have "room allowed max_packets d (length (rec # q)) = 0"
      by (auto simp: room_def limit_hit_iff word_le_nat_alt)
    then show ?thesis using limit by simp
  next
    case send
    have "drain_queue cb allowed avg max_packets (rec # q) d
        = drain_queue cb allowed avg max_packets q (send_one cb avg d rec)"
      using send c by (simp add: send_one_def)
    moreover note Cons.IH [OF room_send(2) [OF Cons.prems send(2,1)], of cb avg rec]
    moreover have "room allowed max_packets d (length (rec # q)) = Suc (room allowed max_packets (send_one cb avg d rec) (length q))"
      using room_send(1) [OF Cons.prems send(2,1)] by simp
    ultimately show ?thesis by (simp del: drain_queue.simps)
  qed
qed (simp add: room_def)


text \<open>The first \<open>k\<close> packets removed from a sequence of queues.\<close>

fun drop_front :: "nat \<Rightarrow> 'a list list \<Rightarrow> 'a list list" where
  "drop_front k [] = []"
| "drop_front k (q # qs) = drop k q # drop_front (k - length q) qs"

lemma drop_front_simps [simp]:
  "concat (drop_front k qs) = drop k (concat qs)" "length (drop_front k qs) = length qs" "drop_front 0 qs = qs"
  by (induction k qs rule: drop_front.induct) auto

lemma set_drop_front: "i < length qs \<Longrightarrow> set (drop_front k qs ! i) \<subseteq> set (qs ! i)"
  by (induction k qs arbitrary: i rule: drop_front.induct) (auto simp: nth_Cons split: nat.splits dest: in_set_dropD)

lemma room_le: "room allowed max_packets d n \<le> n"
  by (simp add: room_def min_def)

lemma min_split_sum:
  fixes a l b n :: nat
  shows "min a (min (l + n) b) = min a (min l b) + min (a - min a (min l b)) (min n (b - min a (min l b)))"
proof -
  consider "l \<le> a" "l \<le> b" | "a \<le> l" "a \<le> b" | "b \<le> l" "b \<le> a" by linarith
  then show ?thesis by cases (auto simp: min_def)
qed

lemma send_all_room:
  fixes d q allowed max_packets
  defines "k \<equiv> room allowed max_packets d (length q)"
  assumes "cycle_ok allowed d"
  shows "cycle_ok allowed (foldl (send_one cb avg) d (take k q))"
    "room allowed max_packets d (length q + n) = k + room allowed max_packets (foldl (send_one cb avg) d (take k q)) n"
proof -
  have k: "k \<le> length q" by (simp add: k_def room_le)
  have cyc: "unat (ds_cycle d + of_nat k) = unat (ds_cycle d) + k" "unat (ds_cycle d) + k \<le> unat allowed" if "allowed \<noteq> 0"
  proof -
    have "unat (ds_cycle d) \<le> unat allowed" using assms(2) that by (simp add: cycle_ok_def word_le_nat_alt)
    then show le: "unat (ds_cycle d) + k \<le> unat allowed" using that by (simp add: k_def room_def)
    moreover have "unat allowed < 2 ^ 32" using unsigned_less [of allowed] by simp
    ultimately show "unat (ds_cycle d + of_nat k) = unat (ds_cycle d) + k"
      by (simp add: unat_word_ariths unat_of_nat)
  qed
  show "cycle_ok allowed (foldl (send_one cb avg) d (take k q))"
    using cyc k by (cases "allowed = 0") (auto simp: cycle_ok_def send_all_fields word_le_nat_alt)
  show "room allowed max_packets d (length q + n) = k + room allowed max_packets (foldl (send_one cb avg) d (take k q)) n"
  proof (cases "allowed = 0")
    case True
    then show ?thesis using k by (simp add: room_def k_def send_all_fields)
  next
    case False
    have "room allowed max_packets (foldl (send_one cb avg) d (take k q)) n
      = min (nat (max_packets - ds_sent d) - k) (min n (unat allowed - unat (ds_cycle d) - k))"
      using k False cyc by (simp add: room_def send_all_fields) linarith
    moreover have "k = min (nat (max_packets - ds_sent d)) (min (length q) (unat allowed - unat (ds_cycle d)))"
      using False by (simp add: k_def room_def)
    ultimately show ?thesis using False by (simp only: room_def if_False min_split_sum)
  qed
qed

lemma drain_queues_room:
  assumes "accepting cb"
  shows "cycle_ok allowed d \<Longrightarrow> drain_queues cb allowed avg max_packets qs d =
    (drop_front (room allowed max_packets d (length (concat qs))) qs,
     foldl (send_one cb avg) d (take (room allowed max_packets d (length (concat qs))) (concat qs)))"
proof (induction qs arbitrary: d)
  case (Cons q qs)
  define k where "k = room allowed max_packets d (length q)"
  define d1 where "d1 = foldl (send_one cb avg) d (take k q)"
  define k1 where "k1 = room allowed max_packets d1 (length (concat qs))"
  have dq: "drain_queue cb allowed avg max_packets q d = (drop k q, d1)"
    unfolding k_def d1_def by (rule drain_queue_room [OF assms Cons.prems])
  have ok: "cycle_ok allowed d1" and sum: "room allowed max_packets d (length (concat (q # qs))) = k + k1"
    using send_all_room(1) [OF Cons.prems, where q = q and cb = cb and avg = avg and max_packets = max_packets]
      send_all_room(2) [OF Cons.prems, where q = q and cb = cb and avg = avg and max_packets = max_packets] by (simp_all add: k_def d1_def k1_def)
  have "k \<le> length q" by (simp add: k_def room_le)
  moreover have "k1 = 0" if "k < length q"
    using that Cons.prems sum by (auto simp: k_def room_def min_def split: if_splits)
  ultimately consider "k < length q" "k1 = 0" | "k = length q" by linarith
  then have shape: "drop (k + k1) q = drop k q \<and> k + k1 - length q = k1
      \<and> take (k + k1) (q @ concat qs) = take k q @ take k1 (concat qs)"
    by cases simp_all
  then have fold: "foldl (send_one cb avg) d (take (k + k1) (concat (q # qs))) = foldl (send_one cb avg) d1 (take k1 (concat qs))"
    by (simp only: concat.simps foldl_append d1_def)
  show ?case
  proof (cases "ds_sent d < max_packets")
    case False
    then have "k + k1 = 0" using sum by (simp add: room_def)
    then show ?thesis using False sum by simp
  next
    case True
    show ?thesis
    proof (cases "limit_hit allowed d1")
      case limit: True
      then have "k1 = 0" by (auto simp: k1_def room_def limit_hit_iff word_le_nat_alt)
      then show ?thesis using True limit shape dq fold unfolding sum by simp
    next
      case False
      then show ?thesis using True shape dq Cons.IH [OF ok] unfolding sum fold k1_def [symmetric] by simp
    qed
  qed
qed (simp add: room_def)

section \<open>Runs\<close>

text \<open>
  The operations in the order the mutex admits them. A run carries the number of packets
  enqueued and the packets handed to the sender so far, recorded by an accepting callback.
\<close>

datatype sched_op = Enq int priority bytes sched_addr | Drain int | Bwe u32 | Reset
  | SetPrio u32 stream_priority | EnqStream int u32 bytes sched_addr | Select int

type_synonym sched_run = "scheduler \<times> nat \<times> (priority \<times> bytes) list"

definition record_packet :: "(priority \<times> bytes) list drain_callback" where
  "record_packet log p data = (True, log @ [(p, data)])"

fun sched_step :: "sched_op \<Rightarrow> sched_run \<Rightarrow> sched_run" where
  "sched_step (Enq now p data dst) (s, n, log) = (enqueue now p data dst s, n + 1, log)"
| "sched_step (Drain m) (s, n, log) = (case drain_with m (Some record_packet) log s of (_, log, s) \<Rightarrow> (s, n, log))"
| "sched_step (Bwe bps) (s, n, log) = (on_bwe_update bps s, n, log)"
| "sched_step Reset (s, n, log) = (sched_reset s, 0, [])"
| "sched_step (SetPrio sid level) (s, n, log) = (set_stream_priority sid level s, n, log)"
| "sched_step (EnqStream now sid data dst) (s, n, log) = (enqueue_for_stream now sid data dst s, n, log)"
| "sched_step (Select m) (s, n, log) = (case select_next_packet m None () s of (_, _, s) \<Rightarrow> (s, n, log))"

section \<open>Invariant\<close>

definition queues_ok :: "packet_record list list \<Rightarrow> bool" where
  "queues_ok qs \<longleftrightarrow> length qs = kPriorityCount \<and> (\<forall>i < length qs. \<forall>r \<in> set (qs ! i). priority_rank (pr_priority r) = i)"

definition buckets_ok :: "scheduler \<Rightarrow> bool" where
  "buckets_ok s \<longleftrightarrow> length (stream_buckets s) = kStreamPriorityCount
     \<and> (\<forall>i < length (stream_buckets s). \<forall>r \<in> set (stream_buckets s ! i).
          stream_priority_rank (get_stream_priority (pr_stream_id r) s) = i)"

definition sched_inv :: "sched_run \<Rightarrow> bool" where
  "sched_inv = (\<lambda>(s, n, log). queues_ok (queues s) \<and> length (concat (queues s)) \<le> unat (max_queue_depth (sched_cfg s))
     \<and> of_nat n = of_nat (length (concat (queues s))) + dropped_total s + sent_total s
     \<and> sent_total s = of_nat (length log) \<and> buckets_ok s)"

lemma drops_queues_ok: "drops qs d qs' d' \<Longrightarrow> queues_ok qs \<Longrightarrow> queues_ok qs'"
  unfolding drops_def queues_ok_def by (metis subsetD)

lemma unat_total_queued:
  "length (concat (queues s)) \<le> unat (max_queue_depth (sched_cfg s)) \<Longrightarrow>
     unat (total_queued (queues s)) = length (concat (queues s))"
proof -
  assume "length (concat (queues s)) \<le> unat (max_queue_depth (sched_cfg s))"
  moreover have "unat (max_queue_depth (sched_cfg s)) < 2 ^ 32"
    using unsigned_less [of "max_queue_depth (sched_cfg s)"] by simp
  ultimately show ?thesis by (simp add: total_queued_length unat_of_nat)
qed

text \<open>The scheduler state of the queue layer, in the form the operations are reasoned about.\<close>

definition l0_ok :: "scheduler \<Rightarrow> bool" where
  "l0_ok s \<longleftrightarrow> queues_ok (queues s) \<and> length (concat (queues s)) \<le> unat (max_queue_depth (sched_cfg s))"

lemma priority_rank_less: "priority_rank p < kPriorityCount"
  by (cases p) (simp_all add: kPriorityCount_def)

lemma stream_priority_rank_less: "stream_priority_rank p < kStreamPriorityCount"
  by (cases p) (simp_all add: kStreamPriorityCount_def)

lemma stream_priority_rank_inject [simp]: "stream_priority_rank p = stream_priority_rank q \<longleftrightarrow> p = q"
  by (cases p; cases q) simp_all

lemma nonempty_queue: "length qs = k \<Longrightarrow> concat qs \<noteq> [] \<Longrightarrow> \<exists>j < k. qs ! j \<noteq> []"
  by (auto simp: in_set_conv_nth)

text \<open>After \<open>make_room\<close> there is room for one packet unless the cap is zero.\<close>

lemma make_room_spec:
  assumes "l0_ok s"
  shows "l0_ok (make_room s)" "drops (queues s) (dropped_total s) (queues (make_room s)) (dropped_total (make_room s))"
    "max_queue_depth (sched_cfg s) \<noteq> 0 \<Longrightarrow> length (concat (queues (make_room s))) < unat (max_queue_depth (sched_cfg s))"
    "sched_cfg (make_room s) = sched_cfg s" "sent_total (make_room s) = sent_total s"
    "stream_buckets (make_room s) = stream_buckets s" "stream_prio (make_room s) = stream_prio s"
    "allowed_per_drain (make_room s) = allowed_per_drain s"
proof -
  have le: "length (concat (queues s)) \<le> unat (max_queue_depth (sched_cfg s))" and ok: "queues_ok (queues s)"
    using assms by (auto simp: l0_ok_def)
  obtain qs d where dl: "drop_lowest kPriorityCount (queues s) (dropped_total s) = (qs, d)"
    by (cases "drop_lowest kPriorityCount (queues s) (dropped_total s)")
  have dr: "drops (queues s) (dropped_total s) qs d"
    by (rule drop_lowest_drops [OF _ dl]) (use ok in \<open>simp add: queues_ok_def\<close>)
  show dr': "drops (queues s) (dropped_total s) (queues (make_room s)) (dropped_total (make_room s))"
    using dr by (simp add: make_room_def dl drops_refl)
  show cfg: "sched_cfg (make_room s) = sched_cfg s" "sent_total (make_room s) = sent_total s"
    "stream_buckets (make_room s) = stream_buckets s" "stream_prio (make_room s) = stream_prio s"
    "allowed_per_drain (make_room s) = allowed_per_drain s"
    by (simp_all add: make_room_def dl)
  show "l0_ok (make_room s)"
    using dr' ok le by (auto simp: l0_ok_def cfg drops_queues_ok) (simp add: drops_def)
  show "length (concat (queues (make_room s))) < unat (max_queue_depth (sched_cfg s))" if "max_queue_depth (sched_cfg s) \<noteq> 0"
  proof (cases "total_queued (queues s) \<ge> max_queue_depth (sched_cfg s)")
    case False
    then show ?thesis using unat_total_queued [OF le] by (simp add: make_room_def word_le_nat_alt)
  next
    case True
    have "0 < unat (max_queue_depth (sched_cfg s))" using that by (simp add: unat_gt_0)
    moreover have "unat (max_queue_depth (sched_cfg s)) \<le> length (concat (queues s))"
      using True unat_total_queued [OF le] by (simp add: word_le_nat_alt)
    ultimately have "concat (queues s) \<noteq> []" by (metis le_zero_eq less_not_refl list.size(3))
    then obtain j where "j < kPriorityCount" "queues s ! j \<noteq> []"
      using nonempty_queue [of "queues s" kPriorityCount] ok by (auto simp: queues_ok_def)
    then have "length (concat qs) < length (concat (queues s))"
      using drop_lowest_frees [OF _ _ _ dl] ok by (auto simp: queues_ok_def)
    then show ?thesis using True le by (simp add: make_room_def dl)
  qed
qed

lemma l0_ok_cong: "queues s' = queues s \<Longrightarrow> sched_cfg s' = sched_cfg s \<Longrightarrow> l0_ok s' = l0_ok s"
  by (simp add: l0_ok_def)

lemma resolve_dst_fields [simp]:
  "queues (snd (resolve_dst dst s)) = queues s" "sched_cfg (snd (resolve_dst dst s)) = sched_cfg s"
  "dropped_total (snd (resolve_dst dst s)) = dropped_total s" "sent_total (snd (resolve_dst dst s)) = sent_total s"
  "stream_buckets (snd (resolve_dst dst s)) = stream_buckets s" "stream_prio (snd (resolve_dst dst s)) = stream_prio s"
  "allowed_per_drain (snd (resolve_dst dst s)) = allowed_per_drain s"
  by (simp_all add: resolve_dst_def)

text \<open>The two outcomes of an enqueue.\<close>

lemma enqueue_cases:
  fixes dst s
  assumes "l0_ok s"
  defines "s0 \<equiv> make_room (snd (resolve_dst dst s))"
  obtains (reject) "max_queue_depth (sched_cfg s) = 0" "enqueue now p data dst s = s0\<lparr>dropped_total := dropped_total s0 + 1\<rparr>"
  | (accept) rec where "max_queue_depth (sched_cfg s) \<noteq> 0" "pr_priority rec = p" "owned_data rec = data"
      "enqueue now p data dst s = s0\<lparr>queues := (queues s0)[priority_rank p := queues s0 ! priority_rank p @ [rec]]\<rparr>"
proof -
  have ok: "l0_ok (snd (resolve_dst dst s))" using assms by (simp add: l0_ok_def)
  have cfg: "sched_cfg s0 = sched_cfg s" by (simp add: s0_def make_room_spec [OF ok])
  have tot: "unat (total_queued (queues s0)) = length (concat (queues s0))"
    using make_room_spec(1) [OF ok] by (intro unat_total_queued) (simp add: s0_def l0_ok_def)
  show ?thesis
  proof (cases "max_queue_depth (sched_cfg s) = 0")
    case True
    then have "enqueue now p data dst s = s0\<lparr>dropped_total := dropped_total s0 + 1\<rparr>"
      using cfg by (simp add: enqueue_def enqueue_locked_def Let_def s0_def case_prod_beta)
    then show ?thesis using True reject by blast
  next
    case False
    have "length (concat (queues s0)) < unat (max_queue_depth (sched_cfg s0))"
      using make_room_spec(3) [OF ok] False unfolding s0_def cfg [unfolded s0_def] by simp
    then have "\<not> total_queued (queues s0) \<ge> max_queue_depth (sched_cfg s0)"
      using tot by (simp add: word_le_nat_alt)
    then show ?thesis
      by (intro accept [OF False]) (auto simp: enqueue_def enqueue_locked_def Let_def s0_def case_prod_beta)
  qed
qed


text \<open>Packets are counted once: what an operation removes from the queues it adds to a counter.\<close>

definition accounted :: "scheduler \<Rightarrow> u32" where
  "accounted s = of_nat (length (concat (queues s))) + dropped_total s + sent_total s"

lemma drops_accounted:
  "drops (queues s) (dropped_total s) (queues s') (dropped_total s') \<Longrightarrow> sent_total s' = sent_total s \<Longrightarrow>
     accounted s' = accounted s"
  by (simp add: drops_def accounted_def add.commute)

lemma queues_ok_append:
  "queues_ok qs \<Longrightarrow> priority_rank (pr_priority rec) = i \<Longrightarrow> queues_ok (qs[i := qs ! i @ [rec]])"
  by (auto simp: queues_ok_def nth_list_update priority_rank_less split: if_splits)

lemma enqueue_l0:
  assumes "l0_ok s"
  shows "l0_ok (enqueue now p data dst s) \<and> accounted (enqueue now p data dst s) = accounted s + 1
    \<and> sched_cfg (enqueue now p data dst s) = sched_cfg s \<and> sent_total (enqueue now p data dst s) = sent_total s
    \<and> stream_buckets (enqueue now p data dst s) = stream_buckets s
    \<and> stream_prio (enqueue now p data dst s) = stream_prio s
    \<and> allowed_per_drain (enqueue now p data dst s) = allowed_per_drain s"
proof -
  define s0 where "s0 = make_room (snd (resolve_dst dst s))"
  have ok: "l0_ok (snd (resolve_dst dst s))" using assms by (simp add: l0_ok_def)
  note room = make_room_spec [OF ok, folded s0_def]
  have acc: "accounted s0 = accounted s"
    using drops_accounted [of "snd (resolve_dst dst s)" s0] room by (simp add: accounted_def)
  show ?thesis
  proof (rule enqueue_cases [OF assms, of now p data dst, folded s0_def])
    assume "enqueue now p data dst s = s0\<lparr>dropped_total := dropped_total s0 + 1\<rparr>"
    then show ?thesis using room acc by (simp add: accounted_def l0_ok_def)
  next
    fix rec assume rec: "pr_priority rec = p" "max_queue_depth (sched_cfg s) \<noteq> 0"
      and e: "enqueue now p data dst s = s0\<lparr>queues := (queues s0)[priority_rank p := queues s0 ! priority_rank p @ [rec]]\<rparr>"
    have len: "length (concat ((queues s0)[priority_rank p := queues s0 ! priority_rank p @ [rec]])) = length (concat (queues s0)) + 1"
      using length_concat_update [of "priority_rank p" "queues s0" "queues s0 ! priority_rank p @ [rec]"]
        room(1) priority_rank_less [of p] by (simp add: l0_ok_def queues_ok_def)
    have "l0_ok (enqueue now p data dst s)"
      using room(1,3,4) len queues_ok_append [of "queues s0" rec] rec by (simp add: e l0_ok_def)
    then show ?thesis using room acc len by (simp add: e accounted_def)
  qed
qed

lemma accepting_record: "accepting (Some record_packet)"
  by (simp add: accepting_def call_back_def record_packet_def)

text \<open>How many packets a drain of at most \<open>m\<close> lets through.\<close>

definition drain_count :: "int \<Rightarrow> scheduler \<Rightarrow> nat" where
  "drain_count m s = min (nat m) (if allowed_per_drain s = 0 then length (concat (queues s))
     else min (length (concat (queues s))) (unat (allowed_per_drain s)))"

lemma drain_with_count:
  assumes "accepting cb" "drain_with m cb c s = (n, c', s')"
  shows "n = int (drain_count m s)" "c' = foldl (\<lambda>c r. snd (call_back cb r c)) c (take (drain_count m s) (concat (queues s)))"
    "queues s' = drop_front (drain_count m s) (queues s)" "sent_total s' = sent_total s + of_nat (drain_count m s)"
    "sched_cfg s' = sched_cfg s" "dropped_total s' = dropped_total s" "stream_buckets s' = stream_buckets s"
    "stream_prio s' = stream_prio s" "allowed_per_drain s' = allowed_per_drain s"
proof -
  let ?d = "\<lparr>ds_sent = 0, ds_cycle = 0, ds_total = sent_total s, ds_bytes = sent_bytes_total s, ds_cb = c\<rparr>"
  have ok: "cycle_ok (allowed_per_drain s) ?d" by (simp add: cycle_ok_def)
  have r: "room (allowed_per_drain s) m ?d (length (concat (queues s))) = drain_count m s"
    by (simp add: room_def drain_count_def)
  have k: "drain_count m s \<le> length (concat (queues s))" by (auto simp: drain_count_def)
  note d = drain_queues_room [OF assms(1) ok, of "avg_packet_size_bytes (sched_cfg s)" m "queues s", unfolded r]
  have "n = int (drain_count m s) \<and> c' = foldl (\<lambda>c r. snd (call_back cb r c)) c (take (drain_count m s) (concat (queues s)))
    \<and> queues s' = drop_front (drain_count m s) (queues s) \<and> sent_total s' = sent_total s + of_nat (drain_count m s)
    \<and> sched_cfg s' = sched_cfg s \<and> dropped_total s' = dropped_total s \<and> stream_buckets s' = stream_buckets s
    \<and> stream_prio s' = stream_prio s \<and> allowed_per_drain s' = allowed_per_drain s"
  proof (cases "m \<le> 0")
    case True
    then have "drain_count m s = 0" by (simp add: drain_count_def)
    then show ?thesis using True assms(2) by (auto simp: drain_with_def)
  next
    case False
    then show ?thesis using assms(2) k by (auto simp: drain_with_def d send_all_fields)
  qed
  then show "n = int (drain_count m s)" "c' = foldl (\<lambda>c r. snd (call_back cb r c)) c (take (drain_count m s) (concat (queues s)))"
    "queues s' = drop_front (drain_count m s) (queues s)" "sent_total s' = sent_total s + of_nat (drain_count m s)"
    "sched_cfg s' = sched_cfg s" "dropped_total s' = dropped_total s" "stream_buckets s' = stream_buckets s"
    "stream_prio s' = stream_prio s" "allowed_per_drain s' = allowed_per_drain s" by blast+
qed


lemma on_bwe_update_drops:
  assumes "queues_ok (queues s)"
  shows "drops (queues s) (dropped_total s) (queues (on_bwe_update bps s)) (dropped_total (on_bwe_update bps s))
    \<and> sched_cfg (on_bwe_update bps s) = sched_cfg s \<and> sent_total (on_bwe_update bps s) = sent_total s
    \<and> stream_buckets (on_bwe_update bps s) = stream_buckets s \<and> stream_prio (on_bwe_update bps s) = stream_prio s
    \<and> allowed_per_drain (on_bwe_update bps s) = bits_to_packets_per_second bps (avg_packet_size_bytes (sched_cfg s))"
proof -
  have len: "length (queues s) = kPriorityCount" using assms by (simp add: queues_ok_def)
  obtain qs d where p: "pause_queues (queues s) (dropped_total s) = (qs, d)"
    by (cases "pause_queues (queues s) (dropped_total s)")
  obtain qs' d' where t: "trim_loop (avg_packet_size_bytes (sched_cfg s)) kPriorityCount (bwe_budget bps) (queues s) (dropped_total s) = (qs', d')"
    by (cases "trim_loop (avg_packet_size_bytes (sched_cfg s)) kPriorityCount (bwe_budget bps) (queues s) (dropped_total s)")
  show ?thesis
    using conjunct1 [OF pause_queues_drops [OF len p]] trim_loop_drops [OF _ t] len drops_refl
    by (simp add: on_bwe_update_def Let_def p t)
qed

section \<open>Lemmas on stream buckets\<close>

lemma split_bucket_filter:
  "split_bucket sid bucket moved retained =
     (moved @ filter (\<lambda>r. pr_stream_id r = sid) bucket, retained @ filter (\<lambda>r. pr_stream_id r \<noteq> sid) bucket)"
  by (induction sid bucket moved retained rule: split_bucket.induct) auto

lemma get_stream_priority_update [simp]:
  "get_stream_priority sid' (s\<lparr>stream_buckets := bs, stream_prio := (stream_prio s)(sid \<mapsto> level)\<rparr>)
     = (if sid' = sid then level else get_stream_priority sid' s)"
  "get_stream_priority sid' (s\<lparr>stream_prio := (stream_prio s)(sid \<mapsto> level)\<rparr>)
     = (if sid' = sid then level else get_stream_priority sid' s)"
  by (simp_all add: get_stream_priority_def)

lemma set_stream_priority_alt:
  "set_stream_priority sid level s =
     (let prev = get_stream_priority sid s; p = stream_priority_rank prev; l = stream_priority_rank level;
          moved = filter (\<lambda>r. pr_stream_id r = sid) (stream_buckets s ! p);
          bs = (stream_buckets s)[p := filter (\<lambda>r. pr_stream_id r \<noteq> sid) (stream_buckets s ! p)]
      in if prev = level then s\<lparr>stream_prio := (stream_prio s)(sid \<mapsto> level)\<rparr>
         else s\<lparr>stream_buckets := bs[l := bs ! l @ moved], stream_prio := (stream_prio s)(sid \<mapsto> level)\<rparr>)"
  by (simp add: set_stream_priority_def split_bucket_filter get_stream_priority_def Let_def)

lemma buckets_okD:
  "buckets_ok s \<Longrightarrow> i < kStreamPriorityCount \<Longrightarrow> r \<in> set (stream_buckets s ! i) \<Longrightarrow>
     stream_priority_rank (get_stream_priority (pr_stream_id r) s) = i"
  by (auto simp: buckets_ok_def)

lemma set_stream_priority_ok:
  assumes "buckets_ok s"
  shows "buckets_ok (set_stream_priority sid level s)"
proof -
  define p l where "p = stream_priority_rank (get_stream_priority sid s)" and "l = stream_priority_rank level"
  have len: "length (stream_buckets s) = kStreamPriorityCount" "p < kStreamPriorityCount" "l < kStreamPriorityCount"
    using assms by (auto simp: buckets_ok_def p_def l_def stream_priority_rank_less)
  show ?thesis
  proof (cases "get_stream_priority sid s = level")
    case True
    then show ?thesis using assms by (auto simp: set_stream_priority_alt Let_def buckets_ok_def)
  next
    case False
    have pl: "p \<noteq> l" using False by (simp add: p_def l_def)
    then show ?thesis
      using False len buckets_okD [OF assms] unfolding set_stream_priority_alt Let_def p_def [symmetric] l_def [symmetric]
      by (auto simp: buckets_ok_def nth_list_update l_def p_def split: if_splits)
  qed
qed

lemma enqueue_for_stream_fields:
  "queues (enqueue_for_stream now sid data dst s) = queues s" "sched_cfg (enqueue_for_stream now sid data dst s) = sched_cfg s"
  "dropped_total (enqueue_for_stream now sid data dst s) = dropped_total s"
  "sent_total (enqueue_for_stream now sid data dst s) = sent_total s"
  by (simp_all add: enqueue_for_stream_def enqueue_for_stream_owned_def Let_def case_prod_beta split: option.split)

lemma enqueue_for_stream_buckets:
  obtains rec where "pr_stream_id rec = sid" "owned_data rec = data"
    "stream_buckets (enqueue_for_stream now sid data dst s) = (let r = stream_priority_rank (get_stream_priority sid s)
       in (stream_buckets s)[r := stream_buckets s ! r @ [rec]])"
    "\<And>sid'. get_stream_priority sid' (enqueue_for_stream now sid data dst s) = get_stream_priority sid' s"
proof (cases "stream_prio s sid")
  case None
  then show ?thesis
    by (intro that [of "\<lparr>pr_priority = KBestEffort, pr_stream_id = sid, owned_data = data,
        dst_addr = fst (resolve_dst dst (s\<lparr>stream_prio := (stream_prio s)(sid \<mapsto> Normal)\<rparr>)), enqueue_time = now,
        estimated_size_bytes = 0\<rparr>"])
      (auto simp: enqueue_for_stream_def enqueue_for_stream_owned_def Let_def case_prod_beta get_stream_priority_def)
next
  case (Some l)
  then show ?thesis
    by (intro that [of "\<lparr>pr_priority = KBestEffort, pr_stream_id = sid, owned_data = data,
        dst_addr = fst (resolve_dst dst s), enqueue_time = now, estimated_size_bytes = 0\<rparr>"])
      (auto simp: enqueue_for_stream_def enqueue_for_stream_owned_def Let_def case_prod_beta get_stream_priority_def)
qed

lemma enqueue_for_stream_ok:
  assumes "buckets_ok s"
  shows "buckets_ok (enqueue_for_stream now sid data dst s)"
proof (rule enqueue_for_stream_buckets [of sid data now dst s])
  fix rec assume "pr_stream_id rec = sid"
    "stream_buckets (enqueue_for_stream now sid data dst s) = (let r = stream_priority_rank (get_stream_priority sid s)
       in (stream_buckets s)[r := stream_buckets s ! r @ [rec]])"
    "\<And>sid'. get_stream_priority sid' (enqueue_for_stream now sid data dst s) = get_stream_priority sid' s"
  then show ?thesis using assms stream_priority_rank_less [of "get_stream_priority sid s"]
    by (auto simp: buckets_ok_def nth_list_update Let_def split: if_splits)
qed


lemma drain_stream_bucket_count:
  assumes "accepting cb"
  defines "k \<equiv> \<lambda>m (d :: 'c drain_state) b. min (nat (m - ds_sent d)) (length (b :: packet_record list))"
  obtains d' where "drain_stream_bucket cb avg m b d = (drop (k m d b) b, d')" "ds_sent d' = ds_sent d + int (k m d b)"
    "ds_total d' = ds_total d + of_nat (k m d b)"
    "ds_cb d' = foldl (\<lambda>c r. snd (call_back cb r c)) (ds_cb d) (take (k m d b) b)"
proof -
  have "\<exists>d'. drain_stream_bucket cb avg m b d = (drop (k m d b) b, d') \<and> ds_sent d' = ds_sent d + int (k m d b)
    \<and> ds_total d' = ds_total d + of_nat (k m d b)
    \<and> ds_cb d' = foldl (\<lambda>c r. snd (call_back cb r c)) (ds_cb d) (take (k m d b) b)"
  proof (induction b arbitrary: d)
    case (Cons rec b)
    obtain c where c: "call_back cb rec (ds_cb d) = (True, c)" using assms(1) by (metis accepting_def prod.collapse)
    show ?case
    proof (cases "ds_sent d < m")
      case True
      define d1 where "d1 = d\<lparr>ds_cb := c, ds_sent := ds_sent d + 1, ds_total := ds_total d + 1,
               ds_bytes := ds_bytes d + ucast (if estimated_size_bytes rec \<noteq> 0 then estimated_size_bytes rec else avg)\<rparr>"
      have "k m d (rec # b) = Suc (k m d1 b)" using True by (simp add: k_def d1_def)
      moreover have "drain_stream_bucket cb avg m (rec # b) d = drain_stream_bucket cb avg m b d1"
        using True c by (simp add: d1_def)
      moreover have "ds_sent d1 = ds_sent d + 1" "ds_total d1 = ds_total d + 1" "ds_cb d1 = snd (call_back cb rec (ds_cb d))"
        by (simp_all add: d1_def c)
      ultimately show ?thesis using Cons.IH [of d1] by auto
    qed (simp add: k_def)
  qed (simp add: k_def)
  then show ?thesis using that by blast
qed

lemma select_buckets_count:
  assumes "accepting cb"
  shows "\<exists>d'. select_buckets cb avg m bs sent d =
      (drop_front (min (nat (m - sent)) (length (concat bs))) bs, sent + int (min (nat (m - sent)) (length (concat bs))), d')
    \<and> ds_total d' = ds_total d + of_nat (min (nat (m - sent)) (length (concat bs)))
    \<and> ds_cb d' = foldl (\<lambda>c r. snd (call_back cb r c)) (ds_cb d) (take (min (nat (m - sent)) (length (concat bs))) (concat bs))"
proof (induction bs arbitrary: sent d)
  case (Cons b bs)
  show ?case
  proof (cases "sent < m \<and> b \<noteq> []")
    case False
    then show ?thesis using Cons.IH [of sent d] by (cases "sent < m") auto
  next
    case True
    define k where "k = min (nat (m - sent)) (length b)"
    obtain d1 where d1: "drain_stream_bucket cb avg (m - sent) b (d\<lparr>ds_sent := 0\<rparr>) = (drop k b, d1)" "ds_sent d1 = int k"
      "ds_total d1 = ds_total d + of_nat k" "ds_cb d1 = foldl (\<lambda>c r. snd (call_back cb r c)) (ds_cb d) (take k b)"
      using drain_stream_bucket_count [OF assms, of avg "m - sent" b "d\<lparr>ds_sent := 0\<rparr>"] by (auto simp: k_def)
    define k1 where "k1 = min (nat (m - (sent + int k))) (length (concat bs))"
    have k: "k \<noteq> 0" "k \<le> length b" using True by (auto simp: k_def)
    have sum: "min (nat (m - sent)) (length (concat (b # bs))) = k + k1"
      using True unfolding k_def k1_def by auto
    have "k1 = 0 \<or> k = length b" by (auto simp: k1_def k_def)
    then have shape: "drop (k + k1) b = drop k b \<and> k + k1 - length b = k1
      \<and> take (k + k1) (b @ concat bs) = take k b @ take k1 (concat bs)" using k by auto
    obtain d2 where d2: "select_buckets cb avg m bs (sent + int k) d1 = (drop_front k1 bs, sent + int k + int k1, d2)"
      "ds_total d2 = ds_total d1 + of_nat k1"
      "ds_cb d2 = foldl (\<lambda>c r. snd (call_back cb r c)) (ds_cb d1) (take k1 (concat bs))"
      using Cons.IH [of "sent + int k" d1] unfolding k1_def by blast
    have "select_buckets cb avg m (b # bs) sent d = (drop_front (k + k1) (b # bs), sent + int (k + k1), d2)"
      using True k d1 d2 shape by simp
    moreover have "ds_cb d2 = foldl (\<lambda>c r. snd (call_back cb r c)) (ds_cb d) (take (k + k1) (concat (b # bs)))"
      using d1 d2 shape by (metis concat.simps(2) foldl_append)
    ultimately show ?thesis using d1 d2 unfolding sum by (auto simp: add.assoc)
  qed
qed simp

lemma select_next_packet_count:
  assumes "accepting cb" "select_next_packet m cb c s = (n, c', s')"
  defines "k \<equiv> min (nat m) (length (concat (stream_buckets s)))"
  shows "n = int k \<and> c' = foldl (\<lambda>c r. snd (call_back cb r c)) c (take k (concat (stream_buckets s)))
    \<and> stream_buckets s' = drop_front k (stream_buckets s) \<and> stream_sent_total s' = stream_sent_total s + of_nat k
    \<and> queues s' = queues s \<and> sched_cfg s' = sched_cfg s \<and> dropped_total s' = dropped_total s
    \<and> sent_total s' = sent_total s \<and> stream_prio s' = stream_prio s"
proof (cases "m \<le> 0")
  case True
  then show ?thesis using assms by (auto simp: select_next_packet_def)
next
  case False
  let ?d = "\<lparr>ds_sent = 0, ds_cycle = 0, ds_total = stream_sent_total s, ds_bytes = sent_bytes_total s, ds_cb = c\<rparr>"
  obtain d' where "select_buckets cb (avg_packet_size_bytes (sched_cfg s)) m (stream_buckets s) 0 ?d
      = (drop_front k (stream_buckets s), int k, d')"
    "ds_total d' = stream_sent_total s + of_nat k"
    "ds_cb d' = foldl (\<lambda>c r. snd (call_back cb r c)) c (take k (concat (stream_buckets s)))"
    using select_buckets_count [OF assms(1), of "avg_packet_size_bytes (sched_cfg s)" m "stream_buckets s" 0 ?d]
    unfolding k_def by auto
  then show ?thesis using False assms(2) by (auto simp: select_next_packet_def)
qed

definition packet_of :: "packet_record \<Rightarrow> priority \<times> bytes" where
  "packet_of r = (pr_priority r, owned_data r)"

lemma concat_map_Nil [simp]: "concat (map (\<lambda>_. []) xs) = []"
  by (induction xs) simp_all

lemma sched_inv_alt:
  "sched_inv (s, n, log) \<longleftrightarrow> l0_ok s \<and> of_nat n = accounted s \<and> sent_total s = of_nat (length log) \<and> buckets_ok s"
  by (auto simp: sched_inv_def l0_ok_def accounted_def)

lemma buckets_ok_cong:
  "buckets_ok s \<Longrightarrow> stream_buckets s' = stream_buckets s \<Longrightarrow> stream_prio s' = stream_prio s \<Longrightarrow> buckets_ok s'"
  by (simp add: buckets_ok_def get_stream_priority_def)

lemma foldl_record: "foldl (\<lambda>c r. snd (call_back (Some record_packet) r c)) log rs
    = log @ map packet_of rs"
  by (induction rs arbitrary: log) (simp_all add: call_back_def record_packet_def packet_of_def)

lemma set_stream_priority_fields [simp]:
  "queues (set_stream_priority sid level s) = queues s" "sched_cfg (set_stream_priority sid level s) = sched_cfg s"
  "dropped_total (set_stream_priority sid level s) = dropped_total s"
  "sent_total (set_stream_priority sid level s) = sent_total s"
  by (simp_all add: set_stream_priority_alt Let_def)

lemma drain_inv:
  assumes "sched_inv (s, n, log)" "drain_with m (Some record_packet) log s = (k, log', s')"
  shows "sched_inv (s', n, log')"
proof -
  note d = drain_with_count [OF accepting_record assms(2)]
  define c where "c = drain_count m s"
  have c: "c \<le> length (concat (queues s))" by (auto simp: c_def drain_count_def)
  have "queues_ok (drop_front c (queues s))"
    using assms(1) set_drop_front unfolding queues_ok_def sched_inv_alt l0_ok_def by (metis drop_front_simps(2) subsetD)
  moreover have "accounted s' = accounted s"
    using c d by (simp add: accounted_def c_def [symmetric] of_nat_diff)
  moreover have "length log' = length log + c" using d(2) c by (simp add: foldl_record c_def)
  ultimately show ?thesis
    using assms(1) d c buckets_ok_cong [of s s'] by (auto simp: sched_inv_alt l0_ok_def c_def)
qed

lemma sched_step_inv: "sched_inv r \<Longrightarrow> sched_inv (sched_step op r)"
proof (cases r)
  case (fields s n log)
  assume "sched_inv r"
  then have inv: "sched_inv (s, n, log)" by (simp add: fields)
  then have parts: "l0_ok s" "of_nat n = accounted s" "sent_total s = of_nat (length log)" "buckets_ok s"
    by (simp_all add: sched_inv_alt)
  show ?thesis
  proof (cases op)
    case (Enq now p data dst)
    show ?thesis using enqueue_l0 [OF parts(1), of now p data dst] parts buckets_ok_cong [OF parts(4)]
      by (simp add: fields Enq sched_inv_alt)
  next
    case (Drain m)
    obtain k log' s' where e: "drain_with m (Some record_packet) log s = (k, log', s')" by (metis prod_cases3)
    show ?thesis using drain_inv [OF inv e] by (simp add: fields Drain e)
  next
    case (Bwe bps)
    have "queues_ok (queues s)" using parts(1) by (simp add: l0_ok_def)
    note b = on_bwe_update_drops [OF this, of bps]
    have "l0_ok (on_bwe_update bps s)"
      using b parts(1) drops_queues_ok by (auto simp: l0_ok_def drops_def)
    then show ?thesis using b parts drops_accounted [of s "on_bwe_update bps s"] buckets_ok_cong [OF parts(4)]
      by (simp add: fields Bwe sched_inv_alt)
  next
    case Reset
    show ?thesis using parts
      by (auto simp: fields Reset sched_inv_alt l0_ok_def accounted_def sched_reset_def queues_ok_def buckets_ok_def)
  next
    case (SetPrio sid level)
    show ?thesis using parts set_stream_priority_ok [OF parts(4)] by (simp add: fields SetPrio sched_inv_alt l0_ok_def accounted_def)
  next
    case (EnqStream now sid data dst)
    show ?thesis using parts enqueue_for_stream_ok [OF parts(4)]
      by (simp add: fields EnqStream sched_inv_alt l0_ok_def accounted_def enqueue_for_stream_fields)
  next
    case (Select m)
    obtain k c s' where e: "select_next_packet m None () s = (k, c, s')" by (metis prod_cases3)
    have "accepting (None :: unit drain_callback option)" by (simp add: accepting_def call_back_def)
    note sel = select_next_packet_count [OF this e]
    have "buckets_ok s'"
      using parts(4) sel set_drop_front [of _ "stream_buckets s"] unfolding buckets_ok_def get_stream_priority_def
      by (simp add: subset_iff)
    then show ?thesis using parts sel by (simp add: fields Select e sched_inv_alt l0_ok_def accounted_def)
  qed
qed

lemma sched_init_inv: "sched_inv (new_scheduler c, 0, [])"
  by (auto simp: sched_inv_alt l0_ok_def accounted_def new_scheduler_def queues_ok_def buckets_ok_def)

interpretation sched: component "(new_scheduler c, 0, [])" sched_step sched_inv
  by unfold_locales (rule sched_init_inv, rule sched_step_inv)

section \<open>The abstract scheduler\<close>

text \<open>
  What the five queues implement: one list of pending packets, ordered by priority and
  first-come-first-served within a priority, over natural numbers. The state is the average packet size, the
  cap, the limit on each drain, the pending packets and the packets handed out.
\<close>

type_synonym pending = "(priority \<times> bytes) list"

record abstract_sched =
  a_avg :: nat
  a_depth :: nat
  a_limit :: "nat option"
  a_pending :: pending
  a_sent :: pending

definition insert_packet :: "priority \<times> bytes \<Rightarrow> pending \<Rightarrow> pending" where
  "insert_packet x xs = takeWhile (\<lambda>y. priority_rank (fst y) \<le> priority_rank (fst x)) xs @ [x]
     @ dropWhile (\<lambda>y. priority_rank (fst y) \<le> priority_rank (fst x)) xs"

text \<open>Overflow drops the oldest packet of the lowest priority present.\<close>

definition evict_packet :: "pending \<Rightarrow> pending" where
  "evict_packet xs = (let m = priority_rank (fst (last xs)) in
     takeWhile (\<lambda>y. priority_rank (fst y) < m) xs @ tl (dropWhile (\<lambda>y. priority_rank (fst y) < m) xs))"

definition abstract_enqueue :: "priority \<times> bytes \<Rightarrow> abstract_sched \<Rightarrow> abstract_sched" where
  "abstract_enqueue x a = (if a_depth a = 0 then a
     else a\<lparr>a_pending := insert_packet x (if length (a_pending a) < a_depth a then a_pending a else evict_packet (a_pending a))\<rparr>)"

definition abstract_drain :: "int \<Rightarrow> abstract_sched \<Rightarrow> abstract_sched" where
  "abstract_drain m a =
     (let k = min (nat m) (case a_limit a of None \<Rightarrow> length (a_pending a) | Some l \<Rightarrow> min (length (a_pending a)) l)
      in a\<lparr>a_pending := drop k (a_pending a), a_sent := a_sent a @ take k (a_pending a)\<rparr>)"

text \<open>The priorities a bandwidth update keeps, offered the budget from the lowest upwards.\<close>

definition of_priority :: "priority \<Rightarrow> pending \<Rightarrow> pending" where
  "of_priority p xs = filter (\<lambda>y. fst y = p) xs"

fun kept_priorities :: "nat \<Rightarrow> nat \<Rightarrow> priority list \<Rightarrow> pending \<Rightarrow> priority list" where
  "kept_priorities avg budget [] xs = []"
| "kept_priorities avg budget (p # ps) xs =
     (if length (of_priority p xs) * avg \<le> budget
      then p # kept_priorities avg (budget - length (of_priority p xs) * avg) ps xs
      else kept_priorities avg budget ps xs)"

definition abstract_bwe :: "nat \<Rightarrow> abstract_sched \<Rightarrow> abstract_sched" where
  "abstract_bwe bps a =
     (let xs = a_pending a; rate = bps div (8 * a_avg a);
          media = filter (\<lambda>y. fst y \<noteq> KControl) xs;
          kept = (if bps = 0 then [] else kept_priorities (a_avg a) (bps div 64) [KBestEffort, KVideo, KVideoKeyframe, KAudio] xs)
      in a\<lparr>a_limit := (if rate = 0 then None else Some rate),
            a_pending := (if bps \<noteq> 0 \<and> length media * a_avg a \<le> bps div 64 then xs
              else filter (\<lambda>y. fst y \<in> set (KControl # kept)) xs)\<rparr>)"

fun abstract_step :: "sched_op \<Rightarrow> abstract_sched \<Rightarrow> abstract_sched" where
  "abstract_step (Enq now p data dst) a = abstract_enqueue (p, data) a"
| "abstract_step (Drain m) a = abstract_drain m a"
| "abstract_step (Bwe bps) a = abstract_bwe (unat bps) a"
| "abstract_step Reset a = a\<lparr>a_limit := None, a_pending := [], a_sent := []\<rparr>"
| "abstract_step op a = a"

definition abstract_of :: "sched_run \<Rightarrow> abstract_sched" where
  "abstract_of = (\<lambda>(s, n, log). \<lparr>a_avg = unat (avg_packet_size_bytes (sched_cfg s)),
     a_depth = unat (max_queue_depth (sched_cfg s)),
     a_limit = (if allowed_per_drain s = 0 then None else Some (unat (allowed_per_drain s))),
     a_pending = map packet_of (concat (queues s)), a_sent = log\<rparr>)"

subsection \<open>Simulation\<close>

lemma takeWhile_split:
  "\<forall>y \<in> set xs. P y \<Longrightarrow> \<forall>y \<in> set ys. \<not> P y \<Longrightarrow> takeWhile P (xs @ ys) = xs \<and> dropWhile P (xs @ ys) = ys"
proof (induction xs)
  case Nil
  then show ?case by (cases ys) simp_all
qed simp

lemma takeWhile_queues:
  assumes "\<forall>i < length qs. \<forall>r \<in> set (qs ! i). priority_rank (pr_priority r) = i"
  shows "takeWhile (\<lambda>y. priority_rank (fst y) < m) (map packet_of (concat qs)) = map packet_of (concat (take m qs))"
    "dropWhile (\<lambda>y. priority_rank (fst y) < m) (map packet_of (concat qs)) = map packet_of (concat (drop m qs))"
proof -
  let ?P = "\<lambda>y. priority_rank (fst y) < m"
  have split: "map packet_of (concat qs) = map packet_of (concat (take m qs)) @ map packet_of (concat (drop m qs))"
    by (metis append_take_drop_id concat_append map_append)
  have less: "\<forall>y \<in> set (map packet_of (concat (take m qs))). ?P y"
  proof
    fix y assume "y \<in> set (map packet_of (concat (take m qs)))"
    then obtain i r where "i < length qs" "i < m" "r \<in> set (qs ! i)" "y = packet_of r"
      by (auto simp: in_set_conv_nth [of _ "take m qs"])
    then show "?P y" using assms by (auto simp: packet_of_def)
  qed
  have ge: "\<forall>y \<in> set (map packet_of (concat (drop m qs))). \<not> ?P y"
  proof
    fix y assume "y \<in> set (map packet_of (concat (drop m qs)))"
    then obtain i r where "i < length qs - m" "r \<in> set (qs ! (m + i))" "y = packet_of r"
      by (auto simp: in_set_conv_nth [of _ "drop m qs"])
    moreover from this have "priority_rank (pr_priority r) = m + i" using assms by simp
    ultimately show "\<not> ?P y" by (simp add: packet_of_def)
  qed
  show "takeWhile ?P (map packet_of (concat qs)) = map packet_of (concat (take m qs))"
    "dropWhile ?P (map packet_of (concat qs)) = map packet_of (concat (drop m qs))"
    unfolding split using takeWhile_split [OF less ge] by blast+
qed

lemma concat_update: "i < length qs \<Longrightarrow> concat (qs[i := q]) = concat (take i qs) @ q @ concat (drop (Suc i) qs)"
  by (simp add: upd_conv_take_nth_drop)

lemma insert_packet_queues:
  assumes "queues_ok qs"
  shows "map packet_of (concat (qs[priority_rank (pr_priority rec) := qs ! priority_rank (pr_priority rec) @ [rec]]))
    = insert_packet (packet_of rec) (map packet_of (concat qs))"
proof -
  let ?i = "priority_rank (pr_priority rec)"
  have i: "?i < length qs" using assms priority_rank_less by (simp add: queues_ok_def)
  have "concat (take (Suc ?i) qs) = concat (take ?i qs) @ qs ! ?i" using i by (simp add: take_Suc_conv_app_nth)
  then show ?thesis
    using takeWhile_queues [of qs "Suc ?i"] assms i
    by (simp add: insert_packet_def queues_ok_def concat_update less_Suc_eq_le packet_of_def)
qed


lemma drop_lowest_evicts:
  "queues_ok qs \<Longrightarrow> i \<le> length qs \<Longrightarrow> \<forall>j < length qs. i \<le> j \<longrightarrow> qs ! j = [] \<Longrightarrow> concat qs \<noteq> [] \<Longrightarrow>
     drop_lowest i qs d = (qs', d') \<Longrightarrow> map packet_of (concat qs') = evict_packet (map packet_of (concat qs))"
proof (induction i qs d rule: drop_lowest.induct)
  case (1 qs d)
  then show ?case by (auto simp: in_set_conv_nth)
next
  case (2 i qs d)
  show ?case
  proof (cases "qs ! i = []")
    case True
    then have "\<forall>j < length qs. i \<le> j \<longrightarrow> qs ! j = []" using 2(4) by (metis Suc_leI le_neq_implies_less)
    then show ?thesis using 2 True by simp
  next
    case False
    have i: "i < length qs" using 2(3) by simp
    have "concat (drop (Suc i) qs) = []" using 2(4) by (auto simp: in_set_conv_nth)
    moreover have "concat (drop i qs) = qs ! i @ concat (drop (Suc i) qs)" using i by (simp flip: Cons_nth_drop_Suc)
    ultimately have di: "concat (drop i qs) = qs ! i" "concat (drop (Suc i) qs) = []" by simp_all
    have "concat qs = concat (take i qs) @ qs ! i" by (metis append_take_drop_id concat_append di(1))
    then have "last (concat qs) = last (qs ! i)" using False by simp
    moreover have "priority_rank (pr_priority (last (qs ! i))) = i" using 2(2) i False by (simp add: queues_ok_def)
    ultimately have m: "priority_rank (fst (last (map packet_of (concat qs)))) = i"
      using 2(5) by (metis fst_conv last_map packet_of_def)
    have "concat qs' = concat (take i qs) @ tl (qs ! i)" using 2(6) False i di(2) by (auto simp: concat_update)
    then show ?thesis
      using takeWhile_queues [of qs i] 2(2) di(1) by (simp add: evict_packet_def m queues_ok_def map_tl)
  qed
qed

lemma make_room_evicts:
  assumes "l0_ok s"
  shows "map packet_of (concat (queues (make_room s))) =
    (if length (concat (queues s)) < unat (max_queue_depth (sched_cfg s)) \<or> max_queue_depth (sched_cfg s) = 0
     then map packet_of (concat (queues s)) else evict_packet (map packet_of (concat (queues s))))"
proof -
  have le: "length (concat (queues s)) \<le> unat (max_queue_depth (sched_cfg s))" and ok: "queues_ok (queues s)"
    using assms by (auto simp: l0_ok_def)
  obtain qs d where dl: "drop_lowest kPriorityCount (queues s) (dropped_total s) = (qs, d)"
    by (cases "drop_lowest kPriorityCount (queues s) (dropped_total s)")
  have full: "total_queued (queues s) \<ge> max_queue_depth (sched_cfg s) \<longleftrightarrow>
      \<not> length (concat (queues s)) < unat (max_queue_depth (sched_cfg s))"
    using unat_total_queued [OF le] by (simp add: word_le_nat_alt not_less)
  show ?thesis
  proof (cases "concat (queues s) = []")
    case True
    then have "concat qs = []"
      using drop_lowest_drops [OF _ dl] ok by (auto simp: drops_def queues_ok_def simp flip: length_0_conv)
    then have "concat (queues (make_room s)) = []" using True unfolding make_room_def dl
      by (simp del: concat_eq_Nil_conv)
    moreover have "evict_packet [] = []" by (simp add: evict_packet_def Let_def)
    ultimately show ?thesis using True by (simp del: concat_eq_Nil_conv)
  next
    case False
    then have "map packet_of (concat qs) = evict_packet (map packet_of (concat (queues s)))"
      using ok by (intro drop_lowest_evicts [OF ok _ _ _ dl]) (auto simp: queues_ok_def)
    moreover have "max_queue_depth (sched_cfg s) \<noteq> 0" using False le by auto
    ultimately show ?thesis using full by (simp add: make_room_def dl)
  qed
qed


text \<open>The trimming loop over natural numbers.\<close>

lemma unat_ucast_u64 [simp]: "unat (ucast (x :: u32) :: u64) = unat x"
proof -
  have "unat x < 2 ^ 32" using unsigned_less [of x] by simp
  then have "take_bit 64 (unat x) = unat x" by (intro take_bit_nat_eq_self) simp
  then show ?thesis by (simp add: unsigned_ucast_eq)
qed

lemma queue_bytes_nat:
  assumes "length q < 2 ^ 32"
  shows "unat (queue_bytes avg q) = length q * unat avg"
proof -
  have "unat avg < 2 ^ 32" using unsigned_less [of avg] by simp
  then have "length q * unat avg \<le> (2 ^ 32 - 1) * (2 ^ 32 - 1)" using assms by (intro mult_mono) auto
  then have "length q * unat avg < 2 ^ 64" by simp
  then show ?thesis using assms by (simp add: queue_bytes_def unat_word_ariths unat_of_nat)
qed

lemma unat_bwe_budget: "unat (bwe_budget bps) = unat bps div 64"
  by (simp add: bwe_budget_def kDrainsPerSecond_def unat_div_distrib flip: div_mult2_eq)

lemma pending_of_priority:
  assumes "queues_ok qs"
  shows "filter (\<lambda>y. P (fst y)) (map packet_of (concat qs)) =
    map packet_of (concat (map (\<lambda>p. if P p then qs ! priority_rank p else []) [KControl, KAudio, KVideoKeyframe, KVideo, KBestEffort]))"
proof -
  obtain a b c e f where qs: "qs = [a, b, c, e, f]"
    using assms by (auto simp: queues_ok_def kPriorityCount_def numeral_eq_Suc length_Suc_conv)
  have rank: "\<forall>r \<in> set (qs ! i). priority_rank (pr_priority r) = i" if "i < 5" for i
    using assms that by (simp add: queues_ok_def kPriorityCount_def)
  have pr: "pr_priority r = p" if "r \<in> set (qs ! priority_rank p)" for r p
    using rank [of "priority_rank p"] that priority_rank_less [of p]
    by (cases p; cases "pr_priority r") (auto simp: kPriorityCount_def)
  have fil: "filter (\<lambda>y. P (fst y)) (map packet_of (qs ! priority_rank p)) = (if P p then map packet_of (qs ! priority_rank p) else [])" for p
    using pr [of _ p] by (auto simp: filter_map comp_def packet_of_def filter_empty_conv intro!: filter_True)
  show ?thesis
    using fil [of KControl] fil [of KAudio] fil [of KVideoKeyframe] fil [of KVideo] fil [of KBestEffort]
    by (simp add: qs)
qed

lemma of_priority_pending: "queues_ok qs \<Longrightarrow> length (of_priority p (map packet_of (concat qs))) = length (qs ! priority_rank p)"
  using pending_of_priority [of qs "\<lambda>q. q = p"] by (cases p) (simp_all add: of_priority_def)


definition prio_at :: "nat \<Rightarrow> priority" where
  "prio_at i = [KControl, KAudio, KVideoKeyframe, KVideo, KBestEffort] ! i"

fun media_below :: "nat \<Rightarrow> priority list" where
  "media_below 0 = []"
| "media_below (Suc i) = (if i = 0 then [] else prio_at i # media_below i)"

lemma kept_subset: "set (kept_priorities avg budget ps xs) \<subseteq> set ps"
  by (induction avg budget ps xs rule: kept_priorities.induct) auto

lemma priority_at: "i < 5 \<Longrightarrow> priority_rank (prio_at i) = i"
  by (auto simp: prio_at_def less_Suc_eq numeral_eq_Suc)

lemma media_below_rank: "i \<le> 5 \<Longrightarrow> p \<in> set (media_below i) \<Longrightarrow> priority_rank p < i"
  by (induction i rule: media_below.induct) (auto simp: priority_at less_Suc_eq split: if_splits)

lemma trim_loop_queue:
  assumes "length qs = 5" "i \<le> 5" "trim_loop avg i rem qs d = (qs', d')" "\<forall>j < 5. length (qs ! j) < 2 ^ 32"
    and "\<And>p. priority_rank p < i \<Longrightarrow> length (of_priority p xs) = length (qs ! priority_rank p)"
  shows "qs' ! priority_rank p = (if priority_rank p < i \<and> p \<noteq> KControl
      \<and> p \<notin> set (kept_priorities (unat avg) (unat rem) (media_below i) xs) then [] else qs ! priority_rank p)"
  using assms
proof (induction avg i rem qs d rule: trim_loop.induct)
  case (2 avg i rem qs d)
  show ?case
  proof (cases "i = 0")
    case True
    have "priority_rank p = 0 \<longleftrightarrow> p = KControl" by (cases p) simp_all
    then show ?thesis using 2 True by auto
  next
    case False
    define q where "q = prio_at i"
    have rq: "priority_rank q = i" "q \<noteq> KControl" using priority_at [of i] 2(5) False by (auto simp: q_def)
    have uniq: "p = q \<longleftrightarrow> priority_rank p = i" using rq by (cases p; cases q) auto
    have bytes: "unat (queue_bytes avg (qs ! i)) = length (of_priority q xs) * unat avg"
      using queue_bytes_nat [of "qs ! i" avg] 2(5,7) 2(8) [of q] rq by simp
    have out: "q \<notin> set (kept_priorities (unat avg) b (media_below i) xs)" for b
      using kept_subset [of "unat avg" b "media_below i" xs] media_below_rank [of i q] rq 2(5) by auto
    show ?thesis
    proof (cases "queue_bytes avg (qs ! i) \<le> rem")
      case True
      have "qs' ! priority_rank p = (if priority_rank p < i \<and> p \<noteq> KControl
          \<and> p \<notin> set (kept_priorities (unat avg) (unat (rem - queue_bytes avg (qs ! i))) (media_below i) xs) then [] else qs ! priority_rank p)"
        using 2(2) 2(4-8) False True by simp
      moreover have "unat (rem - queue_bytes avg (qs ! i)) = unat rem - length (of_priority q xs) * unat avg"
        using True bytes by (simp add: unat_sub)
      moreover have "length (of_priority q xs) * unat avg \<le> unat rem" using True bytes by (simp add: word_le_nat_alt)
      ultimately show ?thesis using False uniq by (auto simp: q_def [symmetric] less_Suc_eq)
    next
      case no: False
      have "qs' ! priority_rank p = (if priority_rank p < i \<and> p \<noteq> KControl
          \<and> p \<notin> set (kept_priorities (unat avg) (unat rem) (media_below i) xs) then [] else qs[i := []] ! priority_rank p)"
        using 2(3) 2(4-8) False no by (simp add: nth_list_update)
      moreover have "\<not> length (of_priority q xs) * unat avg \<le> unat rem" using no bytes by (simp add: word_le_nat_alt)
      ultimately show ?thesis using False uniq out 2(4,5) rq by (auto simp: q_def [symmetric] less_Suc_eq nth_list_update)
    qed
  qed
qed simp

lemma trim_loop_kept:
  assumes "queues_ok qs" "length (concat qs) < 2 ^ 32" "trim_loop avg kPriorityCount rem qs d = (qs', d')"
  defines "xs \<equiv> map packet_of (concat qs)"
  shows "map packet_of (concat qs') = filter (\<lambda>y. fst y \<in> set (KControl #
    kept_priorities (unat avg) (unat rem) [KBestEffort, KVideo, KVideoKeyframe, KAudio] xs)) xs"
proof -
  let ?S = "set (KControl # kept_priorities (unat avg) (unat rem) [KBestEffort, KVideo, KVideoKeyframe, KAudio] xs)"
  have five: "length qs = 5" using assms(1) by (simp add: queues_ok_def kPriorityCount_def)
  have small: "\<forall>j < 5. length (qs ! j) < 2 ^ 32"
    using length_concat_nth [of _ qs] five assms(2) by (metis le_less_trans)
  have media: "media_below 5 = [KBestEffort, KVideo, KVideoKeyframe, KAudio]" by (simp add: prio_at_def numeral_eq_Suc)
  have q: "qs' ! priority_rank p = (if p \<in> ?S then qs ! priority_rank p else [])" for p
    using trim_loop_queue [OF five _ _ small, of 5 avg rem d qs' d' xs p, unfolded media]
      assms(1,3) of_priority_pending [OF assms(1)] priority_rank_less [of p]
    by (auto simp: xs_def kPriorityCount_def)
  have "length qs' = 5" using trim_loop_drops [OF _ assms(3)] five by (simp add: drops_def kPriorityCount_def)
  then have "qs' = map (\<lambda>p. qs' ! priority_rank p) [KControl, KAudio, KVideoKeyframe, KVideo, KBestEffort]"
    by (auto simp: numeral_eq_Suc length_Suc_conv)
  also have "\<dots> = map (\<lambda>p. if p \<in> ?S then qs ! priority_rank p else []) [KControl, KAudio, KVideoKeyframe, KVideo, KBestEffort]"
    by (simp only: q)
  finally show ?thesis using pending_of_priority [OF assms(1), of "\<lambda>p. p \<in> ?S"] by (simp only: xs_def)
qed


lemma bits_to_packets_nat:
  "unat (bits_to_packets_per_second bps avg) = unat bps div (8 * unat avg)"
proof (cases "bps = 0 \<or> avg = 0")
  case True
  then show ?thesis by (auto simp: bits_to_packets_per_second_def)
next
  case False
  define pps where "pps = (ucast bps :: u64) div (ucast avg * 8)"
  have "unat avg < 2 ^ 32" "unat bps < 2 ^ 32" using unsigned_less [of avg] unsigned_less [of bps] by simp_all
  then have pps: "unat pps = unat bps div (8 * unat avg)"
    by (simp add: pps_def unat_div_distrib unat_word_ariths mult.commute)
  then have small: "unat pps < 2 ^ 32" using \<open>unat bps < 2 ^ 32\<close> div_le_dividend le_less_trans by metis
  then have "min pps 0xFFFFFFFF = pps" by (simp add: min_def word_le_nat_alt)
  moreover have "unat (ucast pps :: u32) = unat pps" using small by (simp add: unsigned_ucast_eq take_bit_nat_eq_self)
  ultimately show ?thesis using False pps by (simp add: bits_to_packets_per_second_def pps_def [symmetric] Let_def)
qed

lemma noncontrol_bytes:
  assumes "queues_ok qs"
  shows "total_noncontrol_bytes avg qs = queue_bytes avg (concat (tl qs))"
    "length (filter (\<lambda>y. fst y \<noteq> KControl) (map packet_of (concat qs))) = length (concat (tl qs))"
    "filter (\<lambda>y. fst y \<in> {KControl}) (map packet_of (concat qs)) = map packet_of (qs ! 0)"
proof -
  obtain a b c e f where qs: "qs = [a, b, c, e, f]"
    using assms by (auto simp: queues_ok_def kPriorityCount_def numeral_eq_Suc length_Suc_conv)
  have five: "[1..<kPriorityCount] = [1, 2, 3, 4]" by (simp add: kPriorityCount_def upt_rec)
  show "total_noncontrol_bytes avg qs = queue_bytes avg (concat (tl qs))"
    unfolding total_noncontrol_bytes_def five by (simp add: qs queue_bytes_def algebra_simps)
  show "length (filter (\<lambda>y. fst y \<noteq> KControl) (map packet_of (concat qs))) = length (concat (tl qs))"
    using pending_of_priority [OF assms, of "\<lambda>p. p \<noteq> KControl"] by (simp add: qs)
  show "filter (\<lambda>y. fst y \<in> {KControl}) (map packet_of (concat qs)) = map packet_of (qs ! 0)"
    using pending_of_priority [OF assms, of "\<lambda>p. p \<in> {KControl}"] by (simp add: qs)
qed

lemma bwe_simulation:
  assumes "l0_ok s"
  shows "abstract_of (on_bwe_update bps s, n, log) = abstract_bwe (unat bps) (abstract_of (s, n, log))"
proof -
  define avg xs where "avg = avg_packet_size_bytes (sched_cfg s)" and "xs = map packet_of (concat (queues s))"
  have ok: "queues_ok (queues s)" using assms by (simp add: l0_ok_def)
  have "unat (max_queue_depth (sched_cfg s)) < 2 ^ 32" using unsigned_less [of "max_queue_depth (sched_cfg s)"] by simp
  then have small: "length (concat (queues s)) < 2 ^ 32" using assms by (simp add: l0_ok_def)
  have "concat (queues s) = hd (queues s) @ concat (tl (queues s))"
    using ok by (cases "queues s") (simp_all add: queues_ok_def kPriorityCount_def)
  then have small': "length (concat (tl (queues s))) < 2 ^ 32" using small by simp
  have fits: "total_noncontrol_bytes avg (queues s) \<le> bwe_budget bps \<longleftrightarrow>
      length (filter (\<lambda>y. fst y \<noteq> KControl) xs) * unat avg \<le> unat bps div 64"
    using queue_bytes_nat [OF small'] noncontrol_bytes(1) [OF ok, of avg] noncontrol_bytes(2) [OF ok] by (simp add: word_le_nat_alt unat_bwe_budget xs_def)
  have zero: "bits_to_packets_per_second bps avg = 0 \<longleftrightarrow> unat bps div (8 * unat avg) = 0"
    by (metis bits_to_packets_nat unat_0_iff)
  note b = on_bwe_update_drops [OF ok, of bps, folded avg_def]
  have pending: "map packet_of (concat (queues (on_bwe_update bps s))) =
      (if bps \<noteq> 0 \<and> length (filter (\<lambda>y. fst y \<noteq> KControl) xs) * unat avg \<le> unat bps div 64 then xs
       else filter (\<lambda>y. fst y \<in> set (KControl # (if bps = 0 then [] else
         kept_priorities (unat avg) (unat bps div 64) [KBestEffort, KVideo, KVideoKeyframe, KAudio] xs))) xs)"
  proof (cases "bps = 0")
    case True
    obtain qs d where p: "pause_queues (queues s) (dropped_total s) = (qs, d)"
      by (cases "pause_queues (queues s) (dropped_total s)")
    have "qs = [queues s ! 0, [], [], [], []]"
      using pause_queues_drops [OF _ p] ok by (simp add: queues_ok_def)
    then show ?thesis using True p noncontrol_bytes(3) [OF ok] by (simp add: on_bwe_update_def Let_def xs_def)
  next
    case False
    obtain qs d where t: "trim_loop avg kPriorityCount (bwe_budget bps) (queues s) (dropped_total s) = (qs, d)"
      by (cases "trim_loop avg kPriorityCount (bwe_budget bps) (queues s) (dropped_total s)")
    have "queues (on_bwe_update bps s) = (if total_noncontrol_bytes avg (queues s) \<le> bwe_budget bps then queues s else qs)"
      using False t by (simp add: on_bwe_update_def Let_def avg_def)
    moreover note trim_loop_kept [OF ok small t, folded xs_def, unfolded unat_bwe_budget]
    ultimately show ?thesis using False
      by (cases "total_noncontrol_bytes avg (queues s) \<le> bwe_budget bps") (simp_all only: fits xs_def if_False if_True simp_thms)
  qed
  have cfg: "sched_cfg (on_bwe_update bps s) = sched_cfg s" and allowed:
    "(if allowed_per_drain (on_bwe_update bps s) = 0 then None else Some (unat (allowed_per_drain (on_bwe_update bps s))))
       = (if unat bps div (8 * unat avg) = 0 then None else Some (unat bps div (8 * unat avg)))"
    using b by (simp_all only: zero bits_to_packets_nat)
  have nz: "unat bps = 0 \<longleftrightarrow> bps = 0" by (rule unat_0_iff)
  show ?thesis
    unfolding abstract_of_def abstract_bwe_def Let_def prod.case abstract_sched.simps cfg allowed pending nz
      avg_def [symmetric] xs_def [symmetric] by (rule refl)
qed


lemma enqueue_simulation:
  assumes "l0_ok s"
  shows "abstract_of (enqueue now p data dst s, n', log) = abstract_enqueue (p, data) (abstract_of (s, n, log))"
proof -
  define s0 where "s0 = make_room (snd (resolve_dst dst s))"
  have ok: "l0_ok (snd (resolve_dst dst s))" using assms by (simp add: l0_ok_def)
  note room = make_room_spec [OF ok, folded s0_def]
  note ev = make_room_evicts [OF ok, folded s0_def, simplified]
  show ?thesis
  proof (rule enqueue_cases [OF assms, of now p data dst, folded s0_def])
    assume "max_queue_depth (sched_cfg s) = 0" "enqueue now p data dst s = s0\<lparr>dropped_total := dropped_total s0 + 1\<rparr>"
    then show ?thesis using room ev by (simp add: abstract_of_def abstract_enqueue_def)
  next
    fix rec assume rec: "pr_priority rec = p" "owned_data rec = data" and depth: "max_queue_depth (sched_cfg s) \<noteq> 0"
      and e: "enqueue now p data dst s = s0\<lparr>queues := (queues s0)[priority_rank p := queues s0 ! priority_rank p @ [rec]]\<rparr>"
    have "queues_ok (queues s0)" using room(1) by (simp add: l0_ok_def)
    from insert_packet_queues [OF this, of rec] show ?thesis
      using room ev rec depth by (auto simp: e abstract_of_def abstract_enqueue_def packet_of_def unat_0_iff)
  qed
qed

lemma drain_simulation:
  assumes "drain_with m (Some record_packet) log s = (k, log', s')"
  shows "abstract_of (s', n, log') = abstract_drain m (abstract_of (s, n, log))"
  using drain_with_count [OF accepting_record assms]
  by (auto simp: abstract_of_def abstract_drain_def drain_count_def foldl_record drop_map take_map Let_def)

lemma sched_simulation: "sched_inv r \<Longrightarrow> abstract_of (sched_step op r) = abstract_step op (abstract_of r)"
proof (cases r)
  case (fields s n log)
  assume "sched_inv r"
  then have ok: "l0_ok s" by (simp add: fields sched_inv_alt)
  show ?thesis
  proof (cases op)
    case (Drain m)
    obtain k log' s' where e: "drain_with m (Some record_packet) log s = (k, log', s')" by (metis prod_cases3)
    show ?thesis using drain_simulation [OF e] by (simp add: fields Drain e)
  next
    case (Select m)
    obtain k c s' where e: "select_next_packet m None () s = (k, c, s')" by (metis prod_cases3)
    then show ?thesis
      by (auto simp: fields Select abstract_of_def select_next_packet_def split: if_splits prod.splits)
  next
    case (EnqStream now sid data dst)
    then show ?thesis
      by (simp add: fields abstract_of_def enqueue_for_stream_fields)
        (simp add: enqueue_for_stream_def enqueue_for_stream_owned_def Let_def case_prod_beta split: option.split)
  next
    case (SetPrio sid level)
    then show ?thesis by (simp add: fields abstract_of_def set_stream_priority_alt Let_def)
  next
    case Reset
    then show ?thesis by (simp add: fields abstract_of_def sched_reset_def)
  qed (use ok enqueue_simulation bwe_simulation fields in simp_all)
qed

interpretation sched_ref: refinement "(new_scheduler c, 0, [])" sched_step sched_inv abstract_of abstract_step
  by unfold_locales (rule sched_simulation)

section \<open>Properties\<close>

text \<open>
  What the five queues do, as one list: after any interleaving of enqueues, bandwidth updates, resets, stream operations and drains by a callback that accepts every packet, the observable
  state equals that of one list of pending packets kept in priority order, first come first served within a priority, over natural numbers. The list describes the code, not its
  documentation: it also evicts a control packet when only control packets are left, and a bandwidth update offers the budget to the lowest priority first
  (the last section). Stream operations do not touch it.
\<close>

theorem sched_refines_priority_list:
  "abstract_of (fold sched_step ops (new_scheduler c, 0, [])) = fold abstract_step ops (abstract_of (new_scheduler c, 0, []))"
  by (rule sched_ref.run_abs)

text \<open>
  C33: a drain with a callback that accepts every packet hands over exactly the first packets in
  priority order, as many as the argument, the queue and the active limit admit, keeps the
  others in place, and returns and counts their number. A callback that refuses a packet is outside this theorem: there the
  code departs from its documentation (\<open>sched_veto_loses\<close> below).
\<close>

theorem sched_drain_order:
  assumes "\<And>c p data. fst (f c p data)"
    and "drain_with m (Some f) c s = (n, c', s')"
  shows "n = int (drain_count m s)
    \<and> c' = foldl (\<lambda>c r. snd (f c (pr_priority r) (owned_data r))) c (take (drain_count m s) (concat (queues s)))
    \<and> concat (queues s') = drop (drain_count m s) (concat (queues s))
    \<and> sent_total s' = sent_total s + of_nat (drain_count m s)
    \<and> dropped_total s' = dropped_total s"
proof -
  have "accepting (Some f)" using assms(1) by (simp add: accepting_def call_back_def)
  from drain_with_count [OF this assms(2)] show ?thesis by (simp add: call_back_def)
qed

definition sample_sched :: scheduler where
  "sample_sched = enqueue 2 KAudio [2] empty_addr (enqueue 1 KVideo [1] empty_addr (new_scheduler default_sched_config))"

theorem sched_drain_order_witness:
  "\<exists>s'. drain_with 1 (Some record_packet) [] sample_sched = (1, [(KAudio, [2])], s') \<and> length (concat (queues s')) = 1"
proof -
  obtain n c' s' where e: "drain_with 1 (Some record_packet) [] sample_sched = (n, c', s')" by (metis prod_cases3)
  have ev: "drain_count 1 sample_sched = 1" "length (concat (queues sample_sched)) = 2"
    "foldl (\<lambda>c r. snd (record_packet c (pr_priority r) (owned_data r))) [] (take 1 (concat (queues sample_sched))) = [(KAudio, [2])]"
    by code_simp+
  have "n = 1 \<and> c' = [(KAudio, [2])] \<and> length (concat (queues s')) = 1"
    using sched_drain_order [OF _ e, unfolded ev] ev(2) by (simp add: record_packet_def)
  then show ?thesis using e by blast
qed

lemma on_bwe_update_whole:
  assumes "l0_ok s"
  defines "avg \<equiv> avg_packet_size_bytes (sched_cfg s)"
  shows "(\<forall>i. queues (on_bwe_update bps s) ! i = queues s ! i \<or> 0 < i \<and> queues (on_bwe_update bps s) ! i = [])"
    "bps \<noteq> 0 \<Longrightarrow> (\<Sum>i \<in> {1..<5}. unat (queue_bytes avg (queues (on_bwe_update bps s) ! i))) \<le> unat bps div 64
       \<or> queues (on_bwe_update bps s) = queues s \<and> total_noncontrol_bytes avg (queues s) \<le> bwe_budget bps"
    "bps = 0 \<Longrightarrow> concat (tl (queues (on_bwe_update bps s))) = []"
proof -
  have ok: "queues_ok (queues s)" using assms(1) by (simp add: l0_ok_def)
  obtain qs d where p: "pause_queues (queues s) (dropped_total s) = (qs, d)"
    by (cases "pause_queues (queues s) (dropped_total s)")
  obtain qs' d' where t: "trim_loop avg kPriorityCount (bwe_budget bps) (queues s) (dropped_total s) = (qs', d')"
    by (cases "trim_loop avg kPriorityCount (bwe_budget bps) (queues s) (dropped_total s)")
  have qs: "qs = [queues s ! 0, [], [], [], []]" using pause_queues_drops [OF _ p] ok by (simp add: queues_ok_def)
  obtain q0 q1 q2 q3 q4 where qss: "queues s = [q0, q1, q2, q3, q4]"
    using ok by (auto simp: queues_ok_def kPriorityCount_def numeral_eq_Suc length_Suc_conv)
  have e: "queues (on_bwe_update bps s) = (if bps = 0 then qs else
      if total_noncontrol_bytes avg (queues s) \<le> bwe_budget bps then queues s else qs')"
    using p t by (simp add: on_bwe_update_def Let_def avg_def)
  have "kPriorityCount \<le> length (queues s)" using ok by (simp add: queues_ok_def)
  note spec = trim_loop_spec [OF this t]
  show "\<forall>i. queues (on_bwe_update bps s) ! i = queues s ! i \<or> 0 < i \<and> queues (on_bwe_update bps s) ! i = []"
  proof
    fix i
    have "qs ! i = queues s ! i \<or> 0 < i \<and> qs ! i = []" by (auto simp: qs qss nth_Cons split: nat.splits)
    moreover have "qs' ! i = queues s ! i \<or> 0 < i \<and> qs' ! i = []" using spec by blast
    ultimately show "queues (on_bwe_update bps s) ! i = queues s ! i \<or> 0 < i \<and> queues (on_bwe_update bps s) ! i = []"
      by (simp add: e)
  qed
  show "concat (tl (queues (on_bwe_update bps s))) = []" if "bps = 0" using that unfolding e by (simp add: qs)
  show "(\<Sum>i \<in> {1..<5}. unat (queue_bytes avg (queues (on_bwe_update bps s) ! i))) \<le> unat bps div 64
     \<or> queues (on_bwe_update bps s) = queues s \<and> total_noncontrol_bytes avg (queues s) \<le> bwe_budget bps" if "bps \<noteq> 0"
    using that conjunct2 [OF spec] by (auto simp: e unat_bwe_budget kPriorityCount_def)
qed

lemma on_bwe_update_fits:
  assumes "l0_ok s"
  shows "length (concat (tl (queues (on_bwe_update bps s)))) * unat (avg_packet_size_bytes (sched_cfg s)) \<le> unat bps div 64"
proof -
  define avg qs where "avg = avg_packet_size_bytes (sched_cfg s)" and "qs = queues (on_bwe_update bps s)"
  have ok: "queues_ok (queues s)" using assms by (simp add: l0_ok_def)
  have dr: "drops (queues s) (dropped_total s) qs (dropped_total (on_bwe_update bps s))"
    using on_bwe_update_drops [OF ok, of bps] by (simp add: qs_def)
  have "unat (max_queue_depth (sched_cfg s)) < 2 ^ 32" using unsigned_less [of "max_queue_depth (sched_cfg s)"] by simp
  then have small: "length (concat qs) < 2 ^ 32" using assms dr by (simp add: l0_ok_def drops_def)
  obtain a b c e f where q: "qs = [a, b, c, e, f]"
    using drops_queues_ok [OF dr ok] by (auto simp: queues_ok_def kPriorityCount_def numeral_eq_Suc length_Suc_conv)
  have four: "{1..<5} = {1, 2, 3, 4 :: nat}" by auto
  consider "bps = 0" | "(\<Sum>i \<in> {1..<5}. unat (queue_bytes avg (qs ! i))) \<le> unat bps div 64"
    | "qs = queues s" "total_noncontrol_bytes avg (queues s) \<le> bwe_budget bps"
    using on_bwe_update_whole(2) [OF assms, of bps] by (auto simp: avg_def qs_def)
  then have "length (concat (tl qs)) * unat avg \<le> unat bps div 64"
  proof cases
    case 1
    then show ?thesis using on_bwe_update_whole(3) [OF assms, of bps] unfolding qs_def by (metis le0 list.size(3) mult_0)
  next
    case 2
    then show ?thesis using small unfolding four by (simp add: q queue_bytes_nat algebra_simps)
  next
    case 3
    moreover have "length (concat (tl qs)) < 2 ^ 32" using small by (simp add: q)
    ultimately show ?thesis using noncontrol_bytes(1) [OF ok, of avg] queue_bytes_nat [of "concat (tl qs)" avg]
      by (simp add: word_le_nat_alt unat_bwe_budget)
  qed
  then show ?thesis by (simp add: avg_def qs_def)
qed

text \<open>
  A bandwidth update never touches the control queue, keeps or empties every other queue as a whole,
  and leaves no more media bytes (at the average packet size) than one eighth of a second of the new
  rate carries; a rate of zero empties all media queues. What is dropped is counted.
\<close>

theorem sched_bwe_trim:
  assumes "fold sched_step ops (new_scheduler c, 0, []) = (s, n, log)"
    and "s' = on_bwe_update bps s"
  shows "queues s' ! 0 = queues s ! 0
    \<and> (\<forall>i. queues s' ! i = queues s ! i \<or> queues s' ! i = [])
    \<and> length (concat (tl (queues s'))) * unat (avg_packet_size_bytes (sched_cfg s)) \<le> unat bps div 64
    \<and> dropped_total s' + of_nat (length (concat (queues s'))) = dropped_total s + of_nat (length (concat (queues s)))"
proof -
  have l0: "l0_ok s" using sched.run_inv [of ops c] by (simp add: assms(1) sched_inv_alt)
  then have "drops (queues s) (dropped_total s) (queues s') (dropped_total s')"
    using on_bwe_update_drops [of s bps] by (simp add: l0_ok_def assms(2))
  then show ?thesis
    using on_bwe_update_whole(1) [OF l0, of bps] on_bwe_update_fits [OF l0, of bps]
    unfolding assms(2) drops_def by blast
qed

theorem sched_bwe_trim_witness:
  "length (concat (tl (queues (on_bwe_update 96000 sample_sched)))) * 1200 \<le> 1500"
proof -
  have r: "fold sched_step [Enq 1 KVideo [1] empty_addr, Enq 2 KAudio [2] empty_addr] (new_scheduler default_sched_config, 0, [])
      = (sample_sched, 2, [])" by (simp add: sample_sched_def)
  have "sched_cfg sample_sched = default_sched_config"
    using enqueue_l0 sched_init_inv [of default_sched_config]
    by (simp add: sample_sched_def sched_inv_alt) (simp add: new_scheduler_def default_sched_config_def)
  then show ?thesis using sched_bwe_trim [OF r refl, of 96000] by (simp add: default_sched_config_def)
qed

lemma three_buckets: "buckets_ok s \<Longrightarrow> \<exists>a b c. stream_buckets s = [a, b, c]"
  by (auto simp: buckets_ok_def kStreamPriorityCount_def numeral_eq_Suc length_Suc_conv)

lemma set_stream_priority_fifo:
  assumes "buckets_ok s"
  shows "filter (\<lambda>r. pr_stream_id r = sid') (concat (stream_buckets (set_stream_priority sid level s)))
    = filter (\<lambda>r. pr_stream_id r = sid') (concat (stream_buckets s))"
proof -
  obtain a b c where bs: "stream_buckets s = [a, b, c]" using three_buckets [OF assms] by blast
  have none: "filter (\<lambda>r. pr_stream_id r = sid) (stream_buckets s ! i) = []"
    if "i < 3" "i \<noteq> stream_priority_rank (get_stream_priority sid s)" for i
    using buckets_okD [OF assms, of i] that by (auto simp: filter_empty_conv kStreamPriorityCount_def)
  have parts: "filter (\<lambda>r. pr_stream_id r = sid') (filter (\<lambda>r. pr_stream_id r = sid) x)
      = (if sid' = sid then filter (\<lambda>r. pr_stream_id r = sid) x else [])"
    "filter (\<lambda>r. pr_stream_id r = sid') (filter (\<lambda>r. pr_stream_id r \<noteq> sid) x)
      = (if sid' = sid then [] else filter (\<lambda>r. pr_stream_id r = sid') x)" for x
    by (induction x) auto
  have other: "filter (\<lambda>r. pr_stream_id r \<noteq> sid \<and> pr_stream_id r = sid') x = filter (\<lambda>r. pr_stream_id r = sid') x" if "sid' \<noteq> sid" for x
    using that by (intro filter_cong) auto
  show ?thesis
    using none [of 0] none [of 1] none [of 2] unfolding set_stream_priority_alt Let_def bs
    by (cases "get_stream_priority sid s"; cases level; cases "sid' = sid") (simp_all add: bs parts other)
qed

text \<open>
  In every reachable state each packet of the stream layer lies in the bucket of its
  stream's priority; changing a stream's priority moves its packets without reordering the packets of any
  stream; and a selection hands over the first packets of the High, then the Normal, then the Low bucket.
\<close>

theorem sched_stream_order:
  "case fold sched_step ops (new_scheduler c, 0, []) of (s, n, log) \<Rightarrow>
     list_all2 (\<lambda>i. list_all (\<lambda>r. stream_priority_rank (get_stream_priority (pr_stream_id r) s) = i)) [0, 1, 2] (stream_buckets s)
     \<and> (\<forall>sid level sid'. get_stream_priority sid (set_stream_priority sid level s) = level
          \<and> filter (\<lambda>r. pr_stream_id r = sid') (concat (stream_buckets (set_stream_priority sid level s)))
             = filter (\<lambda>r. pr_stream_id r = sid') (concat (stream_buckets s)))
     \<and> (\<forall>m. let k = min (nat m) (length (concat (stream_buckets s))) in
          case select_next_packet m (Some record_packet) [] s of (sent, out, s') \<Rightarrow>
            sent = int k \<and> out = map packet_of (take k (concat (stream_buckets s)))
            \<and> concat (stream_buckets s') = drop k (concat (stream_buckets s)))"
proof -
  obtain s n log where e: "fold sched_step ops (new_scheduler c, 0, []) = (s, n, log)" by (metis prod_cases3)
  have ok: "buckets_ok s" using sched.run_inv [of ops c] by (simp add: e sched_inv_alt)
  obtain a b c where bs: "stream_buckets s = [a, b, c]" using three_buckets [OF ok] by blast
  have home: "list_all (\<lambda>r. stream_priority_rank (get_stream_priority (pr_stream_id r) s) = i) (stream_buckets s ! i)" if "i < 3" for i
    using buckets_okD [OF ok] that by (auto simp: list_all_iff kStreamPriorityCount_def)
  have sel: "let k = min (nat m) (length (concat (stream_buckets s))) in
      case select_next_packet m (Some record_packet) [] s of (sent, out, s') \<Rightarrow>
        sent = int k \<and> out = map packet_of (take k (concat (stream_buckets s)))
        \<and> concat (stream_buckets s') = drop k (concat (stream_buckets s))" for m
  proof -
    obtain sent out s' where "select_next_packet m (Some record_packet) [] s = (sent, out, s')" by (metis prod_cases3)
    with select_next_packet_count [OF accepting_record this] show ?thesis by (simp add: foldl_record Let_def)
  qed
  have lev: "get_stream_priority sid (set_stream_priority sid level s) = level" for sid level
    by (simp add: set_stream_priority_alt Let_def)
  show ?thesis
    using home [of 0] home [of 1] home [of 2] sel lev set_stream_priority_fifo [OF ok] by (simp add: e bs)
qed

section \<open>The ledger\<close>

text \<open>
  Runs with an arbitrary callback. Its replies are a function \<open>ok\<close> of everything it has been handed so far; the run keeps
  the numbers of packets enqueued on the two layers and, for each, the packets handed to the callback with its reply.
\<close>

type_synonym handed = "(priority \<times> bytes \<times> bool) list"
type_synonym ledger_run = "scheduler \<times> nat \<times> nat \<times> handed \<times> handed"

definition observed :: "(handed \<Rightarrow> priority \<Rightarrow> bytes \<Rightarrow> bool) \<Rightarrow> handed drain_callback" where
  "observed ok log p data = (let b = ok log p data in (b, log @ [(p, data, b)]))"

definition taken :: "handed \<Rightarrow> nat" where
  "taken log = length (filter (\<lambda>(p, data, b). b) log)"

definition refused :: "handed \<Rightarrow> nat" where
  "refused log = length (filter (\<lambda>(p, data, b). \<not> b) log)"

fun ledger_step :: "(handed \<Rightarrow> priority \<Rightarrow> bytes \<Rightarrow> bool) \<Rightarrow> sched_op \<Rightarrow> ledger_run \<Rightarrow> ledger_run" where
  "ledger_step ok (Enq now p data dst) (s, n, m, log, slog) = (enqueue now p data dst s, n + 1, m, log, slog)"
| "ledger_step ok (Drain k) (s, n, m, log, slog) =
     (case drain_with k (Some (observed ok)) log s of (_, log, s) \<Rightarrow> (s, n, m, log, slog))"
| "ledger_step ok (Bwe bps) (s, n, m, log, slog) = (on_bwe_update bps s, n, m, log, slog)"
| "ledger_step ok Reset (s, n, m, log, slog) = (sched_reset s, 0, 0, [], [])"
| "ledger_step ok (SetPrio sid level) (s, n, m, log, slog) = (set_stream_priority sid level s, n, m, log, slog)"
| "ledger_step ok (EnqStream now sid data dst) (s, n, m, log, slog) = (enqueue_for_stream now sid data dst s, n, m + 1, log, slog)"
| "ledger_step ok (Select k) (s, n, m, log, slog) =
     (case select_next_packet k (Some (observed ok)) slog s of (_, slog, s) \<Rightarrow> (s, n, m, log, slog))"

lemma ledger_simps [simp]:
  "taken [] = 0" "refused [] = 0" "taken (a @ b) = taken a + taken b" "refused (a @ b) = refused a + refused b"
  "taken ((p, data, r) # log) = (if r then 1 else 0) + taken log" "refused ((p, data, r) # log) = (if r then 0 else 1) + refused log"
  by (simp_all add: taken_def refused_def)

lemma handed_length: "length log = taken log + refused log"
  unfolding taken_def refused_def by (induction log) auto

text \<open>What a drain of one queue, of all queues, and of one bucket does, whatever the callback replies.\<close>

definition hands :: "packet_record list \<Rightarrow> handed drain_state \<Rightarrow> packet_record list \<Rightarrow> handed drain_state \<Rightarrow> bool" where
  "hands q d q' d' \<longleftrightarrow> (\<exists>h. ds_cb d' = ds_cb d @ h \<and> length q = length q' + length h \<and> ds_total d' = ds_total d + of_nat (taken h))"

lemma hands_refl: "hands q d q d"
  by (auto simp: hands_def)

lemma hands_add: "hands q d q' d' \<Longrightarrow> hands r d' r' d'' \<Longrightarrow> hands (q @ r) d (q' @ r') d''"
  unfolding hands_def by (elim exE, rename_tac g h, rule_tac x = "g @ h" in exI) simp

lemma drain_queue_hands:
  "drain_queue (Some (observed ok)) a avg m q d = (q', d') \<Longrightarrow> hands q d q' d' \<and> set q' \<subseteq> set q"
proof (induction q arbitrary: d)
  case (Cons rec q)
  define b where "b = ok (ds_cb d) (pr_priority rec) (owned_data rec)"
  have cb: "call_back (Some (observed ok)) rec (ds_cb d) = (b, ds_cb d @ [(pr_priority rec, owned_data rec, b)])"
    by (simp add: call_back_def observed_def b_def Let_def)
  show ?case
  proof (cases "ds_sent d < m \<and> \<not> limit_hit a d")
    case True
    show ?thesis
    proof (cases b)
      case False
      then show ?thesis using True Cons.prems by (auto simp: cb hands_def)
    next
      case b: True
      define d1 where "d1 = d\<lparr>ds_cb := ds_cb d @ [(pr_priority rec, owned_data rec, True)], ds_sent := ds_sent d + 1, ds_cycle := ds_cycle d + 1,
        ds_total := ds_total d + 1, ds_bytes := ds_bytes d + ucast (estimated_packet_bytes rec avg)\<rparr>"
      have "drain_queue (Some (observed ok)) a avg m q d1 = (q', d')" using True Cons.prems b by (simp add: cb d1_def)
      from Cons.IH [OF this] have ih: "hands q d1 q' d'" "set q' \<subseteq> set q" by simp_all
      have "hands [rec] d [] d1" by (auto simp: hands_def d1_def)
      from hands_add [OF this ih(1)] ih(2) show ?thesis by auto
    qed
  next
    case False
    then have "q' = rec # q" "d' = d" using Cons.prems by (auto split: if_splits)
    then show ?thesis using hands_refl by simp
  qed
qed (auto intro: hands_refl)

lemma drain_queues_hands:
  "drain_queues (Some (observed ok)) a avg m qs d = (qs', d') \<Longrightarrow>
     hands (concat qs) d (concat qs') d' \<and> length qs' = length qs \<and> (\<forall>i < length qs. set (qs' ! i) \<subseteq> set (qs ! i))"
proof (induction qs arbitrary: d qs' d')
  case (Cons q qs)
  obtain q1 d1 where q1: "drain_queue (Some (observed ok)) a avg m q d = (q1, d1)" by (cases "drain_queue (Some (observed ok)) a avg m q d")
  note h1 = drain_queue_hands [OF q1]
  obtain qs2 d2 where q2: "drain_queues (Some (observed ok)) a avg m qs d1 = (qs2, d2)" by (cases "drain_queues (Some (observed ok)) a avg m qs d1")
  note h2 = Cons.IH [OF q2]
  consider "\<not> ds_sent d < m" | "ds_sent d < m" "limit_hit a d1" | "ds_sent d < m" "\<not> limit_hit a d1" by blast
  then show ?case
  proof cases
    case 1
    then show ?thesis using Cons.prems hands_refl by auto
  next
    case 2
    then have e: "qs' = q1 # qs" "d' = d1" using Cons.prems q1 by auto
    show ?thesis using hands_add [OF conjunct1 [OF h1] hands_refl [of "concat qs"]] h1 by (auto simp: e nth_Cons')
  next
    case 3
    then have e: "qs' = q1 # qs2" "d' = d2" using Cons.prems q1 q2 by auto
    show ?thesis using hands_add [OF conjunct1 [OF h1] conjunct1 [OF h2]] h1 h2 by (auto simp: e nth_Cons')
  qed
qed (auto intro: hands_refl)

lemma drain_bucket_hands:
  "drain_stream_bucket (Some (observed ok)) avg m q d = (q', d') \<Longrightarrow> hands q d q' d' \<and> set q' \<subseteq> set q"
proof (induction q arbitrary: d)
  case (Cons rec q)
  define b where "b = ok (ds_cb d) (pr_priority rec) (owned_data rec)"
  have cb: "call_back (Some (observed ok)) rec (ds_cb d) = (b, ds_cb d @ [(pr_priority rec, owned_data rec, b)])"
    by (simp add: call_back_def observed_def b_def Let_def)
  show ?case
  proof (cases "ds_sent d < m")
    case True
    show ?thesis
    proof (cases b)
      case False
      then show ?thesis using True Cons.prems by (auto simp: cb hands_def)
    next
      case b: True
      define d1 where "d1 = d\<lparr>ds_cb := ds_cb d @ [(pr_priority rec, owned_data rec, True)], ds_sent := ds_sent d + 1,
        ds_total := ds_total d + 1, ds_bytes := ds_bytes d + ucast (if estimated_size_bytes rec \<noteq> 0 then estimated_size_bytes rec else avg)\<rparr>"
      have "drain_stream_bucket (Some (observed ok)) avg m q d1 = (q', d')" using True Cons.prems b by (simp add: cb d1_def)
      from Cons.IH [OF this] have ih: "hands q d1 q' d'" "set q' \<subseteq> set q" by simp_all
      have "hands [rec] d [] d1" by (auto simp: hands_def d1_def)
      from hands_add [OF this ih(1)] ih(2) show ?thesis by auto
    qed
  qed (use Cons.prems hands_refl in auto)
qed (auto intro: hands_refl)

lemma hands_sent: "hands q (d\<lparr>ds_sent := x\<rparr>) q' d' = hands q d q' d'"
  by (simp add: hands_def)

lemma select_buckets_hands:
  "select_buckets (Some (observed ok)) avg m bs sent d = (bs', sent', d') \<Longrightarrow>
     hands (concat bs) d (concat bs') d' \<and> length bs' = length bs \<and> (\<forall>i < length bs. set (bs' ! i) \<subseteq> set (bs ! i))"
proof (induction bs arbitrary: sent d bs' sent' d')
  case (Cons b bs)
  obtain b1 d1 where q1: "drain_stream_bucket (Some (observed ok)) avg (m - sent) b (d\<lparr>ds_sent := 0\<rparr>) = (b1, d1)"
    by (cases "drain_stream_bucket (Some (observed ok)) avg (m - sent) b (d\<lparr>ds_sent := 0\<rparr>)")
  note h1 = drain_bucket_hands [OF q1, unfolded hands_sent]
  obtain bs2 n2 d2 where q2: "select_buckets (Some (observed ok)) avg m bs (sent + ds_sent d1) d1 = (bs2, n2, d2)" by (metis prod_cases3)
  obtain bs3 n3 d3 where q3: "select_buckets (Some (observed ok)) avg m bs sent d = (bs3, n3, d3)" by (metis prod_cases3)
  consider "\<not> sent < m" | "sent < m" "b = []" | "sent < m" "b \<noteq> []" "ds_sent d1 = 0" | "sent < m" "b \<noteq> []" "ds_sent d1 \<noteq> 0" by blast
  then show ?case
  proof cases
    case 1
    then show ?thesis using Cons.prems hands_refl by auto
  next
    case 2
    then have e: "bs' = [] # bs3" "d' = d3" using Cons.prems q3 by auto
    show ?thesis using Cons.IH [OF q3] 2 by (auto simp: e nth_Cons')
  next
    case 3
    then have e: "bs' = b1 # bs" "d' = d1" using Cons.prems q1 by (auto simp: Let_def)
    show ?thesis using hands_add [OF conjunct1 [OF h1] hands_refl [of "concat bs"]] h1 by (auto simp: e nth_Cons')
  next
    case 4
    then have e: "bs' = b1 # bs2" "d' = d2" using Cons.prems q1 q2 by (auto simp: Let_def)
    note h2 = Cons.IH [OF q2]
    show ?thesis using hands_add [OF conjunct1 [OF h1] conjunct1 [OF h2]] h1 h2 by (auto simp: e nth_Cons')
  qed
qed (auto intro: hands_refl)

text \<open>The invariant of the ledger.\<close>

definition stream_accounted :: "scheduler \<Rightarrow> u32" where
  "stream_accounted s = of_nat (length (concat (stream_buckets s))) + stream_sent_total s"

definition ledger_inv :: "ledger_run \<Rightarrow> bool" where
  "ledger_inv = (\<lambda>(s, n, m, log, slog). l0_ok s \<and> of_nat n = accounted s + of_nat (refused log) \<and> sent_total s = of_nat (taken log)
     \<and> buckets_ok s \<and> of_nat m = stream_accounted s + of_nat (refused slog) \<and> stream_sent_total s = of_nat (taken slog))"

lemma hands_counts:
  assumes "hands q d q' d'"
  obtains h where "ds_cb d' = ds_cb d @ h" "length q' \<le> length q" "ds_total d' = ds_total d + of_nat (taken h)"
    "of_nat (length q') + ds_total d' + of_nat (refused h) = of_nat (length q) + ds_total d"
  using assms unfolding hands_def by (auto simp: handed_length algebra_simps)

lemma drain_with_ledger:
  assumes "drain_with k (Some (observed ok)) log s = (x, log', s')" "l0_ok s"
  shows "l0_ok s' \<and> (\<exists>h. log' = log @ h \<and> sent_total s' = sent_total s + of_nat (taken h) \<and> accounted s' + of_nat (refused h) = accounted s)
    \<and> stream_buckets s' = stream_buckets s \<and> stream_prio s' = stream_prio s \<and> stream_sent_total s' = stream_sent_total s"
proof (cases "k \<le> 0")
  case True
  then show ?thesis using assms by (auto simp: drain_with_def intro: exI [of _ "[]"])
next
  case False
  define d where "d = \<lparr>ds_sent = 0, ds_cycle = 0, ds_total = sent_total s, ds_bytes = sent_bytes_total s, ds_cb = log\<rparr>"
  obtain qs d' where e: "drain_queues (Some (observed ok)) (allowed_per_drain s) (avg_packet_size_bytes (sched_cfg s)) k (queues s) d = (qs, d')" by fastforce
  have s': "log' = ds_cb d'" "s' = s\<lparr>queues := qs, packets_sent_this_cycle := ds_cycle d', sent_total := ds_total d', sent_bytes_total := ds_bytes d'\<rparr>"
    using assms(1) False e by (simp_all add: drain_with_def d_def)
  note q = drain_queues_hands [OF e]
  obtain h where h: "ds_cb d' = log @ h" "length (concat qs) \<le> length (concat (queues s))" "ds_total d' = sent_total s + of_nat (taken h)"
    "of_nat (length (concat qs)) + ds_total d' + of_nat (refused h) = of_nat (length (concat (queues s))) + sent_total s"
    using hands_counts [OF conjunct1 [OF q]] by (metis d_def drain_state.select_convs(3,5))
  have "queues_ok qs" using assms(2) q unfolding l0_ok_def queues_ok_def by (metis subsetD)
  then have "l0_ok s'" using assms(2) h(2) by (simp add: s' l0_ok_def)
  moreover have "accounted s' + of_nat (refused h) = accounted s" using h(4) by (simp add: s' accounted_def algebra_simps)
  ultimately show ?thesis using h(1,3) s' by auto
qed

lemma select_ledger:
  assumes "select_next_packet k (Some (observed ok)) log s = (x, log', s')" "buckets_ok s"
  shows "buckets_ok s' \<and> (\<exists>h. log' = log @ h \<and> stream_sent_total s' = stream_sent_total s + of_nat (taken h)
      \<and> stream_accounted s' + of_nat (refused h) = stream_accounted s)
    \<and> queues s' = queues s \<and> sched_cfg s' = sched_cfg s \<and> dropped_total s' = dropped_total s \<and> sent_total s' = sent_total s"
proof (cases "k \<le> 0")
  case True
  then show ?thesis using assms by (auto simp: select_next_packet_def intro: exI [of _ "[]"])
next
  case False
  define d where "d = \<lparr>ds_sent = 0, ds_cycle = 0, ds_total = stream_sent_total s, ds_bytes = sent_bytes_total s, ds_cb = log\<rparr>"
  obtain bs n d' where e: "select_buckets (Some (observed ok)) (avg_packet_size_bytes (sched_cfg s)) k (stream_buckets s) 0 d = (bs, n, d')"
    by (metis prod_cases3)
  have s': "log' = ds_cb d'" "s' = s\<lparr>stream_buckets := bs, stream_sent_total := ds_total d', sent_bytes_total := ds_bytes d'\<rparr>"
    using assms(1) False e by (simp_all add: select_next_packet_def d_def)
  note q = select_buckets_hands [OF e]
  obtain h where h: "ds_cb d' = log @ h" "ds_total d' = stream_sent_total s + of_nat (taken h)"
    "of_nat (length (concat bs)) + ds_total d' + of_nat (refused h) = of_nat (length (concat (stream_buckets s))) + stream_sent_total s"
    using hands_counts [OF conjunct1 [OF q]] by (metis d_def drain_state.select_convs(3,5))
  have "buckets_ok s'" using assms(2) q unfolding s' buckets_ok_def get_stream_priority_def by (simp add: subset_iff)
  moreover have "stream_accounted s' + of_nat (refused h) = stream_accounted s" using h(3) by (simp add: s' stream_accounted_def algebra_simps)
  ultimately show ?thesis using h(1,2) s' by auto
qed

lemma ledger_other_fields:
  "stream_sent_total (enqueue now p data dst s) = stream_sent_total s"
  "stream_sent_total (on_bwe_update bps s) = stream_sent_total s"
  "stream_sent_total (set_stream_priority sid level s) = stream_sent_total s"
  "stream_sent_total (enqueue_for_stream now sid data dst s) = stream_sent_total s"
  by (simp_all add: enqueue_def enqueue_locked_def make_room_def resolve_dst_def on_bwe_update_def set_stream_priority_alt
      enqueue_for_stream_def enqueue_for_stream_owned_def Let_def case_prod_beta split: option.split)

lemma set_stream_priority_count:
  assumes "buckets_ok s"
  shows "length (concat (stream_buckets (set_stream_priority sid level s))) = length (concat (stream_buckets s))"
proof -
  obtain a b c where bs: "stream_buckets s = [a, b, c]" using three_buckets [OF assms] by blast
  have "length (filter (\<lambda>r. pr_stream_id r = sid) x) + length (filter (\<lambda>r. pr_stream_id r \<noteq> sid) x) = length x" for x
    using sum_length_filter_compl [of "\<lambda>r. pr_stream_id r = sid" x] by simp
  then show ?thesis unfolding set_stream_priority_alt Let_def bs
    by (cases "get_stream_priority sid s"; cases level) (simp_all add: bs algebra_simps)
qed

lemma enqueue_for_stream_count:
  assumes "buckets_ok s"
  shows "length (concat (stream_buckets (enqueue_for_stream now sid data dst s))) = length (concat (stream_buckets s)) + 1"
proof (rule enqueue_for_stream_buckets [of sid data now dst s])
  fix rec assume e: "stream_buckets (enqueue_for_stream now sid data dst s) = (let r = stream_priority_rank (get_stream_priority sid s)
       in (stream_buckets s)[r := stream_buckets s ! r @ [rec]])"
  have "stream_priority_rank (get_stream_priority sid s) < length (stream_buckets s)"
    using assms stream_priority_rank_less by (simp add: buckets_ok_def)
  from length_concat_update [OF this, of "stream_buckets s ! stream_priority_rank (get_stream_priority sid s) @ [rec]"]
  show ?thesis by (simp add: e Let_def del: length_concat)
qed

lemma ledger_step_inv: "ledger_inv r \<Longrightarrow> ledger_inv (ledger_step ok op r)"
proof (cases r)
  case (fields s n m log slog)
  assume "ledger_inv r"
  then have parts: "l0_ok s" "of_nat n = accounted s + of_nat (refused log)" "sent_total s = of_nat (taken log)" "buckets_ok s"
    "of_nat m = stream_accounted s + of_nat (refused slog)" "stream_sent_total s = of_nat (taken slog)"
    by (simp_all add: ledger_inv_def fields)
  show ?thesis
  proof (cases op)
    case (Enq now p data dst)
    show ?thesis using enqueue_l0 [OF parts(1), of now p data dst] parts buckets_ok_cong [OF parts(4)]
      by (simp add: fields Enq ledger_inv_def stream_accounted_def ledger_other_fields)
  next
    case (Drain k)
    obtain x log' s' where e: "drain_with k (Some (observed ok)) log s = (x, log', s')" by (metis prod_cases3)
    from drain_with_ledger [OF e parts(1)] obtain h where h: "l0_ok s'" "log' = log @ h" "sent_total s' = sent_total s + of_nat (taken h)"
      "accounted s = accounted s' + of_nat (refused h)" "stream_buckets s' = stream_buckets s" "stream_prio s' = stream_prio s"
      "stream_sent_total s' = stream_sent_total s" by metis
    show ?thesis using parts h buckets_ok_cong [OF parts(4) h(5,6)]
      by (simp add: fields Drain e ledger_inv_def stream_accounted_def)
  next
    case (Bwe bps)
    have "queues_ok (queues s)" using parts(1) by (simp add: l0_ok_def)
    note b = on_bwe_update_drops [OF this, of bps]
    have "l0_ok (on_bwe_update bps s)" using b parts(1) drops_queues_ok by (auto simp: l0_ok_def drops_def)
    then show ?thesis using b parts drops_accounted [of s "on_bwe_update bps s"] buckets_ok_cong [OF parts(4)]
      by (simp add: fields Bwe ledger_inv_def stream_accounted_def ledger_other_fields)
  next
    case Reset
    show ?thesis using parts
      by (auto simp: fields Reset ledger_inv_def l0_ok_def accounted_def stream_accounted_def sched_reset_def queues_ok_def buckets_ok_def)
  next
    case (SetPrio sid level)
    show ?thesis using parts set_stream_priority_ok [OF parts(4)] set_stream_priority_count [OF parts(4), of sid level]
      by (simp add: fields SetPrio ledger_inv_def l0_ok_def accounted_def stream_accounted_def ledger_other_fields del: length_concat)
  next
    case (EnqStream now sid data dst)
    show ?thesis using parts enqueue_for_stream_ok [OF parts(4)] enqueue_for_stream_count [OF parts(4), of now sid data dst]
      by (simp add: fields EnqStream ledger_inv_def l0_ok_def accounted_def stream_accounted_def enqueue_for_stream_fields ledger_other_fields del: length_concat)
  next
    case (Select k)
    obtain x slog' s' where e: "select_next_packet k (Some (observed ok)) slog s = (x, slog', s')" by (metis prod_cases3)
    from select_ledger [OF e parts(4)] obtain h where h: "buckets_ok s'" "slog' = slog @ h" "stream_sent_total s' = stream_sent_total s + of_nat (taken h)"
      "stream_accounted s = stream_accounted s' + of_nat (refused h)" "queues s' = queues s" "sched_cfg s' = sched_cfg s"
      "dropped_total s' = dropped_total s" "sent_total s' = sent_total s" by metis
    show ?thesis using parts h by (simp add: fields Select e ledger_inv_def l0_ok_def accounted_def)
  qed
qed

lemma ledger_init_inv: "ledger_inv (new_scheduler c, 0, 0, [], [])"
  by (auto simp: ledger_inv_def l0_ok_def accounted_def stream_accounted_def new_scheduler_def queues_ok_def buckets_ok_def)

interpretation ledger: component "(new_scheduler c, 0, 0, [], [])" "ledger_step ok" ledger_inv
  by unfold_locales (rule ledger_init_inv, rule ledger_step_inv)

lemma queues_sorted:
  assumes "queues_ok (queues s)"
  shows "sorted (map (\<lambda>r. priority_rank (pr_priority r)) (concat (queues s)))"
proof -
  have "sorted (map (\<lambda>r. priority_rank (pr_priority r)) (concat qs))"
    if "\<forall>i < length qs. \<forall>r \<in> set (qs ! i). priority_rank (pr_priority r) = k + i" for qs k
    using that
  proof (induction qs arbitrary: k)
    case (Cons q qs)
    have q: "\<forall>r \<in> set q. priority_rank (pr_priority r) = k" using Cons.prems by force
    have qs: "\<forall>i < length qs. \<forall>r \<in> set (qs ! i). priority_rank (pr_priority r) = Suc k + i" using Cons.prems by force
    then have "\<forall>r \<in> set (concat qs). k \<le> priority_rank (pr_priority r)"
      by (auto simp: in_set_conv_nth [of _ qs])
    moreover have "sorted (map (\<lambda>r. priority_rank (pr_priority r)) q)"
      using q by (induction q) auto
    ultimately show ?case using Cons.IH [OF qs] q by (auto simp: sorted_append)
  qed simp
  from this [of "queues s" 0] assms show ?thesis by (simp add: queues_ok_def)
qed

text \<open>
  C32: conservation, for every sequence of operations and every drain callback, whatever it replies. In every reachable state the cap on queued packets holds and the
  packets are queued in priority order. Every packet enqueued since the last reset is accounted for exactly once (modulo the 32 bits of the counters): it is
  still queued, counted as dropped, counted as sent because the callback took it, or was refused by the callback; on the stream layer likewise, with no drops. A refused
  packet is removed and counted nowhere, although the interface says that a refusal stops the drain (\<open>sched_veto_loses\<close> below).
\<close>

theorem sched_conservation:
  "case fold (ledger_step ok) ops (new_scheduler c, 0, 0, [], []) of (s, n, m, log, slog) \<Rightarrow>
     length (concat (queues s)) \<le> unat (max_queue_depth (sched_cfg s))
     \<and> sorted (map (\<lambda>r. priority_rank (pr_priority r)) (concat (queues s)))
     \<and> of_nat n = of_nat (length (concat (queues s))) + dropped_total s + sent_total s + of_nat (refused log)
     \<and> sent_total s = of_nat (taken log)
     \<and> queued_packets (sched_stats_of s) = of_nat (length (concat (queues s)))
     \<and> of_nat m = of_nat (length (concat (stream_buckets s))) + stream_sent_total s + of_nat (refused slog)
     \<and> stream_sent_total s = of_nat (taken slog)"
proof -
  obtain s n m log slog where e: "fold (ledger_step ok) ops (new_scheduler c, 0, 0, [], []) = (s, n, m, log, slog)" by (metis prod_cases5)
  have inv: "ledger_inv (s, n, m, log, slog)" using ledger.run_inv [of ok ops c] by (simp add: e)
  then show ?thesis using queues_sorted [of s]
    by (simp add: e ledger_inv_def l0_ok_def accounted_def stream_accounted_def sched_stats_of_def total_queued_length del: length_concat)
qed

section \<open>Where the code departs from its documentation\<close>

text \<open>
  The interface says the lowest priority is dropped first. The loop offers the budget to the lowest priority
  first: with the budget of one packet, a best-effort packet stays and the audio packet is dropped.
\<close>

theorem sched_bwe_inversion:
  assumes "queues s = [[], [audio], [], [], [other]]" "avg_packet_size_bytes (sched_cfg s) = 1200"
  shows "queues (on_bwe_update 96000 s) = [[], [], [], [], [other]]"
proof -
  have five: "kPriorityCount = Suc (Suc (Suc (Suc (Suc 0))))" by (simp add: kPriorityCount_def)
  show ?thesis using assms unfolding on_bwe_update_def Let_def total_noncontrol_bytes_def five
    by (simp add: queue_bytes_def bwe_budget_def kDrainsPerSecond_def upt_rec)
qed

text \<open>
  A target rate below one average packet per second, including the documented sender pause at 0, yields
  \<^verbatim>\<open>allowed_per_drain_ = 0\<close>, which a drain reads as \<^emph>\<open>no limit\<close>: whatever is enqueued afterwards is sent in full.
\<close>

theorem sched_low_rate_unlimited:
  assumes "unat bps < 8 * unat (avg_packet_size_bytes (sched_cfg s))" "queues_ok (queues s)" "allowed_per_drain s' = allowed_per_drain (on_bwe_update bps s)"
    and "drain_with m None () s' = (n, c, s'')"
  shows "n = min (max 0 m) (int (length (concat (queues s'))))"
proof -
  have "unat (allowed_per_drain s') = 0"
    using on_bwe_update_drops [OF assms(2), of bps] assms(1,3) by (simp add: bits_to_packets_nat)
  then have a: "allowed_per_drain s' = 0" by (simp add: unat_0_iff)
  have "accepting (None :: unit drain_callback option)" by (simp add: accepting_def call_back_def)
  from drain_with_count(1) [OF this assms(4)] show ?thesis by (auto simp: drain_count_def a)
qed

text \<open>
  A callback that returns false is documented to stop draining immediately. The loop only leaves the current
  queue, and the refused packet is gone: a callback that refuses everything loses the oldest
  packet of every queue, and none of them is counted as dropped or sent.
\<close>

theorem sched_veto_loses:
  assumes "allowed_per_drain s = 0" "0 < m"
  shows "drain_with m (Some (\<lambda>log p data. (False, log @ [(p, data)]))) [] s =
    (0, map (packet_of \<circ> hd) (filter (\<lambda>q. q \<noteq> []) (queues s)),
     s\<lparr>queues := map tl (queues s), packets_sent_this_cycle := 0\<rparr>)"
proof -
  let ?cb = "Some (\<lambda>log p data. (False, log @ [(p, data)]))"
  have one: "drain_queue ?cb 0 avg m q d = (tl q, d\<lparr>ds_cb := ds_cb d @ (if q = [] then [] else [packet_of (hd q)])\<rparr>)"
    if "ds_sent d < m" for avg q d
    using that by (cases q) (simp_all add: limit_hit_def call_back_def packet_of_def)
  have "drain_queues ?cb 0 avg m qs d = (map tl qs, d\<lparr>ds_cb := ds_cb d @ map (packet_of \<circ> hd) (filter (\<lambda>q. q \<noteq> []) qs)\<rparr>)"
    if "ds_sent d < m" for avg qs d
    using that by (induction qs arbitrary: d) (simp_all add: one limit_hit_def)
  then show ?thesis using assms by (simp add: drain_with_def)
qed

text \<open>
  Control packets are documented as never dropped by the scheduler; when only control packets are queued and the
  cap is reached, enqueueing any packet evicts the oldest of them.
\<close>

theorem sched_overflow_drops_control:
  assumes "queues s = [ctl # rest, [], [], [], []]" "unat (max_queue_depth (sched_cfg s)) = length rest + 1"
  shows "\<exists>rec. queues (enqueue now KBestEffort data dst s) = [rest, [], [], [], [rec]]
    \<and> dropped_total (enqueue now KBestEffort data dst s) = dropped_total s + 1"
proof -
  have "unat (max_queue_depth (sched_cfg s)) < 2 ^ 32" using unsigned_less [of "max_queue_depth (sched_cfg s)"] by simp
  then have n: "unat (1 + of_nat (length rest) :: u32) = length rest + 1" "unat (of_nat (length rest) :: u32) = length rest"
    using assms(2) by (simp_all add: unat_word_ariths unat_of_nat)
  show ?thesis
    using assms n
    by (auto simp: enqueue_def enqueue_locked_def make_room_def resolve_dst_def total_queued_def kPriorityCount_def
        Let_def word_le_nat_alt numeral_eq_Suc)
qed

end
