(* ===== verification/Qpack_Tables.thy ===== *)
theory Qpack_Tables
  imports Prelude
begin

text \<open>
  The constant tables of \<^verbatim>\<open>qpack_tables.hpp\<close>: the static table and the Huffman code of
  RFC 9204, as the repository carries them. A field name or value (\<^verbatim>\<open>const char*\<close>,
  \<^verbatim>\<open>std::string\<close>) is its list of bytes. The Huffman tables hold small constants, written as
  natural numbers. The per-symbol table \<^verbatim>\<open>kHuffmanTable\<close>, which no code reads, is left out.
\<close>

definition ascii :: "string \<Rightarrow> bytes" where
  "ascii = map of_char"

definition kStaticTable :: "(bytes \<times> bytes) list" where
  "kStaticTable = map (\<lambda>(n, v). (ascii n, ascii v)) [
    ('':authority'', ''''), ('':path'', ''/''), (''age'', ''0''), (''content-disposition'', ''''),
    (''content-length'', ''0''), (''cookie'', ''''), (''date'', ''''), (''etag'', ''''),
    (''if-modified-since'', ''''), (''if-none-match'', ''''), (''last-modified'', ''''),
    (''link'', ''''), (''location'', ''''), (''referer'', ''''), (''set-cookie'', ''''),
    ('':method'', ''CONNECT''), ('':method'', ''DELETE''), ('':method'', ''GET''),
    ('':method'', ''HEAD''), ('':method'', ''OPTIONS''), ('':method'', ''POST''),
    ('':method'', ''PUT''), ('':scheme'', ''http''), ('':scheme'', ''https''), ('':status'', ''103''),
    ('':status'', ''200''), ('':status'', ''304''), ('':status'', ''404''), ('':status'', ''503''),
    (''accept'', ''*/*''), (''accept'', ''application/dns-message''),
    (''accept-encoding'', ''gzip, deflate, br''), (''accept-ranges'', ''bytes''),
    (''access-control-allow-headers'', ''cache-control''),
    (''access-control-allow-headers'', ''content-type''), (''access-control-allow-origin'', ''*''),
    (''cache-control'', ''max-age=0''), (''cache-control'', ''max-age=2592000''),
    (''cache-control'', ''max-age=604800''), (''cache-control'', ''no-cache''),
    (''cache-control'', ''no-store''), (''cache-control'', ''public, max-age=31536000''),
    (''content-encoding'', ''br''), (''content-encoding'', ''gzip''),
    (''content-type'', ''application/dns-message''), (''content-type'', ''application/javascript''),
    (''content-type'', ''application/json''),
    (''content-type'', ''application/x-www-form-urlencoded''), (''content-type'', ''image/gif''),
    (''content-type'', ''image/jpeg''), (''content-type'', ''image/png''),
    (''content-type'', ''text/css''), (''content-type'', ''text/html; charset=utf-8''),
    (''content-type'', ''text/plain''), (''content-type'', ''text/plain;charset=utf-8''),
    (''range'', ''bytes=0-''), (''strict-transport-security'', ''max-age=31536000''),
    (''strict-transport-security'', ''max-age=31536000; includesubdomains''),
    (''strict-transport-security'', ''max-age=31536000; includesubdomains; preload''),
    (''vary'', ''accept-encoding''), (''vary'', ''origin''), (''x-content-type-options'', ''nosniff''),
    (''x-xss-protection'', ''1; mode=block''), ('':status'', ''100''), ('':status'', ''204''),
    ('':status'', ''206''), ('':status'', ''302''), ('':status'', ''400''), ('':status'', ''403''),
    ('':status'', ''421''), ('':status'', ''425''), ('':status'', ''500''),
    (''accept-language'', ''''), (''access-control-allow-credentials'', ''FALSE''),
    (''access-control-allow-credentials'', ''TRUE''), (''access-control-allow-headers'', ''*''),
    (''access-control-allow-methods'', ''get''),
    (''access-control-allow-methods'', ''get, post, options''),
    (''access-control-allow-methods'', ''options''),
    (''access-control-expose-headers'', ''content-length''),
    (''access-control-request-headers'', ''content-type''),
    (''access-control-request-method'', ''get''), (''access-control-request-method'', ''post''),
    (''alt-svc'', ''clear''), (''authorization'', ''''),
    (''content-security-policy'', ''script-src 'none'; object-src 'none'; base-uri 'none'' @ [CHR 0x27]),
    (''early-data'', ''1''), (''expect-ct'', ''''), (''forwarded'', ''''), (''if-range'', ''''),
    (''origin'', ''''), (''purpose'', ''prefetch''), (''server'', ''''),
    (''timing-allow-origin'', ''*''), (''upgrade-insecure-requests'', ''1''), (''user-agent'', ''''),
    (''x-forwarded-for'', ''''), (''x-frame-options'', ''deny''), (''x-frame-options'', ''sameorigin'')]"

text \<open>The canonical Huffman code, grouped by code length; symbol 256 is EOS.\<close>

definition kHuffmanMaxBits :: nat where
  "kHuffmanMaxBits = 30"

definition kHuffmanCount :: "nat list" where
  "kHuffmanCount = [
    0, 0, 0, 0, 0, 10, 26, 32, 6, 0, 5, 3, 2, 6, 2, 3, 0, 0, 0, 3, 8, 13, 26, 29, 12, 4, 15, 19, 29, 0,
    4]"

definition kHuffmanFirstCode :: "nat list" where
  "kHuffmanFirstCode = [
    0x0, 0x0, 0x0, 0x0, 0x0, 0x0, 0x14, 0x5c, 0xf8, 0x1fc, 0x3f8, 0x7fa, 0xffa, 0x1ff8, 0x3ffc, 0x7ffc,
    0xfffe, 0x1fffc, 0x3fff8, 0x7fff0, 0xfffe6, 0x1fffdc, 0x3fffd2, 0x7fffd8, 0xffffea, 0x1ffffec,
    0x3ffffe0, 0x7ffffde, 0xfffffe2, 0x1ffffffe, 0x3ffffffc]"

definition kHuffmanSymbolStart :: "nat list" where
  "kHuffmanSymbolStart = [
    0, 0, 0, 0, 0, 0, 10, 36, 68, 74, 74, 79, 82, 84, 90, 92, 95, 95, 95, 95, 98, 106, 119, 145, 174,
    186, 190, 205, 224, 253, 253]"

definition kHuffmanSymbols :: "nat list" where
  "kHuffmanSymbols = [
    48, 49, 50, 97, 99, 101, 105, 111, 115, 116, 32, 37, 45, 46, 47, 51, 52, 53, 54, 55, 56, 57, 61,
    65, 95, 98, 100, 102, 103, 104, 108, 109, 110, 112, 114, 117, 58, 66, 67, 68, 69, 70, 71, 72, 73,
    74, 75, 76, 77, 78, 79, 80, 81, 82, 83, 84, 85, 86, 87, 89, 106, 107, 113, 118, 119, 120, 121, 122,
    38, 42, 44, 59, 88, 90, 33, 34, 40, 41, 63, 39, 43, 124, 35, 62, 0, 36, 64, 91, 93, 126, 94, 125,
    60, 96, 123, 92, 195, 208, 128, 130, 131, 162, 184, 194, 224, 226, 153, 161, 167, 172, 176, 177,
    179, 209, 216, 217, 227, 229, 230, 129, 132, 133, 134, 136, 146, 154, 156, 160, 163, 164, 169, 170,
    173, 178, 181, 185, 186, 187, 189, 190, 196, 198, 228, 232, 233, 1, 135, 137, 138, 139, 140, 141,
    143, 147, 149, 150, 151, 152, 155, 157, 158, 165, 166, 168, 174, 175, 180, 182, 183, 188, 191, 197,
    231, 239, 9, 142, 144, 145, 148, 159, 171, 206, 215, 225, 236, 237, 199, 207, 234, 235, 192, 193,
    200, 201, 202, 205, 210, 213, 218, 219, 238, 240, 242, 243, 255, 203, 204, 211, 212, 214, 221, 222,
    223, 241, 244, 245, 246, 247, 248, 250, 251, 252, 253, 254, 2, 3, 4, 5, 6, 7, 8, 11, 12, 14, 15,
    16, 17, 18, 19, 20, 21, 23, 24, 25, 26, 27, 28, 29, 30, 31, 127, 220, 249, 10, 13, 22, 256]"

end
