(* ===== verification/Qpack.thy ===== *)
theory Qpack
  imports Qpack_Tables
begin

text \<open>
  QPACK header compression, \<^verbatim>\<open>web_transport_qpack.cpp\<close>: prefixed integers, string
  literals, the canonical Huffman decoder, the dynamic table with the encoder stream that fills it, and
  the encoding and decoding of field sections.

  A cursor \<^verbatim>\<open>std::span&\<close> is the list of the remaining bytes, returned shorter. A
  decoder that returns \<^verbatim>\<open>false\<close> gives \<open>None\<close>; where a table or vector is indexed an
  outer \<open>None\<close> marks an index out of range. A prefixed integer has at most 63 bits after the
  prefix, so its value fits a \<^verbatim>\<open>uint64_t\<close>; sums of two such values are reduced modulo
  \<open>2^64\<close> as the code's are.
\<close>

section \<open>Integers\<close>

text \<open>The continuation loop of the encoder.\<close>

function encode_rest :: "nat \<Rightarrow> bytes" where
  "encode_rest rest = (if rest \<ge> 128 then of_nat (rest mod 128 + 128) # encode_rest (rest div 128) else [of_nat rest])"
  by pat_completeness auto
termination by (relation "measure id") auto

declare encode_rest.simps [simp del]

definition encode_prefixed_int :: "nat \<Rightarrow> u8 \<Rightarrow> nat \<Rightarrow> bytes" where
  "encode_prefixed_int bits prefix value =
     (let m = 2 ^ bits - 1 in
      if value < m then [prefix OR of_nat value]
      else (prefix OR of_nat m) # encode_rest (value - m))"

text \<open>The continuation loop of the decoder, at bit position \<open>shift\<close>.\<close>

fun decode_rest :: "bytes \<Rightarrow> nat \<Rightarrow> nat \<Rightarrow> (nat \<times> bytes) option" where
  "decode_rest [] shift extra = None"
| "decode_rest (b # data) shift extra =
     (let extra = extra OR push_bit shift (unat (b AND 0x7F)) in
      if b AND 0x80 = 0 then Some (extra, data)
      else if shift + 7 > 56 then None
      else decode_rest data (shift + 7) extra)"

definition decode_prefixed_int :: "nat \<Rightarrow> bytes \<Rightarrow> (nat \<times> bytes) option" where
  "decode_prefixed_int bits data =
     (if bits = 0 \<or> bits > 8 then None
      else case data of
          [] \<Rightarrow> None
        | b # rest \<Rightarrow>
            let m = 2 ^ bits - 1; val = unat b AND m in
            if val < m then Some (val, rest)
            else map_option (\<lambda>(extra, rest). (m + extra, rest)) (decode_rest rest 0 0))"

section \<open>Huffman decoding\<close>

text \<open>The bits of a byte, most significant first, as the inner loop visits them.\<close>

definition bits_of_byte :: "u8 \<Rightarrow> bool list" where
  "bits_of_byte b = map (bit b) [7, 6, 5, 4, 3, 2, 1, 0]"

text \<open>
  One bit: \<open>None\<close> is an index out of range; \<open>Some None\<close> the \<^verbatim>\<open>return false\<close>;
  otherwise the new \<^verbatim>\<open>code\<close>, \<^verbatim>\<open>len\<close> and output. The code has at most 30 bits.
\<close>

definition huffman_bit :: "bool \<Rightarrow> nat \<Rightarrow> nat \<Rightarrow> bytes \<Rightarrow> (nat \<times> nat \<times> bytes) option option" where
  "huffman_bit bt code len out =
     (let code = 2 * code + (if bt then 1 else 0); len = len + 1 in
      if len > kHuffmanMaxBits then Some None
      else do {
        count \<leftarrow> at_index kHuffmanCount len;
        if count = 0 then Some (Some (code, len, out)) else do {
          first \<leftarrow> at_index kHuffmanFirstCode len;
          if code < first \<or> code \<ge> first + count then Some (Some (code, len, out)) else do {
            start \<leftarrow> at_index kHuffmanSymbolStart len;
            symbol \<leftarrow> at_index kHuffmanSymbols (start + (code - first));
            if symbol = 256 then Some None else Some (Some (0, 0, out @ [of_nat symbol]))
          }
        }
      })"

fun huffman_loop :: "bool list \<Rightarrow> nat \<Rightarrow> nat \<Rightarrow> bytes \<Rightarrow> (nat \<times> nat \<times> bytes) option option" where
  "huffman_loop [] code len out = Some (Some (code, len, out))"
| "huffman_loop (b # bs) code len out =
     (case huffman_bit b code len out of
        None \<Rightarrow> None
      | Some None \<Rightarrow> Some None
      | Some (Some (code, len, out)) \<Rightarrow> huffman_loop bs code len out)"

definition huffman_decode :: "bytes \<Rightarrow> bytes option option" where
  "huffman_decode data =
     map_option (\<lambda>r. case r of
         None \<Rightarrow> None
       | Some (code, len, out) \<Rightarrow>
           if len > 7 then None
           else if len > 0 \<and> code \<noteq> 2 ^ len - 1 then None
           else Some out)
       (huffman_loop (concat (map bits_of_byte data)) 0 0 [])"

section \<open>String literals\<close>

definition encode_string_literal :: "bytes \<Rightarrow> bytes" where
  "encode_string_literal value = encode_prefixed_int 7 0 (length value) @ value"

definition decode_string :: "nat \<Rightarrow> bytes \<Rightarrow> (bytes \<times> bytes) option option" where
  "decode_string bits data =
     (if bits < 2 \<or> bits > 8 then Some None
      else case data of
          [] \<Rightarrow> Some None
        | b # _ \<Rightarrow>
            let huffman = bit b (bits - 1) in
            case decode_prefixed_int (bits - 1) data of
              None \<Rightarrow> Some None
            | Some (len, data) \<Rightarrow>
                if len > length data then Some None
                else let raw = take len data; data = drop len data in
                     if \<not> huffman then Some (Some (raw, data))
                     else map_option (map_option (\<lambda>s. (s, data))) (huffman_decode raw))"

section \<open>Tables\<close>

type_synonym field = "bytes \<times> bytes"

definition kStaticTableSize :: nat where
  "kStaticTableSize = length kStaticTable"

definition kEntryOverhead :: nat where
  "kEntryOverhead = 32"

definition kMaxTableCapacity :: nat where
  "kMaxTableCapacity = 4096"

text \<open>The searches return \<open>-1\<close> (here \<open>None\<close>) or the first matching index.\<close>

fun find_index :: "('a \<Rightarrow> bool) \<Rightarrow> 'a list \<Rightarrow> nat option" where
  "find_index P [] = None"
| "find_index P (x # xs) = (if P x then Some 0 else map_option Suc (find_index P xs))"

definition find_static_entry :: "bytes \<Rightarrow> bytes \<Rightarrow> nat option" where
  "find_static_entry name value = find_index (\<lambda>(n, v). name = n \<and> value = v) kStaticTable"

definition find_static_name :: "bytes \<Rightarrow> nat option" where
  "find_static_name name = find_index (\<lambda>(n, v). name = n) kStaticTable"

record qpack_decoder =
  dynamic_table :: "field list"
  insert_count :: nat
  dropped_count :: nat
  capacity :: nat
  table_size :: nat
  encoder_buffer :: bytes
  failed :: bool

definition new_qpack_decoder :: qpack_decoder where
  "new_qpack_decoder = \<lparr>dynamic_table = [], insert_count = 0, dropped_count = 0, capacity = 0,
     table_size = 0, encoder_buffer = [], failed = False\<rparr>"

definition clear_error :: "qpack_decoder \<Rightarrow> qpack_decoder" where
  "clear_error s = s\<lparr>failed := False\<rparr>"

definition entry_size :: "field \<Rightarrow> nat" where
  "entry_size = (\<lambda>(name, value). length name + length value + kEntryOverhead)"

definition evict_oldest :: "qpack_decoder \<Rightarrow> qpack_decoder" where
  "evict_oldest s = (case dynamic_table s of
       [] \<Rightarrow> s
     | e # es \<Rightarrow> s\<lparr>table_size := table_size s - entry_size e, dynamic_table := es, dropped_count := dropped_count s + 1\<rparr>)"

text \<open>The eviction loops: evict while the size plus \<open>extra\<close> exceeds the capacity and entries remain.\<close>

function evict_while :: "nat \<Rightarrow> qpack_decoder \<Rightarrow> qpack_decoder" where
  "evict_while extra s =
     (if table_size s + extra > capacity s \<and> dynamic_table s \<noteq> [] then evict_while extra (evict_oldest s) else s)"
  by pat_completeness auto
termination
  by (relation "measure (\<lambda>(extra, s). length (dynamic_table s))") (auto simp: evict_oldest_def split: list.splits)

declare evict_while.simps [simp del]

definition set_capacity :: "nat \<Rightarrow> qpack_decoder \<Rightarrow> qpack_decoder" where
  "set_capacity c s = evict_while 0 (s\<lparr>capacity := c\<rparr>)"

definition insert_entry :: "bytes \<Rightarrow> bytes \<Rightarrow> qpack_decoder \<Rightarrow> qpack_decoder" where
  "insert_entry name value s =
     (let size = length name + length value + kEntryOverhead in
      if capacity s = 0 \<or> size > capacity s then s\<lparr>failed := True\<rparr>
      else let s = evict_while size s in
           s\<lparr>table_size := table_size s + size, dynamic_table := dynamic_table s @ [(name, value)],
             insert_count := insert_count s + 1\<rparr>)"

text \<open>A null result is \<open>None\<close>.\<close>

definition entry_by_absolute :: "nat \<Rightarrow> qpack_decoder \<Rightarrow> field option" where
  "entry_by_absolute idx s =
     (if idx < dropped_count s then None
      else let offset = idx - dropped_count s in
           if offset \<ge> length (dynamic_table s) then None else Some (dynamic_table s ! offset))"

definition entry_by_relative :: "nat \<Rightarrow> nat \<Rightarrow> qpack_decoder \<Rightarrow> field option" where
  "entry_by_relative idx base s = (if idx \<ge> base then None else entry_by_absolute (base - 1 - idx) s)"

section \<open>Field sections\<close>

text \<open>The reconstruction of the Required Insert Count; \<open>None\<close> is \<^verbatim>\<open>return false\<close>.\<close>

definition required_insert_count :: "nat \<Rightarrow> nat \<Rightarrow> nat option" where
  "required_insert_count encoded inserted =
     (if encoded = 0 then Some 0
      else let max_entries = kMaxTableCapacity div kEntryOverhead; full_range = 2 * max_entries in
           if encoded > full_range then None
           else let max_value = inserted + max_entries;
                    max_wrapped = (max_value div full_range) * full_range;
                    ric = max_wrapped + encoded - 1
                in if ric > max_value
                   then if ric \<le> full_range then None
                        else if ric - full_range = 0 then None else Some (ric - full_range)
                   else if ric = 0 then None else Some ric)"

definition field_base :: "bool \<Rightarrow> nat \<Rightarrow> nat \<Rightarrow> nat option" where
  "field_base negative ric delta =
     (if negative then if ric \<le> delta then None else Some (ric - delta - 1)
      else Some ((ric + delta) mod 2 ^ 64))"

text \<open>
  One field line. The outer \<open>None\<close> is an index out of range, \<open>Some None\<close> is
  \<^verbatim>\<open>return false\<close>.
\<close>

definition static_entry :: "nat \<Rightarrow> field option option" where
  "static_entry idx = (if idx \<ge> kStaticTableSize then Some None else map_option Some (at_index kStaticTable idx))"

definition with_value :: "bytes \<Rightarrow> bytes \<Rightarrow> (field \<times> bytes) option option" where
  "with_value name rem = map_option (map_option (\<lambda>(value, rem). ((name, value), rem))) (decode_string 8 rem)"

definition decode_field_line :: "nat \<Rightarrow> qpack_decoder \<Rightarrow> bytes \<Rightarrow> (field \<times> bytes) option option" where
  "decode_field_line base s rem = do {
     first \<leftarrow> rd rem 0;
     if first AND 0x80 \<noteq> 0 then
       (case decode_prefixed_int 6 rem of
          None \<Rightarrow> Some None
        | Some (idx, rem) \<Rightarrow>
            map_option (map_option (\<lambda>e. (e, rem)))
              (if first AND 0x40 \<noteq> 0 then static_entry idx else Some (entry_by_relative idx base s)))
     else if first AND 0xC0 = 0x40 then
       (case decode_prefixed_int 4 rem of
          None \<Rightarrow> Some None
        | Some (idx, rem) \<Rightarrow> do {
            e \<leftarrow> (if first AND 0x10 \<noteq> 0 then static_entry idx else Some (entry_by_relative idx base s));
            case e of None \<Rightarrow> Some None | Some (name, _) \<Rightarrow> with_value name rem
          })
     else if first AND 0xE0 = 0x20 then do {
       r \<leftarrow> decode_string 4 rem;
       case r of None \<Rightarrow> Some None | Some (name, rem) \<Rightarrow> with_value name rem
     }
     else if first AND 0xF0 = 0x10 then
       (case decode_prefixed_int 4 rem of
          None \<Rightarrow> Some None
        | Some (idx, rem) \<Rightarrow>
            Some (map_option (\<lambda>e. (e, rem)) (entry_by_absolute ((base + idx) mod 2 ^ 64) s)))
     else
       (case decode_prefixed_int 3 rem of
          None \<Rightarrow> Some None
        | Some (idx, rem) \<Rightarrow>
            (case entry_by_absolute ((base + idx) mod 2 ^ 64) s of
               None \<Rightarrow> Some None
             | Some (name, _) \<Rightarrow> with_value name rem))
   }"

lemma decode_rest_shrinks: "decode_rest data shift extra = Some (v, rest) \<Longrightarrow> length rest < length data"
  by (induction data shift extra rule: decode_rest.induct) (auto simp: Let_def split: if_splits)

lemma decode_prefixed_int_shrinks: "decode_prefixed_int bits data = Some (v, rest) \<Longrightarrow> length rest < length data"
  by (auto simp: decode_prefixed_int_def Let_def split: if_splits list.splits dest!: decode_rest_shrinks)

lemma decode_string_shrinks: "decode_string bits data = Some (Some (v, rest)) \<Longrightarrow> length rest < length data"
  by (auto simp: decode_string_def Let_def split: if_splits list.splits option.splits dest!: decode_prefixed_int_shrinks)

lemma with_value_shrinks: "with_value name data = Some (Some (f, rest)) \<Longrightarrow> length rest < length data"
  by (auto simp: with_value_def dest!: decode_string_shrinks)

lemma decode_field_line_shrinks: "decode_field_line base s rem = Some (Some (f, rest)) \<Longrightarrow> length rest < length rem"
  by (auto simp: decode_field_line_def split: if_splits option.splits Option.bind_splits prod.splits
      dest!: decode_prefixed_int_shrinks decode_string_shrinks with_value_shrinks)

text \<open>The loop over the field lines, with the fields decoded so far also when it fails.\<close>

function decode_lines :: "nat \<Rightarrow> qpack_decoder \<Rightarrow> bytes \<Rightarrow> field list \<Rightarrow> (bool \<times> field list) option" where
  "decode_lines base s rem out =
     (if rem = [] then Some (True, out)
      else case decode_field_line base s rem of
          None \<Rightarrow> None
        | Some None \<Rightarrow> Some (False, out)
        | Some (Some (f, rem)) \<Rightarrow> decode_lines base s rem (out @ [f]))"
  by pat_completeness auto
termination
  by (relation "measure (\<lambda>(base, s, rem, out). length rem)") (auto dest: decode_field_line_shrinks)

declare decode_lines.simps [simp del]

definition decode :: "bytes \<Rightarrow> qpack_decoder \<Rightarrow> (bool \<times> field list) option" where
  "decode block s =
     (case decode_prefixed_int 8 block of
        None \<Rightarrow> Some (False, [])
      | Some (encoded, rem) \<Rightarrow>
          (case rem of
             [] \<Rightarrow> Some (False, [])
           | b # _ \<Rightarrow>
               let negative = b AND 0x40 \<noteq> 0 in
               case decode_prefixed_int 7 rem of
                 None \<Rightarrow> Some (False, [])
               | Some (delta, rem) \<Rightarrow>
                   (case required_insert_count encoded (insert_count s) of
                      None \<Rightarrow> Some (False, [])
                    | Some ric \<Rightarrow>
                        (case field_base negative ric delta of
                           None \<Rightarrow> Some (False, [])
                         | Some base \<Rightarrow> decode_lines base s rem []))))"

section \<open>Encoder stream\<close>

datatype 'a instruction = NeedMore | Malformed | Executed 'a bytes

text \<open>One instruction of the encoder stream. The outer \<open>None\<close> is an index out of range.\<close>

definition relative_to_inserts :: "nat \<Rightarrow> qpack_decoder \<Rightarrow> field option" where
  "relative_to_inserts idx s =
     (if idx \<ge> insert_count s then None else entry_by_absolute (insert_count s - 1 - idx) s)"

definition encoder_instruction :: "qpack_decoder \<Rightarrow> bytes \<Rightarrow> qpack_decoder instruction option" where
  "encoder_instruction s rem = do {
     first \<leftarrow> rd rem 0;
     if first AND 0x80 \<noteq> 0 then
       (case decode_prefixed_int 6 rem of
          None \<Rightarrow> Some NeedMore
        | Some (idx, rem) \<Rightarrow> do {
            r \<leftarrow> decode_string 8 rem;
            case r of
              None \<Rightarrow> Some NeedMore
            | Some (value, rem) \<Rightarrow> do {
                e \<leftarrow> (if first AND 0x40 \<noteq> 0 then static_entry idx else Some (relative_to_inserts idx s));
                case e of
                  None \<Rightarrow> Some Malformed
                | Some (name, _) \<Rightarrow> Some (Executed (insert_entry name value s) rem)
              }
          })
     else if first AND 0xC0 = 0x40 then do {
       r \<leftarrow> decode_string 6 rem;
       case r of
         None \<Rightarrow> Some NeedMore
       | Some (name, rem) \<Rightarrow> do {
           r \<leftarrow> decode_string 8 rem;
           case r of
             None \<Rightarrow> Some NeedMore
           | Some (value, rem) \<Rightarrow> Some (Executed (insert_entry name value s) rem)
         }
     }
     else if first AND 0xE0 = 0x20 then
       (case decode_prefixed_int 5 rem of
          None \<Rightarrow> Some NeedMore
        | Some (c, rem) \<Rightarrow> if c > kMaxTableCapacity then Some Malformed else Some (Executed (set_capacity c s) rem))
     else
       (case decode_prefixed_int 5 rem of
          None \<Rightarrow> Some NeedMore
        | Some (idx, rem) \<Rightarrow>
            (case relative_to_inserts idx s of
               None \<Rightarrow> Some Malformed
             | Some (name, value) \<Rightarrow> Some (Executed (insert_entry name value s) rem)))
   }"

lemma encoder_instruction_shrinks: "encoder_instruction s rem = Some (Executed s' rest) \<Longrightarrow> length rest < length rem"
  by (auto simp: encoder_instruction_def split: if_splits option.splits Option.bind_splits prod.splits
      dest!: decode_prefixed_int_shrinks decode_string_shrinks)

function feed_loop :: "qpack_decoder \<Rightarrow> bytes \<Rightarrow> qpack_decoder option" where
  "feed_loop s rem =
     (if rem = [] then Some (s\<lparr>encoder_buffer := []\<rparr>)
      else case encoder_instruction s rem of
          None \<Rightarrow> None
        | Some NeedMore \<Rightarrow> Some s
        | Some Malformed \<Rightarrow> Some (s\<lparr>failed := True\<rparr>)
        | Some (Executed s rem) \<Rightarrow> feed_loop s rem)"
  by pat_completeness auto
termination
  by (relation "measure (\<lambda>(s, rem). length rem)") (auto dest: encoder_instruction_shrinks)

declare feed_loop.simps [simp del]

definition feed_encoder_stream :: "bytes \<Rightarrow> qpack_decoder \<Rightarrow> qpack_decoder option" where
  "feed_encoder_stream data s =
     (let s = s\<lparr>encoder_buffer := encoder_buffer s @ data\<rparr> in feed_loop s (encoder_buffer s))"

section \<open>Encoding\<close>

definition encode_field :: "field \<Rightarrow> bytes" where
  "encode_field = (\<lambda>(name, value).
     case find_static_entry name value of
       Some i \<Rightarrow> encode_prefixed_int 6 0xC0 i
     | None \<Rightarrow>
         (case find_static_name name of
            Some i \<Rightarrow> encode_prefixed_int 4 0x50 i @ encode_string_literal value
          | None \<Rightarrow> encode_prefixed_int 3 0x20 (length name) @ name @ encode_string_literal value))"

definition encode_field_section :: "field list \<Rightarrow> bytes" where
  "encode_field_section fs = [0x00, 0x00] @ concat (map encode_field fs)"

section \<open>Round trip of integers\<close>

lemma or_add_shift:
  fixes extra x :: nat
  assumes "extra < 2 ^ shift"
  shows "extra OR push_bit shift x = extra + x * 2 ^ shift"
proof -
  have "take_bit shift extra = extra" using assms by (rule take_bit_nat_eq_self)
  then have "\<not> bit extra n" if "shift \<le> n" for n using that by (metis bit_take_bit_iff not_le)
  then have "extra AND push_bit shift x = 0" by (intro bit_eqI) (auto simp: bit_simps)
  then show ?thesis by (simp add: disjunctive_add_eq_or [symmetric] push_bit_eq_mult)
qed

lemma continuation_byte:
  "unat ((of_nat (n mod 128 + 128) :: u8) AND 0x7F) = n mod 128" "(of_nat (n mod 128 + 128) :: u8) AND 0x80 \<noteq> 0"
  "n < 128 \<Longrightarrow> unat ((of_nat n :: u8) AND 0x7F) = n" "n < 128 \<Longrightarrow> (of_nat n :: u8) AND 0x80 = 0"
proof -
  have m: "(0x7F :: u8) = mask 7" by (simp add: mask_eq_exp_minus_1)
  have low: "unat ((of_nat k :: u8) AND 0x7F) = k mod 128" for k
    unfolding m take_bit_eq_mask [symmetric]
    by (simp only: unsigned_take_bit_eq) (simp add: unat_of_nat take_bit_eq_mod mod_mod_cancel)
  have b7: "(of_nat k :: u8) AND 0x80 = 0 \<longleftrightarrow> \<not> bit k 7" for k :: nat
    by (simp add: flag_simps bit_simps)
  show "unat ((of_nat (n mod 128 + 128) :: u8) AND 0x7F) = n mod 128" by (simp only: low) simp
  show "(of_nat (n mod 128 + 128) :: u8) AND 0x80 \<noteq> 0" by (simp only: b7) (simp add: bit_iff_odd div_add_self2)
  show "n < 128 \<Longrightarrow> unat ((of_nat n :: u8) AND 0x7F) = n" by (simp add: low)
  show "n < 128 \<Longrightarrow> (of_nat n :: u8) AND 0x80 = 0" by (simp only: b7) (simp add: bit_iff_odd)
qed

lemma decode_rest_encode:
  "rest < 2 ^ (63 - shift) \<Longrightarrow> shift \<le> 56 \<Longrightarrow> 7 dvd shift \<Longrightarrow> extra < 2 ^ shift \<Longrightarrow>
     decode_rest (encode_rest rest @ ys) shift extra = Some (extra + rest * 2 ^ shift, ys)"
proof (induction rest arbitrary: shift extra rule: encode_rest.induct)
  case (1 rest)
  show ?case
  proof (cases "rest \<ge> 128")
    case False
    then show ?thesis using 1(5)
      by (subst encode_rest.simps) (simp add: continuation_byte or_add_shift)
  next
    case True
    have "(2::nat) ^ 7 < 2 ^ (63 - shift)" using True 1(2) by simp
    then have "7 < 63 - shift" by (rule power_less_imp_less_exp [rotated]) simp
    then have "shift < 56" by simp
    then have s: "shift + 7 \<le> 56" using 1(4) by (auto elim!: dvdE)
    let ?e = "extra + (rest mod 128) * 2 ^ shift"
    have "63 - shift = 7 + (63 - (shift + 7))" using s by simp
    then have "(2::nat) ^ (63 - shift) = 2 ^ 7 * 2 ^ (63 - (shift + 7))" by (metis power_add)
    then have "(2::nat) ^ (63 - shift) = 128 * 2 ^ (63 - (shift + 7))" by simp
    then have "rest div 128 < 2 ^ (63 - (shift + 7))" using 1(2) by (simp add: less_mult_imp_div_less mult.commute)
    moreover have "?e < 2 ^ (shift + 7)"
    proof -
      have "(rest mod 128) * 2 ^ shift \<le> 127 * 2 ^ shift" by (intro mult_right_mono) auto
      moreover have "(2::nat) ^ (shift + 7) = 128 * 2 ^ shift" by (simp add: power_add)
      ultimately show ?thesis using 1(5) by linarith
    qed
    moreover have "7 dvd shift + 7" using 1(4) by simp
    ultimately have "decode_rest (encode_rest (rest div 128) @ ys) (shift + 7) ?e = Some (?e + rest div 128 * 2 ^ (shift + 7), ys)"
      using 1(1) [OF True, of "shift + 7" ?e] s by blast
    moreover have "?e + rest div 128 * 2 ^ (shift + 7) = extra + rest * 2 ^ shift"
    proof -
      have "(rest mod 128) * 2 ^ shift + rest div 128 * 128 * 2 ^ shift = rest * 2 ^ shift"
        by (metis add.commute distrib_right div_mult_mod_eq)
      then show ?thesis by (simp add: power_add mult.commute mult.left_commute)
    qed
    ultimately show ?thesis using s True 1(5) continuation_byte(1,2) [of rest]
      by (subst encode_rest.simps) (simp add: or_add_shift Let_def)
  qed
qed

text \<open>The first byte of the encodings in use carries the prefix above the integer.\<close>

definition prefix_ok :: "nat \<Rightarrow> u8 \<Rightarrow> bool" where
  "prefix_ok bits prefix \<longleftrightarrow> 0 < bits \<and> bits \<le> 8 \<and> list_all (\<lambda>x. unat (prefix OR of_nat x) AND (2 ^ bits - 1) = x) [0..<2 ^ bits]"

lemma prefixed_int_roundtrip:
  assumes "prefix_ok bits prefix" "v < 2 ^ 63"
  shows "decode_prefixed_int bits (encode_prefixed_int bits prefix v @ ys) = Some (v, ys)"
proof -
  define m :: nat where "m = 2 ^ bits - 1"
  have first: "unat (prefix OR of_nat x) AND m = x" if "x \<le> m" for x
    using assms(1) that by (auto simp: prefix_ok_def list_all_iff m_def)
  have b: "\<not> (bits = 0 \<or> bits > 8)" using assms(1) by (simp add: prefix_ok_def)
  show ?thesis
  proof (cases "v < m")
    case True
    then show ?thesis using b first [of v]
      by (simp add: encode_prefixed_int_def decode_prefixed_int_def Let_def m_def)
  next
    case False
    then have "decode_rest (encode_rest (v - m) @ ys) 0 0 = Some (v - m, ys)"
      using decode_rest_encode [of "v - m" 0 0 ys] assms(2) by simp
    then show ?thesis using False b first [of m]
      by (simp add: encode_prefixed_int_def decode_prefixed_int_def Let_def m_def)
  qed
qed

lemma prefixes_ok: "prefix_ok 6 0xC0" "prefix_ok 4 0x50" "prefix_ok 3 0x20" "prefix_ok 7 0"
  unfolding prefix_ok_def by code_simp+


section \<open>Round trip of strings and field lines\<close>

lemma encode_prefixed_int_Cons:
  "\<exists>x xs. encode_prefixed_int bits prefix v = (prefix OR of_nat x) # xs \<and> x < 2 ^ bits"
proof -
  define m :: nat where "m = 2 ^ bits - 1"
  have "encode_prefixed_int bits prefix v = (if v < m then [prefix OR of_nat v] else (prefix OR of_nat m) # encode_rest (v - m))"
    by (simp only: encode_prefixed_int_def Let_def m_def)
  moreover have "m < 2 ^ bits" by (simp add: m_def)
  ultimately show ?thesis by (cases "v < m") auto
qed

text \<open>What the leading bits of the first byte say, checked for every value of the integer's bits.\<close>

lemma first_bytes:
  "x < 128 \<Longrightarrow> \<not> bit ((0 :: u8) OR of_nat x) 7"
  "x < 8 \<Longrightarrow> \<not> bit ((0x20 :: u8) OR of_nat x) 3"
  "x < 64 \<Longrightarrow> (0xC0 OR of_nat x :: u8) AND 0x80 \<noteq> 0 \<and> (0xC0 OR of_nat x :: u8) AND 0x40 \<noteq> 0"
  "x < 16 \<Longrightarrow> (0x50 OR of_nat x :: u8) AND 0x80 = 0 \<and> (0x50 OR of_nat x :: u8) AND 0xC0 = 0x40 \<and> (0x50 OR of_nat x :: u8) AND 0x10 \<noteq> 0"
  "x < 8 \<Longrightarrow> (0x20 OR of_nat x :: u8) AND 0x80 = 0 \<and> (0x20 OR of_nat x :: u8) AND 0xC0 \<noteq> 0x40 \<and> (0x20 OR of_nat x :: u8) AND 0xE0 = 0x20"
proof -
  have all: "list_all (\<lambda>x. \<not> bit ((0 :: u8) OR of_nat x) 7) [0..<128]"
    "list_all (\<lambda>x. \<not> bit ((0x20 :: u8) OR of_nat x) 3) [0..<8]"
    "list_all (\<lambda>x. (0xC0 OR of_nat x :: u8) AND 0x80 \<noteq> 0 \<and> (0xC0 OR of_nat x :: u8) AND 0x40 \<noteq> 0) [0..<64]"
    "list_all (\<lambda>x. (0x50 OR of_nat x :: u8) AND 0x80 = 0 \<and> (0x50 OR of_nat x :: u8) AND 0xC0 = 0x40 \<and> (0x50 OR of_nat x :: u8) AND 0x10 \<noteq> 0) [0..<16]"
    "list_all (\<lambda>x. (0x20 OR of_nat x :: u8) AND 0x80 = 0 \<and> (0x20 OR of_nat x :: u8) AND 0xC0 \<noteq> 0x40 \<and> (0x20 OR of_nat x :: u8) AND 0xE0 = 0x20) [0..<8]"
    by code_simp+
  show "x < 128 \<Longrightarrow> \<not> bit ((0 :: u8) OR of_nat x) 7" using all(1) by (simp only: list_all_iff set_upt) auto
  show "x < 8 \<Longrightarrow> \<not> bit ((0x20 :: u8) OR of_nat x) 3" using all(2) by (simp only: list_all_iff set_upt) auto
  show "x < 64 \<Longrightarrow> (0xC0 OR of_nat x :: u8) AND 0x80 \<noteq> 0 \<and> (0xC0 OR of_nat x :: u8) AND 0x40 \<noteq> 0"
    using all(3) by (simp only: list_all_iff set_upt) auto
  show "x < 16 \<Longrightarrow> (0x50 OR of_nat x :: u8) AND 0x80 = 0 \<and> (0x50 OR of_nat x :: u8) AND 0xC0 = 0x40 \<and> (0x50 OR of_nat x :: u8) AND 0x10 \<noteq> 0"
    using all(4) by (simp only: list_all_iff set_upt) auto
  show "x < 8 \<Longrightarrow> (0x20 OR of_nat x :: u8) AND 0x80 = 0 \<and> (0x20 OR of_nat x :: u8) AND 0xC0 \<noteq> 0x40 \<and> (0x20 OR of_nat x :: u8) AND 0xE0 = 0x20"
    using all(5) by (simp only: list_all_iff set_upt) auto
qed

lemma decode_string_raw:
  assumes "prefix_ok (bits - 1) prefix" "2 \<le> bits" "bits \<le> 8" "length v < 2 ^ 63"
    and "\<And>x. x < 2 ^ (bits - 1) \<Longrightarrow> \<not> bit (prefix OR of_nat x) (bits - 1)"
  shows "decode_string bits (encode_prefixed_int (bits - 1) prefix (length v) @ v @ ys) = Some (Some (v, ys))"
proof -
  obtain x xs where e: "encode_prefixed_int (bits - 1) prefix (length v) = (prefix OR of_nat x) # xs" "x < 2 ^ (bits - 1)"
    using encode_prefixed_int_Cons by blast
  show ?thesis
    using prefixed_int_roundtrip [OF assms(1,4), of "v @ ys"] assms(2,3) assms(5) [OF e(2)]
    unfolding e(1) by (simp add: decode_string_def Let_def)
qed

lemma string_literal_roundtrip:
  "length v < 2 ^ 63 \<Longrightarrow> decode_string 8 (encode_string_literal v @ ys) = Some (Some (v, ys))"
  using decode_string_raw [of 8 0 v ys] prefixes_ok(4) first_bytes(1)
  by (simp add: encode_string_literal_def)

lemma find_index_Some: "find_index P xs = Some i \<Longrightarrow> i < length xs \<and> P (xs ! i)"
  by (induction xs arbitrary: i) (auto split: if_splits)

lemma static_entry_Some: "i < kStaticTableSize \<Longrightarrow> static_entry i = Some (Some (kStaticTable ! i))"
  by (simp add: static_entry_def kStaticTableSize_def wire_simps)

lemma kStaticTableSize_99: "kStaticTableSize = 99"
  by (simp add: kStaticTableSize_def kStaticTable_def)

lemma encode_field_roundtrip:
  assumes "length name < 2 ^ 63" "length v < 2 ^ 63"
  shows "decode_field_line base s (encode_field (name, v) @ ys) = Some (Some ((name, v), ys))"
proof (cases "find_static_entry name v")
  case (Some i)
  then have i: "i < kStaticTableSize" "kStaticTable ! i = (name, v)"
    using find_index_Some by (fastforce simp: find_static_entry_def kStaticTableSize_def)+
  obtain x xs where e: "encode_prefixed_int 6 0xC0 i = (0xC0 OR of_nat x) # xs" "x < 2 ^ 6"
    using encode_prefixed_int_Cons by blast
  have "decode_prefixed_int 6 (encode_prefixed_int 6 0xC0 i @ ys) = Some (i, ys)"
    by (rule prefixed_int_roundtrip [OF prefixes_ok(1)]) (use i in \<open>simp add: kStaticTableSize_99\<close>)
  then show ?thesis
    using e first_bytes(3) [of x] Some i by (simp add: encode_field_def decode_field_line_def wire_simps static_entry_Some)
next
  case exact: None
  show ?thesis
  proof (cases "find_static_name name")
    case (Some i)
    then have i: "i < kStaticTableSize" "\<exists>w. kStaticTable ! i = (name, w)"
      using find_index_Some by (fastforce simp: find_static_name_def kStaticTableSize_def)+
    obtain x xs where e: "encode_prefixed_int 4 0x50 i = (0x50 OR of_nat x) # xs" "x < 2 ^ 4"
      using encode_prefixed_int_Cons by blast
    have "decode_prefixed_int 4 (encode_prefixed_int 4 0x50 i @ encode_string_literal v @ ys) = Some (i, encode_string_literal v @ ys)"
      by (rule prefixed_int_roundtrip [OF prefixes_ok(2)]) (use i in \<open>simp add: kStaticTableSize_99\<close>)
    then show ?thesis
      using e first_bytes(4) [of x] exact Some i string_literal_roundtrip [OF assms(2)]
      by (auto simp: encode_field_def decode_field_line_def wire_simps static_entry_Some with_value_def)
  next
    case None
    obtain x xs where e: "encode_prefixed_int 3 0x20 (length name) = (0x20 OR of_nat x) # xs" "x < 2 ^ 3"
      using encode_prefixed_int_Cons by blast
    have "decode_string 4 (encode_prefixed_int 3 0x20 (length name) @ name @ encode_string_literal v @ ys)
        = Some (Some (name, encode_string_literal v @ ys))"
      using decode_string_raw [of 4 "0x20" name "encode_string_literal v @ ys"] prefixes_ok(3) first_bytes(2) assms(1) by simp
    then show ?thesis
      using e first_bytes(5) [of x] exact None string_literal_roundtrip [OF assms(2)]
      by (simp add: encode_field_def decode_field_line_def wire_simps with_value_def)
  qed
qed

lemma decode_lines_encoded:
  assumes "list_all (\<lambda>(n, v). length n < 2 ^ 63 \<and> length v < 2 ^ 63) fs"
  shows "decode_lines base s (concat (map encode_field fs)) out = Some (True, out @ fs)"
  using assms
proof (induction fs arbitrary: out)
  case Nil
  then show ?case by (simp add: decode_lines.simps)
next
  case (Cons f fs)
  obtain n v where f: "f = (n, v)" by (cases f)
  have "encode_field (n, v) \<noteq> []"
    using encode_prefixed_int_Cons by (auto simp: encode_field_def split: option.split) (metis list.distinct(1))+
  moreover have "decode_field_line base s (encode_field (n, v) @ concat (map encode_field fs)) = Some (Some ((n, v), concat (map encode_field fs)))"
    by (rule encode_field_roundtrip) (use Cons.prems f in auto)
  ultimately show ?case
    using Cons f by (subst decode_lines.simps) simp
qed

section \<open>The Huffman tables\<close>

lemma huffman_lengths:
  "length kHuffmanCount = 31" "length kHuffmanFirstCode = 31" "length kHuffmanSymbolStart = 31"
  "length kHuffmanSymbols = 257"
  by (simp_all add: kHuffmanCount_def kHuffmanFirstCode_def kHuffmanSymbolStart_def kHuffmanSymbols_def)

lemma huffman_canonical_list:
  "map2 (\<lambda>f c. 2 * (f + c)) (butlast kHuffmanFirstCode) (butlast kHuffmanCount) = tl kHuffmanFirstCode"
  by (simp add: kHuffmanCount_def kHuffmanFirstCode_def)

lemma huffman_symbols_fit: "list_all2 (\<lambda>s c. s + c \<le> 257) kHuffmanSymbolStart kHuffmanCount"
  by (simp add: kHuffmanCount_def kHuffmanSymbolStart_def)

lemma huffman_starts_list: "map2 (+) (butlast kHuffmanSymbolStart) (butlast kHuffmanCount) = tl kHuffmanSymbolStart"
  by (simp add: kHuffmanCount_def kHuffmanSymbolStart_def)

lemma eos_last: "256 \<notin> set (butlast kHuffmanSymbols)" "last kHuffmanSymbols = 256"
  by (simp_all add: kHuffmanSymbols_def)

lemma huffman_ends: "kHuffmanSymbolStart ! 0 = 0" "kHuffmanSymbolStart ! 30 + kHuffmanCount ! 30 = 257"
  by (simp_all add: kHuffmanCount_def kHuffmanSymbolStart_def)

text \<open>The code is canonical: the codes of one length continue where the shorter ones end.\<close>

lemma huffman_canonical:
  assumes "l < 30"
  shows "kHuffmanFirstCode ! (l + 1) = 2 * (kHuffmanFirstCode ! l + kHuffmanCount ! l)"
    "kHuffmanSymbolStart ! (l + 1) = kHuffmanSymbolStart ! l + kHuffmanCount ! l"
  using arg_cong [OF huffman_canonical_list, of "\<lambda>xs. xs ! l"] arg_cong [OF huffman_starts_list, of "\<lambda>xs. xs ! l"] assms
  by (simp_all add: nth_tl nth_butlast huffman_lengths)

lemma huffman_first_grows:
  "l < m \<Longrightarrow> m \<le> 30 \<Longrightarrow> (kHuffmanFirstCode ! l + kHuffmanCount ! l) * 2 ^ (m - l) \<le> kHuffmanFirstCode ! m"
proof (induction m)
  case (Suc m)
  have step: "kHuffmanFirstCode ! Suc m = 2 * (kHuffmanFirstCode ! m + kHuffmanCount ! m)"
    using huffman_canonical [of m] Suc.prems by simp
  show ?case
  proof (cases "l = m")
    case False
    then have "(kHuffmanFirstCode ! l + kHuffmanCount ! l) * 2 ^ (m - l) \<le> kHuffmanFirstCode ! m"
      using Suc by simp
    moreover have "(2::nat) ^ (Suc m - l) = 2 * 2 ^ (m - l)" using False Suc.prems by (simp add: Suc_diff_le)
    ultimately show ?thesis by (simp add: step)
  qed (simp add: step)
qed simp

lemma huffman_bit_eq:
  assumes "len < 30"
  shows "huffman_bit b code len out =
    (let code = 2 * code + of_bool b; len = len + 1; count = kHuffmanCount ! len; first = kHuffmanFirstCode ! len in
     if count = 0 \<or> code < first \<or> code \<ge> first + count then Some (Some (code, len, out))
     else let symbol = kHuffmanSymbols ! (kHuffmanSymbolStart ! len + (code - first)) in
          if symbol = 256 then Some None else Some (Some (0, 0, out @ [of_nat symbol])))"
proof -
  have fit: "kHuffmanSymbolStart ! (len + 1) + kHuffmanCount ! (len + 1) \<le> 257"
    using huffman_symbols_fit assms by (simp add: list_all2_conv_all_nth huffman_lengths)
  show ?thesis
    using assms fit by (auto simp: huffman_bit_def Let_def kHuffmanMaxBits_def at_index_def huffman_lengths of_bool_def)
qed

lemma huffman_bit_safe: "huffman_bit b code len out \<noteq> None"
proof (cases "len < 30")
  case True
  then show ?thesis by (auto simp: huffman_bit_eq Let_def)
qed (simp add: huffman_bit_def kHuffmanMaxBits_def)

lemma huffman_loop_safe: "huffman_loop bs code len out \<noteq> None"
  by (induction bs code len out rule: huffman_loop.induct) (auto simp: huffman_bit_safe split: option.split)

text \<open>Reading the bits of a code, most significant first, yields its symbol.\<close>

definition code_bits :: "nat \<Rightarrow> nat \<Rightarrow> bool list" where
  "code_bits len code = map (bit code) (rev [0..<len])"

lemma double_div: "2 * (c div 2 ^ Suc n) + of_bool (bit c n) = (c :: nat) div 2 ^ n"
proof -
  define d where "d = c div 2 ^ n"
  have "c div 2 ^ Suc n = d div 2" by (simp add: d_def div_mult2_eq [symmetric] mult.commute)
  moreover have "bit c n = odd d" by (simp add: d_def bit_iff_odd)
  ultimately show ?thesis by (cases "odd d") (simp_all add: d_def [symmetric])
qed

lemma huffman_loop_code:
  assumes L: "L \<le> 30" and c: "kHuffmanFirstCode ! L \<le> c" "c < kHuffmanFirstCode ! L + kHuffmanCount ! L"
    and x: "kHuffmanSymbols ! (kHuffmanSymbolStart ! L + (c - kHuffmanFirstCode ! L)) \<noteq> 256"
  shows "0 < n \<Longrightarrow> n \<le> L \<Longrightarrow> huffman_loop (code_bits n c) (c div 2 ^ n) (L - n) out =
    Some (Some (0, 0, out @ [of_nat (kHuffmanSymbols ! (kHuffmanSymbolStart ! L + (c - kHuffmanFirstCode ! L)))]))"
proof (induction n)
  case (Suc n)
  have bits: "code_bits (Suc n) c = bit c n # code_bits n c" by (simp add: code_bits_def)
  have len: "L - Suc n < 30" "L - Suc n + 1 = L - n" using Suc.prems L by auto
  show ?case
  proof (cases "n = 0")
    case True
    then show ?thesis
      using c x len double_div [of c 0] unfolding bits
      by (simp add: huffman_bit_eq Let_def code_bits_def)
  next
    case False
    have "(kHuffmanFirstCode ! (L - n) + kHuffmanCount ! (L - n)) * 2 ^ n \<le> c"
      using huffman_first_grows [of "L - n" L] L c(1) False Suc.prems by simp
    then have "kHuffmanFirstCode ! (L - n) + kHuffmanCount ! (L - n) \<le> c div 2 ^ n"
      by (simp add: less_eq_div_iff_mult_less_eq)
    then have "huffman_bit (bit c n) (c div 2 ^ Suc n) (L - Suc n) out = Some (Some (c div 2 ^ n, L - n, out))"
      using len double_div [of c n] by (simp add: huffman_bit_eq Let_def del: power_Suc)
    then show ?thesis using Suc False unfolding bits by simp
  qed
qed simp

text \<open>The code of a symbol, by its position in \<^verbatim>\<open>kHuffmanSymbols\<close> (the rule stated above that table).\<close>

definition huffman_len :: "nat \<Rightarrow> nat" where
  "huffman_len p = length (takeWhile (\<lambda>l. kHuffmanSymbolStart ! l + kHuffmanCount ! l \<le> p) [0..<31])"

definition huffman_code :: "nat \<Rightarrow> nat" where
  "huffman_code p = kHuffmanFirstCode ! huffman_len p + (p - kHuffmanSymbolStart ! huffman_len p)"

definition symbol_code :: "u8 \<Rightarrow> bool list option" where
  "symbol_code b = map_option (\<lambda>p. code_bits (huffman_len p) (huffman_code p)) (find_index (\<lambda>y. y = unat b) kHuffmanSymbols)"

lemma huffman_len_interval:
  assumes "p < 257"
  defines "l \<equiv> huffman_len p"
  shows "0 < l" "l \<le> 30" "kHuffmanSymbolStart ! l \<le> p" "p < kHuffmanSymbolStart ! l + kHuffmanCount ! l"
proof -
  let ?P = "\<lambda>l. kHuffmanSymbolStart ! l + kHuffmanCount ! l \<le> p"
  have l: "l = length (takeWhile ?P [0..<31])" by (simp add: l_def huffman_len_def)
  have pre: "?P j" if "j < l" for j
    using that set_takeWhileD [of j ?P "[0..<31]"] takeWhile_nth [of j ?P "[0..<31]"] length_takeWhile_le [of ?P "[0..<31]"]
    by (metis (no_types, lifting) add.left_neutral l length_upt less_le_trans minus_nat.diff_0 nth_mem nth_upt set_takeWhileD)
  have "\<not> l > 30" using pre [of 30] huffman_ends(2) assms(1) by auto
  then show "l \<le> 30" by simp
  then have "\<not> ?P ([0..<31] ! l)" using nth_length_takeWhile [of ?P "[0..<31]"] l by simp
  then show upper: "p < kHuffmanSymbolStart ! l + kHuffmanCount ! l" using \<open>l \<le> 30\<close> by simp
  have "kHuffmanCount ! 0 = 0" by (simp add: kHuffmanCount_def)
  then show "0 < l" using upper huffman_ends(1) by (metis add_0 less_nat_zero_code neq0_conv)
  then obtain j where "l = j + 1" by (metis add.commute gr0_conv_Suc plus_1_eq_Suc)
  then show "kHuffmanSymbolStart ! l \<le> p" using pre [of j] huffman_canonical(2) [of j] \<open>l \<le> 30\<close> by simp
qed

lemma huffman_loop_append:
  "huffman_loop xs code len out = Some (Some (code', len', out')) \<Longrightarrow>
     huffman_loop (xs @ ys) code len out = huffman_loop ys code' len' out'"
  by (induction xs code len out rule: huffman_loop.induct) (auto split: option.splits)

lemma huffman_loop_symbol:
  assumes "symbol_code b = Some bs"
  shows "huffman_loop bs 0 0 out = Some (Some (0, 0, out @ [b]))"
proof -
  obtain p where p: "find_index (\<lambda>y. y = unat b) kHuffmanSymbols = Some p" "bs = code_bits (huffman_len p) (huffman_code p)"
    using assms by (auto simp: symbol_code_def)
  then have sym: "kHuffmanSymbols ! p = unat b" and "p < 257"
    using find_index_Some [OF p(1)] by (auto simp: huffman_lengths)
  define L where "L = huffman_len p"
  note iv = huffman_len_interval [OF \<open>p < 257\<close>, folded L_def]
  have c: "huffman_code p = kHuffmanFirstCode ! L + (p - kHuffmanSymbolStart ! L)" by (simp add: huffman_code_def L_def)
  have pos: "kHuffmanSymbolStart ! L + (huffman_code p - kHuffmanFirstCode ! L) = p" using iv(3) by (simp add: c)
  have small: "unat b < 256" using unsigned_less [of b] by simp
  have "huffman_loop (code_bits L (huffman_code p)) (huffman_code p div 2 ^ L) (L - L) out = Some (Some (0, 0, out @ [of_nat (unat b)]))"
    using huffman_loop_code [of L "huffman_code p" L out] iv sym small unfolding pos by (simp add: c)
  moreover have "huffman_code p div 2 ^ L = 0"
  proof -
    have "(kHuffmanFirstCode ! L + kHuffmanCount ! L) \<le> 2 ^ L" if "L \<le> 30" for L
    proof (rule ccontr)
      assume "\<not> ?thesis"
      moreover have "(kHuffmanFirstCode ! L + kHuffmanCount ! L) * 2 ^ (30 - L) \<le> kHuffmanFirstCode ! 30 + kHuffmanCount ! 30"
        using huffman_first_grows [of L 30] that by (cases "L = 30") (auto intro: trans_le_add1)
      moreover have "kHuffmanFirstCode ! 30 + kHuffmanCount ! 30 = 2 ^ 30" by (simp add: kHuffmanFirstCode_def kHuffmanCount_def)
      moreover have "(2::nat) ^ L * 2 ^ (30 - L) = 2 ^ 30" using that by (simp flip: power_add)
      ultimately show False by (metis leD mult_less_cancel2 not_le zero_less_numeral zero_less_power)
    qed
    then have le: "kHuffmanFirstCode ! L + kHuffmanCount ! L \<le> 2 ^ L" using iv(2) by blast
    have "p - kHuffmanSymbolStart ! L < kHuffmanCount ! L" using iv(3,4) by linarith
    then have "huffman_code p < kHuffmanFirstCode ! L + kHuffmanCount ! L" unfolding c by linarith
    then show ?thesis using le by (intro div_less) linarith
  qed
  ultimately show ?thesis by (simp add: p(2) L_def)
qed

lemma huffman_loop_symbols:
  "those (map symbol_code s) = Some cs \<Longrightarrow> huffman_loop (concat cs @ ys) 0 0 out = huffman_loop ys 0 0 (out @ s)"
proof (induction s arbitrary: cs out)
  case (Cons b s)
  then obtain bs cs' where "symbol_code b = Some bs" "those (map symbol_code s) = Some cs'" "cs = bs # cs'"
    by (auto split: option.splits)
  then show ?case using Cons.IH huffman_loop_append [OF huffman_loop_symbol] by simp
qed simp

lemma huffman_loop_padding:
  "j + k \<le> 7 \<Longrightarrow> huffman_loop (replicate k True) (2 ^ j - 1) j out = Some (Some (2 ^ (j + k) - 1, j + k, out))"
proof (induction k arbitrary: j)
  case (Suc k)
  have "j \<in> {0, 1, 2, 3, 4, 5, 6}" using Suc.prems by auto
  then have "huffman_bit True (2 ^ j - 1) j out = Some (Some (2 ^ (j + 1) - 1, j + 1, out))"
    by (elim insertE) (simp_all add: huffman_bit_eq Let_def kHuffmanCount_def kHuffmanFirstCode_def)
  moreover have "huffman_loop (replicate k True) (2 ^ (j + 1) - 1) (j + 1) out = Some (Some (2 ^ (j + 1 + k) - 1, j + 1 + k, out))"
    using Suc.IH [of "j + 1"] Suc.prems by simp
  ultimately show ?case by (simp del: power_Suc)
qed simp

section \<open>The dynamic table\<close>

text \<open>The size the table should have, and the longest suffix of a table that fits a capacity beside \<open>extra\<close> bytes.\<close>

definition entries_size :: "field list \<Rightarrow> nat" where
  "entries_size es = sum_list (map entry_size es)"

primrec fitting :: "nat \<Rightarrow> nat \<Rightarrow> field list \<Rightarrow> field list" where
  "fitting cap extra [] = []"
| "fitting cap extra (e # es) = (if entries_size (e # es) + extra > cap then fitting cap extra es else e # es)"

lemma entries_size_simps [simp]:
  "entries_size [] = 0" "entries_size (e # es) = entry_size e + entries_size es"
  "entries_size (es @ fs) = entries_size es + entries_size fs"
  by (simp_all add: entries_size_def)

lemma fitting_fits: "fitting cap extra es \<noteq> [] \<Longrightarrow> entries_size (fitting cap extra es) + extra \<le> cap"
  by (induction es) (auto split: if_splits)

lemma fitting_size: "extra \<le> cap \<Longrightarrow> entries_size (fitting cap extra es) + extra \<le> cap"
  using fitting_fits [of cap extra es] by (cases "fitting cap extra es = []") auto

lemma fitting_length: "length (fitting cap extra es) \<le> length es"
  by (induction es) (auto split: if_splits)

lemma fitting_drop: "fitting cap extra es = drop (length es - length (fitting cap extra es)) es"
proof (induction es)
  case (Cons e es)
  have "Suc (length es) - length (fitting cap extra es) = Suc (length es - length (fitting cap extra es))"
    using fitting_length [of cap extra es] by simp
  then show ?case using Cons by (simp split: if_split)
qed simp

text \<open>No longer suffix fits: the table evicts no more entries than it has to.\<close>

lemma fitting_longest:
  "entries_size (drop n es) + extra \<le> cap \<Longrightarrow> length (drop n es) \<le> length (fitting cap extra es)"
proof (induction es arbitrary: n)
  case (Cons e es)
  then show ?case
  proof (cases n)
    case (Suc m)
    then have "length (drop m es) \<le> length (fitting cap extra es)" using Cons by simp
    then show ?thesis using Suc fitting_length [of cap extra es] by (simp split: if_split)
  qed (use Cons.prems in simp)
qed simp

lemma fitting_append:
  "entry_size e \<le> cap \<Longrightarrow> fitting cap 0 (es @ [e]) = fitting cap (entry_size e) es @ [e]"
  by (induction es) (auto simp: ac_simps)

definition qpack_inv :: "qpack_decoder \<Rightarrow> bool" where
  "qpack_inv s \<longleftrightarrow> table_size s = entries_size (dynamic_table s) \<and> table_size s \<le> capacity s
     \<and> capacity s \<le> kMaxTableCapacity \<and> insert_count s = dropped_count s + length (dynamic_table s)"

lemma evict_while_eq:
  assumes "table_size s = entries_size (dynamic_table s)"
  shows "evict_while extra s = (let t = fitting (capacity s) extra (dynamic_table s) in
    s\<lparr>table_size := entries_size t, dynamic_table := t,
      dropped_count := dropped_count s + (length (dynamic_table s) - length t)\<rparr>)"
  using assms
proof (induction extra s rule: evict_while.induct)
  case (1 extra s)
  show ?case
  proof (cases "dynamic_table s")
    case Nil
    then show ?thesis using 1(2) by (subst evict_while.simps) simp
  next
    case (Cons e es)
    let ?t = "fitting (capacity s) extra es"
    have size: "table_size s = entry_size e + entries_size es" using 1(2) Cons by simp
    show ?thesis
    proof (cases "table_size s + extra > capacity s")
      case True
      have ev: "evict_oldest s = s\<lparr>table_size := entries_size es, dynamic_table := es, dropped_count := dropped_count s + 1\<rparr>"
        using Cons size by (simp add: evict_oldest_def)
      have "evict_while extra (evict_oldest s) = s\<lparr>table_size := entries_size ?t, dynamic_table := ?t,
          dropped_count := dropped_count s + 1 + (length es - length ?t)\<rparr>"
        using 1(1) True Cons by (simp add: ev Let_def)
      moreover have "1 + (length es - length ?t) = length (e # es) - length ?t"
        using fitting_length [of "capacity s" extra es] by simp
      ultimately show ?thesis using True Cons size
        by (subst evict_while.simps) (simp add: Let_def add.assoc)
    next
      case False
      then show ?thesis using Cons size by (subst evict_while.simps) simp
    qed
  qed
qed

lemma set_capacity_eq:
  assumes "qpack_inv s"
  shows "set_capacity c s = (let t = fitting c 0 (dynamic_table s) in
    s\<lparr>capacity := c, table_size := entries_size t, dynamic_table := t, dropped_count := dropped_count s + (length (dynamic_table s) - length t)\<rparr>)"
  using assms by (simp add: set_capacity_def evict_while_eq qpack_inv_def)

lemma insert_entry_eq:
  assumes "qpack_inv s" "capacity s \<noteq> 0" "entry_size (name, v) \<le> capacity s"
  shows "insert_entry name v s = (let t = fitting (capacity s) (entry_size (name, v)) (dynamic_table s) in
    s\<lparr>table_size := entries_size (t @ [(name, v)]), dynamic_table := t @ [(name, v)],
      dropped_count := dropped_count s + (length (dynamic_table s) - length t), insert_count := insert_count s + 1\<rparr>)"
  using assms evict_while_eq [of s "entry_size (name, v)"]
  by (simp add: insert_entry_def entry_size_def Let_def qpack_inv_def)

lemma insert_entry_refused:
  "capacity s = 0 \<or> entry_size (name, v) > capacity s \<Longrightarrow> insert_entry name v s = s\<lparr>failed := True\<rparr>"
  by (auto simp: insert_entry_def entry_size_def Let_def)

lemma set_capacity_inv: "qpack_inv s \<Longrightarrow> c \<le> kMaxTableCapacity \<Longrightarrow> qpack_inv (set_capacity c s)"
  using fitting_size [of 0 c "dynamic_table s"] fitting_length [of c 0 "dynamic_table s"]
  by (simp add: set_capacity_eq Let_def) (simp add: qpack_inv_def)

lemma insert_entry_inv:
  assumes "qpack_inv s"
  shows "qpack_inv (insert_entry name v s)"
proof (cases "capacity s = 0 \<or> entry_size (name, v) > capacity s")
  case True
  then show ?thesis using assms by (simp add: insert_entry_refused qpack_inv_def)
next
  case False
  then show ?thesis
    using assms fitting_size [of "entry_size (name, v)" "capacity s" "dynamic_table s"]
      fitting_length [of "capacity s" "entry_size (name, v)" "dynamic_table s"]
    by (simp add: insert_entry_eq Let_def) (simp add: qpack_inv_def)
qed

section \<open>Safety of the decoders\<close>

lemma huffman_decode_safe: "huffman_decode data \<noteq> None"
  by (simp add: huffman_decode_def huffman_loop_safe)

lemma decode_string_safe: "decode_string bits data \<noteq> None"
  by (auto simp: decode_string_def Let_def huffman_decode_safe simp del: not_None_eq split: list.split option.split)

lemma static_entry_safe: "static_entry i \<noteq> None"
  by (simp add: static_entry_def kStaticTableSize_def wire_simps)

lemma with_value_safe: "with_value name rem \<noteq> None"
  by (simp add: with_value_def decode_string_safe)

lemma decode_field_line_safe: "rem \<noteq> [] \<Longrightarrow> decode_field_line base s rem \<noteq> None"
  by (auto simp: decode_field_line_def wire_simps decode_string_safe static_entry_safe with_value_safe bind_eq_None_conv
      simp del: not_None_eq split: option.split)

lemma decode_lines_safe: "decode_lines base s rem out \<noteq> None"
proof (induction base s rem out rule: decode_lines.induct)
  case (1 base s rem out)
  then show ?case
    by (subst decode_lines.simps) (auto dest: decode_field_line_safe [THEN notE, rotated] simp del: not_None_eq split: option.split)
qed

lemma decode_safe: "decode block s \<noteq> None"
  by (auto simp: decode_def Let_def decode_lines_safe simp del: not_None_eq split: option.split list.split)

lemma encoder_instruction_safe: "rem \<noteq> [] \<Longrightarrow> encoder_instruction s rem \<noteq> None"
  by (auto simp: encoder_instruction_def wire_simps decode_string_safe static_entry_safe bind_eq_None_conv
      simp del: not_None_eq split: option.split)

lemma encoder_instruction_inv:
  "encoder_instruction s rem = Some (Executed s' rest) \<Longrightarrow> qpack_inv s \<Longrightarrow> qpack_inv s'"
  by (auto simp: encoder_instruction_def insert_entry_inv set_capacity_inv
      split: if_splits option.splits Option.bind_splits prod.splits)

lemma feed_loop_inv: "qpack_inv s \<Longrightarrow> \<exists>s'. feed_loop s rem = Some s' \<and> qpack_inv s'"
proof (induction s rem rule: feed_loop.induct)
  case (1 s rem)
  show ?case
  proof (cases "rem = []")
    case True
    then show ?thesis using 1(2) by (simp add: feed_loop.simps qpack_inv_def)
  next
    case False
    then obtain i where i: "encoder_instruction s rem = Some i" using encoder_instruction_safe by blast
    show ?thesis
      using 1 False i encoder_instruction_inv [of s rem]
      by (subst feed_loop.simps) (cases i; auto simp: qpack_inv_def)
  qed
qed

section \<open>Runs of the decoder\<close>

text \<open>
  The calls the HTTP/3 handler makes; \<^verbatim>\<open>decode\<close> leaves the state as it is. \<open>None\<close> is an index out
  of range.
\<close>

datatype qpack_op = FeedEncoderStream bytes | ClearError

fun qpack_step :: "qpack_op \<Rightarrow> qpack_decoder option \<Rightarrow> qpack_decoder option" where
  "qpack_step (FeedEncoderStream data) s = s \<bind> feed_encoder_stream data"
| "qpack_step ClearError s = map_option clear_error s"

definition qpack_ok :: "qpack_decoder option \<Rightarrow> bool" where
  "qpack_ok r = (case r of None \<Rightarrow> False | Some s \<Rightarrow> qpack_inv s)"

lemma feed_encoder_stream_inv: "qpack_inv s \<Longrightarrow> \<exists>s'. feed_encoder_stream data s = Some s' \<and> qpack_inv s'"
  unfolding feed_encoder_stream_def Let_def by (rule feed_loop_inv) (simp add: qpack_inv_def)

lemma qpack_step_ok: "qpack_ok r \<Longrightarrow> qpack_ok (qpack_step op r)"
proof (cases op)
  case (FeedEncoderStream data)
  assume "qpack_ok r"
  then obtain s where "r = Some s" "qpack_inv s" by (auto simp: qpack_ok_def split: option.splits)
  then show ?thesis using FeedEncoderStream feed_encoder_stream_inv [of s data] by (auto simp: qpack_ok_def)
qed (auto simp: qpack_ok_def clear_error_def qpack_inv_def split: option.splits)

interpretation qp: component "Some new_qpack_decoder" qpack_step qpack_ok
  by unfold_locales (simp add: qpack_ok_def qpack_inv_def new_qpack_decoder_def, rule qpack_step_ok)

lemma entries_count: "32 * length es \<le> entries_size es"
  by (induction es) (auto simp: entry_size_def kEntryOverhead_def)

text \<open>
  What the table implements: the capacity, every entry inserted so far, and how many of the most recent
  ones are kept. Capacity changes and inserts are the effects of the encoder stream's instructions.
\<close>

datatype table_op = InsertEntry bytes bytes | SetCapacity nat

fun table_step :: "table_op \<Rightarrow> qpack_decoder \<Rightarrow> qpack_decoder" where
  "table_step (InsertEntry name v) s = insert_entry name v s"
| "table_step (SetCapacity c) s = (if c \<le> kMaxTableCapacity then set_capacity c s else s)"

fun window_step :: "table_op \<Rightarrow> nat \<times> nat \<times> field list \<Rightarrow> nat \<times> nat \<times> field list" where
  "window_step (InsertEntry name v) (cap, gone, es) =
     (if cap = 0 \<or> entry_size (name, v) > cap then (cap, gone, es)
      else let es' = fitting cap 0 (es @ [(name, v)]) in (cap, gone + (length es + 1 - length es'), es'))"
| "window_step (SetCapacity c) (cap, gone, es) =
     (if c \<le> 4096 then let es' = fitting c 0 es in (c, gone + (length es - length es'), es') else (cap, gone, es))"

definition window_of :: "qpack_decoder \<Rightarrow> nat \<times> nat \<times> field list" where
  "window_of s = (capacity s, dropped_count s, dynamic_table s)"

lemma table_step_inv: "qpack_inv s \<Longrightarrow> qpack_inv (table_step op s)"
  by (cases op) (simp_all add: insert_entry_inv set_capacity_inv)

lemma table_simulation: "qpack_inv s \<Longrightarrow> window_of (table_step op s) = window_step op (window_of s)"
proof (cases op)
  case (InsertEntry name v)
  assume inv: "qpack_inv s"
  show ?thesis
  proof (cases "capacity s = 0 \<or> entry_size (name, v) > capacity s")
    case True
    then show ?thesis using InsertEntry by (simp add: window_of_def insert_entry_refused)
  next
    case False
    then show ?thesis using InsertEntry inv
      by (simp add: window_of_def insert_entry_eq Let_def fitting_append)
  qed
qed (simp add: window_of_def set_capacity_eq Let_def kMaxTableCapacity_def)

interpretation qt: refinement new_qpack_decoder table_step qpack_inv window_of window_step
  by unfold_locales (simp add: qpack_inv_def new_qpack_decoder_def, rule table_step_inv, simp, rule table_simulation, simp)

section \<open>Properties\<close>

text \<open>
  C20: a header block that the encoder produced decodes, whatever the state of the dynamic table, to exactly
  the fields that were encoded, in order.
\<close>

theorem qpack_section_roundtrip:
  assumes "list_all (\<lambda>(name, v). length name < 2 ^ 63 \<and> length v < 2 ^ 63) fs"
  shows "decode (encode_field_section fs) s = Some (True, fs)"
proof -
  have "decode_prefixed_int 8 (0 # 0 # xs) = Some (0, 0 # xs)" "decode_prefixed_int 7 (0 # xs) = Some (0, xs)" for xs
    by (simp_all add: decode_prefixed_int_def)
  then show ?thesis using decode_lines_encoded [OF assms]
    by (simp add: decode_def encode_field_section_def required_insert_count_def field_base_def)
qed

theorem qpack_section_roundtrip_witness:
  "decode (encode_field_section [([0x3A, 0x70, 0x61, 0x74, 0x68], [0x2F]), ([0x61], [0x62])]) new_qpack_decoder
     = Some (True, [([0x3A, 0x70, 0x61, 0x74, 0x68], [0x2F]), ([0x61], [0x62])])"
  by (rule qpack_section_roundtrip) simp

text \<open>
  C21: a string written with the code that the canonical tables define, padded to whole bytes with fewer
  than eight one bits, is decoded to that string: the optimised table-driven decoder inverts the
  symbol-by-symbol encoding.
\<close>

theorem qpack_huffman_roundtrip:
  assumes "those (map symbol_code s) = Some cs" "k \<le> 7"
    and "concat (map bits_of_byte data) = concat cs @ replicate k True"
  shows "huffman_decode data = Some (Some s)"
proof -
  have "huffman_loop (concat cs @ replicate k True) 0 0 [] = Some (Some (2 ^ k - 1, k, s))"
    using huffman_loop_symbols [OF assms(1), of "replicate k True" "[]"] huffman_loop_padding [of 0 k s] assms(2) by simp
  then show ?thesis using assms(2) by (simp add: huffman_decode_def assms(3))
qed

lemma symbol_code_a: "symbol_code 97 = Some [False, False, False, True, True]"
proof -
  have "find_index (\<lambda>y. y = 97) kHuffmanSymbols = Some 3" by (simp add: kHuffmanSymbols_def)
  moreover have "huffman_len 3 = 5" by (simp add: huffman_len_def upt_rec kHuffmanSymbolStart_def kHuffmanCount_def)
  moreover have "huffman_code 3 = 3"
    using calculation(2) by (simp add: huffman_code_def kHuffmanSymbolStart_def kHuffmanFirstCode_def)
  ultimately show ?thesis by (simp add: symbol_code_def code_bits_def upt_rec bit_iff_odd)
qed

theorem qpack_huffman_roundtrip_witness: "huffman_decode [0x1F] = Some (Some [97])"
proof (rule qpack_huffman_roundtrip)
  show "those (map symbol_code [97]) = Some [[False, False, False, True, True]]" by (simp add: symbol_code_a)
  show "concat (map bits_of_byte [0x1F]) = concat [[False, False, False, True, True]] @ replicate 3 True"
    by (simp add: bits_of_byte_def numeral_3_eq_3)
qed simp

text \<open>
  C22: whatever bytes a peer sends on its encoder stream, and whatever header blocks it sends, no table is
  indexed out of range, the dynamic table never exceeds its capacity, which never exceeds the advertised
  4096 bytes, so that it never holds more than 128 entries, and its size and index counters agree with its
  contents.
\<close>

theorem qpack_decoder_safe:
  "\<exists>s. fold qpack_step ops (Some new_qpack_decoder) = Some s
     \<and> table_size s = sum_list (map entry_size (dynamic_table s)) \<and> table_size s \<le> capacity s \<and> capacity s \<le> 4096
     \<and> length (dynamic_table s) \<le> 128 \<and> insert_count s = dropped_count s + length (dynamic_table s)
     \<and> (\<exists>ok fields. decode block s = Some (ok, fields))"
proof -
  obtain s where s: "fold qpack_step ops (Some new_qpack_decoder) = Some s" "qpack_inv s"
    using qp.run_inv [of ops] by (auto simp: qpack_ok_def split: option.splits)
  then show ?thesis
    using entries_count [of "dynamic_table s"] decode_safe [of block s]
    by (auto simp: qpack_inv_def kMaxTableCapacity_def entries_size_def [symmetric])
qed

text \<open>
  C24: the dynamic table is the longest run of the most recent insertions that fits the capacity, numbered
  from the first insertion ever made: after any sequence of insertions and capacity changes an absolute
  index finds the entry that the abstract window has at that position, or nothing when it was evicted or is
  still to come.
\<close>

theorem qpack_table_refines_window:
  "let s = fold table_step ops new_qpack_decoder; (cap, gone, es) = fold window_step ops (0, 0, []) in
     capacity s = cap \<and> dropped_count s = gone \<and> dynamic_table s = es
     \<and> entry_by_absolute i s = (if gone \<le> i \<and> i < gone + length es then Some (es ! (i - gone)) else None)"
proof -
  have "window_of new_qpack_decoder = (0, 0, [])" by (simp add: window_of_def new_qpack_decoder_def)
  then have "window_of (fold table_step ops new_qpack_decoder) = fold window_step ops (0, 0, [])"
    using qt.run_abs [of ops] by simp
  then show ?thesis
    by (cases "fold window_step ops (0, 0, [])") (auto simp: Let_def window_of_def entry_by_absolute_def)
qed

text \<open>
  Where the decoder departs from its contract. An instruction that ends in a later segment makes
  \<^verbatim>\<open>feed_encoder_stream\<close> keep the whole buffer, so the instructions already executed run again with the next
  segment; the sign of the Delta Base is read from bit 6 and not from bit 7 of its byte; a block that fails
  leaves the fields decoded before the failure.
\<close>

theorem qpack_split_instruction_replayed:
  "map_option dynamic_table (feed_encoder_stream ([0x3F, 0x61, 0x41, 0x61, 0x01, 0x62] @ [0x41, 0x63, 0x01, 0x64]) new_qpack_decoder)
      = Some [([0x61], [0x62]), ([0x63], [0x64])]
   \<and> map_option dynamic_table (feed_encoder_stream ([0x3F, 0x61, 0x41, 0x61, 0x01, 0x62] @ [0x41]) new_qpack_decoder
         \<bind> feed_encoder_stream [0x63, 0x01, 0x64])
      = Some [([0x61], [0x62]), ([0x61], [0x62]), ([0x63], [0x64])]"
  by (intro conjI) code_simp+

theorem qpack_sign_bit_misread:
  "map_option (\<lambda>s. (dynamic_table s, insert_count s)) (feed_encoder_stream [0x3F, 0x61, 0x41, 0x61, 0x01, 0x62] new_qpack_decoder)
      = Some ([([0x61], [0x62])], 1)
   \<and> (insert_count s = 1 \<and> dropped_count s = 0 \<and> dynamic_table s = [([0x61], [0x62])] \<longrightarrow> decode [0x02, 0x80, 0x10] s = Some (False, []))"
proof (intro conjI impI)
  show "map_option (\<lambda>s. (dynamic_table s, insert_count s)) (feed_encoder_stream [0x3F, 0x61, 0x41, 0x61, 0x01, 0x62] new_qpack_decoder)
      = Some ([([0x61], [0x62])], 1)" by code_simp
  assume s: "insert_count s = 1 \<and> dropped_count s = 0 \<and> dynamic_table s = [([0x61], [0x62])]"
  have p: "decode_prefixed_int 8 [0x02, 0x80, 0x10] = Some (2, [0x80, 0x10])" "decode_prefixed_int 7 [0x80, 0x10] = Some (0, [0x10])"
    "decode_prefixed_int 4 [0x10] = Some (0, [])"
    by (simp_all add: decode_prefixed_int_def)
  then show "decode [0x02, 0x80, 0x10] s = Some (False, [])"
    using s by (simp add: decode_def required_insert_count_def kMaxTableCapacity_def kEntryOverhead_def field_base_def
        decode_lines.simps decode_field_line_def wire_simps entry_by_absolute_def)
qed

theorem qpack_failure_keeps_fields:
  "decode [0x00, 0x00, 0xC1, 0x10] new_qpack_decoder = Some (False, [(ascii '':path'', ascii ''/'')])"
proof -
  have p: "decode_prefixed_int 8 [0, 0, 0xC1, 0x10] = Some (0, [0, 0xC1, 0x10])" "decode_prefixed_int 7 [0, 0xC1, 0x10] = Some (0, [0xC1, 0x10])"
    "decode_prefixed_int 6 [0xC1, 0x10] = Some (1, [0x10])" "decode_prefixed_int 4 [0x10] = Some (0, [])"
    by (simp_all add: decode_prefixed_int_def)
  have "static_entry 1 = Some (Some (ascii '':path'', ascii ''/''))"
    by (simp add: static_entry_Some kStaticTableSize_99) (simp add: kStaticTable_def ascii_def)
  then show ?thesis using p
    by (simp add: decode_def required_insert_count_def field_base_def new_qpack_decoder_def
        decode_lines.simps decode_field_line_def wire_simps entry_by_absolute_def)
qed

end
