(* ===== verification/Video_Jitter_Buffer.thy ===== *)
theory Video_Jitter_Buffer
  imports Adaptive_Delay H264_Payload "HOL-Library.Signed_Division"
begin

text \<open>
  The video jitter buffer, \<^verbatim>\<open>src/modules/video_jb/src/video_jitter_buffer.cpp\<close>: packets are grouped into
  frames by RTP timestamp, FU-A fragments are put back together with the parser of \<^verbatim>\<open>H264_Payload\<close>, complete
  frames are handed out, in adaptive mode not before the playout delay of \<^verbatim>\<open>Adaptive_Delay\<close>, and
  missing sequence numbers are reported.

  The \<^verbatim>\<open>std::map\<close> of buckets is an association list in key order. Times and media clocks are integers (the
  64-bit values stay far from overflow); integer division truncates. \<open>fl\<close> is the rounding of
  \<^verbatim>\<open>double\<close> arithmetic. An outer \<open>None\<close> is an access outside a payload.
\<close>

section \<open>Data\<close>

datatype codec_kind = CodecUnknown | CodecH264 | CodecH265 | CodecVP8 | CodecVP9 | CodecAV1

datatype vj_mode = LowLatency | Live | Interactive

record vj_config =
  vj_mode :: vj_mode
  max_inflight_frames :: u32
  max_wait_ms :: u32
  emit_nacks :: bool
  vj_base_delay :: int
  vj_min_delay :: int
  vj_max_delay :: int
  vj_adaptive :: bool
  vj_jitter_multiplier :: rat

definition default_vj_config :: vj_config where
  "default_vj_config = \<lparr>vj_mode = LowLatency, max_inflight_frames = 8, max_wait_ms = 200, emit_nacks = True,
     vj_base_delay = 0, vj_min_delay = 0, vj_max_delay = 0, vj_adaptive = False, vj_jitter_multiplier = 4\<rparr>"

record inbound_packet =
  in_ssrc :: u32
  in_seq :: u16
  in_timestamp :: u32
  arrival_us :: int
  in_marker :: bool
  in_payload_type :: u8
  in_codec :: codec_kind
  in_payload :: bytes

record assembled_frame =
  af_ssrc :: u32
  af_timestamp :: u32
  frame_seq :: u32
  capture_ts_us :: u64
  is_keyframe :: bool
  af_codec :: codec_kind
  af_bitstream :: bytes
  af_complete :: bool

record frame_bucket =
  fb_ssrc :: u32
  fb_timestamp :: u32
  first_seq :: u16
  fb_last_seq :: u16
  first_arrival_us :: int
  last_arrival_us :: int
  fb_codec :: codec_kind
  bitstream :: bytes
  received_seqs :: "u16 list"
  marker_seen :: bool
  emitted :: bool
  fu_a_in_progress :: bool
  fu_a_nalu_type :: u8
  fu_a_nri :: u8
  fu_a_buf :: bytes
  fu_a_start_seq :: u16

record vj_stats =
  packets_inserted :: nat
  packets_reordered :: nat
  vj_packets_dropped :: nat
  vj_frames_emitted :: nat
  frames_incomplete :: nat
  nacks_emitted :: nat
  vj_current_delay :: int
  vj_current_jitter :: int

definition no_vj_stats :: vj_stats where
  "no_vj_stats = \<lparr>packets_inserted = 0, packets_reordered = 0, vj_packets_dropped = 0, vj_frames_emitted = 0,
     frames_incomplete = 0, nacks_emitted = 0, vj_current_delay = 0, vj_current_jitter = 0\<rparr>"

record video_jitter_buffer =
  vj_cfg :: vj_config
  buckets :: "(u32 \<times> frame_bucket) list"
  pending_incomplete :: "assembled_frame list"
  bucket_pending_keyframe :: bool
  frame_seq_counter :: u32
  vj_counts :: vj_stats
  vj_tracker :: delay_tracker
  last_rtp_ts :: "u32 option"
  prev_media_us :: int
  have_prev_media_us :: bool
  frame_interval_us :: int

section \<open>Helpers\<close>

definition kVideoClockRateHz :: int where
  "kVideoClockRateHz = 90000"

fun mode_defaults :: "vj_mode \<Rightarrow> int \<times> int \<times> int" where
  "mode_defaults Live = (50, 20, 400)"
| "mode_defaults Interactive = (80, 50, 800)"
| "mode_defaults LowLatency = (20, 20, 200)"

definition ts_delta :: "u32 \<Rightarrow> u32 \<Rightarrow> int" where
  "ts_delta newer older = sint (newer - older)"

definition seq_delta :: "u16 \<Rightarrow> u16 \<Rightarrow> int" where
  "seq_delta newer older =
     (let d = uint newer - uint older;
          d = (if d > 32767 then d - 65536 else d)
      in if d < -32768 then d + 65536 else d)"

definition is_fu_a :: "bytes \<Rightarrow> bool" where
  "is_fu_a payload = (case payload of [] \<Rightarrow> False | b # _ \<Rightarrow> b AND 0x1F = 28)"

definition append_fu_a_fragment :: "bytes \<Rightarrow> frame_bucket \<Rightarrow> frame_bucket option" where
  "append_fu_a_fragment payload b = do {
     h \<leftarrow> parse_fu_a_header payload;
     case h of
       None \<Rightarrow> Some b
     | Some h \<Rightarrow>
         let start = fu_header h AND 0x80 \<noteq> 0;
             fin = fu_header h AND 0x40 \<noteq> 0;
             inner_type = fu_header h AND 0x1F;
             nri = drop_bit 5 (fu_indicator h AND 0x60);
             b = (if start
                  then b\<lparr>fu_a_in_progress := True, fu_a_nalu_type := inner_type, fu_a_nri := nri,
                         fu_a_buf := [], fu_a_start_seq := 0\<rparr>
                  else b)
         in if \<not> fu_a_in_progress b then Some b
            else let b = b\<lparr>fu_a_buf := fu_a_buf b @ fu_fragment h\<rparr>
                 in Some (if fin
                      then b\<lparr>bitstream := bitstream b @ [push_bit 5 (fu_a_nri b) OR (fu_a_nalu_type b AND 0x1F)] @ fu_a_buf b,
                             fu_a_in_progress := False\<rparr>
                      else b)
   }"

definition is_keyframe_payload :: "codec_kind \<Rightarrow> bytes \<Rightarrow> bool" where
  "is_keyframe_payload codec payload =
     (case payload of
        [] \<Rightarrow> False
      | b # _ \<Rightarrow>
          (case codec of
             CodecH264 \<Rightarrow> let type = b AND 0x1F in type = 5 \<or> type = 7 \<or> type = 8
           | CodecVP8 \<Rightarrow> b AND 0x01 = 0
           | _ \<Rightarrow> False))"

section \<open>Construction and policy\<close>

definition resolve_policy_defaults :: "vj_config \<Rightarrow> vj_config" where
  "resolve_policy_defaults c =
     (let (b, mn, mx) = mode_defaults (vj_mode c);
          c = (if vj_base_delay c = 0 then c\<lparr>vj_base_delay := b\<rparr> else c);
          c = (if vj_min_delay c = 0 then c\<lparr>vj_min_delay := mn\<rparr> else c);
          c = (if vj_max_delay c = 0 then c\<lparr>vj_max_delay := mx\<rparr> else c)
      in if vj_jitter_multiplier c \<le> 0 then c\<lparr>vj_jitter_multiplier := 4\<rparr> else c)"

definition vj_sync_tracker_policy :: "video_jitter_buffer \<Rightarrow> video_jitter_buffer" where
  "vj_sync_tracker_policy s =
     (let c = vj_cfg s in
      s\<lparr>vj_tracker := set_policy \<lparr>base_delay = vj_base_delay c, pol_min_delay = vj_min_delay c, pol_max_delay = vj_max_delay c,
          jitter_multiplier = vj_jitter_multiplier c, pol_adaptive = vj_adaptive c\<rparr> (vj_tracker s)\<rparr>)"

definition new_video_jitter_buffer :: "vj_config \<Rightarrow> video_jitter_buffer" where
  "new_video_jitter_buffer c = vj_sync_tracker_policy
     \<lparr>vj_cfg = resolve_policy_defaults c, buckets = [], pending_incomplete = [], bucket_pending_keyframe = False,
      frame_seq_counter = 0, vj_counts = no_vj_stats, vj_tracker = new_tracker default_policy,
      last_rtp_ts = None, prev_media_us = 0, have_prev_media_us = False, frame_interval_us = 0\<rparr>"

definition current_target :: "(rat \<Rightarrow> rat) \<Rightarrow> video_jitter_buffer \<Rightarrow> int" where
  "current_target fl s = (if \<not> vj_adaptive (vj_cfg s) then 0 else tracker_target_delay fl (vj_tracker s))"

section \<open>The in-flight cap\<close>

definition effective_inflight_cap :: "video_jitter_buffer \<Rightarrow> nat" where
  "effective_inflight_cap s =
     (let cap = unat (max_inflight_frames (vj_cfg s)) in
      if \<not> vj_adaptive (vj_cfg s) \<or> frame_interval_us s \<le> 0 then cap
      else let needed = (vj_max_delay (vj_cfg s) * 1000) sdiv frame_interval_us s + 2
           in if needed > int cap then nat needed else cap)"

definition frame_complete :: "frame_bucket \<Rightarrow> bool" where
  "frame_complete b \<longleftrightarrow> marker_seen b \<and> \<not> fu_a_in_progress b"

definition pending :: "(u32 \<times> frame_bucket) list \<Rightarrow> nat" where
  "pending m = length (filter (\<lambda>(ts, b). \<not> emitted b) m)"

text \<open>The victim: the first pending frame that is not complete, or else the first pending frame.\<close>

definition find_victim :: "(u32 \<times> frame_bucket) list \<Rightarrow> (u32 \<times> frame_bucket) option" where
  "find_victim m =
     (case find (\<lambda>(ts, b). \<not> emitted b \<and> \<not> frame_complete b) m of
        Some v \<Rightarrow> Some v
      | None \<Rightarrow> find (\<lambda>(ts, b). \<not> emitted b) m)"

definition evict_victim :: "u32 \<Rightarrow> frame_bucket \<Rightarrow> video_jitter_buffer \<Rightarrow> video_jitter_buffer" where
  "evict_victim ts b s = s\<lparr>buckets := erase_key ts (buckets s),
     vj_counts := (vj_counts s)\<lparr>vj_packets_dropped := vj_packets_dropped (vj_counts s) + 1,
       frames_incomplete := frames_incomplete (vj_counts s) + (if frame_complete b then 0 else 1)\<rparr>\<rparr>"

lemma find_Some_set: "find P xs = Some x \<Longrightarrow> x \<in> set xs \<and> P x"
  by (auto simp: find_Some_iff)

lemma find_victim_pending: "find_victim m = Some (ts, b) \<Longrightarrow> (ts, b) \<in> set m \<and> \<not> emitted b"
  by (auto simp: find_victim_def split: option.splits dest!: find_Some_set)

lemma erase_key_shorter: "(k, v) \<in> set m \<Longrightarrow> length (erase_key k m) < length m"
  unfolding erase_key_def by (rule length_filter_less) auto

text \<open>The loop, with the cap computed before it (eviction does not change it).\<close>

function evict_to_cap :: "nat \<Rightarrow> nat \<Rightarrow> video_jitter_buffer \<Rightarrow> video_jitter_buffer" where
  "evict_to_cap cap incoming s =
     (if pending (buckets s) + incoming \<le> cap then s
      else case find_victim (buckets s) of
          None \<Rightarrow> s
        | Some (ts, b) \<Rightarrow> evict_to_cap cap incoming (evict_victim ts b s))"
  by pat_completeness auto
termination
  by (relation "measure (\<lambda>(cap, incoming, s). length (buckets s))")
    (auto simp: evict_victim_def dest!: find_victim_pending intro: erase_key_shorter)

declare evict_to_cap.simps [simp del]

definition enforce_inflight_cap :: "nat \<Rightarrow> video_jitter_buffer \<Rightarrow> video_jitter_buffer" where
  "enforce_inflight_cap incoming s = evict_to_cap (effective_inflight_cap s) incoming s"

section \<open>Insertion\<close>

definition observe_frame :: "(rat \<Rightarrow> rat) \<Rightarrow> inbound_packet \<Rightarrow> video_jitter_buffer \<Rightarrow> video_jitter_buffer" where
  "observe_frame fl pkt s =
     (let rtp_ticks = (case last_rtp_ts s of
                         Some l \<Rightarrow> uint l + ts_delta (in_timestamp pkt) l
                       | None \<Rightarrow> uint (in_timestamp pkt));
          media_clock_us = (rtp_ticks * 1000000) sdiv kVideoClockRateHz;
          s = s\<lparr>last_rtp_ts := Some (in_timestamp pkt),
                vj_tracker := observe fl (arrival_us pkt) media_clock_us (vj_tracker s)\<rparr>;
          delta = media_clock_us - prev_media_us s;
          s = (if have_prev_media_us s \<and> delta > 0
               then s\<lparr>frame_interval_us := if frame_interval_us s > 0
                                             then (frame_interval_us s * 3 + delta) sdiv 4 else delta\<rparr>
               else s)
      in s\<lparr>prev_media_us := media_clock_us, have_prev_media_us := True\<rparr>)"

definition new_bucket :: "inbound_packet \<Rightarrow> frame_bucket" where
  "new_bucket pkt = \<lparr>fb_ssrc = in_ssrc pkt, fb_timestamp = in_timestamp pkt, first_seq = in_seq pkt,
     fb_last_seq = in_seq pkt, first_arrival_us = arrival_us pkt, last_arrival_us = arrival_us pkt,
     fb_codec = in_codec pkt, bitstream = [], received_seqs = [], marker_seen = in_marker pkt, emitted = False,
     fu_a_in_progress = False, fu_a_nalu_type = 0, fu_a_nri = 0, fu_a_buf = [], fu_a_start_seq = 0\<rparr>"

text \<open>
  \<^verbatim>\<open>find_or_create_bucket\<close> returns a pointer into the map; here the map holds the bucket at the packet's
  timestamp afterwards, and the caller updates it there.
\<close>

definition find_or_create_bucket :: "(rat \<Rightarrow> rat) \<Rightarrow> inbound_packet \<Rightarrow> video_jitter_buffer \<Rightarrow> video_jitter_buffer" where
  "find_or_create_bucket fl pkt s =
     (if map_of (buckets s) (in_timestamp pkt) \<noteq> None then s
      else let s = enforce_inflight_cap 1 s;
               s = s\<lparr>buckets := upsert (in_timestamp pkt) (new_bucket pkt) (\<lambda>b. b) (buckets s)\<rparr>
           in observe_frame fl pkt s)"

definition reordered :: "inbound_packet \<Rightarrow> frame_bucket \<Rightarrow> bool" where
  "reordered pkt b \<longleftrightarrow> received_seqs b \<noteq> [] \<and> seq_delta (in_seq pkt) (fb_last_seq b) \<le> 0"

definition store_packet :: "inbound_packet \<Rightarrow> frame_bucket \<Rightarrow> frame_bucket option" where
  "store_packet pkt b =
     (let b = b\<lparr>received_seqs := received_seqs b @ [in_seq pkt], fb_last_seq := in_seq pkt,
                last_arrival_us := arrival_us pkt\<rparr>;
          b = (if in_marker pkt then b\<lparr>marker_seen := True\<rparr> else b)
      in if in_codec pkt = CodecH264 \<and> is_fu_a (in_payload pkt) then append_fu_a_fragment (in_payload pkt) b
         else Some (b\<lparr>bitstream := bitstream b @ in_payload pkt\<rparr>))"

definition vjb_insert :: "(rat \<Rightarrow> rat) \<Rightarrow> inbound_packet \<Rightarrow> video_jitter_buffer \<Rightarrow> (bool \<times> video_jitter_buffer) option" where
  "vjb_insert fl pkt s =
     (if in_payload pkt = [] \<and> \<not> in_marker pkt then Some (False, s)
      else let s = s\<lparr>vj_counts := (vj_counts s)\<lparr>packets_inserted := packets_inserted (vj_counts s) + 1\<rparr>\<rparr>;
               s = find_or_create_bucket fl pkt s
           in case map_of (buckets s) (in_timestamp pkt) of
                None \<Rightarrow> Some (False, s)
              | Some b \<Rightarrow> do {
                  b' \<leftarrow> store_packet pkt b;
                  let s = (if reordered pkt b
                           then s\<lparr>vj_counts := (vj_counts s)\<lparr>packets_reordered := packets_reordered (vj_counts s) + 1\<rparr>\<rparr>
                           else s);
                      s = s\<lparr>buckets := upsert (in_timestamp pkt) b' (\<lambda>_. b') (buckets s)\<rparr>
                  in Some (True, if is_keyframe_payload (in_codec pkt) (in_payload pkt)
                                 then s\<lparr>bucket_pending_keyframe := True\<rparr> else s)
                })"

section \<open>Emission\<close>

text \<open>\<^verbatim>\<open>make_assembled\<close> moves the bitstream out of the bucket and numbers the frame.\<close>

definition make_assembled :: "frame_bucket \<Rightarrow> video_jitter_buffer \<Rightarrow> assembled_frame \<times> frame_bucket \<times> video_jitter_buffer" where
  "make_assembled b s =
     (let n = frame_seq_counter s + 1 in
      (\<lparr>af_ssrc = fb_ssrc b, af_timestamp = fb_timestamp b, frame_seq = n, capture_ts_us = word_of_int (first_arrival_us b),
        is_keyframe = is_keyframe_payload (fb_codec b) (bitstream b), af_codec = fb_codec b,
        af_bitstream = bitstream b, af_complete = marker_seen b\<rparr>,
       b\<lparr>bitstream := []\<rparr>, s\<lparr>frame_seq_counter := n\<rparr>))"

text \<open>Marking the bucket at \<open>ts\<close> as emitted and handing it out.\<close>

definition emit_bucket :: "u32 \<Rightarrow> frame_bucket \<Rightarrow> video_jitter_buffer \<Rightarrow> assembled_frame \<times> video_jitter_buffer" where
  "emit_bucket ts b s =
     (let s = s\<lparr>vj_counts := (vj_counts s)\<lparr>vj_frames_emitted := vj_frames_emitted (vj_counts s) + 1\<rparr>\<rparr>;
          (f, b, s) = make_assembled (b\<lparr>emitted := True\<rparr>) s
      in (f, s\<lparr>buckets := upsert ts b (\<lambda>_. b) (buckets s)\<rparr>))"

text \<open>The scan of the gated path: the first due frame with the smallest arrival time.\<close>

fun earliest :: "(u32 \<times> frame_bucket) list \<Rightarrow> (u32 \<times> frame_bucket) option \<Rightarrow> (u32 \<times> frame_bucket) option" where
  "earliest [] best = best"
| "earliest ((ts, b) # m) best =
     earliest m (case best of
                   None \<Rightarrow> Some (ts, b)
                 | Some (ts', b') \<Rightarrow> if first_arrival_us b < first_arrival_us b' then Some (ts, b) else best)"

definition due :: "int \<Rightarrow> int \<Rightarrow> frame_bucket \<Rightarrow> bool" where
  "due target_us gate_us b \<longleftrightarrow> first_arrival_us b + target_us \<le> gate_us"

text \<open>The bucket to hand out: the first complete one, or with a gate the due one that arrived first.\<close>

definition ready_bucket :: "(rat \<Rightarrow> rat) \<Rightarrow> int \<Rightarrow> video_jitter_buffer \<Rightarrow> (u32 \<times> frame_bucket) option" where
  "ready_bucket fl gate_us s =
     (if gate_us < 0 \<or> \<not> vj_adaptive (vj_cfg s)
      then find (\<lambda>(ts, b). \<not> emitted b \<and> frame_complete b) (buckets s)
      else earliest (filter (\<lambda>(ts, b). \<not> emitted b \<and> frame_complete b
             \<and> due (current_target fl s * 1000) gate_us b) (buckets s)) None)"

definition pop_ready :: "(rat \<Rightarrow> rat) \<Rightarrow> int \<Rightarrow> video_jitter_buffer \<Rightarrow> assembled_frame option \<times> video_jitter_buffer" where
  "pop_ready fl gate_us s =
     (case pending_incomplete s of
        f # fs \<Rightarrow> (Some f, s\<lparr>pending_incomplete := fs\<rparr>)
      | [] \<Rightarrow>
          (case ready_bucket fl gate_us s of
             None \<Rightarrow> (None, s)
           | Some (ts, b) \<Rightarrow> let (f, s) = emit_bucket ts b s in (Some f, s)))"

definition pop_frame :: "(rat \<Rightarrow> rat) \<Rightarrow> video_jitter_buffer \<Rightarrow> assembled_frame option \<times> video_jitter_buffer" where
  "pop_frame fl s = pop_ready fl (-1) s"

definition pop_frame_at :: "(rat \<Rightarrow> rat) \<Rightarrow> int \<Rightarrow> video_jitter_buffer \<Rightarrow> assembled_frame option \<times> video_jitter_buffer" where
  "pop_frame_at fl now_us s = pop_ready fl now_us s"

section \<open>Missing packets\<close>

lemma seq_delta_step: "0 < seq_delta got e \<Longrightarrow> seq_delta got (e + 1) = seq_delta got e - 1"
proof -
  assume pos: "0 < seq_delta got e"
  have b: "uint got < 65536" "uint e < 65536" "0 \<le> uint got" "0 \<le> uint e"
    using unsigned_less [of got] unsigned_less [of e] by simp_all
  have "uint (e + 1) = (uint e + 1) mod 65536" by (simp add: uint_word_ariths take_bit_eq_mod)
  then have "uint (e + 1) = (if uint e = 65535 then 0 else uint e + 1)" using b by auto
  then show ?thesis using pos b by (auto simp: seq_delta_def Let_def split: if_splits)
qed

text \<open>The inner \<^verbatim>\<open>while\<close> loop: the numbers reported and the next one expected.\<close>

function nack_gap :: "u16 \<Rightarrow> u16 \<Rightarrow> u16 list \<times> u16" where
  "nack_gap got expected =
     (if seq_delta got expected > 0
      then let (ns, e) = nack_gap got (expected + 1) in (expected # ns, e)
      else ([], expected))"
  by pat_completeness auto
termination
  by (relation "measure (\<lambda>(got, expected). nat (seq_delta got expected))") (auto simp: seq_delta_step)

declare nack_gap.simps [simp del]

fun nack_scan :: "u16 list \<Rightarrow> u16 \<Rightarrow> u16 list" where
  "nack_scan [] expected = []"
| "nack_scan (got # seqs) expected =
     (let (ns, e) = nack_gap got expected
      in ns @ nack_scan seqs (if seq_delta got e = 0 then e + 1 else e))"

fun nack_buckets :: "(u32 \<times> frame_bucket) list \<Rightarrow> u16 list \<times> (u32 \<times> frame_bucket) list" where
  "nack_buckets [] = ([], [])"
| "nack_buckets ((ts, b) # m) =
     (let (ns, m') = nack_buckets m in
      if emitted b \<or> length (received_seqs b) < 2 then (ns, (ts, b) # m')
      else let b = b\<lparr>received_seqs := sort (received_seqs b)\<rparr>
           in (nack_scan (received_seqs b) (first_seq b) @ ns, (ts, b) # m'))"

definition pop_nack_entries :: "video_jitter_buffer \<Rightarrow> u16 list \<times> video_jitter_buffer" where
  "pop_nack_entries s =
     (if \<not> emit_nacks (vj_cfg s) then ([], s)
      else let (ns, m) = nack_buckets (buckets s)
           in (ns, s\<lparr>buckets := m, vj_counts := (vj_counts s)\<lparr>nacks_emitted := nacks_emitted (vj_counts s) + length ns\<rparr>\<rparr>))"

section \<open>Timers, reset and statistics\<close>

text \<open>The loop of \<^verbatim>\<open>tick\<close> over the buckets: emitted ones are erased, overdue incomplete ones are emitted by force.\<close>

definition force_emit :: "frame_bucket \<Rightarrow> video_jitter_buffer \<Rightarrow> frame_bucket \<times> video_jitter_buffer" where
  "force_emit b s =
     (let s = s\<lparr>vj_counts := (vj_counts s)\<lparr>frames_incomplete := frames_incomplete (vj_counts s) + 1,
                 vj_frames_emitted := vj_frames_emitted (vj_counts s) + 1\<rparr>\<rparr>;
          (f, b, s) = make_assembled b s
      in (b\<lparr>emitted := True\<rparr>, s\<lparr>pending_incomplete := pending_incomplete s @ [f],
            vj_counts := (vj_counts s)\<lparr>vj_packets_dropped := vj_packets_dropped (vj_counts s) + 1\<rparr>\<rparr>))"

definition overdue :: "int \<Rightarrow> vj_config \<Rightarrow> frame_bucket \<Rightarrow> bool" where
  "overdue now_us c b \<longleftrightarrow> \<not> frame_complete b \<and> (now_us - first_arrival_us b) sdiv 1000 \<ge> uint (max_wait_ms c)"

fun tick_buckets :: "int \<Rightarrow> (u32 \<times> frame_bucket) list \<Rightarrow> video_jitter_buffer \<Rightarrow> (u32 \<times> frame_bucket) list \<times> video_jitter_buffer" where
  "tick_buckets now_us [] s = ([], s)"
| "tick_buckets now_us ((ts, b) # m) s =
     (if emitted b then tick_buckets now_us m s
      else let (b, s) = (if overdue now_us (vj_cfg s) b then force_emit b s else (b, s));
               (m, s) = tick_buckets now_us m s
           in ((ts, b) # m, s))"

definition vjb_tick :: "int \<Rightarrow> video_jitter_buffer \<Rightarrow> video_jitter_buffer" where
  "vjb_tick now_us s =
     (let (m, s) = tick_buckets now_us (buckets s) s
      in enforce_inflight_cap 0 (s\<lparr>buckets := m\<rparr>))"

definition vjb_reset :: "video_jitter_buffer \<Rightarrow> video_jitter_buffer" where
  "vjb_reset s = vj_sync_tracker_policy
     (s\<lparr>buckets := [], pending_incomplete := [], bucket_pending_keyframe := False, vj_counts := no_vj_stats,
        frame_seq_counter := 0, last_rtp_ts := None, prev_media_us := 0, have_prev_media_us := False,
        frame_interval_us := 0, vj_tracker := reset_tracker (vj_tracker s)\<rparr>)"

definition vjb_stats :: "(rat \<Rightarrow> rat) \<Rightarrow> video_jitter_buffer \<Rightarrow> vj_stats" where
  "vjb_stats fl s = (vj_counts s)\<lparr>vj_current_delay := current_target fl s, vj_current_jitter := jitter (vj_tracker s)\<rparr>"

section \<open>Fragments\<close>

lemma parse_fu_a_header_eq:
  "parse_fu_a_header payload = Some (case payload of
     i # h # frag \<Rightarrow> if i AND 0x1F = 28 then Some \<lparr>fu_indicator = i, fu_header = h, fu_fragment = frag\<rparr> else None
   | _ \<Rightarrow> None)"
  by (auto simp: parse_fu_a_header_def h264_consts wire_simps split: list.split)

text \<open>What storing a packet changes of a bucket, and what it keeps.\<close>

lemma append_fu_a_fragment_facts:
  "\<exists>bs fp nt nri buf sq. append_fu_a_fragment payload b = Some (b\<lparr>bitstream := bs, fu_a_in_progress := fp,
     fu_a_nalu_type := nt, fu_a_nri := nri, fu_a_buf := buf, fu_a_start_seq := sq\<rparr>)"
  unfolding append_fu_a_fragment_def parse_fu_a_header_eq Let_def
  by (cases b) (auto split: list.split option.split)

text \<open>The part of a bucket that storing a packet does not depend on or only extends.\<close>

lemma store_packet_facts:
  "\<exists>b'. store_packet pkt b = Some b' \<and> fb_timestamp b' = fb_timestamp b \<and> fb_ssrc b' = fb_ssrc b \<and> fb_codec b' = fb_codec b
     \<and> emitted b' = emitted b \<and> first_seq b' = first_seq b \<and> first_arrival_us b' = first_arrival_us b
     \<and> received_seqs b' = received_seqs b @ [in_seq pkt] \<and> marker_seen b' = (marker_seen b \<or> in_marker pkt)"
proof -
  let ?b = "b\<lparr>received_seqs := received_seqs b @ [in_seq pkt], fb_last_seq := in_seq pkt, last_arrival_us := arrival_us pkt\<rparr>"
  let ?c = "if in_marker pkt then ?b\<lparr>marker_seen := True\<rparr> else ?b"
  show ?thesis
    using append_fu_a_fragment_facts [of "in_payload pkt" ?c]
    by (auto simp: store_packet_def Let_def)
qed

section \<open>The bucket map\<close>

lemma pending_simps [simp]:
  "pending [] = 0" "pending ((ts, b) # m) = (if emitted b then 0 else 1) + pending m"
  by (simp_all add: pending_def)

lemma pending_upsert_new:
  "map_of m k = None \<Longrightarrow> pending (upsert k d f m) = pending m + (if emitted (f d) then 0 else 1)"
  by (induction k d f m rule: upsert.induct) (auto split: if_splits)

lemma pending_upsert_old:
  "ordered m \<Longrightarrow> map_of m k = Some v \<Longrightarrow> (emitted v \<longrightarrow> emitted (f v)) \<Longrightarrow> pending (upsert k d f m) \<le> pending m"
proof (induction k d f m rule: upsert.induct)
  case (2 k d f k' v' m)
  have "k \<noteq> k' \<Longrightarrow> k < k' \<Longrightarrow> False"
    using 2(2,3) by (auto dest!: map_of_SomeD)
  with 2 show ?case by (auto split: if_splits)
qed simp

lemma pending_filter: "pending (filter P m) \<le> pending m"
  by (induction m) auto

lemma map_of_ordered: "ordered m \<Longrightarrow> (k, v) \<in> set m \<Longrightarrow> map_of m k = Some v"
  by (simp add: ordered_def strict_sorted_iff map_of_is_SomeI)

lemma find_victim_None: "find_victim m = None \<Longrightarrow> pending m = 0"
  by (auto simp: find_victim_def pending_def find_None_iff filter_empty_conv split: option.splits)

text \<open>Eviction only removes buckets, and stops when the cap is respected or nothing is pending.\<close>

lemma evict_to_cap_facts:
  "\<exists>m c. evict_to_cap cap incoming s = s\<lparr>buckets := m, vj_counts := c\<rparr> \<and> set m \<subseteq> set (buckets s)
     \<and> (ordered (buckets s) \<longrightarrow> ordered m) \<and> (pending m + incoming \<le> cap \<or> pending m = 0)
     \<and> pending m \<le> pending (buckets s) \<and> vj_frames_emitted c = vj_frames_emitted (vj_counts s)"
proof (induction cap incoming s rule: evict_to_cap.induct)
  case (1 cap incoming s)
  show ?case
  proof (cases "pending (buckets s) + incoming \<le> cap \<or> find_victim (buckets s) = None")
    case True
    then have "evict_to_cap cap incoming s = s" by (subst evict_to_cap.simps) auto
    then show ?thesis using True find_victim_None [of "buckets s"]
      by (intro exI [of _ "buckets s"] exI [of _ "vj_counts s"]) auto
  next
    case False
    then obtain ts b where v: "find_victim (buckets s) = Some (ts, b)" by auto
    have "evict_to_cap cap incoming s = evict_to_cap cap incoming (evict_victim ts b s)"
      using False v by (subst evict_to_cap.simps) simp
    moreover have "set (erase_key ts (buckets s)) \<subseteq> set (buckets s)" by (auto simp: erase_key_def)
    moreover have "pending (erase_key ts (buckets s)) \<le> pending (buckets s)" by (simp add: erase_key_def pending_filter)
    moreover obtain m c where "evict_to_cap cap incoming (evict_victim ts b s) = (evict_victim ts b s)\<lparr>buckets := m, vj_counts := c\<rparr>"
      "set m \<subseteq> set (erase_key ts (buckets s))" "ordered (erase_key ts (buckets s)) \<longrightarrow> ordered m"
      "pending m + incoming \<le> cap \<or> pending m = 0" "pending m \<le> pending (erase_key ts (buckets s))"
      "vj_frames_emitted c = vj_frames_emitted (vj_counts s)"
      using 1 [OF _ v refl] False by (auto simp: evict_victim_def)
    ultimately show ?thesis
      by (intro exI [of _ m] exI [of _ c]) (auto simp: evict_victim_def ordered_erase)
  qed
qed

section \<open>Runs\<close>

text \<open>
  The calls of a client, with the frames handed out since the last reset kept as history. \<open>None\<close> is an
  access outside a payload.
\<close>

datatype vj_op = VInsert inbound_packet | VPop | VPopAt int | VNacks | VTick int | VReset

type_synonym vj_run = "(video_jitter_buffer \<times> assembled_frame list) option"

definition hand_out :: "assembled_frame option \<times> video_jitter_buffer \<Rightarrow> assembled_frame list \<Rightarrow> vj_run" where
  "hand_out r out = (case r of (f, s) \<Rightarrow> Some (s, out @ (case f of None \<Rightarrow> [] | Some f \<Rightarrow> [f])))"

definition vj_apply :: "(rat \<Rightarrow> rat) \<Rightarrow> vj_op \<Rightarrow> video_jitter_buffer \<Rightarrow> assembled_frame list \<Rightarrow> vj_run" where
  "vj_apply fl op s out = (case op of
       VInsert pkt \<Rightarrow> map_option (\<lambda>r. (snd r, out)) (vjb_insert fl pkt s)
     | VPop \<Rightarrow> hand_out (pop_frame fl s) out
     | VPopAt now \<Rightarrow> hand_out (pop_frame_at fl now s) out
     | VNacks \<Rightarrow> Some (snd (pop_nack_entries s), out)
     | VTick now \<Rightarrow> Some (vjb_tick now s, out)
     | VReset \<Rightarrow> Some (vjb_reset s, []))"

definition vj_step :: "(rat \<Rightarrow> rat) \<Rightarrow> vj_op \<Rightarrow> vj_run \<Rightarrow> vj_run" where
  "vj_step fl op r = (case r of None \<Rightarrow> None | Some (s, out) \<Rightarrow> vj_apply fl op s out)"

definition policy_of_config :: "vj_config \<Rightarrow> delay_policy" where
  "policy_of_config c = \<lparr>base_delay = vj_base_delay c, pol_min_delay = vj_min_delay c, pol_max_delay = vj_max_delay c,
     jitter_multiplier = vj_jitter_multiplier c, pol_adaptive = vj_adaptive c\<rparr>"

text \<open>
  The invariant: the map is keyed by the frames' timestamps; the frames handed out and those waiting to be
  are numbered 1, 2, 3 and so on; in fixed-window mode the number of pending frames respects the cap.
\<close>

definition buckets_ok :: "(u32 \<times> frame_bucket) list \<Rightarrow> bool" where
  "buckets_ok m \<longleftrightarrow> ordered m \<and> (\<forall>(ts, b) \<in> set m. fb_timestamp b = ts \<and> received_seqs b \<noteq> [] \<and> first_seq b \<in> set (received_seqs b))"

definition numbered :: "video_jitter_buffer \<Rightarrow> assembled_frame list \<Rightarrow> bool" where
  "numbered s out \<longleftrightarrow>
     map frame_seq (out @ pending_incomplete s) = map of_nat [1..<vj_frames_emitted (vj_counts s) + 1]
     \<and> frame_seq_counter s = of_nat (vj_frames_emitted (vj_counts s))"

definition within_cap :: "video_jitter_buffer \<Rightarrow> bool" where
  "within_cap s \<longleftrightarrow> vj_adaptive (vj_cfg s) \<or> pending (buckets s) \<le> max 1 (unat (max_inflight_frames (vj_cfg s)))"

definition vj_ok :: "vj_config \<Rightarrow> vj_run \<Rightarrow> bool" where
  "vj_ok c r = (case r of None \<Rightarrow> False | Some (s, out) \<Rightarrow>
     vj_cfg s = resolve_policy_defaults c \<and> policy (vj_tracker s) = policy_of_config (vj_cfg s)
     \<and> buckets_ok (buckets s) \<and> numbered s out \<and> within_cap s)"

lemma observe_policy: "policy (observe fl a m t) = policy t"
  by (simp add: observe_def Let_def split: option.split)

lemma observe_frame_keeps:
  "buckets (observe_frame fl pkt s) = buckets s" "vj_cfg (observe_frame fl pkt s) = vj_cfg s"
  "pending_incomplete (observe_frame fl pkt s) = pending_incomplete s" "vj_counts (observe_frame fl pkt s) = vj_counts s"
  "frame_seq_counter (observe_frame fl pkt s) = frame_seq_counter s"
  "policy (vj_tracker (observe_frame fl pkt s)) = policy (vj_tracker s)"
  by (simp_all add: observe_frame_def Let_def observe_policy)

text \<open>After \<^verbatim>\<open>find_or_create_bucket\<close> the bucket is there, and only it may lack its first packet.\<close>

lemma find_or_create_bucket_facts:
  assumes "buckets_ok (buckets s)" "within_cap s"
    and s'_def: "s' = find_or_create_bucket fl pkt s" and ts_def: "ts = in_timestamp pkt"
  shows "ordered (buckets s') \<and> (\<forall>k b. (k, b) \<in> set (buckets s') \<longrightarrow> k \<noteq> ts \<longrightarrow> (k, b) \<in> set (buckets s))
    \<and> map_of (buckets s') ts = Some (case map_of (buckets s) ts of None \<Rightarrow> new_bucket pkt | Some b \<Rightarrow> b)
    \<and> vj_cfg s' = vj_cfg s \<and> policy (vj_tracker s') = policy (vj_tracker s)
    \<and> pending_incomplete s' = pending_incomplete s \<and> frame_seq_counter s' = frame_seq_counter s
    \<and> vj_frames_emitted (vj_counts s') = vj_frames_emitted (vj_counts s) \<and> within_cap s'"
proof -
  have ord: "ordered (buckets s)" using assms(1) by (simp add: buckets_ok_def)
  show ?thesis
  proof (cases "map_of (buckets s) ts")
    case (Some b)
    then show ?thesis using ord assms(2) by (auto simp: s'_def ts_def find_or_create_bucket_def)
  next
    case None
    obtain m c where e: "evict_to_cap (effective_inflight_cap s) 1 s = s\<lparr>buckets := m, vj_counts := c\<rparr>"
      and m: "set m \<subseteq> set (buckets s)" "ordered m" "pending m + 1 \<le> effective_inflight_cap s \<or> pending m = 0"
      and c: "vj_frames_emitted c = vj_frames_emitted (vj_counts s)"
      using evict_to_cap_facts [of "effective_inflight_cap s" 1 s] ord by blast
    have none: "map_of m ts = None" using None m(1) by (force simp: map_of_eq_None_iff)
    have s': "s' = observe_frame fl pkt (s\<lparr>vj_counts := c, buckets := upsert ts (new_bucket pkt) (\<lambda>b. b) m\<rparr>)"
      using None by (simp add: s'_def ts_def find_or_create_bucket_def enforce_inflight_cap_def e [unfolded One_nat_def])
    have "within_cap s'"
      using m(3) pending_upsert_new [OF none, of "new_bucket pkt" "\<lambda>b. b"]
      by (auto simp: within_cap_def s' observe_frame_keeps effective_inflight_cap_def Let_def new_bucket_def split: if_splits)
    moreover have "map_of (upsert ts (new_bucket pkt) (\<lambda>b. b) m) ts = Some (new_bucket pkt)"
      using map_of_upsert [OF m(2)] none by simp
    ultimately show ?thesis
      using None m ordered_upsert [OF m(2)] c
      by (auto simp: s' observe_frame_keeps set_upsert [OF m(2)])
  qed
qed

text \<open>Replacing a bucket of the map by one that agrees with it where the invariant looks.\<close>

lemma buckets_ok_upsert:
  assumes "ordered m" "\<And>k b. (k, b) \<in> set m \<Longrightarrow> k \<noteq> ts \<Longrightarrow> fb_timestamp b = k \<and> received_seqs b \<noteq> [] \<and> first_seq b \<in> set (received_seqs b)"
    and "fb_timestamp b' = ts" "received_seqs b' \<noteq> []" "first_seq b' \<in> set (received_seqs b')"
  shows "buckets_ok (upsert ts b' (\<lambda>_. b') m)"
  using assms by (auto simp: buckets_ok_def ordered_upsert set_upsert)

lemma vjb_insert_ok:
  assumes "vj_ok c (Some (s, out))"
  shows "\<exists>ok s'. vjb_insert fl pkt s = Some (ok, s') \<and> vj_ok c (Some (s', out))"
proof (cases "in_payload pkt = [] \<and> \<not> in_marker pkt")
  case True
  then show ?thesis using assms by (auto simp: vjb_insert_def)
next
  case False
  define s0 where "s0 = s\<lparr>vj_counts := (vj_counts s)\<lparr>packets_inserted := packets_inserted (vj_counts s) + 1\<rparr>\<rparr>"
  define s1 where "s1 = find_or_create_bucket fl pkt s0"
  define ts where "ts = in_timestamp pkt"
  have ok0: "buckets_ok (buckets s0)" "within_cap s0"
    using assms by (auto simp: vj_ok_def s0_def within_cap_def)
  note f = find_or_create_bucket_facts [OF ok0 s1_def ts_def]
  define b where "b = (case map_of (buckets s0) ts of None \<Rightarrow> new_bucket pkt | Some b \<Rightarrow> b)"
  have b: "map_of (buckets s1) ts = Some b" "fb_timestamp b = ts" "received_seqs b = [] \<longrightarrow> first_seq b = in_seq pkt"
    "received_seqs b \<noteq> [] \<longrightarrow> first_seq b \<in> set (received_seqs b)"
    using f ok0(1) by (auto simp: b_def buckets_ok_def new_bucket_def ts_def split: option.split dest!: map_of_SomeD)
  obtain b' where b': "store_packet pkt b = Some b'" "fb_timestamp b' = fb_timestamp b" "emitted b' = emitted b"
    "first_seq b' = first_seq b" "received_seqs b' = received_seqs b @ [in_seq pkt]"
    using store_packet_facts [of pkt b] by auto
  define s2 where "s2 = (if reordered pkt b
      then s1\<lparr>vj_counts := (vj_counts s1)\<lparr>packets_reordered := packets_reordered (vj_counts s1) + 1\<rparr>\<rparr> else s1)"
  define s3 where "s3 = s2\<lparr>buckets := upsert ts b' (\<lambda>_. b') (buckets s1)\<rparr>"
  have "vjb_insert fl pkt s = Some (True, if is_keyframe_payload (in_codec pkt) (in_payload pkt)
      then s3\<lparr>bucket_pending_keyframe := True\<rparr> else s3)"
    using False b(1) b'(1) unfolding vjb_insert_def Let_def s0_def [symmetric] s1_def [symmetric] ts_def [symmetric]
    by (simp add: s2_def s3_def)
  moreover have "buckets_ok (upsert ts b' (\<lambda>_. b') (buckets s1))"
    by (rule buckets_ok_upsert) (use f ok0(1) b b' in \<open>auto simp: buckets_ok_def\<close>)
  moreover have "pending (upsert ts b' (\<lambda>_. b') (buckets s1)) \<le> pending (buckets s1)"
    using f b b' by (intro pending_upsert_old) auto
  ultimately show ?thesis
    using assms f
    by (auto simp: vj_ok_def numbered_def within_cap_def s0_def s2_def s3_def intro: le_trans)
qed

lemma make_assembled_simps:
  "frame_seq (fst (make_assembled b s)) = frame_seq_counter s + 1"
  "snd (make_assembled b s) = (b\<lparr>bitstream := []\<rparr>, s\<lparr>frame_seq_counter := frame_seq_counter s + 1\<rparr>)"
  by (simp_all add: make_assembled_def Let_def)

lemma emit_bucket_ok:
  assumes "vj_ok c (Some (s, out))" "pending_incomplete s = []" "(ts, b) \<in> set (buckets s)" "emit_bucket ts b s = (f, s')"
  shows "vj_ok c (Some (s', out @ [f]))"
proof -
  define b' where "b' = b\<lparr>emitted := True, bitstream := []\<rparr>"
  have bs: "buckets_ok (buckets s)" using assms(1) by (simp add: vj_ok_def)
  have s': "s' = s\<lparr>vj_counts := (vj_counts s)\<lparr>vj_frames_emitted := vj_frames_emitted (vj_counts s) + 1\<rparr>,
      frame_seq_counter := frame_seq_counter s + 1, buckets := upsert ts b' (\<lambda>_. b') (buckets s)\<rparr>"
    "frame_seq f = frame_seq_counter s + 1"
    using assms(4) by (auto simp: emit_bucket_def Let_def make_assembled_def b'_def)
  have "buckets_ok (upsert ts b' (\<lambda>_. b') (buckets s))"
    by (rule buckets_ok_upsert) (use bs assms(3) in \<open>auto simp: buckets_ok_def b'_def\<close>)
  moreover have "pending (upsert ts b' (\<lambda>_. b') (buckets s)) \<le> pending (buckets s)"
    using bs assms(3) by (intro pending_upsert_old [of _ _ b]) (auto simp: buckets_ok_def map_of_ordered b'_def)
  moreover have "numbered s' (out @ [f])"
    using assms(1,2) by (simp add: vj_ok_def numbered_def s' add.commute)
  ultimately show ?thesis
    using assms(1) by (auto simp: vj_ok_def within_cap_def s'(1) intro: le_trans)
qed

lemma earliest_set: "earliest m best = Some x \<Longrightarrow> x \<in> set m \<or> best = Some x"
  by (induction m best rule: earliest.induct) (auto split: option.splits if_splits)

lemma ready_bucket_set: "ready_bucket fl gate s = Some (ts, b) \<Longrightarrow> (ts, b) \<in> set (buckets s) \<and> \<not> emitted b \<and> frame_complete b"
  by (auto simp: ready_bucket_def split: if_splits dest!: find_Some_set earliest_set)

lemma pop_ready_ok:
  assumes "vj_ok c (Some (s, out))" "pop_ready fl gate s = (f, s')"
  shows "vj_ok c (Some (s', out @ (case f of None \<Rightarrow> [] | Some f \<Rightarrow> [f])))"
proof (cases "pending_incomplete s")
  case (Cons g fs)
  then show ?thesis using assms by (auto simp: pop_ready_def vj_ok_def numbered_def within_cap_def)
next
  case Nil
  show ?thesis
  proof (cases "ready_bucket fl gate s")
    case None
    then show ?thesis using assms Nil by (simp add: pop_ready_def)
  next
    case (Some x)
    then show ?thesis
      using assms Nil emit_bucket_ok [OF assms(1) Nil, of "fst x" "snd x"] ready_bucket_set [of fl gate s "fst x" "snd x"] Some
      by (cases x; cases "emit_bucket (fst x) (snd x) s") (auto simp: pop_ready_def)
  qed
qed

lemma nack_buckets_keys: "map fst (snd (nack_buckets m)) = map fst m" "pending (snd (nack_buckets m)) = pending m"
  by (induction m rule: nack_buckets.induct) (auto simp: Let_def split: prod.splits if_splits)

lemma nack_buckets_source:
  "(k, b') \<in> set (snd (nack_buckets m)) \<Longrightarrow>
     \<exists>b. (k, b) \<in> set m \<and> (b' = b \<or> b' = b\<lparr>received_seqs := sort (received_seqs b)\<rparr>)"
proof (induction m rule: nack_buckets.induct)
  case (2 ts b m)
  obtain ns1 m1 where "nack_buckets m = (ns1, m1)" by (cases "nack_buckets m")
  then show ?case using 2 by (auto simp: Let_def split: if_splits)
qed simp

lemma nack_buckets_ok: "buckets_ok m \<Longrightarrow> buckets_ok (snd (nack_buckets m))"
proof -
  assume ok: "buckets_ok m"
  have "fb_timestamp b' = k \<and> received_seqs b' \<noteq> [] \<and> first_seq b' \<in> set (received_seqs b')"
    if b': "(k, b') \<in> set (snd (nack_buckets m))" for k b'
  proof -
    obtain b where "(k, b) \<in> set m" and b: "b' = b \<or> b' = b\<lparr>received_seqs := sort (received_seqs b)\<rparr>"
      using nack_buckets_source [OF b'] by blast
    then have "fb_timestamp b = k" "received_seqs b \<noteq> []" "first_seq b \<in> set (received_seqs b)"
      using ok by (auto simp: buckets_ok_def)
    then show ?thesis using b by (auto simp: set_empty [symmetric] simp del: set_empty)
  qed
  moreover have "ordered (snd (nack_buckets m))" using ok by (simp add: buckets_ok_def ordered_def nack_buckets_keys)
  ultimately show ?thesis by (auto simp: buckets_ok_def)
qed

lemma pop_nack_entries_ok: "vj_ok c (Some (s, out)) \<Longrightarrow> vj_ok c (Some (snd (pop_nack_entries s), out))"
  using nack_buckets_ok [of "buckets s"] nack_buckets_keys(2) [of "buckets s"]
  by (auto simp: vj_ok_def pop_nack_entries_def numbered_def within_cap_def split: prod.split)

text \<open>The loop of \<^verbatim>\<open>tick\<close>.\<close>

lemma force_emit_facts:
  assumes "force_emit b s = (b', s')" "numbered s out"
  shows "numbered s' out \<and> vj_cfg s' = vj_cfg s \<and> vj_tracker s' = vj_tracker s \<and> buckets s' = buckets s
    \<and> b' = b\<lparr>bitstream := [], emitted := True\<rparr>"
  using assms by (auto simp: force_emit_def make_assembled_def Let_def numbered_def add.commute)

definition ticked_from :: "(u32 \<times> frame_bucket) list \<Rightarrow> (u32 \<times> frame_bucket) list \<Rightarrow> bool" where
  "ticked_from m m' \<longleftrightarrow> (\<forall>k b'. (k, b') \<in> set m' \<longrightarrow> (\<exists>b. (k, b) \<in> set m \<and> (b' = b \<or> b' = b\<lparr>bitstream := [], emitted := True\<rparr>)))"

lemma ticked_from_simps:
  "ticked_from [] []"
  "ticked_from m m' \<Longrightarrow> ticked_from (x # m) m'"
  "ticked_from m m' \<Longrightarrow> b' = b \<or> b' = b\<lparr>bitstream := [], emitted := True\<rparr> \<Longrightarrow> ticked_from ((k, b) # m) ((k, b') # m')"
  unfolding ticked_from_def by auto

lemma ticked_from_keys: "ticked_from m m' \<Longrightarrow> fst ` set m' \<subseteq> fst ` set m"
  unfolding ticked_from_def by force

lemma tick_buckets_facts:
  assumes "tick_buckets now m s = (m', s')" "numbered s out" "ordered m"
  shows "numbered s' out \<and> vj_cfg s' = vj_cfg s \<and> vj_tracker s' = vj_tracker s \<and> ordered m' \<and> pending m' \<le> pending m
    \<and> ticked_from m m'"
  using assms
proof (induction now m s arbitrary: m' s' rule: tick_buckets.induct)
  case (1 now s)
  then show ?case by (simp add: ticked_from_simps)
next
  case (2 now ts b m s)
  show ?case
  proof (cases "emitted b")
    case True
    then have "tick_buckets now m s = (m', s')" "ordered m" using 2(3,5) by simp_all
    then show ?thesis using 2(1) [OF True _ 2(4), of m' s'] True ticked_from_simps(2) [of m m' "(ts, b)"] by auto
  next
    case False
    obtain b1 s1 where b1: "(if overdue now (vj_cfg s) b then force_emit b s else (b, s)) = (b1, s1)"
      by (cases "if overdue now (vj_cfg s) b then force_emit b s else (b, s)")
    obtain m2 s2 where m2: "tick_buckets now m s1 = (m2, s2)" by (cases "tick_buckets now m s1")
    have r: "m' = (ts, b1) # m2" "s' = s2" using 2(3) False b1 m2 by auto
    have s1: "numbered s1 out \<and> vj_cfg s1 = vj_cfg s \<and> vj_tracker s1 = vj_tracker s \<and> (b1 = b \<or> b1 = b\<lparr>bitstream := [], emitted := True\<rparr>)"
      using b1 2(4) force_emit_facts [of b s b1 s1 out] by (auto split: if_splits)
    have "numbered s2 out \<and> vj_cfg s2 = vj_cfg s1 \<and> vj_tracker s2 = vj_tracker s1 \<and> ordered m2 \<and> pending m2 \<le> pending m
      \<and> ticked_from m m2"
      using 2(2) [OF False b1 [symmetric] refl m2] s1 2(5) by simp
    moreover from this have "\<forall>k \<in> fst ` set m2. ts < k" using ticked_from_keys [of m m2] 2(5) by (simp only: ordered_simps) blast
    ultimately show ?thesis using r s1 2(5) False ticked_from_simps(3) [of m m2 b1 b ts] by auto
  qed
qed

lemma vjb_tick_ok:
  assumes "vj_ok c (Some (s, out))"
  shows "vj_ok c (Some (vjb_tick now s, out))"
proof -
  obtain m1 s1 where t: "tick_buckets now (buckets s) s = (m1, s1)" by (cases "tick_buckets now (buckets s) s")
  have s: "numbered s out" "ordered (buckets s)" "buckets_ok (buckets s)" using assms by (auto simp: vj_ok_def buckets_ok_def)
  note f = tick_buckets_facts [OF t s(1,2)]
  define s2 where "s2 = s1\<lparr>buckets := m1\<rparr>"
  have ok: "buckets_ok m1"
    using f s(3) unfolding buckets_ok_def ticked_from_def by fastforce
  obtain m c' where e: "evict_to_cap (effective_inflight_cap s2) 0 s2 = s2\<lparr>buckets := m, vj_counts := c'\<rparr>"
    and m: "set m \<subseteq> set m1" "ordered m" "pending m \<le> pending m1" "vj_frames_emitted c' = vj_frames_emitted (vj_counts s1)"
    using evict_to_cap_facts [of "effective_inflight_cap s2" 0 s2] f by (auto simp: s2_def)
  have "buckets_ok m" using ok m(1,2) by (auto simp: buckets_ok_def)
  moreover have "vjb_tick now s = s2\<lparr>buckets := m, vj_counts := c'\<rparr>"
    by (simp add: vjb_tick_def t enforce_inflight_cap_def s2_def [symmetric] e)
  ultimately show ?thesis
    using assms f m by (auto simp: vj_ok_def s2_def numbered_def within_cap_def)
qed

lemma vjb_reset_ok: "vj_ok c (Some (s, out)) \<Longrightarrow> vj_ok c (Some (vjb_reset s, []))"
  by (auto simp: vj_ok_def vjb_reset_def vj_sync_tracker_policy_def Let_def numbered_def within_cap_def buckets_ok_def
      policy_of_config_def set_policy_def no_vj_stats_def)

lemma vj_init_ok: "vj_ok c (Some (new_video_jitter_buffer c, []))"
  by (auto simp: vj_ok_def new_video_jitter_buffer_def vj_sync_tracker_policy_def Let_def numbered_def within_cap_def buckets_ok_def
      policy_of_config_def set_policy_def no_vj_stats_def)

lemma vj_step_ok: "vj_ok c r \<Longrightarrow> vj_ok c (vj_step fl op r)"
proof -
  assume r: "vj_ok c r"
  then obtain s out where s: "r = Some (s, out)" by (auto simp: vj_ok_def split: option.splits)
  note ok = r [unfolded s]
  have step: "vj_step fl op r = vj_apply fl op s out" for op by (simp add: s vj_step_def)
  have pop: "vj_ok c (hand_out (pop_ready fl gate s) out)" for gate
    using pop_ready_ok [OF ok, of fl gate] by (cases "pop_ready fl gate s") (simp add: hand_out_def)
  show ?thesis
  proof (cases op)
    case (VInsert pkt)
    then show ?thesis using vjb_insert_ok [OF ok, of fl pkt] unfolding step by (auto simp: vj_apply_def)
  qed (use pop pop_nack_entries_ok [OF ok] vjb_tick_ok [OF ok] vjb_reset_ok [OF ok] in
      \<open>simp_all add: step vj_apply_def pop_frame_def pop_frame_at_def\<close>)
qed

interpretation vj: component "Some (new_video_jitter_buffer c, [])" "vj_step fl" "vj_ok c"
  by unfold_locales (rule vj_init_ok, rule vj_step_ok)

section \<open>Which numbers are reported missing\<close>

lemma seq_delta_near:
  assumes "X < 65536" "E \<le> 65536" "E \<le> X + 1" "X < E + 32768"
  shows "seq_delta (of_nat X) (of_nat E) = int X - int E"
proof (cases "E = 65536")
  case True
  then have "X = 65535" using assms by simp
  moreover have "(of_nat E :: u16) = 0" by (simp add: True)
  ultimately show ?thesis using True by (simp add: seq_delta_def Let_def)
next
  case False
  then have "uint (of_nat X :: u16) = int X" "uint (of_nat E :: u16) = int E"
    using assms by (simp_all add: uint_nat unat_of_nat)
  then show ?thesis using assms by (simp add: seq_delta_def Let_def)
qed

lemma nack_gap_near:
  "X < 65536 \<Longrightarrow> E \<le> 65536 \<Longrightarrow> E \<le> X + 1 \<Longrightarrow> X < E + 32768 \<Longrightarrow>
     nack_gap (of_nat X) (of_nat E) = (map of_nat [E..<X], of_nat (max E X))"
proof (induction "X + 1 - E" arbitrary: E)
  case 0
  then have "E = X + 1" by simp
  then show ?case using seq_delta_near [of X E] 0 by (subst nack_gap.simps) simp
next
  case (Suc n)
  show ?case
  proof (cases "E = X")
    case True
    then show ?thesis using seq_delta_near [of X E] Suc by (subst nack_gap.simps) simp
  next
    case False
    then have "E < X" using Suc by simp
    moreover have "(of_nat E :: u16) + 1 = of_nat (E + 1)" by simp
    moreover have "nack_gap (of_nat X) (of_nat (E + 1)) = (map of_nat [E + 1..<X], of_nat (max (E + 1) X))"
      by (rule Suc.hyps(1)) (use Suc calculation in auto)
    ultimately show ?thesis using seq_delta_near [of X E] Suc
      by (subst nack_gap.simps) (simp add: upt_rec [of E X] add.commute [of _ "1 :: u16"])
  qed
qed

text \<open>The numbers from \<open>E\<close> up to the largest received that were not received.\<close>

definition missing_from :: "nat \<Rightarrow> nat list \<Rightarrow> nat list" where
  "missing_from E xs = filter (\<lambda>q. q \<notin> set xs) [E..<Max (set xs)]"

lemma nack_scan_near:
  "sorted xs \<Longrightarrow> xs \<noteq> [] \<Longrightarrow> \<forall>x \<in> set xs. x < 65536 \<and> E \<le> x + 1 \<and> x < E + 32768 \<Longrightarrow> E \<le> 65536 \<Longrightarrow>
     nack_scan (map of_nat xs) (of_nat E) = map of_nat (missing_from E xs)"
proof (induction xs arbitrary: E)
  case (Cons x xs)
  have x: "x < 65536" "E \<le> x + 1" "x < E + 32768" using Cons.prems by auto
  have gap: "nack_gap (of_nat x) (of_nat E) = (map of_nat [E..<x], of_nat (max E x))"
    by (rule nack_gap_near) (use x Cons.prems in auto)
  define E' where "E' = x + 1"
  have nxt: "(if seq_delta (of_nat x) (of_nat (max E x)) = 0 then (of_nat (max E x) :: u16) + 1 else of_nat (max E x)) = of_nat E'"
  proof (cases "E = x + 1")
    case True
    then show ?thesis using seq_delta_near [of x E] x Cons.prems by (simp add: E'_def)
  next
    case False
    then show ?thesis using seq_delta_near [of x x] x by (simp add: E'_def max_def)
  qed
  have scan: "nack_scan (map of_nat (x # xs)) (of_nat E) = map of_nat [E..<x] @ nack_scan (map of_nat xs) (of_nat E')"
    using gap nxt by simp
  show ?case
  proof (cases "xs = []")
    case True
    then show ?thesis using scan by (auto simp: missing_from_def filter_id_conv)
  next
    case False
    have ge: "\<forall>y \<in> set xs. x \<le> y" using Cons.prems by simp
    have "nack_scan (map of_nat xs) (of_nat E') = map of_nat (missing_from E' xs)"
      by (rule Cons.IH) (use Cons.prems False ge x in \<open>auto simp: E'_def\<close>)
    moreover have "missing_from E (x # xs) = [E..<x] @ missing_from E' xs"
    proof -
      have M: "Max (set (x # xs)) = Max (set xs)" "x \<le> Max (set xs)" using False ge by (auto simp: max_def)
      have "[E..<Max (set xs)] = [E..<x] @ [x..<Max (set xs)]" if "E \<le> x"
        using upt_add_eq_append [of E x "Max (set xs) - x"] that M(2) by simp
      moreover have "filter (\<lambda>q. q \<notin> set (x # xs)) [x..<Max (set xs)] = missing_from E' xs"
        using M(2) by (cases "x = Max (set xs)") (auto simp: missing_from_def E'_def upt_rec [of x] intro!: filter_cong)
      moreover have "filter (\<lambda>q. q \<notin> set (x # xs)) [E..<x] = [E..<x]"
        using ge by (fastforce simp: filter_id_conv)
      moreover have "E = x + 1 \<Longrightarrow> missing_from E (x # xs) = missing_from E' xs"
        unfolding missing_from_def M(1) E'_def by (auto intro!: filter_cong)
      ultimately show ?thesis using x(2) M(1) by (cases "E \<le> x") (auto simp: missing_from_def)
    qed
    ultimately show ?thesis using scan by simp
  qed
qed simp

text \<open>The gaps of a frame: the numbers between its first packet and the highest one received that did not arrive.\<close>

lemma u16_bound: "unat (w :: u16) < 65536"
  using unsigned_less [of w] by simp

definition frame_gaps :: "frame_bucket \<Rightarrow> u16 list" where
  "frame_gaps b = filter (\<lambda>q. q \<notin> set (received_seqs b)) (map of_nat [unat (first_seq b)..<Max (unat ` set (received_seqs b))])"

definition no_wrap :: "frame_bucket \<Rightarrow> bool" where
  "no_wrap b \<longleftrightarrow> list_all (\<lambda>q. first_seq b \<le> q \<and> unat q < unat (first_seq b) + 32768) (received_seqs b)"

lemma nack_scan_gaps:
  assumes "no_wrap b" "received_seqs b \<noteq> []"
  shows "nack_scan (sort (received_seqs b)) (first_seq b) = frame_gaps b"
proof -
  define xs where "xs = map unat (sort (received_seqs b))"
  have inverse: "map of_nat xs = sort (received_seqs b)" by (simp add: xs_def map_idI)
  have set: "set xs = unat ` set (received_seqs b)" by (simp add: xs_def)
  have "sorted xs" unfolding xs_def sorted_map word_le_nat_alt [symmetric] by (rule sorted_sort)
  then have "nack_scan (map of_nat xs) (of_nat (unat (first_seq b))) = map of_nat (missing_from (unat (first_seq b)) xs)"
  proof (rule nack_scan_near)
    show "xs \<noteq> []" using assms(2) by (simp add: xs_def) (metis set_empty set_sort)
    show "\<forall>x\<in>set xs. x < 65536 \<and> unat (first_seq b) \<le> x + 1 \<and> x < unat (first_seq b) + 32768"
      using assms(1) by (auto simp: u16_bound set no_wrap_def list_all_iff word_le_nat_alt intro: le_SucI)
    show "unat (first_seq b) \<le> 65536" using u16_bound [of "first_seq b"] by simp
  qed
  moreover have "map of_nat (missing_from (unat (first_seq b)) xs) = frame_gaps b"
  proof -
    have in_range: "(of_nat q :: u16) \<in> set (received_seqs b) \<longleftrightarrow> q \<in> set xs" if "q < Max (set xs)" for q
    proof -
      have "Max (set xs) \<in> set xs" using assms(2) by (intro Max_in) (auto simp: set)
      then obtain w :: u16 where "Max (set xs) = unat w" unfolding set by blast
      then have "q < 65536" using that u16_bound [of w] by simp
      then have "unat (of_nat q :: u16) = q" by (simp add: unat_of_nat)
      then show ?thesis unfolding set by force
    qed
    then show ?thesis
      by (auto simp: frame_gaps_def missing_from_def filter_map set [symmetric] o_def intro!: arg_cong [where f = "map of_nat"] filter_cong)
  qed
  ultimately show ?thesis by (simp add: inverse)
qed

lemma nack_buckets_gaps:
  "list_all (\<lambda>(ts, b). \<not> emitted b \<and> 2 \<le> length (received_seqs b) \<longrightarrow> no_wrap b) m \<Longrightarrow>
     fst (nack_buckets m) = concat (map (\<lambda>(ts, b). frame_gaps b) (filter (\<lambda>(ts, b). \<not> emitted b \<and> 2 \<le> length (received_seqs b)) m))"
proof (induction m rule: nack_buckets.induct)
  case (2 ts b m)
  obtain ns m' where r: "nack_buckets m = (ns, m')" by (cases "nack_buckets m")
  show ?case
  proof (cases "emitted b \<or> length (received_seqs b) < 2")
    case True
    then show ?thesis using 2 r by auto
  next
    case False
    then have "received_seqs b \<noteq> []" "no_wrap b" using 2(2) by auto
    then show ?thesis using 2 r False nack_scan_gaps [of b] by auto
  qed
qed simp

section \<open>Reassembly of fragments\<close>

text \<open>A FU-A payload as the packetizer lays it out.\<close>

definition fu_a_payload :: "u8 \<Rightarrow> u8 \<Rightarrow> bool \<Rightarrow> bool \<Rightarrow> bytes \<Rightarrow> bytes" where
  "fu_a_payload ind t start fin frag = ind # fu_a_byte1 t start fin # frag"

lemma fu_a_byte1_flags:
  "(fu_a_byte1 t start fin AND 0x80 \<noteq> 0) = start" "(fu_a_byte1 t start fin AND 0x40 \<noteq> 0) = fin"
  "fu_a_byte1 t start fin AND 0x1F = t AND 0x1F"
proof -
  have m: "(0x1F :: u8) = mask 5" by (simp add: mask_eq_exp_minus_1)
  have "\<not> bit ((0x1F :: u8)) 7" "\<not> bit ((0x1F :: u8)) 6" by (simp_all add: m bit_mask_iff)
  then show "(fu_a_byte1 t start fin AND 0x80 \<noteq> 0) = start" "(fu_a_byte1 t start fin AND 0x40 \<noteq> 0) = fin"
    by (auto simp: fu_a_byte1_def h264_consts flag_simps bit_simps)
  have "(0x80 :: u8) AND 0x1F = 0" "(0x40 :: u8) AND 0x1F = 0" by simp_all
  then show "fu_a_byte1 t start fin AND 0x1F = t AND 0x1F"
    by (simp add: fu_a_byte1_def h264_consts and.assoc bit.conj_disj_distrib2)
qed

lemma append_fragment:
  assumes "ind AND 0x1F = 28"
  shows "append_fu_a_fragment (fu_a_payload ind t True False frag) b =
      Some (b\<lparr>fu_a_in_progress := True, fu_a_nalu_type := t AND 0x1F, fu_a_nri := drop_bit 5 (ind AND 0x60), fu_a_buf := frag, fu_a_start_seq := 0\<rparr>)"
    and "fu_a_in_progress b \<Longrightarrow> append_fu_a_fragment (fu_a_payload ind t False False frag) b = Some (b\<lparr>fu_a_buf := fu_a_buf b @ frag\<rparr>)"
    and "fu_a_in_progress b \<Longrightarrow> append_fu_a_fragment (fu_a_payload ind t False True frag) b =
      Some (b\<lparr>fu_a_buf := fu_a_buf b @ frag, bitstream := bitstream b @ [push_bit 5 (fu_a_nri b) OR (fu_a_nalu_type b AND 0x1F)] @ fu_a_buf b @ frag,
        fu_a_in_progress := False\<rparr>)"
  using assms
  by (simp_all add: append_fu_a_fragment_def parse_fu_a_header_eq fu_a_payload_def Let_def fu_a_byte1_flags)

definition insert_all :: "(rat \<Rightarrow> rat) \<Rightarrow> inbound_packet list \<Rightarrow> video_jitter_buffer \<Rightarrow> video_jitter_buffer option" where
  "insert_all fl pkts s = fold (\<lambda>pkt r. r \<bind> (\<lambda>s. map_option snd (vjb_insert fl pkt s))) pkts (Some s)"

lemma insert_all_simps:
  "insert_all fl [] s = Some s"
  "vjb_insert fl pkt s = Some (ok, s') \<Longrightarrow> insert_all fl (pkt # pkts) s = insert_all fl pkts s'"
  "insert_all fl pkts s = Some s' \<Longrightarrow> insert_all fl (pkts @ qs) s = insert_all fl qs s'"
  by (simp_all add: insert_all_def)

text \<open>A buffer that holds one frame and nothing to hand out by force.\<close>

definition holds :: "video_jitter_buffer \<Rightarrow> u32 \<Rightarrow> frame_bucket \<Rightarrow> bool" where
  "holds s ts b \<longleftrightarrow> buckets s = [(ts, b)] \<and> pending_incomplete s = []"

lemma insert_next:
  assumes "holds s ts b" "in_timestamp pkt = ts" "in_payload pkt \<noteq> []" "store_packet pkt b = Some b'"
  shows "\<exists>s'. vjb_insert fl pkt s = Some (True, s') \<and> holds s' ts b'"
  using assms by (simp add: vjb_insert_def holds_def find_or_create_bucket_def Let_def)

lemma insert_first:
  assumes "buckets s = []" "pending_incomplete s = []" "in_payload pkt \<noteq> []" "store_packet pkt (new_bucket pkt) = Some b'"
  shows "\<exists>s'. vjb_insert fl pkt s = Some (True, s') \<and> holds s' (in_timestamp pkt) b'"
proof -
  define s0 where "s0 = s\<lparr>vj_counts := (vj_counts s)\<lparr>packets_inserted := packets_inserted (vj_counts s) + 1\<rparr>\<rparr>"
  have "evict_to_cap k 1 s0 = s0" for k
    by (subst evict_to_cap.simps) (simp add: s0_def assms(1) find_victim_def)
  then have s1: "find_or_create_bucket fl pkt s0 = observe_frame fl pkt (s0\<lparr>buckets := [(in_timestamp pkt, new_bucket pkt)]\<rparr>)"
    by (simp add: find_or_create_bucket_def enforce_inflight_cap_def Let_def s0_def assms(1))
  show ?thesis
    using assms(2-4) unfolding vjb_insert_def Let_def s0_def [symmetric]
    by (simp add: s1 observe_frame_keeps holds_def) (simp add: s0_def observe_frame_keeps)
qed

lemma store_fragment_packet:
  assumes "in_codec pkt = CodecH264" "in_payload pkt = fu_a_payload ind t start fin frag" "ind AND 0x1F = 28"
  shows "store_packet pkt b = append_fu_a_fragment (fu_a_payload ind t start fin frag)
    (b\<lparr>received_seqs := received_seqs b @ [in_seq pkt], fb_last_seq := in_seq pkt, last_arrival_us := arrival_us pkt,
       marker_seen := marker_seen b \<or> in_marker pkt\<rparr>)"
  using assms by (simp add: store_packet_def Let_def is_fu_a_def fu_a_payload_def)

lemma pop_none: "holds s ts b \<Longrightarrow> emitted b \<or> \<not> frame_complete b \<Longrightarrow> pop_frame fl s = (None, s)"
  by (auto simp: pop_frame_def pop_ready_def ready_bucket_def holds_def)

lemma pop_one:
  assumes "holds s ts b" "\<not> emitted b" "frame_complete b"
  shows "\<exists>f s'. pop_frame fl s = (Some f, s') \<and> af_bitstream f = bitstream b \<and> af_complete f \<and> af_timestamp f = fb_timestamp b
    \<and> is_keyframe f = is_keyframe_payload (fb_codec b) (bitstream b) \<and> fst (pop_frame fl s') = None"
proof -
  obtain f s' where e: "emit_bucket ts b s = (f, s')" by (cases "emit_bucket ts b s")
  then have f: "af_bitstream f = bitstream b" "af_complete f" "af_timestamp f = fb_timestamp b"
    "is_keyframe f = is_keyframe_payload (fb_codec b) (bitstream b)" "holds s' ts (b\<lparr>emitted := True, bitstream := []\<rparr>)"
    using assms by (auto simp: emit_bucket_def make_assembled_def Let_def holds_def frame_complete_def)
  have "pop_frame fl s = (Some f, s')"
    using assms e by (simp add: pop_frame_def pop_ready_def ready_bucket_def holds_def)
  moreover have "fst (pop_frame fl s') = None" using pop_none [OF f(5)] by simp
  ultimately show ?thesis using f by blast
qed

text \<open>A bucket while the fragments of a NAL unit arrive: \<open>buf\<close> is what has come so far.\<close>

definition assembling :: "u8 \<Rightarrow> u8 \<Rightarrow> u32 \<Rightarrow> bytes \<Rightarrow> frame_bucket \<Rightarrow> bool" where
  "assembling ind t ts buf b \<longleftrightarrow> fu_a_in_progress b \<and> fu_a_buf b = buf \<and> fu_a_nalu_type b = t AND 0x1F
     \<and> fu_a_nri b = drop_bit 5 (ind AND 0x60) \<and> bitstream b = [] \<and> \<not> marker_seen b \<and> \<not> emitted b
     \<and> fb_timestamp b = ts \<and> fb_codec b = CodecH264"

lemma insert_middle:
  assumes "ind AND 0x1F = 28"
    and "list_all2 (\<lambda>pkt frag. in_payload pkt = fu_a_payload ind t False False frag \<and> in_codec pkt = CodecH264
           \<and> in_timestamp pkt = ts \<and> \<not> in_marker pkt) ps fs"
    and "holds s ts b" "assembling ind t ts buf b"
  shows "\<exists>s' b'. insert_all fl ps s = Some s' \<and> holds s' ts b' \<and> assembling ind t ts (buf @ concat fs) b'"
  using assms(2-4)
proof (induction ps fs arbitrary: s b buf rule: list_all2_induct)
  case Nil
  then show ?case by (auto simp: insert_all_simps)
next
  case (Cons pkt ps frag fs)
  define b1 where "b1 = b\<lparr>received_seqs := received_seqs b @ [in_seq pkt], fb_last_seq := in_seq pkt, last_arrival_us := arrival_us pkt,
     marker_seen := marker_seen b \<or> in_marker pkt, fu_a_buf := fu_a_buf b @ frag\<rparr>"
  have "store_packet pkt b = Some b1"
    using Cons.hyps(1) Cons.prems(2) assms(1) store_fragment_packet [of pkt ind t False False frag b] append_fragment(2) [OF assms(1)]
    by (simp add: assembling_def b1_def)
  then obtain s1 where s1: "vjb_insert fl pkt s = Some (True, s1)" "holds s1 ts b1"
    using insert_next [OF Cons.prems(1)] Cons.hyps(1) by (fastforce simp: fu_a_payload_def)
  moreover have "assembling ind t ts (buf @ frag) b1"
    using Cons.prems(2) Cons.hyps(1) by (simp add: assembling_def b1_def)
  ultimately show ?case using Cons.IH [of s1 b1 "buf @ frag"] by (simp add: insert_all_simps(2) [OF s1(1)])
qed

lemma nal_header_nri: "push_bit 5 (drop_bit 5 ind) AND 0x60 = ind AND (0x60 :: u8)"
  by (rule u8_eqI) (simp_all add: bit_simps)

lemma nal_header_type: "((ind AND 0x60) OR (t AND 0x1F)) AND 0x1F = (t AND 0x1F :: u8)"
  by (simp add: bit.conj_disj_distrib2 and.assoc)

text \<open>The packets of a fragmented NAL unit, in order, with the marker on the last one.\<close>

definition fragment_packets :: "u8 \<Rightarrow> u8 \<Rightarrow> u32 \<Rightarrow> bytes \<Rightarrow> bytes list \<Rightarrow> bytes \<Rightarrow> inbound_packet list \<Rightarrow> bool" where
  "fragment_packets ind t ts f0 fs f1 pkts \<longleftrightarrow>
     map in_payload pkts = fu_a_payload ind t True False f0 # map (fu_a_payload ind t False False) fs @ [fu_a_payload ind t False True f1]
     \<and> list_all (\<lambda>p. in_codec p = CodecH264 \<and> in_timestamp p = ts) pkts
     \<and> list_all (\<lambda>p. \<not> in_marker p) (butlast pkts) \<and> in_marker (last pkts)"

lemma fragment_packetsE:
  assumes "fragment_packets ind t ts f0 fs f1 pkts"
  obtains p ps q where "pkts = p # ps @ [q]" "in_payload p = fu_a_payload ind t True False f0" "\<not> in_marker p"
    "list_all2 (\<lambda>pkt frag. in_payload pkt = fu_a_payload ind t False False frag \<and> in_codec pkt = CodecH264
       \<and> in_timestamp pkt = ts \<and> \<not> in_marker pkt) ps fs"
    "in_payload q = fu_a_payload ind t False True f1" "in_marker q" "in_codec p = CodecH264" "in_timestamp p = ts"
    "in_codec q = CodecH264" "in_timestamp q = ts"
proof -
  obtain p r where r: "pkts = p # r" "in_payload p = fu_a_payload ind t True False f0"
    "map in_payload r = map (fu_a_payload ind t False False) fs @ [fu_a_payload ind t False True f1]"
    using assms by (auto simp: fragment_packets_def map_eq_Cons_conv)
  obtain ps q where q: "r = ps @ [q]" "map in_payload ps = map (fu_a_payload ind t False False) fs" "in_payload q = fu_a_payload ind t False True f1"
    using r(3) by (auto simp: map_eq_append_conv)
  have "\<forall>x \<in> set ps. in_codec x = CodecH264 \<and> in_timestamp x = ts \<and> \<not> in_marker x"
    using assms by (auto simp: fragment_packets_def r(1) q(1) butlast_append list_all_iff)
  have "list_all2 (\<lambda>x y. x = fu_a_payload ind t False False y) (map in_payload ps) fs"
    unfolding q(2) by (simp add: list_all2_conv_all_nth)
  then have "list_all2 (\<lambda>pkt frag. in_payload pkt = fu_a_payload ind t False False frag) ps fs"
    by (simp add: list_all2_map1)
  then have "list_all2 (\<lambda>pkt frag. in_payload pkt = fu_a_payload ind t False False frag \<and> in_codec pkt = CodecH264
       \<and> in_timestamp pkt = ts \<and> \<not> in_marker pkt) ps fs"
    using \<open>\<forall>x \<in> set ps. in_codec x = CodecH264 \<and> in_timestamp x = ts \<and> \<not> in_marker x\<close>
    by (simp add: list_all2_conv_all_nth)
  then show ?thesis
    using that [of p ps q] assms r q by (simp add: fragment_packets_def butlast_append)
qed

section \<open>Properties\<close>

text \<open>
  C30: reassembly end to end. When the fragments of a NAL unit arrive in order at an empty buffer, the frame
  cannot be popped before the last one is there; then it comes out once, complete, as exactly the NAL unit
  with its header restored from the fragments, flagged as a key frame by its type.
\<close>

theorem vjb_reassembles_nal:
  assumes "fragment_packets ind t ts f0 fs f1 pkts" "ind AND 0x1F = 28" "buckets s = []" "pending_incomplete s = []"
  shows "\<exists>s0 s1 f s2. insert_all fl (butlast pkts) s = Some s0 \<and> fst (pop_frame fl s0) = None
    \<and> insert_all fl pkts s = Some s1 \<and> pop_frame fl s1 = (Some f, s2) \<and> af_timestamp f = ts \<and> af_complete f
    \<and> af_bitstream f = ((ind AND 0x60) OR (t AND 0x1F)) # f0 @ concat fs @ f1
    \<and> is_keyframe f = (t AND 0x1F \<in> {5, 7, 8}) \<and> fst (pop_frame fl s2) = None"
proof -
  obtain p ps q where pkts: "pkts = p # ps @ [q]" and p: "in_payload p = fu_a_payload ind t True False f0" "\<not> in_marker p"
    and ps: "list_all2 (\<lambda>pkt frag. in_payload pkt = fu_a_payload ind t False False frag \<and> in_codec pkt = CodecH264
       \<and> in_timestamp pkt = ts \<and> \<not> in_marker pkt) ps fs"
    and q: "in_payload q = fu_a_payload ind t False True f1" "in_marker q"
    and c: "in_codec p = CodecH264" "in_timestamp p = ts" "in_codec q = CodecH264" "in_timestamp q = ts"
    using fragment_packetsE [OF assms(1)] by blast
  obtain b where b: "store_packet p (new_bucket p) = Some b" "assembling ind t ts f0 b"
    using store_fragment_packet [OF c(1) p(1) assms(2), of "new_bucket p"] append_fragment(1) [OF assms(2)] p(2) c
    by (simp add: assembling_def new_bucket_def)
  obtain sp where sp: "vjb_insert fl p s = Some (True, sp)" "holds sp ts b"
    using insert_first [OF assms(3,4) _ b(1)] p(1) c(2) by (fastforce simp: fu_a_payload_def)
  obtain s0 b0 where s0: "insert_all fl ps sp = Some s0" "holds s0 ts b0" "assembling ind t ts (f0 @ concat fs) b0"
    using insert_middle [OF assms(2) ps sp(2) b(2)] by blast
  obtain b1 where b1: "store_packet q b0 = Some b1" "\<not> emitted b1" "frame_complete b1" "fb_timestamp b1 = ts" "fb_codec b1 = CodecH264"
    "bitstream b1 = ((ind AND 0x60) OR (t AND 0x1F)) # f0 @ concat fs @ f1"
    using store_fragment_packet [OF c(3) q(1) assms(2), of b0] append_fragment(3) [OF assms(2)] q(2) s0(3)
    by (simp add: assembling_def frame_complete_def nal_header_nri)
  obtain s1 where s1: "vjb_insert fl q s0 = Some (True, s1)" "holds s1 ts b1"
    using insert_next [OF s0(2) c(4) _ b1(1)] q(1) by (fastforce simp: fu_a_payload_def)
  have key: "is_keyframe_payload CodecH264 (bitstream b1) = (t AND 0x1F \<in> {5, 7, 8})"
    unfolding b1(6) by (simp add: is_keyframe_payload_def Let_def nal_header_type)
  have pre: "insert_all fl (p # ps) s = Some s0" by (simp add: insert_all_simps(2) [OF sp(1)] s0(1))
  moreover have "insert_all fl pkts s = Some s1"
    using insert_all_simps(3) [OF pre, of "[q]"] by (simp add: pkts insert_all_simps(1) insert_all_simps(2) [OF s1(1)])
  moreover have "fst (pop_frame fl s0) = None"
    using pop_none [OF s0(2)] s0(3) by (simp add: assembling_def frame_complete_def)
  moreover have "butlast pkts = p # ps" by (simp add: pkts butlast_append)
  moreover note pop_one [OF s1(2) b1(2,3), of fl, unfolded b1(4,5,6)]
  ultimately show ?thesis using key b1(6) by auto
qed

definition sample_fragment :: "u16 \<Rightarrow> bool \<Rightarrow> bytes \<Rightarrow> inbound_packet" where
  "sample_fragment sq m payload = \<lparr>in_ssrc = 1, in_seq = sq, in_timestamp = 3000, arrival_us = 0, in_marker = m,
     in_payload_type = 96, in_codec = CodecH264, in_payload = payload\<rparr>"

lemma new_vjb_empty: "buckets (new_video_jitter_buffer c) = []" "pending_incomplete (new_video_jitter_buffer c) = []"
  by (simp_all add: new_video_jitter_buffer_def vj_sync_tracker_policy_def Let_def)

theorem vjb_reassembles_nal_witness:
  "\<exists>s0 s1 f s2. insert_all (\<lambda>x. x) [sample_fragment 1 False [0x7C, 0x85, 1], sample_fragment 2 False [0x7C, 0x05, 2]] (new_video_jitter_buffer default_vj_config) = Some s0
    \<and> fst (pop_frame (\<lambda>x. x) s0) = None
    \<and> insert_all (\<lambda>x. x) [sample_fragment 1 False [0x7C, 0x85, 1], sample_fragment 2 False [0x7C, 0x05, 2], sample_fragment 3 True [0x7C, 0x45, 3]]
        (new_video_jitter_buffer default_vj_config) = Some s1
    \<and> pop_frame (\<lambda>x. x) s1 = (Some f, s2) \<and> af_bitstream f = [0x65, 1, 2, 3] \<and> is_keyframe f \<and> fst (pop_frame (\<lambda>x. x) s2) = None"
proof -
  let ?pkts = "[sample_fragment 1 False [0x7C, 0x85, 1], sample_fragment 2 False [0x7C, 0x05, 2], sample_fragment 3 True [0x7C, 0x45, 3]]"
  have "fragment_packets 0x7C 5 3000 [1] [[2]] [3] ?pkts"
    by (simp add: fragment_packets_def sample_fragment_def fu_a_payload_def fu_a_byte1_def h264_consts)
  from vjb_reassembles_nal [OF this _ new_vjb_empty, of "\<lambda>x. x" default_vj_config]
  show ?thesis by auto
qed

text \<open>
  C31: whatever packets arrive and in whatever order the buffer is polled, ticked and reset, no payload is read
  out of bounds, frames are keyed by their timestamp, the frames handed out since the last reset carry the
  numbers 1, 2, 3 and so on without gap or repetition (those still queued for forced emission continue the
  count), and in fixed-window mode never more than \<^verbatim>\<open>max_inflight_frames\<close> frames (or one) are pending.
\<close>

theorem vjb_invariant:
  "\<exists>s out. fold (vj_step fl) ops (Some (new_video_jitter_buffer c, [])) = Some (s, out)
     \<and> map fb_timestamp (map snd (buckets s)) = map fst (buckets s) \<and> sorted_wrt (<) (map fst (buckets s))
     \<and> map frame_seq (out @ pending_incomplete s) = map of_nat [1..<vj_frames_emitted (vj_counts s) + 1]
     \<and> length out + length (pending_incomplete s) = vj_frames_emitted (vj_counts s)
     \<and> (vj_adaptive c \<or> pending (buckets s) \<le> max 1 (unat (max_inflight_frames c)))"
proof -
  obtain s out where s: "fold (vj_step fl) ops (Some (new_video_jitter_buffer c, [])) = Some (s, out)"
    "vj_ok c (Some (s, out))"
    using vj.run_inv [of c fl ops] by (cases "fold (vj_step fl) ops (Some (new_video_jitter_buffer c, []))") (auto simp: vj_ok_def)
  then have ok: "buckets_ok (buckets s)" "numbered s out" "within_cap s" "vj_cfg s = resolve_policy_defaults c" by (auto simp: vj_ok_def)
  have cfg: "vj_adaptive (vj_cfg s) = vj_adaptive c" "max_inflight_frames (vj_cfg s) = max_inflight_frames c"
    by (simp_all add: ok(4) resolve_policy_defaults_def Let_def split: prod.split)
  have "length (map frame_seq (out @ pending_incomplete s)) = vj_frames_emitted (vj_counts s)"
    using ok(2) by (simp only: numbered_def) simp
  moreover have "map fb_timestamp (map snd (buckets s)) = map fst (buckets s)"
    using ok(1) by (auto simp: buckets_ok_def)
  ultimately show ?thesis using s(1) ok cfg by (auto simp: buckets_ok_def ordered_def numbered_def within_cap_def)
qed

text \<open>
  What \<^verbatim>\<open>pop_nack_entries\<close> reports while, in every pending frame, the packet that arrived first has the lowest number and the
  numbers do not wrap around: the concatenation over the pending frames of the numbers missing between the first packet and the highest
  one received. Both conditions matter. A frame that starts with a reordered packet (8 before 6) does not report 7, and one whose numbers wrap around
  reports packets it has (\<open>vjb_nack_wrap\<close> below).
\<close>

theorem vjb_nacks_exact:
  assumes "emit_nacks (vj_cfg s)"
    and "list_all (\<lambda>(ts, b). \<not> emitted b \<and> 2 \<le> length (received_seqs b) \<longrightarrow> no_wrap b) (buckets s)"
  shows "fst (pop_nack_entries s) =
    concat (map (\<lambda>(ts, b). frame_gaps b) (filter (\<lambda>(ts, b). \<not> emitted b \<and> 2 \<le> length (received_seqs b)) (buckets s)))"
  using assms nack_buckets_gaps [of "buckets s"]
  by (simp add: pop_nack_entries_def split: prod.split) (metis fst_conv)

definition sample_pair :: "u16 list \<Rightarrow> frame_bucket" where
  "sample_pair sqs = (new_bucket (sample_fragment (hd sqs) False [1]))\<lparr>received_seqs := sqs\<rparr>"

theorem vjb_nacks_exact_witness:
  "fst (pop_nack_entries ((new_video_jitter_buffer default_vj_config)\<lparr>buckets := [(3000, sample_pair [7, 11, 9])]\<rparr>)) = [8, 10]"
proof -
  have "fst (pop_nack_entries ((new_video_jitter_buffer default_vj_config)\<lparr>buckets := [(3000, sample_pair [7, 11, 9])]\<rparr>)) = frame_gaps (sample_pair [7, 11, 9])"
    by (subst vjb_nacks_exact)
      (simp_all add: new_video_jitter_buffer_def vj_sync_tracker_policy_def Let_def default_vj_config_def resolve_policy_defaults_def
        sample_pair_def new_bucket_def sample_fragment_def no_wrap_def)
  also have "\<dots> = [8, 10]"
    by (simp add: frame_gaps_def sample_pair_def new_bucket_def sample_fragment_def upt_rec)
  finally show ?thesis .
qed

section \<open>Playout\<close>

lemma earliest_min:
  "earliest m best = Some x \<Longrightarrow> y \<in> set m \<or> best = Some y \<Longrightarrow> first_arrival_us (snd x) \<le> first_arrival_us (snd y)"
proof (induction m best arbitrary: y rule: earliest.induct)
  case (2 ts b m best)
  define best' where "best' = (case best of None \<Rightarrow> Some (ts, b)
    | Some (ts', b') \<Rightarrow> if first_arrival_us b < first_arrival_us b' then Some (ts, b) else best)"
  have "earliest m best' = Some x" using 2(2) by (simp add: best'_def)
  note IH = 2(1) [folded best'_def, OF this]
  obtain z where z: "best' = Some z" "first_arrival_us (snd z) \<le> first_arrival_us b"
    "\<And>w. best = Some w \<Longrightarrow> first_arrival_us (snd z) \<le> first_arrival_us (snd w)"
  proof (cases best)
    case (Some y)
    then show ?thesis
      using that [of "(ts, b)"] that [of y] by (cases y; cases "first_arrival_us b < first_arrival_us (snd y)") (auto simp: best'_def)
  qed (use that [of "(ts, b)"] in \<open>simp add: best'_def\<close>)
  have "first_arrival_us (snd x) \<le> first_arrival_us (snd z)" using IH z(1) by blast
  then show ?case using 2(3) z(2) z(3) [of y] IH [of y] by auto
qed simp

lemma earliest_None: "earliest m best = None \<longleftrightarrow> m = [] \<and> best = None"
  by (induction m best rule: earliest.induct) (auto split: option.splits if_splits)

lemma target_between:
  "pol_adaptive (policy t) \<Longrightarrow> pol_min_delay (policy t) \<le> pol_max_delay (policy t) \<Longrightarrow>
     pol_min_delay (policy t) \<le> tracker_target_delay fl t \<and> tracker_target_delay fl t \<le> pol_max_delay (policy t)"
  by (simp add: tracker_target_delay_def Let_def)

text \<open>
  Adaptive playout. In every reachable state with no forced frame queued, a timed pop hands out the
  complete frame that arrived first, not before the configured minimum delay after its first packet, and once
  the maximum delay of some complete frame has passed it does hand out a frame.
\<close>

theorem vjb_playout_window:
  assumes "fold (vj_step fl) ops (Some (new_video_jitter_buffer c, [])) = Some (s, out)"
    and "vj_adaptive c" "vj_min_delay (vj_cfg s) \<le> vj_max_delay (vj_cfg s)" "pending_incomplete s = []" "0 \<le> now"
  shows "case fst (pop_frame_at fl now s) of
      Some f \<Rightarrow> list_ex (\<lambda>(ts, b). af_timestamp f = ts \<and> \<not> emitted b \<and> frame_complete b
          \<and> first_arrival_us b + vj_min_delay (vj_cfg s) * 1000 \<le> now
          \<and> list_all (\<lambda>(ts', b'). \<not> emitted b' \<and> frame_complete b' \<and> first_arrival_us b' < first_arrival_us b \<longrightarrow> False) (buckets s)) (buckets s)
    | None \<Rightarrow> list_all (\<lambda>(ts, b). \<not> emitted b \<and> frame_complete b \<longrightarrow> now < first_arrival_us b + vj_max_delay (vj_cfg s) * 1000) (buckets s)"
proof -
  have ok: "vj_ok c (Some (s, out))" using vj.run_inv [of c fl ops] assms(1) by simp
  have cfg: "vj_adaptive (vj_cfg s)"
    using ok assms(2) by (simp add: vj_ok_def resolve_policy_defaults_def Let_def split: prod.split)
  have pol: "policy (vj_tracker s) = policy_of_config (vj_cfg s)" and keys: "\<And>ts b. (ts, b) \<in> set (buckets s) \<Longrightarrow> fb_timestamp b = ts"
    using ok by (auto simp: vj_ok_def buckets_ok_def)
  define T where "T = current_target fl s"
  have T: "vj_min_delay (vj_cfg s) \<le> T" "T \<le> vj_max_delay (vj_cfg s)"
    using target_between [of "vj_tracker s" fl] assms(3) cfg pol by (simp_all add: T_def current_target_def policy_of_config_def)
  define m where "m = filter (\<lambda>(ts, b). \<not> emitted b \<and> frame_complete b \<and> due (T * 1000) now b) (buckets s)"
  have rb: "ready_bucket fl now s = earliest m None"
    using cfg assms(5) by (simp add: ready_bucket_def m_def T_def)
  show ?thesis
  proof (cases "earliest m None")
    case None
    then have "m = []" by (simp add: earliest_None)
    then have "first_arrival_us b + vj_max_delay (vj_cfg s) * 1000 > now"
      if "(ts, b) \<in> set (buckets s)" "\<not> emitted b" "frame_complete b" for ts b
      using that T(2) by (fastforce simp: m_def due_def filter_empty_conv)
    then show ?thesis using None rb assms(4) by (auto simp: pop_frame_at_def pop_ready_def list_all_iff)
  next
    case (Some x)
    obtain ts b where x: "x = (ts, b)" by (cases x)
    have b: "(ts, b) \<in> set (buckets s)" "\<not> emitted b" "frame_complete b" "first_arrival_us b + T * 1000 \<le> now"
      using earliest_set [OF Some] by (auto simp: x m_def due_def)
    have "first_arrival_us b \<le> first_arrival_us b'"
      if "(ts', b') \<in> set (buckets s)" "\<not> emitted b'" "frame_complete b'" for ts' b'
    proof (rule ccontr)
      assume lt: "\<not> ?thesis"
      then have "(ts', b') \<in> set m" using that b(4) by (simp add: m_def due_def)
      then show False using earliest_min [OF Some, of "(ts', b')"] lt by (simp add: x)
    qed
    moreover have "fst (pop_frame_at fl now s) = Some (fst (emit_bucket ts b s))"
      using Some rb assms(4) x by (simp add: pop_frame_at_def pop_ready_def split: prod.split)
    moreover have "af_timestamp (fst (emit_bucket ts b s)) = ts"
      using keys [OF b(1)] by (simp add: emit_bucket_def make_assembled_def Let_def)
    moreover have "first_arrival_us b + vj_min_delay (vj_cfg s) * 1000 \<le> now" using b(4) T(1) by simp
    ultimately show ?thesis using b by (auto simp: list_ex_iff list_all_iff not_less intro!: bexI [of _ "(ts, b)"])
  qed
qed

theorem vjb_playout_window_witness:
  "\<exists>s. fold (vj_step (\<lambda>x. x)) [VInsert (sample_fragment 1 True [0x65, 9])]
        (Some (new_video_jitter_buffer (default_vj_config\<lparr>vj_adaptive := True\<rparr>), [])) = Some (s, [])
     \<and> (case fst (pop_frame_at (\<lambda>x. x) 1000000 s) of None \<Rightarrow> False | Some f \<Rightarrow> af_timestamp f = 3000)"
proof -
  define c where "c = default_vj_config\<lparr>vj_adaptive := True\<rparr>"
  define p where "p = sample_fragment 1 True [0x65, 9]"
  obtain b where b: "store_packet p (new_bucket p) = Some b" "frame_complete b" "\<not> emitted b" "first_arrival_us b = 0"
    by (simp add: store_packet_def p_def sample_fragment_def new_bucket_def is_fu_a_def frame_complete_def)
  obtain s where s: "vjb_insert (\<lambda>x. x) p (new_video_jitter_buffer c) = Some (True, s)" "holds s 3000 b"
    using insert_first [OF new_vjb_empty _ b(1), of "\<lambda>x. x" c] by (auto simp: p_def sample_fragment_def)
  have run: "fold (vj_step (\<lambda>x. x)) [VInsert p] (Some (new_video_jitter_buffer c, [])) = Some (s, [])"
    by (simp add: vj_step_def vj_apply_def s(1))
  then have "vj_cfg s = resolve_policy_defaults c" using vj.run_inv [of c "\<lambda>x. x" "[VInsert p]"] by (simp add: vj_ok_def)
  then have d: "vj_min_delay (vj_cfg s) = 20" "vj_max_delay (vj_cfg s) = 200"
    by (simp_all add: c_def default_vj_config_def resolve_policy_defaults_def Let_def)
  have h: "buckets s = [(3000, b)]" "pending_incomplete s = []" using s(2) by (simp_all add: holds_def)
  have "case fst (pop_frame_at (\<lambda>x. x) 1000000 s) of None \<Rightarrow> False | Some f \<Rightarrow> af_timestamp f = 3000"
    using vjb_playout_window [OF run _ _ h(2), of 1000000] b d
    by (simp add: c_def h(1) split: option.splits)
  then show ?thesis using run unfolding c_def p_def by blast
qed

section \<open>Where the code departs from its description\<close>

text \<open>
  The received numbers are sorted as plain integers, so a frame whose numbers wrap around reports a packet that
  has arrived; a duplicate packet's payload is appended again; a frame forced out in the middle of a fragmented
  NAL unit is tagged complete when its marker packet had arrived.
\<close>

theorem vjb_nack_wrap: "nack_scan (sort [65535, 0]) 65535 = [65535]"
proof -
  have s: "sort [65535, 0 :: u16] = [0, 65535]" by simp
  have "nack_gap 0 65535 = ([65535], 0)"
    by (subst nack_gap.simps, subst nack_gap.simps) (simp add: seq_delta_def)
  moreover have "nack_gap 65535 1 = ([], 1)" by (subst nack_gap.simps) (simp add: seq_delta_def)
  ultimately show ?thesis unfolding s by (simp add: seq_delta_def)
qed

theorem vjb_duplicate_appended:
  "map_option bitstream (store_packet (sample_fragment 1 True [0x61, 9]) (new_bucket (sample_fragment 1 True [0x61, 9]))
     \<bind> store_packet (sample_fragment 1 True [0x61, 9])) = Some [0x61, 9, 0x61, 9]"
  by (simp add: store_packet_def sample_fragment_def new_bucket_def is_fu_a_def)

theorem vjb_forced_complete:
  "map af_complete (pending_incomplete (snd (force_emit
     ((new_bucket (sample_fragment 1 True [0x7C, 0x85, 1]))\<lparr>fu_a_in_progress := True\<rparr>) (new_video_jitter_buffer default_vj_config)))) = [True]"
  by (simp add: force_emit_def make_assembled_def new_bucket_def sample_fragment_def Let_def new_vjb_empty)

end
