(* ===== verification/Video_Sender.thy ===== *)
theory Video_Sender
  imports Video_Jitter_Buffer
begin

text \<open>
  The sender of the video pipeline, \<^verbatim>\<open>src/modules/video_pipeline/src/video_pipeline.cpp\<close>: it splits an encoded
  frame into NAL units and RTP payloads, numbers and emits them and keeps the last ones in a ring for
  retransmission.

  The packet callback is modelled by the history of its calls, kept while one is registered. A call that
  does not return normally, because a loop does not end or an access is out of range, is \<open>None\<close>. Sizes and
  statistics are natural numbers.
\<close>

section \<open>NAL units of a frame\<close>

function find_next_start :: "bytes \<Rightarrow> nat \<Rightarrow> nat" where
  "find_next_start bs j =
     (if j + 2 < length bs
      then if bs ! j = 0 \<and> bs ! (j + 1) = 0 \<and> bs ! (j + 2) = 1 then j else find_next_start bs (j + 1)
      else length bs)"
  by pat_completeness auto
termination by (relation "measure (\<lambda>(bs, j). length bs - j)") auto

function find_next_start4 :: "bytes \<Rightarrow> nat \<Rightarrow> nat" where
  "find_next_start4 bs j =
     (if j + 3 < length bs
      then if bs ! j = 0 \<and> bs ! (j + 1) = 0 \<and> bs ! (j + 2) = 0 \<and> bs ! (j + 3) = 1 then j else find_next_start4 bs (j + 1)
      else length bs)"
  by pat_completeness auto
termination by (relation "measure (\<lambda>(bs, j). length bs - j)") auto

declare find_next_start.simps [simp del] find_next_start4.simps [simp del]

definition prefix_len :: "bytes \<Rightarrow> nat \<Rightarrow> nat" where
  "prefix_len bs start = (if start + 3 < length bs \<and> bs ! (start + 3) = 1 then 4 else 3)"

lemma find_next_start_ge: "j \<le> length bs \<Longrightarrow> j \<le> find_next_start bs j"
proof (induction bs j rule: find_next_start.induct)
  case (1 bs j)
  then show ?case by (subst find_next_start.simps) auto
qed

lemma find_next_start4_ge: "j \<le> length bs \<Longrightarrow> j \<le> find_next_start4 bs j"
proof (induction bs j rule: find_next_start4.induct)
  case (1 bs j)
  then show ?case by (subst find_next_start4.simps) auto
qed

function annex_b_loop :: "bytes \<Rightarrow> nat \<Rightarrow> bytes list \<Rightarrow> bytes list" where
  "annex_b_loop bs cursor out =
     (if cursor < length bs
      then let next4 = find_next_start4 bs cursor;
               next3 = find_next_start bs cursor;
               nxt = (if next4 < next3 then next4 else next3);
               fin = (if nxt = length bs then length bs else nxt);
               out = (if fin > cursor then out @ [take (fin - cursor) (drop cursor bs)] else out)
           in if nxt = length bs then out else annex_b_loop bs (nxt + prefix_len bs nxt) out
      else out)"
  by pat_completeness auto
termination
proof (relation "measure (\<lambda>(bs, cursor, out). length bs - cursor)", goal_cases)
  case (2 bs cursor out x xa xb xc xd)
  then have "cursor \<le> xb" using find_next_start_ge [of cursor bs] find_next_start4_ge [of cursor bs] by auto
  moreover have "0 < prefix_len bs xb" by (simp add: prefix_len_def)
  ultimately show ?case using 2(1) by auto
qed simp

declare annex_b_loop.simps [simp del]

definition parse_annex_b :: "bytes \<Rightarrow> bytes list" where
  "parse_annex_b bs =
     (if bs = [] then []
      else let start4 = find_next_start4 bs 0;
               start = (if start4 = length bs then find_next_start bs 0 else start4)
           in if start = length bs then [] else annex_b_loop bs (start + prefix_len bs start) [])"

function length_prefixed_loop :: "bytes \<Rightarrow> nat \<Rightarrow> bytes list \<Rightarrow> bytes list" where
  "length_prefixed_loop bs cursor out =
     (if cursor + 4 \<le> length bs
      then let len = unat (be32_of (bs ! cursor) (bs ! (cursor + 1)) (bs ! (cursor + 2)) (bs ! (cursor + 3)));
               cursor = cursor + 4
           in if len = 0 \<or> cursor + len > length bs then out
              else length_prefixed_loop bs (cursor + len) (out @ [take len (drop cursor bs)])
      else out)"
  by pat_completeness auto
termination by (relation "measure (\<lambda>(bs, cursor, out). length bs - cursor)") auto

declare length_prefixed_loop.simps [simp del]

definition parse_length_prefixed :: "bytes \<Rightarrow> bytes list" where
  "parse_length_prefixed bs = length_prefixed_loop bs 0 []"

section \<open>The sender\<close>

datatype packetization_mode = SingleNal | NonInterleaved | Interleaved

datatype nalu_format = FormatUnknown | AnnexBStartCode | LengthPrefixed

record encoded_frame =
  ef_codec :: codec_kind
  nalu_format :: nalu_format
  ef_payload :: bytes
  ef_is_keyframe :: bool
  ef_payload_type :: u8
  ef_capture_ts_us :: int
  ef_rtp_timestamp :: u32
  ef_frame_seq :: u32

record sender_config =
  s_codec :: codec_kind
  s_ssrc :: u32
  s_payload_type :: u8
  s_mtu :: u32
  s_mode :: packetization_mode
  s_initial_seq :: u16
  retransmit_cache_packets :: nat

record sender_stats =
  frames_pushed :: nat
  packets_emitted :: nat
  fua_frames_packetized :: nat
  stapa_frames_packetized :: nat
  single_nal_frames_packetized :: nat
  force_keyframe_calls :: nat
  frames_marked_as_keyframe :: nat
  packets_retransmitted :: nat
  packets_retransmit_missed :: nat

record cached_packet =
  c_seq :: u16
  c_rtp_ts :: u32
  c_marker :: bool
  c_payload :: bytes

text \<open>\<open>sent\<close> is the history of the packet callback: payload, timestamp, sequence number, marker.\<close>

record video_sender =
  s_cfg :: sender_config
  s_stats :: sender_stats
  has_packet_cb :: bool
  sent :: "(bytes \<times> u32 \<times> u16 \<times> bool) list"
  s_next_seq :: u16
  s_keyframe_pending :: bool
  rtx_cache :: "cached_packet list"
  rtx_head :: nat

definition no_sender_stats :: sender_stats where
  "no_sender_stats = \<lparr>frames_pushed = 0, packets_emitted = 0, fua_frames_packetized = 0, stapa_frames_packetized = 0,
     single_nal_frames_packetized = 0, force_keyframe_calls = 0, frames_marked_as_keyframe = 0,
     packets_retransmitted = 0, packets_retransmit_missed = 0\<rparr>"

definition no_cached_packet :: cached_packet where
  "no_cached_packet = \<lparr>c_seq = 0, c_rtp_ts = 0, c_marker = False, c_payload = []\<rparr>"

definition new_video_sender :: "sender_config \<Rightarrow> video_sender" where
  "new_video_sender c = \<lparr>s_cfg = c, s_stats = no_sender_stats, has_packet_cb = False, sent = [], s_next_seq = s_initial_seq c,
     s_keyframe_pending = False, rtx_cache = replicate (retransmit_cache_packets c) no_cached_packet, rtx_head = 0\<rparr>"

text \<open>An empty \<^verbatim>\<open>std::function\<close> unregisters the callback.\<close>

definition set_packet_callback :: "bool \<Rightarrow> video_sender \<Rightarrow> video_sender" where
  "set_packet_callback cb s = s\<lparr>has_packet_cb := cb\<rparr>"

definition cache_packet :: "u16 \<Rightarrow> u32 \<Rightarrow> bool \<Rightarrow> bytes \<Rightarrow> video_sender \<Rightarrow> video_sender option" where
  "cache_packet sq ts marker payload s =
     (let n = retransmit_cache_packets (s_cfg s) in
      if n = 0 then Some s
      else if rtx_head s < length (rtx_cache s)
      then Some (s\<lparr>rtx_cache := (rtx_cache s)[rtx_head s := \<lparr>c_seq = sq, c_rtp_ts = ts, c_marker = marker, c_payload = payload\<rparr>],
                   rtx_head := (rtx_head s + 1) mod n\<rparr>)
      else None)"

definition find_cached :: "u16 \<Rightarrow> video_sender \<Rightarrow> cached_packet option" where
  "find_cached sq s = find (\<lambda>p. c_payload p \<noteq> [] \<and> c_seq p = sq) (rtx_cache s)"

definition call_packet_cb :: "bytes \<Rightarrow> u32 \<Rightarrow> u16 \<Rightarrow> bool \<Rightarrow> video_sender \<Rightarrow> video_sender" where
  "call_packet_cb payload ts sq marker s = (if has_packet_cb s then s\<lparr>sent := sent s @ [(payload, ts, sq, marker)]\<rparr> else s)"

definition emit :: "bytes \<Rightarrow> u32 \<Rightarrow> bool \<Rightarrow> video_sender \<Rightarrow> video_sender option" where
  "emit payload ts marker s =
     (let sq = s_next_seq s;
          s = s\<lparr>s_next_seq := sq + 1, s_stats := (s_stats s)\<lparr>packets_emitted := packets_emitted (s_stats s) + 1\<rparr>\<rparr>
      in map_option (call_packet_cb payload ts sq marker) (cache_packet sq ts marker payload s))"

text \<open>A sequence of emissions, each a payload with its marker.\<close>

fun emit_all :: "u32 \<Rightarrow> (bytes \<times> bool) list \<Rightarrow> video_sender \<Rightarrow> video_sender option" where
  "emit_all ts [] s = Some s"
| "emit_all ts ((payload, marker) # ps) s = emit payload ts marker s \<bind> emit_all ts ps"

text \<open>
  One FU-A fragment of a NAL unit: \<^verbatim>\<open>build_fu_a\<close> into a buffer of \<^verbatim>\<open>mtu\<close> bytes, cut to size, with the
  NRI patched into the indicator. \<open>Inl\<close> is the failure of the build.
\<close>

definition fu_a_fragment :: "nat \<Rightarrow> bytes \<Rightarrow> nat \<Rightarrow> nat \<Rightarrow> bytes result option" where
  "fu_a_fragment mtu n offset this_len = do {
     h \<leftarrow> at_index n 0;
     body \<leftarrow> subspan n (1 + offset) this_len;
     r \<leftarrow> build_fu_a (h AND kNaluTypeMask) body (offset = 0) (offset + this_len = length n - 1) (replicate mtu 0);
     let (wrote, frag) = r;
         nri = drop_bit 5 (h AND kNriMask)
     in if wrote = 0 then Some (Inl InternalError)
        else do {
          b \<leftarrow> at_index (take wrote frag) 0;
          Some (Inr ((take wrote frag)[0 := (b AND NOT kNriMask) OR push_bit 5 (nri AND 0x03)]))
        }
   }"

partial_function (option) fragment_loop :: "nat \<Rightarrow> bytes \<Rightarrow> nat \<Rightarrow> bytes list \<Rightarrow> bytes list result option" where
  "fragment_loop mtu n offset fragments =
     (if offset < length n - 1
      then let remaining = length n - 1 - offset;
               max_body = (if mtu > 2 then mtu - 2 else 0);
               this_len = (if remaining > max_body then max_body else remaining)
           in fu_a_fragment mtu n offset this_len \<bind> (\<lambda>r. case r of
                Inl e \<Rightarrow> Some (Inl e)
              | Inr frag \<Rightarrow> fragment_loop mtu n (offset + this_len) (fragments @ [frag]))
      else Some (Inr fragments))"

text \<open>The first pass: the fragments of the oversized NAL units, one list per such unit.\<close>

fun fragment_all :: "nat \<Rightarrow> bytes list \<Rightarrow> bytes list list \<Rightarrow> bytes list list result option" where
  "fragment_all mtu [] large = Some (Inr large)"
| "fragment_all mtu (n # ns) large =
     (if length n > mtu
      then fragment_loop mtu n 0 [] \<bind> (\<lambda>r. case r of
             Inl e \<Rightarrow> Some (Inl e)
           | Inr frags \<Rightarrow> fragment_all mtu ns (large @ [frags]))
      else fragment_all mtu ns large)"

text \<open>The NAL units that fit into one STAP-A packet, from the front of the list.\<close>

fun stap_group :: "nat \<Rightarrow> nat \<Rightarrow> bytes list \<Rightarrow> bytes list" where
  "stap_group mtu budget [] = []"
| "stap_group mtu budget (n # ns) =
     (if length n > mtu \<or> budget < 2 + length n then [] else n # stap_group mtu (budget - (2 + length n)) ns)"

definition mark_last :: "bytes list \<Rightarrow> (bytes \<times> bool) list" where
  "mark_last ps = map (\<lambda>k. (ps ! k, k + 1 = length ps)) [0..<length ps]"

definition add_counts :: "nat \<Rightarrow> nat \<Rightarrow> nat \<Rightarrow> video_sender \<Rightarrow> video_sender" where
  "add_counts fua stapa single s = s\<lparr>s_stats := (s_stats s)\<lparr>fua_frames_packetized := fua_frames_packetized (s_stats s) + fua,
     stapa_frames_packetized := stapa_frames_packetized (s_stats s) + stapa,
     single_nal_frames_packetized := single_nal_frames_packetized (s_stats s) + single\<rparr>\<rparr>"

lemma length_stap_group: "length (stap_group mtu b ns) \<le> length ns"
  by (induction mtu b ns rule: stap_group.induct) auto

text \<open>The second pass, from NAL unit \<open>i\<close>.\<close>

function emit_walk :: "nat \<Rightarrow> bytes list \<Rightarrow> bytes list list \<Rightarrow> u32 \<Rightarrow> nat \<Rightarrow> video_sender \<Rightarrow> video_sender option" where
  "emit_walk mtu nalus large ts i s =
     (if i < length nalus then
        if length (nalus ! i) > mtu then do {
          frags \<leftarrow> at_index large i;
          s \<leftarrow> emit_all ts (mark_last frags) s;
          emit_walk mtu nalus large ts (i + 1) (add_counts 1 0 0 s)
        }
        else
          let group = stap_group mtu (if mtu > 1 then mtu - 1 else 0) (drop i nalus) in
          if length group \<ge> 2 then do {
            r \<leftarrow> build_stap_a group (replicate mtu 0);
            s \<leftarrow> (if fst r = 0
                  then map_option (add_counts 0 0 (length group)) (emit_all ts (map (\<lambda>g. (g, False)) group) s)
                  else map_option (add_counts 0 1 0) (emit (take (fst r) (snd r)) ts True s));
            emit_walk mtu nalus large ts (i + length group) s
          }
          else if length group = 1 then do {
            s \<leftarrow> emit (hd group) ts True s;
            emit_walk mtu nalus large ts (i + length group) (add_counts 0 0 1 s)
          }
          else emit_walk mtu nalus large ts (i + 1) s
      else Some s)"
  by pat_completeness auto
termination
  by (relation "measure (\<lambda>(mtu, nalus, large, ts, i, s). length nalus - i)") auto

declare emit_walk.simps [simp del]

definition emit_h264 :: "bytes list \<Rightarrow> u32 \<Rightarrow> video_sender \<Rightarrow> (unit result \<times> video_sender) option" where
  "emit_h264 nalus ts s =
     (if s_mode (s_cfg s) = Interleaved then Some (Inl NotImplemented, s)
      else let mtu = unat (s_mtu (s_cfg s)) in
           fragment_all mtu nalus [] \<bind> (\<lambda>r. case r of
             Inl e \<Rightarrow> Some (Inl e, s)
           | Inr large \<Rightarrow> map_option (Pair (Inr ())) (emit_walk mtu nalus large ts 0 s)))"

definition emit_simple :: "bytes \<Rightarrow> u32 \<Rightarrow> video_sender \<Rightarrow> (unit result \<times> video_sender) option" where
  "emit_simple bs ts s = map_option (Pair (Inr ())) (emit bs ts True s)"

text \<open>The bookkeeping at the start of \<^verbatim>\<open>push_frame\<close>.\<close>

definition begin_frame :: "video_sender \<Rightarrow> video_sender" where
  "begin_frame s =
     (let s = s\<lparr>s_stats := (s_stats s)\<lparr>frames_pushed := frames_pushed (s_stats s) + 1\<rparr>\<rparr>
      in if s_keyframe_pending s
         then s\<lparr>s_keyframe_pending := False,
                s_stats := (s_stats s)\<lparr>frames_marked_as_keyframe := frames_marked_as_keyframe (s_stats s) + 1\<rparr>\<rparr>
         else s)"

definition push_frame :: "encoded_frame \<Rightarrow> u32 \<Rightarrow> video_sender \<Rightarrow> (unit result \<times> video_sender) option" where
  "push_frame frame ts s =
     (let s = begin_frame s
      in case ef_codec frame of
           CodecH264 \<Rightarrow>
             (let send = (\<lambda>nalus. if nalus = [] then Some (Inl InvalidArgument, s) else emit_h264 nalus ts s) in
              case nalu_format frame of
                AnnexBStartCode \<Rightarrow> send (parse_annex_b (ef_payload frame))
              | LengthPrefixed \<Rightarrow> send (parse_length_prefixed (ef_payload frame))
              | FormatUnknown \<Rightarrow> Some (Inl InvalidArgument, s))
         | CodecVP8 \<Rightarrow> emit_simple (ef_payload frame) ts s
         | CodecVP9 \<Rightarrow> emit_simple (ef_payload frame) ts s
         | _ \<Rightarrow> Some (Inl NotImplemented, s))"

definition force_keyframe :: "video_sender \<Rightarrow> video_sender" where
  "force_keyframe s = s\<lparr>s_keyframe_pending := True,
     s_stats := (s_stats s)\<lparr>force_keyframe_calls := force_keyframe_calls (s_stats s) + 1\<rparr>\<rparr>"

definition retransmit :: "u16 \<Rightarrow> video_sender \<Rightarrow> bool \<times> video_sender" where
  "retransmit sq s =
     (case find_cached sq s of
        None \<Rightarrow> (False, s\<lparr>s_stats := (s_stats s)\<lparr>packets_retransmit_missed := packets_retransmit_missed (s_stats s) + 1\<rparr>\<rparr>)
      | Some p \<Rightarrow>
          let s = call_packet_cb (c_payload p) (c_rtp_ts p) (c_seq p) (c_marker p) s
          in (True, s\<lparr>s_stats := (s_stats s)\<lparr>packets_retransmitted := packets_retransmitted (s_stats s) + 1\<rparr>\<rparr>))"

definition cached_packet_count :: "video_sender \<Rightarrow> nat" where
  "cached_packet_count s = length (filter (\<lambda>p. c_payload p \<noteq> []) (rtx_cache s))"

section \<open>Emission\<close>

text \<open>
  The retransmission ring, oldest packet first. A sender is well formed when the ring has its configured size
  and the write position is inside it.
\<close>

definition ring :: "video_sender \<Rightarrow> cached_packet list" where
  "ring s = drop (rtx_head s) (rtx_cache s) @ take (rtx_head s) (rtx_cache s)"

definition sender_ok :: "sender_config \<Rightarrow> video_sender \<Rightarrow> bool" where
  "sender_ok c s \<longleftrightarrow> s_cfg s = c \<and> length (rtx_cache s) = retransmit_cache_packets c
     \<and> (retransmit_cache_packets c = 0 \<or> rtx_head s < retransmit_cache_packets c)"

text \<open>The packets that a list of payloads becomes, numbered from \<open>sq\<close>.\<close>

fun packets_from :: "u16 \<Rightarrow> u32 \<Rightarrow> (bytes \<times> bool) list \<Rightarrow> cached_packet list" where
  "packets_from sq ts [] = []"
| "packets_from sq ts ((payload, marker) # ps) =
     \<lparr>c_seq = sq, c_rtp_ts = ts, c_marker = marker, c_payload = payload\<rparr> # packets_from (sq + 1) ts ps"

definition call_of :: "cached_packet \<Rightarrow> bytes \<times> u32 \<times> u16 \<times> bool" where
  "call_of p = (c_payload p, c_rtp_ts p, c_seq p, c_marker p)"

definition emits :: "u32 \<Rightarrow> (bytes \<times> bool) list \<Rightarrow> video_sender \<Rightarrow> video_sender \<Rightarrow> bool" where
  "emits ts ps s s' \<longleftrightarrow> sender_ok (s_cfg s) s' \<and> s_next_seq s' = s_next_seq s + of_nat (length ps)
     \<and> ring s' = drop (length ps) (ring s @ packets_from (s_next_seq s) ts ps)
     \<and> sent s' = sent s @ (if has_packet_cb s then map call_of (packets_from (s_next_seq s) ts ps) else [])
     \<and> has_packet_cb s' = has_packet_cb s \<and> s_keyframe_pending s' = s_keyframe_pending s"

lemma length_packets_from [simp]: "length (packets_from sq ts ps) = length ps"
  by (induction sq ts ps rule: packets_from.induct) simp_all

lemma packets_from_append: "packets_from sq ts (ps @ qs) = packets_from sq ts ps @ packets_from (sq + of_nat (length ps)) ts qs"
  by (induction sq ts ps rule: packets_from.induct) (simp_all add: add.assoc)

lemma emits_nil: "sender_ok (s_cfg s) s \<Longrightarrow> emits ts [] s s"
  by (simp add: emits_def)

lemma drop_drop_append: "k \<le> length xs \<Longrightarrow> drop j (drop k xs @ ys) = drop (k + j) (xs @ ys)"
  by (simp add: add.commute)

lemma emits_append:
  assumes "emits ts ps s s1" "emits ts qs s1 s2"
  shows "emits ts (ps @ qs) s s2"
proof -
  have "ring s2 = drop (length ps + length qs) ((ring s @ packets_from (s_next_seq s) ts ps) @ packets_from (s_next_seq s1) ts qs)"
    using assms unfolding emits_def by (simp del: drop_append add: drop_drop_append)
  then show ?thesis using assms
    by (simp add: emits_def packets_from_append sender_ok_def add.assoc del: drop_append)
qed

lemma emits_counts: "emits ts ps s s' \<Longrightarrow> emits ts ps s (add_counts a b k s')"
  by (simp add: emits_def add_counts_def sender_ok_def ring_def)

lemma ring_advance:
  assumes "h < length xs"
  shows "drop ((h + 1) mod length xs) (xs[h := p]) @ take ((h + 1) mod length xs) (xs[h := p])
    = drop 1 (drop h xs @ take h xs) @ [p]"
proof (cases "h + 1 = length xs")
  case True
  have d: "drop h xs = [xs ! h]" using True by (simp add: Cons_nth_drop_Suc [symmetric])
  have "xs[h := p] = take h xs @ [p]" using True assms by (simp add: upd_conv_take_nth_drop)
  with True d show ?thesis by simp
next
  case False
  then have "(h + 1) mod length xs = h + 1" using assms by simp
  moreover have "drop h xs = xs ! h # drop (h + 1) xs" using assms by (simp add: Cons_nth_drop_Suc)
  ultimately show ?thesis using assms by (simp add: upd_conv_take_nth_drop)
qed

lemma emit_emits:
  assumes "sender_ok (s_cfg s) s"
  shows "\<exists>s'. emit payload ts marker s = Some s' \<and> emits ts [(payload, marker)] s s'"
proof (cases "retransmit_cache_packets (s_cfg s) = 0")
  case True
  then show ?thesis using assms
    by (simp add: emit_def cache_packet_def call_packet_cb_def emits_def sender_ok_def ring_def call_of_def Let_def)
next
  case False
  then have h: "rtx_head s < length (rtx_cache s)" "length (rtx_cache s) = retransmit_cache_packets (s_cfg s)"
    using assms by (simp_all add: sender_ok_def)
  show ?thesis using False h ring_advance [OF h(1)]
    by (simp add: emit_def cache_packet_def call_packet_cb_def emits_def sender_ok_def ring_def call_of_def Let_def h(2))
qed

lemma emit_all_emits:
  "sender_ok (s_cfg s) s \<Longrightarrow> \<exists>s'. emit_all ts ps s = Some s' \<and> emits ts ps s s'"
proof (induction ts ps s rule: emit_all.induct)
  case (2 ts payload marker ps s)
  obtain s1 where s1: "emit payload ts marker s = Some s1" "emits ts [(payload, marker)] s s1"
    using emit_emits [OF 2(2)] by blast
  then have "sender_ok (s_cfg s1) s1" by (auto simp: emits_def sender_ok_def)
  from 2(1) [OF s1(1) this] obtain s2 where "emit_all ts ps s1 = Some s2" "emits ts ps s1 s2" by blast
  then show ?case using s1 emits_append [OF s1(2)] by auto
qed (simp add: emits_nil)

lemma emitsE: "emits ts ps s s' \<Longrightarrow> sender_ok (s_cfg s') s' \<and> s_cfg s' = s_cfg s"
  by (auto simp: emits_def sender_ok_def)

section \<open>FU-A fragments\<close>

text \<open>The fragment of a NAL unit with header \<open>h\<close>, as it goes on the wire.\<close>

definition fragment_bytes :: "u8 \<Rightarrow> bytes \<Rightarrow> bool \<Rightarrow> bool \<Rightarrow> bytes" where
  "fragment_bytes h body start fin = fu_a_payload ((h AND 0x60) OR 28) h start fin body"

lemma fu_a_fragment_eq:
  assumes "n \<noteq> []" "1 + offset + k \<le> length n" "k + 2 \<le> mtu"
  shows "fu_a_fragment mtu n offset k = Some (Inr (fragment_bytes (n ! 0) (take k (drop (1 + offset) n)) (offset = 0) (offset + k = length n - 1)))"
proof -
  have "(make_indicator 0 kFuAType AND NOT kNriMask) OR push_bit 5 (drop_bit 5 (h AND kNriMask) AND 3) = (h AND 0x60) OR (28 :: u8)" for h
    by (rule u8_eqI) (simp_all add: make_indicator_def h264_consts bit_simps)
  moreover have "fu_a_byte1 (h AND kNaluTypeMask) a b = fu_a_byte1 h a b" for h a b
    by (simp add: fu_a_byte1_def h264_consts and.assoc)
  ultimately show ?thesis using assms
    by (simp add: fu_a_fragment_def wire_simps build_fu_a_layout fragment_bytes_def fu_a_payload_def Let_def)
qed


text \<open>The fragments of consecutive pieces of a NAL unit.\<close>

fun wrap_chunks :: "u8 \<Rightarrow> bool \<Rightarrow> bytes list \<Rightarrow> bytes list" where
  "wrap_chunks h start [] = []"
| "wrap_chunks h start [c] = [fragment_bytes h c start True]"
| "wrap_chunks h start (c # d # cs) = fragment_bytes h c start False # wrap_chunks h False (d # cs)"

definition chunked :: "nat \<Rightarrow> bytes \<Rightarrow> bytes list \<Rightarrow> bool" where
  "chunked m xs cs \<longleftrightarrow> concat cs = xs \<and> (\<forall>c \<in> set cs. c \<noteq> [] \<and> length c \<le> m)"

lemma fragment_loop_chunks:
  assumes "n \<noteq> []" "3 \<le> mtu" "offset < length n - 1"
  shows "\<exists>cs. cs \<noteq> [] \<and> fragment_loop mtu n offset fs = Some (Inr (fs @ wrap_chunks (n ! 0) (offset = 0) cs))
    \<and> chunked (mtu - 2) (drop (1 + offset) n) cs"
  using assms(3)
proof (induction "length n - offset" arbitrary: offset fs rule: less_induct)
  case less
  define k where "k = (if length n - 1 - offset > mtu - 2 then mtu - 2 else length n - 1 - offset)"
  define c where "c = take k (drop (1 + offset) n)"
  have k: "0 < k" "k + 2 \<le> mtu" "1 + offset + k \<le> length n" using less.prems assms(2) by (auto simp: k_def)
  have mb: "(if mtu > 2 then mtu - 2 else 0) = mtu - 2" using assms(2) by simp
  have "fragment_loop mtu n offset fs = fragment_loop mtu n (offset + k)
      (fs @ [fragment_bytes (n ! 0) c (offset = 0) (offset + k = length n - 1)])"
    unfolding fragment_loop.simps [of mtu n offset] Let_def if_P [OF less.prems] mb k_def [symmetric]
    using fu_a_fragment_eq [OF assms(1) k(3,2)] by (simp add: c_def)
  moreover have c: "c \<noteq> []" "length c \<le> mtu - 2" "drop (1 + offset) n = c @ drop (1 + (offset + k)) n"
    using k take_drop_chain [of k "1 + offset" n] by (auto simp: c_def add.assoc)
  ultimately show ?case
  proof (cases "offset + k = length n - 1")
    case True
    then have "fragment_loop mtu n (offset + k) gs = Some (Inr gs)" for gs
      by (subst fragment_loop.simps) simp
    moreover have "drop (1 + (offset + k)) n = []" using True k by simp
    ultimately show ?thesis using True c k
      using \<open>fragment_loop mtu n offset fs = _\<close> by (intro exI [of _ "[c]"]) (simp add: chunked_def)
  next
    case False
    then have lt: "offset + k < length n - 1" "length n - (offset + k) < length n - offset" using k less.prems by auto
    from less.hyps [OF lt(2,1)] obtain cs where cs: "cs \<noteq> []"
      "fragment_loop mtu n (offset + k) (fs @ [fragment_bytes (n ! 0) c (offset = 0) False])
        = Some (Inr ((fs @ [fragment_bytes (n ! 0) c (offset = 0) False]) @ wrap_chunks (n ! 0) (offset + k = 0) cs))"
      "chunked (mtu - 2) (drop (1 + (offset + k)) n) cs" by metis
    then show ?thesis using False c k
      using \<open>fragment_loop mtu n offset fs = _\<close>
      by (intro exI [of _ "c # cs"]) (cases cs, auto simp: chunked_def)
  qed
qed


lemma chunked_two: "chunked m xs cs \<Longrightarrow> m < length xs \<Longrightarrow> 2 \<le> length cs"
  by (cases cs; cases "tl cs") (auto simp: chunked_def)

lemma length_wrap_chunks [simp]: "length (wrap_chunks h start cs) = length cs"
  by (induction h start cs rule: wrap_chunks.induct) simp_all

lemma wrap_chunks_bound: "\<forall>c \<in> set cs. length c \<le> m \<Longrightarrow> f \<in> set (wrap_chunks h start cs) \<Longrightarrow> length f \<le> m + 2 \<and> f \<noteq> []"
  by (induction h start cs rule: wrap_chunks.induct) (auto simp: fragment_bytes_def fu_a_payload_def)

text \<open>
  Fragments of all oversized NAL units: the list has one entry per such unit, so it is indexed correctly
  only when no smaller unit comes before an oversized one.
\<close>

definition fragments_of :: "nat \<Rightarrow> bytes \<Rightarrow> bytes list \<Rightarrow> bool" where
  "fragments_of mtu n frags \<longleftrightarrow> (\<exists>cs. chunked (mtu - 2) (tl n) cs \<and> frags = wrap_chunks (n ! 0) True cs)"

lemma fragment_all_returns:
  assumes "3 \<le> mtu"
  shows "\<exists>fs. fragment_all mtu nalus large = Some (Inr (large @ fs)) \<and> list_all2 (fragments_of mtu) (filter (\<lambda>n. length n > mtu) nalus) fs"
proof (induction nalus arbitrary: large)
  case (Cons n nalus)
  show ?case
  proof (cases "length n > mtu")
    case True
    then have "n \<noteq> []" "0 < length n - 1" using assms by auto
    from fragment_loop_chunks [OF this(1) assms this(2), of "[]"] obtain cs where
      "fragment_loop mtu n 0 [] = Some (Inr (wrap_chunks (n ! 0) True cs))" "chunked (mtu - 2) (drop 1 n) cs" by auto
    then show ?thesis using True Cons.IH [of "large @ [wrap_chunks (n ! 0) True cs]"]
      by (auto simp: fragments_of_def drop_Suc)
  next
    case False
    then show ?thesis using Cons.IH by simp
  qed
qed simp

section \<open>Packetization\<close>

text \<open>
  How RTP payloads carry NAL units (RFC 6184): one FU-A sequence per NAL unit, several units in a STAP-A
  packet, or the unit itself. The boolean is the marker of the packet: of a fragmented unit only the last
  fragment has it.
\<close>

definition marked :: "bytes list \<Rightarrow> (bytes \<times> bool) list" where
  "marked ps = zip ps (replicate (length ps - 1) False @ [True])"

inductive carries :: "(bytes \<times> bool) list \<Rightarrow> bytes list \<Rightarrow> bool" where
  carries_nil: "carries [] []"
| carries_fu_a: "carries ps ns \<Longrightarrow> 2 \<le> length cs \<Longrightarrow> [] \<notin> set cs \<Longrightarrow>
    carries (marked (wrap_chunks h True cs) @ ps) ((h # concat cs) # ns)"
| carries_stap_a: "carries ps ns \<Longrightarrow> 2 \<le> length g \<Longrightarrow>
    carries ((stap_indicator (hd g) # stap_units g, True) # ps) (g @ ns)"
| carries_single: "carries ps ns \<Longrightarrow> carries ((n, True) # ps) (n # ns)"

definition sendable :: "nat \<Rightarrow> bytes \<Rightarrow> bool" where
  "sendable mtu n \<longleftrightarrow> length n + 3 \<le> mtu \<or> mtu < length n"

lemma stap_group_prefix: "\<exists>rest. ns = stap_group mtu b ns @ rest"
  by (induction mtu b ns rule: stap_group.induct) auto

lemma stap_group_fits: "length (stap_units (stap_group mtu b ns)) \<le> b \<and> (\<forall>n \<in> set (stap_group mtu b ns). length n \<le> mtu \<and> length n + 2 \<le> b)"
proof (induction mtu b ns rule: stap_group.induct)
  case (2 mtu budget n ns)
  then show ?case by (auto simp: add.commute) (use 2 in fastforce)+
qed simp

lemma stap_group_empty: "stap_group mtu b (n # ns) = [] \<longleftrightarrow> length n > mtu \<or> b < 2 + length n"
  by simp

lemma mark_last_marked: "mark_last ps = marked ps"
  by (rule nth_equalityI) (auto simp: mark_last_def marked_def nth_append)

lemma mark_last_bound: "(p, m) \<in> set (mark_last ps) \<Longrightarrow> p \<in> set ps"
  by (auto simp: mark_last_def)

lemma build_group:
  assumes "[] \<notin> set g" "g \<noteq> []" "length (stap_units g) < mtu"
  shows "\<exists>r. build_stap_a g (replicate mtu 0) = Some r \<and> fst r \<noteq> 0 \<and> take (fst r) (snd r) = stap_indicator (hd g) # stap_units g"
proof -
  obtain n ns where g: "g = n # ns" "n \<noteq> []" using assms(1,2) by (cases g) auto
  show ?thesis using build_stap_a_layout [of n ns "replicate mtu 0"] assms(3) g(2) by (simp add: g(1))
qed

text \<open>What a walk over NAL units achieves: it returns, and the packets it emits carry them within the MTU.\<close>

definition walked :: "nat \<Rightarrow> u32 \<Rightarrow> bytes list \<Rightarrow> video_sender \<Rightarrow> video_sender option \<Rightarrow> bool" where
  "walked mtu ts ns s r \<longleftrightarrow> (\<exists>s' ps. r = Some s' \<and> emits ts ps s s' \<and> carries ps ns \<and> (\<forall>p \<in> set ps. length (fst p) \<le> mtu))"

lemma walked_emit:
  assumes "emits ts fs s s1" "walked mtu ts ns s1 r" "\<And>ps. carries ps ns \<Longrightarrow> carries (fs @ ps) ns'"
    and "\<And>p m. (p, m) \<in> set fs \<Longrightarrow> length p \<le> mtu"
  shows "walked mtu ts ns' s r"
proof -
  obtain s' ps where w: "r = Some s'" "emits ts ps s1 s'" "carries ps ns" "\<forall>p \<in> set ps. length (fst p) \<le> mtu"
    using assms(2) by (auto simp: walked_def)
  have "\<forall>p \<in> set (fs @ ps). length (fst p) \<le> mtu" using w(4) assms(4) by auto
  then show ?thesis unfolding walked_def using w(1) emits_append [OF assms(1) w(2)] assms(3) [OF w(3)] by blast
qed

lemma walk_oversized:
  assumes "3 \<le> mtu" "i < length nalus" "length (nalus ! i) > mtu" "i < length large" "fragments_of mtu (nalus ! i) (large ! i)"
    and "sender_ok (s_cfg s) s"
    and "\<And>s1. sender_ok (s_cfg s1) s1 \<Longrightarrow> walked mtu ts ns s1 (emit_walk mtu nalus large ts (i + 1) s1)"
  shows "walked mtu ts (nalus ! i # ns) s (emit_walk mtu nalus large ts i s)"
proof -
  from assms(5) obtain cs where cs: "chunked (mtu - 2) (tl (nalus ! i)) cs"
    "large ! i = wrap_chunks (nalus ! i ! 0) True cs" by (auto simp: fragments_of_def)
  define fs where "fs = mark_last (large ! i)"
  obtain s1 where s1: "emit_all ts fs s = Some s1" "emits ts fs s s1" using emit_all_emits [OF assms(6)] by blast
  define s2 where "s2 = add_counts 1 0 0 s1"
  have s2: "emits ts fs s s2" unfolding s2_def by (rule emits_counts [OF s1(2)])
  have step: "emit_walk mtu nalus large ts i s = emit_walk mtu nalus large ts (i + 1) s2"
    by (subst emit_walk.simps) (use assms(2-4) s1(1) in \<open>simp add: at_index_Some fs_def s2_def\<close>)
  have n: "nalus ! i = nalus ! i ! 0 # concat cs" "2 \<le> length cs" "[] \<notin> set cs"
    using cs(1) assms(1,3) chunked_two [OF cs(1)] by (cases "nalus ! i"; auto simp: chunked_def)+
  show ?thesis unfolding step
  proof (rule walked_emit [OF s2 assms(7)])
    show "carries (fs @ ps) (nalus ! i # ns)" if "carries ps ns" for ps
      using carries_fu_a [OF that n(2,3), of "nalus ! i ! 0"] n(1) by (simp add: fs_def cs(2) mark_last_marked)
    show "length p \<le> mtu" if "(p, m) \<in> set fs" for p m
      using wrap_chunks_bound [of cs "mtu - 2" p "nalus ! i ! 0" True] that cs assms(1)
      by (auto simp: chunked_def fs_def dest!: mark_last_bound)
  qed (use emitsE [OF s2] in auto)
qed

lemma walk_group:
  assumes "3 \<le> mtu" "i < length nalus" "length (nalus ! i) \<le> mtu" "sender_ok (s_cfg s) s"
    and "g = stap_group mtu (mtu - 1) (drop i nalus)" "g \<noteq> []" "[] \<notin> set g"
    and "\<And>s1. sender_ok (s_cfg s1) s1 \<Longrightarrow> walked mtu ts ns s1 (emit_walk mtu nalus large ts (i + length g) s1)"
  shows "walked mtu ts (g @ ns) s (emit_walk mtu nalus large ts i s)"
proof -
  have fits: "length (stap_units g) < mtu" "\<forall>n \<in> set g. length n + 3 \<le> mtu"
    using stap_group_fits [of mtu "mtu - 1" "drop i nalus"] assms(1) by (auto simp: assms(5))
  define p where "p = (if length g = 1 then hd g else stap_indicator (hd g) # stap_units g)"
  obtain r where r: "build_stap_a g (replicate mtu 0) = Some r" "fst r \<noteq> 0"
    "take (fst r) (snd r) = stap_indicator (hd g) # stap_units g"
    using build_group [OF assms(7,6) fits(1)] by blast
  obtain s1 where s1: "emit p ts True s = Some s1" "emits ts [(p, True)] s s1" using emit_emits [OF assms(4)] by blast
  define s2 where "s2 = (if length g = 1 then add_counts 0 0 1 s1 else add_counts 0 1 0 s1)"
  have s2: "emits ts [(p, True)] s s2" unfolding s2_def using emits_counts [OF s1(2)] by simp
  have len: "length g = 1 \<or> 2 \<le> length g" using assms(6) by (cases g; cases "tl g") auto
  have gg: "stap_group mtu (mtu - Suc 0) (drop i nalus) = g" by (simp add: assms(5))
  have step: "emit_walk mtu nalus large ts i s = emit_walk mtu nalus large ts (i + length g) s2"
    by (subst emit_walk.simps) (use assms(1-3) s1(1) r len in \<open>auto simp: gg s2_def p_def Let_def\<close>)
  show ?thesis unfolding step
  proof (rule walked_emit [OF s2 assms(8)])
    show "carries ([(p, True)] @ ps) (g @ ns)" if "carries ps ns" for ps
      using len carries_single [OF that, of p] carries_stap_a [OF that, of g]
      by (cases g) (auto simp: p_def)
    show "length q \<le> mtu" if "(q, m) \<in> set [(p, True)]" for q m
      using that fits assms(6) by (cases g) (auto simp: p_def split: if_splits)
  qed (use emitsE [OF s2] in auto)
qed

lemma emit_walk_carries:
  assumes "3 \<le> mtu" "[] \<notin> set nalus"
    and "\<And>j. j < length nalus \<Longrightarrow> length (nalus ! j) > mtu \<Longrightarrow> j < length large \<and> fragments_of mtu (nalus ! j) (large ! j)"
    and "sender_ok (s_cfg s) s"
  shows "walked mtu ts (filter (sendable mtu) (drop i nalus)) s (emit_walk mtu nalus large ts i s)"
  using assms(4)
proof (induction "length nalus - i" arbitrary: i s rule: less_induct)
  case less
  show ?case
  proof (cases "i < length nalus")
    case False
    then have "emit_walk mtu nalus large ts i s = Some s" by (subst emit_walk.simps) simp
    moreover have "filter (sendable mtu) (drop i nalus) = []" using False by simp
    ultimately show ?thesis unfolding walked_def using emits_nil [OF less.prems] carries_nil by fastforce
  next
    case i: True
    define g where "g = stap_group mtu (mtu - 1) (drop i nalus)"
    have gg: "stap_group mtu (mtu - Suc 0) (drop i nalus) = g" by (simp add: g_def)
    have d: "drop i nalus = nalus ! i # drop (i + 1) nalus" using i by (simp add: Cons_nth_drop_Suc)
    have rest: "walked mtu ts (filter (sendable mtu) (drop (i + k) nalus)) s1 (emit_walk mtu nalus large ts (i + k) s1)"
      if "sender_ok (s_cfg s1) s1" "0 < k" for s1 k using less.hyps [of "i + k" s1] i that by simp
    consider "length (nalus ! i) > mtu" | "length (nalus ! i) \<le> mtu" "g = []" | "length (nalus ! i) \<le> mtu" "g \<noteq> []" by linarith
    then show ?thesis
    proof cases
      case 1
      then show ?thesis using walk_oversized [OF assms(1) i 1 _ _ less.prems rest [of _ 1]] assms(3) [OF i 1]
        by (simp add: d sendable_def)
    next
      case 2
      then have "\<not> sendable mtu (nalus ! i)" using assms(1) by (auto simp: g_def d sendable_def split: if_splits)
      moreover have "emit_walk mtu nalus large ts i s = emit_walk mtu nalus large ts (i + 1) s"
        by (subst emit_walk.simps) (use i assms(1) 2 in \<open>simp add: gg Let_def\<close>)
      ultimately show ?thesis using rest [OF less.prems, of 1] by (simp add: d)
    next
      case 3
      have pre: "drop i nalus = g @ drop (i + length g) nalus"
        using stap_group_prefix [of "drop i nalus" mtu "mtu - 1"]
        by (metis g_def add.commute append_eq_conv_conj drop_drop)
      have "\<forall>n \<in> set g. sendable mtu n"
        using stap_group_fits [of mtu "mtu - 1" "drop i nalus"] assms(1) by (auto simp: g_def sendable_def)
      then have flt: "filter (sendable mtu) (drop i nalus) = g @ filter (sendable mtu) (drop (i + length g) nalus)"
        unfolding pre filter_append by simp
      have "[] \<notin> set g" using assms(2) pre by (metis Un_iff in_set_dropD set_append)
      then show ?thesis unfolding flt using walk_group [OF assms(1) i 3(1) less.prems g_def 3(2) _ rest] 3(2) by simp
    qed
  qed
qed

section \<open>NAL unit framing\<close>

lemma annex_b_loop_nonempty: "[] \<notin> set out \<Longrightarrow> [] \<notin> set (annex_b_loop bs cursor out)"
proof (induction bs cursor out rule: annex_b_loop.induct)
  case (1 bs cursor out)
  then show ?case by (subst annex_b_loop.simps) (auto simp: Let_def)
qed

lemma parse_annex_b_nonempty: "[] \<notin> set (parse_annex_b bs)"
  by (simp add: parse_annex_b_def annex_b_loop_nonempty Let_def)

lemma length_prefixed_loop_nonempty: "[] \<notin> set out \<Longrightarrow> [] \<notin> set (length_prefixed_loop bs cursor out)"
proof (induction bs cursor out rule: length_prefixed_loop.induct)
  case (1 bs cursor out)
  then show ?case by (subst length_prefixed_loop.simps) (auto simp: Let_def)
qed

lemma parse_length_prefixed_nonempty: "[] \<notin> set (parse_length_prefixed bs)"
  by (simp add: parse_length_prefixed_def length_prefixed_loop_nonempty)

text \<open>Length-prefixed framing.\<close>

definition length_framed :: "bytes list \<Rightarrow> bytes" where
  "length_framed ns = concat (map (\<lambda>n. be32 (of_nat (length n)) @ n) ns)"

lemma length_prefixed_loop_framed:
  assumes "\<forall>n \<in> set ns. n \<noteq> [] \<and> length n < 2 ^ 32"
  shows "length_prefixed_loop (pre @ length_framed ns) (length pre) out = out @ ns"
  using assms
proof (induction ns arbitrary: pre out)
  case Nil
  then show ?case by (subst length_prefixed_loop.simps) (simp add: length_framed_def)
next
  case (Cons n ns)
  let ?bs = "pre @ length_framed (n # ns)"
  have bs: "?bs = (pre @ be32 (of_nat (length n)) @ n) @ length_framed ns" by (simp add: length_framed_def)
  have len: "unat (of_nat (length n) :: u32) = length n" using Cons.prems by (simp add: unat_of_nat)
  have rd: "be32_of (?bs ! length pre) (?bs ! (length pre + 1)) (?bs ! (length pre + 2)) (?bs ! (length pre + 3)) = of_nat (length n)"
    unfolding bs by (simp add: nth_append be32_def codec_simps)
  have take: "take (length n) (drop (length pre + 4) ?bs) = n" unfolding bs by simp
  have room: "length pre + 4 + length n \<le> length ?bs" unfolding bs by simp
  have "length_prefixed_loop ?bs (length pre) out = length_prefixed_loop ?bs (length pre + 4 + length n) (out @ [n])"
    using room Cons.prems
    by (subst length_prefixed_loop.simps) (simp only: rd len take Let_def if_False not_less if_True list.set insert_iff add_leD1; simp)
  then show ?case using Cons.IH [of "pre @ be32 (of_nat (length n)) @ n" "out @ [n]"] Cons.prems
    unfolding bs by (simp add: add.assoc)
qed

text \<open>
  Annex B framing with four-byte start codes. A NAL unit holds no start code (emulation prevention) and does
  not end with a zero byte.
\<close>

fun no_start_code :: "bytes \<Rightarrow> bool" where
  "no_start_code (a # b # c # bs) \<longleftrightarrow> \<not> (a = 0 \<and> b = 0 \<and> (c = 0 \<or> c = 1)) \<and> no_start_code (b # c # bs)"
| "no_start_code _ \<longleftrightarrow> True"

definition emulation_free :: "bytes \<Rightarrow> bool" where
  "emulation_free n \<longleftrightarrow> n \<noteq> [] \<and> last n \<noteq> 0 \<and> no_start_code n"

lemma no_start_code_nth:
  "no_start_code n \<Longrightarrow> j < length n - 2 \<Longrightarrow> \<not> (n ! j = 0 \<and> n ! (j + 1) = 0 \<and> (n ! (j + 2) = 0 \<or> n ! (j + 2) = 1))"
  by (induction n arbitrary: j rule: no_start_code.induct) (auto simp: nth_Cons split: nat.splits)

definition annex_b_framed :: "bytes list \<Rightarrow> bytes" where
  "annex_b_framed ns = concat (map (\<lambda>n. [0, 0, 0, 1] @ n) ns)"

lemma find_next_start_skip:
  "j \<le> k \<Longrightarrow> k \<le> length bs \<Longrightarrow> (\<And>i. j \<le> i \<Longrightarrow> i < k \<Longrightarrow> i + 2 < length bs \<Longrightarrow> \<not> (bs ! i = 0 \<and> bs ! (i + 1) = 0 \<and> bs ! (i + 2) = 1)) \<Longrightarrow>
   find_next_start bs j = find_next_start bs k"
proof (induction "k - j" arbitrary: j)
  case (Suc x)
  show ?case
  proof (cases "j + 2 < length bs")
    case True
    moreover have "j < k" using Suc.hyps(2) by simp
    ultimately have "find_next_start bs j = find_next_start bs (j + 1)"
      using Suc.prems(3) [of j] by (subst find_next_start.simps) auto
    then show ?thesis using Suc by simp
  next
    case False
    then show ?thesis using Suc.prems(1) by (subst (1 2) find_next_start.simps) auto
  qed
qed simp

lemma find_next_start4_skip:
  "j \<le> k \<Longrightarrow> k \<le> length bs \<Longrightarrow> (\<And>i. j \<le> i \<Longrightarrow> i < k \<Longrightarrow> i + 2 < length bs \<Longrightarrow> \<not> (bs ! i = 0 \<and> bs ! (i + 1) = 0 \<and> bs ! (i + 2) = 0)) \<Longrightarrow>
   find_next_start4 bs j = find_next_start4 bs k"
proof (induction "k - j" arbitrary: j)
  case (Suc x)
  show ?case
  proof (cases "j + 3 < length bs")
    case True
    moreover have "j < k" using Suc.hyps(2) by simp
    ultimately have "find_next_start4 bs j = find_next_start4 bs (j + 1)"
      using Suc.prems(3) [of j] by (subst find_next_start4.simps) auto
    then show ?thesis using Suc by simp
  next
    case False
    then show ?thesis using Suc.prems(1) by (subst (1 2) find_next_start4.simps) auto
  qed
qed simp

lemma emulation_free_at:
  assumes "emulation_free n" "length pre \<le> i" "i < length pre + length n" "i + 2 < length (pre @ n @ rest)"
  shows "\<not> ((pre @ n @ rest) ! i = 0 \<and> (pre @ n @ rest) ! (i + 1) = 0 \<and> ((pre @ n @ rest) ! (i + 2) = 0 \<or> (pre @ n @ rest) ! (i + 2) = 1))"
proof -
  define j where "j = i - length pre"
  have i: "i = length pre + j" "j < length n" using assms by (auto simp: j_def)
  have e: "last n \<noteq> 0" "\<And>k. k < length n - 2 \<Longrightarrow> \<not> (n ! k = 0 \<and> n ! (k + 1) = 0 \<and> (n ! (k + 2) = 0 \<or> n ! (k + 2) = 1))" "n \<noteq> []"
    using assms(1) no_start_code_nth [of n] by (auto simp: emulation_free_def)
  consider "j < length n - 2" | "j = length n - 2" "2 \<le> length n" | "j = length n - 1" using i(2) by linarith
  then show ?thesis
  proof cases
    case 1
    then show ?thesis using e(2) [OF 1] by (auto simp: i nth_append)
  next
    case 2
    then have "j + 1 = length n - 1" by simp
    then have "(pre @ n @ rest) ! (i + 1) = last n" using e(3) 2(2) by (simp add: i nth_append last_conv_nth)
    then show ?thesis using e(1) by simp
  next
    case 3
    then have "(pre @ n @ rest) ! i = last n" using e(3) by (simp add: i nth_append last_conv_nth)
    then show ?thesis using e(1) by simp
  qed
qed

lemma annex_b_loop_framed:
  assumes "\<forall>n \<in> set ns. emulation_free n" "emulation_free n"
  shows "annex_b_loop (pre @ n @ annex_b_framed ns) (length pre) out = out @ n # ns"
  using assms
proof (induction ns arbitrary: n pre out)
  case Nil
  let ?bs = "pre @ n"
  have "find_next_start ?bs (length pre) = find_next_start ?bs (length ?bs)" "find_next_start4 ?bs (length pre) = find_next_start4 ?bs (length ?bs)"
    using emulation_free_at [OF Nil.prems(2), of pre _ "[]"] by (auto intro!: find_next_start_skip find_next_start4_skip)
  moreover have "find_next_start ?bs (length ?bs) = length ?bs" "find_next_start4 ?bs (length ?bs) = length ?bs"
    by (subst find_next_start.simps find_next_start4.simps, simp)+
  moreover have "n \<noteq> []" using Nil.prems(2) by (simp add: emulation_free_def)
  ultimately show ?case by (subst annex_b_loop.simps) (simp add: annex_b_framed_def)
next
  case (Cons m ns)
  let ?rest = "annex_b_framed (m # ns)"
  define bs where "bs = pre @ n @ ?rest"
  define k where "k = length pre + length n"
  have r: "?rest = [0, 0, 0, 1] @ m @ annex_b_framed ns" by (simp add: annex_b_framed_def)
  have ne: "n \<noteq> []" "m \<noteq> []" using Cons.prems by (auto simp: emulation_free_def)
  have at: "bs ! k = 0" "bs ! (k + 1) = 0" "bs ! (k + 2) = 0" "bs ! (k + 3) = 1" "k + 4 < length bs" "k < length bs"
    using ne(2) by (simp_all add: bs_def k_def r nth_append)
  have "find_next_start4 bs (length pre) = find_next_start4 bs k" "find_next_start bs (length pre) = find_next_start bs k"
    using emulation_free_at [OF Cons.prems(2), of pre _ ?rest] unfolding bs_def k_def
    by (auto intro!: find_next_start_skip find_next_start4_skip)
  moreover have "find_next_start4 bs k = k" using at by (subst find_next_start4.simps) simp
  moreover have "k < find_next_start bs k"
    using at find_next_start_ge [of "k + 1" bs] by (subst find_next_start.simps) simp
  moreover have "take (k - length pre) (drop (length pre) bs) = n" "length pre < k" using ne by (simp_all add: bs_def k_def)
  moreover have "prefix_len bs k = 4" using at by (simp add: prefix_len_def)
  ultimately have "annex_b_loop bs (length pre) out = annex_b_loop bs (k + 4) (out @ [n])"
    using at by (subst annex_b_loop.simps) (simp add: Let_def)
  moreover have "bs = (pre @ n @ [0, 0, 0, 1]) @ m @ annex_b_framed ns" "k + 4 = length (pre @ n @ [0, 0, 0, 1])"
    by (simp_all add: bs_def k_def r)
  ultimately show ?case using Cons.IH [of m "pre @ n @ [0, 0, 0, 1]" "out @ [n]"] Cons.prems(1)
    by (simp add: bs_def)
qed

lemma parse_annex_b_framed:
  assumes "\<forall>n \<in> set ns. emulation_free n"
  shows "parse_annex_b (annex_b_framed ns) = ns"
proof (cases ns)
  case Nil
  then show ?thesis by (simp add: parse_annex_b_def annex_b_framed_def)
next
  case (Cons n ms)
  define bs where "bs = annex_b_framed ns"
  have bs: "bs = [0, 0, 0, 1] @ n @ annex_b_framed ms" by (simp add: bs_def Cons annex_b_framed_def)
  have "find_next_start4 bs 0 = 0" by (subst find_next_start4.simps) (simp add: bs)
  moreover have "prefix_len bs 0 = 4" by (simp add: prefix_len_def bs)
  moreover have "annex_b_loop bs 4 [] = ns"
    using annex_b_loop_framed [of ms n "[0, 0, 0, 1]" "[]"] assms by (simp add: bs Cons eval_nat_numeral)
  ultimately show ?thesis using bs by (simp add: parse_annex_b_def bs_def [symmetric])
qed

section \<open>Sending a frame\<close>

text \<open>The NAL units of an H.264 frame.\<close>

definition nalus_of :: "encoded_frame \<Rightarrow> bytes list" where
  "nalus_of frame = (case nalu_format frame of AnnexBStartCode \<Rightarrow> parse_annex_b (ef_payload frame)
     | LengthPrefixed \<Rightarrow> parse_length_prefixed (ef_payload frame) | FormatUnknown \<Rightarrow> [])"

lemma nalus_of_nonempty: "[] \<notin> set (nalus_of frame)"
  by (simp add: nalus_of_def parse_annex_b_nonempty parse_length_prefixed_nonempty split: nalu_format.split)

lemma push_frame_h264:
  assumes "ef_codec frame = CodecH264"
  shows "push_frame frame ts s = (if nalus_of frame = [] then Some (Inl InvalidArgument, begin_frame s)
    else emit_h264 (nalus_of frame) ts (begin_frame s))"
  using assms by (cases "nalu_format frame") (simp_all add: push_frame_def Let_def nalus_of_def)

lemma begin_frame_keeps:
  "s_cfg (begin_frame s) = s_cfg s" "has_packet_cb (begin_frame s) = has_packet_cb s" "sent (begin_frame s) = sent s"
  "s_next_seq (begin_frame s) = s_next_seq s" "ring (begin_frame s) = ring s" "\<not> s_keyframe_pending (begin_frame s)"
  "sender_ok c (begin_frame s) = sender_ok c s"
  by (simp_all add: begin_frame_def sender_ok_def ring_def Let_def)

text \<open>The oversized NAL units come first.\<close>

definition oversized_first :: "nat \<Rightarrow> bytes list \<Rightarrow> bool" where
  "oversized_first mtu ns \<longleftrightarrow> (\<exists>k. list_all (\<lambda>n. length n > mtu) (take k ns) \<and> list_all (\<lambda>n. length n \<le> mtu) (drop k ns))"

lemma oversized_first_index:
  assumes "oversized_first mtu ns" "list_all2 P (filter (\<lambda>n. length n > mtu) ns) fs" "j < length ns" "length (ns ! j) > mtu"
  shows "j < length fs \<and> P (ns ! j) (fs ! j)"
proof -
  obtain k where k: "list_all (\<lambda>n. length n > mtu) (take k ns)" "list_all (\<lambda>n. length n \<le> mtu) (drop k ns)"
    using assms(1) by (auto simp: oversized_first_def)
  have "filter (\<lambda>n. length n > mtu) (take k ns @ drop k ns) = take k ns"
    unfolding filter_append using k by (auto simp: list_all_iff filter_empty_conv not_less intro!: filter_True)
  then have f: "filter (\<lambda>n. length n > mtu) ns = take k ns" by simp
  have "j < k"
  proof (rule ccontr)
    assume "\<not> j < k"
    then show False using k(2) [unfolded list_all_length, rule_format, of "j - k"] assms(3,4) by (simp add: diff_less_mono)
  qed
  then show ?thesis using assms(2,3) by (auto simp: f list_all2_conv_all_nth)
qed

lemma emit_h264_walked:
  assumes "3 \<le> unat (s_mtu (s_cfg s))" "s_mode (s_cfg s) \<noteq> Interleaved" "oversized_first (unat (s_mtu (s_cfg s))) nalus"
    and "[] \<notin> set nalus" "sender_ok (s_cfg s) s"
  shows "\<exists>s' ps. emit_h264 nalus ts s = Some (Inr (), s') \<and> emits ts ps s s'
    \<and> carries ps (filter (sendable (unat (s_mtu (s_cfg s)))) nalus) \<and> (\<forall>p \<in> set ps. length (fst p) \<le> unat (s_mtu (s_cfg s)))"
proof -
  define mtu where "mtu = unat (s_mtu (s_cfg s))"
  obtain fs where fs: "fragment_all mtu nalus [] = Some (Inr fs)" "list_all2 (fragments_of mtu) (filter (\<lambda>n. length n > mtu) nalus) fs"
    using fragment_all_returns [of mtu nalus "[]"] assms(1) by (auto simp: mtu_def)
  have "walked mtu ts (filter (sendable mtu) (drop 0 nalus)) s (emit_walk mtu nalus fs ts 0 s)"
    using assms oversized_first_index [OF _ fs(2)] by (intro emit_walk_carries) (simp_all add: mtu_def)
  then show ?thesis using assms(2) fs(1) by (auto simp: emit_h264_def walked_def mtu_def [symmetric])
qed

section \<open>The retransmission cache\<close>

text \<open>
  The operations of a sender and their effect on it and on the history of the packets it has emitted (what
  \<^verbatim>\<open>push_frame\<close> hands to the callback; a retransmission is not part of it).
\<close>

datatype sender_op = PushFrame encoded_frame u32 | ForceKeyframe | Retransmit u16

type_synonym sender_run = "(video_sender \<times> (bytes \<times> u32 \<times> u16 \<times> bool) list) option"

definition sender_step :: "sender_op \<Rightarrow> sender_run \<Rightarrow> sender_run" where
  "sender_step op r = (case r of None \<Rightarrow> None | Some (s, h) \<Rightarrow>
     (case op of
        PushFrame frame ts \<Rightarrow> map_option (\<lambda>(res, s'). (s', h @ drop (length (sent s)) (sent s'))) (push_frame frame ts s)
      | ForceKeyframe \<Rightarrow> Some (force_keyframe s, h)
      | Retransmit sq \<Rightarrow> Some (snd (retransmit sq s), h)))"

definition packet_of_call :: "bytes \<times> u32 \<times> u16 \<times> bool \<Rightarrow> cached_packet" where
  "packet_of_call = (\<lambda>(payload, ts, sq, marker). \<lparr>c_seq = sq, c_rtp_ts = ts, c_marker = marker, c_payload = payload\<rparr>)"

definition sender_run_ok :: "sender_config \<Rightarrow> sender_run \<Rightarrow> bool" where
  "sender_run_ok c r = (case r of None \<Rightarrow> True | Some (s, h) \<Rightarrow>
     sender_ok c s \<and> has_packet_cb s \<and> s_next_seq s = s_initial_seq c + of_nat (length h)
     \<and> map (\<lambda>(p, t, q, m). q) h = map (\<lambda>i. s_initial_seq c + of_nat i) [0..<length h]
     \<and> ring s = drop (length h) (replicate (retransmit_cache_packets c) no_cached_packet @ map packet_of_call h))"

lemma packet_of_call_of [simp]: "packet_of_call (call_of p) = p"
  by (simp add: packet_of_call_def call_of_def)

lemma packets_from_seq: "map c_seq (packets_from sq ts ps) = map (\<lambda>i. sq + of_nat i) [0..<length ps]"
proof (induction sq ts ps rule: packets_from.induct)
  case (2 sq ts payload marker ps)
  then show ?case by (simp add: upt_conv_Cons map_Suc_upt [symmetric] add.assoc del: upt_Suc)
qed simp

lemma map_upt_append: "map f [0..<a] @ map (\<lambda>i. f (a + i)) [0..<b] = map f [0..<a + b]"
  by (induction b) simp_all

lemma sender_run_emits:
  assumes "sender_run_ok c (Some (s, h))" "emits ts ps s s'"
  shows "sender_run_ok c (Some (s', h @ drop (length (sent s)) (sent s')))"
proof -
  define qs where "qs = packets_from (s_next_seq s) ts ps"
  have ok: "sender_ok c s" "has_packet_cb s" "s_next_seq s = s_initial_seq c + of_nat (length h)"
    "map (\<lambda>(p, t, q, m). q) h = map (\<lambda>i. s_initial_seq c + of_nat i) [0..<length h]"
    "ring s = drop (length h) (replicate (retransmit_cache_packets c) no_cached_packet @ map packet_of_call h)"
    using assms(1) by (simp_all add: sender_run_ok_def)
  have e: "sender_ok c s'" "s_next_seq s' = s_next_seq s + of_nat (length ps)" "ring s' = drop (length ps) (ring s @ qs)"
    "sent s' = sent s @ map call_of qs" "has_packet_cb s'"
    using assms(2) ok(1,2) by (simp_all add: emits_def qs_def sender_ok_def)
  have qs: "length qs = length ps" "map (\<lambda>(p, t, q, m). q) (map call_of qs) = map (\<lambda>i. s_next_seq s + of_nat i) [0..<length ps]"
    using packets_from_seq [of "s_next_seq s" ts ps] by (simp_all add: qs_def call_of_def comp_def)
  have "map (\<lambda>(p, t, q, m). q) (h @ map call_of qs) = map (\<lambda>i. s_initial_seq c + of_nat i) [0..<length h + length ps]"
    using map_upt_append [of "\<lambda>i. s_initial_seq c + of_nat i" "length h" "length ps"]
    unfolding map_append ok(4) qs(2) ok(3) by (simp add: add.assoc)
  moreover have "ring s' = drop (length h + length ps) ((replicate (retransmit_cache_packets c) no_cached_packet @ map packet_of_call h) @ qs)"
    unfolding e(3) ok(5) by (rule drop_drop_append) simp
  moreover have new: "drop (length (sent s)) (sent s') = map call_of qs" by (simp add: e(4))
  ultimately show ?thesis unfolding new
    using e(1,2,5) ok(3) qs(1) by (simp add: sender_run_ok_def comp_def add.assoc del: drop_append)
qed

lemma emitted_one: "sender_ok (s_cfg s) s \<Longrightarrow> emit payload ts marker s = Some s' \<Longrightarrow> emits ts [(payload, marker)] s s'"
  using emit_emits [of s payload ts marker] by auto

lemma emitted_all: "sender_ok (s_cfg s) s \<Longrightarrow> emit_all ts ps s = Some s' \<Longrightarrow> emits ts ps s s'"
  using emit_all_emits [of s ts ps] by auto

text \<open>Whatever the frame, what a walk does to the sender is a sequence of emissions.\<close>

lemma emit_walk_emits:
  "sender_ok (s_cfg s) s \<Longrightarrow> emit_walk mtu nalus large ts i s = Some s' \<Longrightarrow> \<exists>ps. emits ts ps s s'"
proof (induction "length nalus - i" arbitrary: i s rule: less_induct)
  case less
  have later: "\<exists>ps. emits ts ps s s'" if "emits ts qs s s1" "emit_walk mtu nalus large ts k s1 = Some s'" "i < k" "i < length nalus" for qs s1 k
  proof -
    have "length nalus - k < length nalus - i" using that by simp
    then have "\<exists>ps. emits ts ps s1 s'" using less.hyps [of k s1] emitsE [OF that(1)] that(2) by auto
    then show ?thesis using emits_append [OF that(1)] by blast
  qed
  note ok = less.prems(1)
  define g where "g = stap_group mtu (if mtu > 1 then mtu - 1 else 0) (drop i nalus)"
  note walk = less.prems(2) [unfolded emit_walk.simps [of mtu nalus large ts i s] Let_def g_def [symmetric]]
  consider "\<not> i < length nalus" | "i < length nalus" "length (nalus ! i) > mtu" | "i < length nalus" "length (nalus ! i) \<le> mtu" "2 \<le> length g"
    | "i < length nalus" "length (nalus ! i) \<le> mtu" "length g = 1" | "i < length nalus" "length (nalus ! i) \<le> mtu" "g = []"
    by (cases g; cases "tl g") fastforce+
  then show ?case
  proof cases
    case 1
    then show ?thesis using walk emits_nil [OF ok, of ts] by auto
  next
    case 2
    then obtain fr s1 where "emit_all ts (mark_last fr) s = Some s1" "emit_walk mtu nalus large ts (i + 1) (add_counts 1 0 0 s1) = Some s'"
      using walk by (auto split: bind_splits)
    then show ?thesis using later [OF emits_counts [OF emitted_all [OF ok]]] 2(1) by auto
  next
    case 3
    then obtain r s1 where r: "(if fst r = 0 then map_option (add_counts 0 0 (length g)) (emit_all ts (map (\<lambda>g. (g, False)) g) s)
          else map_option (add_counts 0 1 0) (emit (take (fst r) (snd r)) ts True s)) = Some s1"
        "emit_walk mtu nalus large ts (i + length g) s1 = Some s'"
      using walk by (auto split: bind_splits)
    then obtain z where "(if fst r = 0 then emit_all ts (map (\<lambda>g. (g, False)) g) s else emit (take (fst r) (snd r)) ts True s) = Some z"
        "s1 = (if fst r = 0 then add_counts 0 0 (length g) z else add_counts 0 1 0 z)" by (auto split: if_splits)
    then have "emits ts (if fst r = 0 then map (\<lambda>g. (g, False)) g else [(take (fst r) (snd r), True)]) s s1"
      using emits_counts [OF emitted_all [OF ok]] emits_counts [OF emitted_one [OF ok]] by (simp split: if_splits)
    then show ?thesis by (rule later [OF _ r(2)]) (use 3 in auto)
  next
    case 4
    then obtain s1 where "emit (hd g) ts True s = Some s1" "emit_walk mtu nalus large ts (i + length g) (add_counts 0 0 1 s1) = Some s'"
      using walk by (auto split: bind_splits)
    then show ?thesis using later [OF emits_counts [OF emitted_one [OF ok]]] 4 by auto
  next
    case 5
    then have "emit_walk mtu nalus large ts (i + 1) s = Some s'"
      using walk by simp
    then show ?thesis using later [OF emits_nil [OF ok]] 5 by auto
  qed
qed

lemma push_frame_emits:
  assumes "sender_ok (s_cfg s) s" "push_frame frame ts s = Some (res, s')"
  shows "\<exists>ps. emits ts ps (begin_frame s) s'"
proof -
  define s0 where "s0 = begin_frame s"
  have ok: "sender_ok (s_cfg s0) s0" using assms(1) by (simp add: s0_def begin_frame_keeps)
  have h: "emit_h264 ns ts s0 = Some (res, s') \<Longrightarrow> \<exists>ps. emits ts ps s0 s'" for ns
    using emits_nil [OF ok, of ts] emit_walk_emits [OF ok]
    by (auto simp: emit_h264_def Let_def split: if_splits bind_splits sum.splits)
  have v: "emit_simple bs ts s0 = Some (res, s') \<Longrightarrow> \<exists>ps. emits ts ps s0 s'" for bs
    using emitted_one [OF ok, of bs ts True s'] by (auto simp: emit_simple_def)
  show ?thesis
  proof (cases "ef_codec frame = CodecH264")
    case True
    then show ?thesis using assms(2) h emits_nil [OF ok, of ts]
      by (auto simp: push_frame_h264 s0_def [symmetric] split: if_splits)
  next
    case False
    then show ?thesis using assms(2) v emits_nil [OF ok, of ts]
      by (auto simp: push_frame_def s0_def [symmetric] Let_def split: codec_kind.splits)
  qed
qed

lemma sender_step_ok: "sender_run_ok c r \<Longrightarrow> sender_run_ok c (sender_step op r)"
proof (cases r)
  case (Some sh)
  assume ok: "sender_run_ok c r"
  obtain s h where sh: "sh = (s, h)" by (cases sh)
  show ?thesis
  proof (cases op)
    case (PushFrame frame ts)
    have b: "sender_run_ok c (Some (begin_frame s, h))" using ok by (simp add: Some sh sender_run_ok_def begin_frame_keeps)
    have "sender_ok (s_cfg s) s" using ok by (auto simp: Some sh sender_run_ok_def sender_ok_def)
    then show ?thesis using push_frame_emits [of s frame ts] sender_run_emits [OF b]
      by (cases "push_frame frame ts s") (auto simp: sender_step_def Some sh PushFrame begin_frame_keeps sender_run_ok_def)
  next
    case ForceKeyframe
    then show ?thesis using ok by (simp add: Some sh sender_step_def sender_run_ok_def force_keyframe_def sender_ok_def ring_def)
  next
    case (Retransmit sq)
    then show ?thesis using ok
      by (simp add: Some sh sender_step_def sender_run_ok_def retransmit_def call_packet_cb_def sender_ok_def ring_def Let_def split: option.split)
  qed
qed (simp add: sender_step_def sender_run_ok_def)

lemma sender_init_ok: "sender_run_ok c (Some (set_packet_callback True (new_video_sender c), []))"
  by (auto simp: sender_run_ok_def new_video_sender_def set_packet_callback_def sender_ok_def ring_def)

interpretation vsend: component "Some (set_packet_callback True (new_video_sender c), [])" sender_step "sender_run_ok c"
  by unfold_locales (rule sender_init_ok, rule sender_step_ok)

lemma find_unique:
  "(\<And>x y. x \<in> set xs \<Longrightarrow> y \<in> set xs \<Longrightarrow> P x \<Longrightarrow> P y \<Longrightarrow> x = y) \<Longrightarrow> find P xs = Some x \<longleftrightarrow> x \<in> set xs \<and> P x"
  by (induction xs) auto

lemma in_set_drop: "x \<in> set (drop k xs) \<Longrightarrow> \<exists>i. x = xs ! i \<and> k \<le> i \<and> i < length xs"
proof -
  assume "x \<in> set (drop k xs)"
  then obtain m where "m < length xs - k" "x = drop k xs ! m" by (auto simp: in_set_conv_nth)
  then show ?thesis by (intro exI [of _ "k + m"]) auto
qed

lemma set_ring: "set (ring s) = set (rtx_cache s)"
  unfolding ring_def set_append by (metis Un_commute append_take_drop_id set_append)

lemma mod_window: "i mod m = j mod m \<Longrightarrow> i < j + m \<Longrightarrow> j < i + m \<Longrightarrow> i = (j :: nat)"
proof (induction i j rule: linorder_wlog)
  case (le i j)
  then have "m dvd j - i" using mod_eq_dvd_iff_nat [of i j m] by simp
  then show ?case using le by (auto dest: dvd_imp_le)
qed simp

text \<open>The cache holds the most recent packets, at most one with a given sequence number.\<close>

lemma find_cached_recent:
  assumes "sender_run_ok c (Some (s, h))" "retransmit_cache_packets c \<le> 65536"
  defines "recent \<equiv> drop (length h - retransmit_cache_packets c) h"
  shows "find_cached sq s = Some p \<longleftrightarrow> p \<in> packet_of_call ` set recent \<and> c_payload p \<noteq> [] \<and> c_seq p = sq"
proof -
  define N where "N = retransmit_cache_packets c"
  define pk where "pk = map packet_of_call h"
  have seqs: "map (\<lambda>(p, t, q, m). q) h = map (\<lambda>i. s_initial_seq c + of_nat i) [0..<length h]"
    and ring: "ring s = drop (length h) (replicate N no_cached_packet) @ drop (length h - N) pk"
    using assms(1) by (simp_all add: sender_run_ok_def N_def pk_def)
  have sq: "c_seq (pk ! i) = s_initial_seq c + of_nat i" if "i < length h" for i
    using arg_cong [OF seqs, of "\<lambda>xs. xs ! i"] that by (simp add: pk_def packet_of_call_def split: prod.splits)
  have mem: "x \<in> set (rtx_cache s) \<and> c_payload x \<noteq> [] \<longleftrightarrow> x \<in> set (drop (length h - N) pk) \<and> c_payload x \<noteq> []" for x
    unfolding set_ring [symmetric] ring by (auto simp: no_cached_packet_def)
  have uniq: "x = y" if "x \<in> set (drop (length h - N) pk)" "y \<in> set (drop (length h - N) pk)" "c_seq x = c_seq y" for x y
  proof -
    note eq = that(3) and x = in_set_drop [OF that(1)] and y = in_set_drop [OF that(2)]
    obtain i j where ij: "x = pk ! i" "y = pk ! j" "i < length h" "j < length h" "length h - N \<le> i" "length h - N \<le> j"
      using x y by (auto simp: pk_def)
    then have "(of_nat i :: u16) = of_nat j" using eq sq by simp
    then have "i mod 65536 = j mod 65536" by (simp add: word_of_nat_eq_iff take_bit_eq_mod)
    moreover have "i < j + 65536" "j < i + 65536" using ij assms(2) by (auto simp: N_def)
    ultimately have "i = j" by (rule mod_window)
    then show ?thesis using ij by simp
  qed
  have "set (drop (length h - N) pk) = packet_of_call ` set recent" by (simp add: pk_def recent_def N_def drop_map)
  then show ?thesis unfolding find_cached_def
    using uniq mem by (subst find_unique) (blast, metis)
qed

section \<open>Properties\<close>

text \<open>
  A sequence of payloads that carries NAL units in the formats of the non-interleaved mode: a unit as FU-A fragments, several units as one STAP-A packet, or
  a unit as a packet of its own.
\<close>

inductive payloads_carry :: "bytes list \<Rightarrow> bytes list \<Rightarrow> bool" where
  carry_nil: "payloads_carry [] []"
| carry_fu_a: "payloads_carry ps ns \<Longrightarrow> 2 \<le> length cs \<Longrightarrow> [] \<notin> set cs \<Longrightarrow> payloads_carry (wrap_chunks h True cs @ ps) ((h # concat cs) # ns)"
| carry_stap_a: "payloads_carry ps ns \<Longrightarrow> 2 \<le> length g \<Longrightarrow> payloads_carry ((stap_indicator (hd g) # stap_units g) # ps) (g @ ns)"
| carry_single: "payloads_carry ps ns \<Longrightarrow> payloads_carry (n # ps) (n # ns)"

lemma carries_payloads: "carries ps ns \<Longrightarrow> payloads_carry (map fst ps) ns \<and> (ps \<noteq> [] \<longrightarrow> snd (last ps)) \<and> (ns \<noteq> [] \<longrightarrow> ps \<noteq> [])"
proof (induction rule: carries.induct)
  case (carries_fu_a ps ns cs h)
  have "length (wrap_chunks h True cs) \<noteq> 0" using carries_fu_a.hyps(2) by auto
  then obtain w ws where w: "wrap_chunks h True cs = w # ws" by (cases "wrap_chunks h True cs") auto
  have m: "map fst (marked (wrap_chunks h True cs)) = wrap_chunks h True cs" "marked (wrap_chunks h True cs) \<noteq> []"
    "snd (last (marked (wrap_chunks h True cs)))" by (simp_all add: marked_def w last_zip map_fst_zip)
  then show ?case using carries_fu_a carry_fu_a [of "map fst ps" ns cs h] by (auto simp: last_append)
next
  case (carries_stap_a ps ns g)
  then show ?case using carry_stap_a [of "map fst ps" ns g] by auto
next
  case (carries_single ps ns n)
  then show ?case using carry_single [of "map fst ps" ns n] by auto
qed (simp add: carry_nil)


definition sample_sender :: "u32 \<Rightarrow> video_sender" where
  "sample_sender mtu = set_packet_callback True (new_video_sender \<lparr>s_codec = CodecH264, s_ssrc = 7, s_payload_type = 102, s_mtu = mtu,
     s_mode = NonInterleaved, s_initial_seq = 65535, retransmit_cache_packets = 2\<rparr>)"

definition sample_frame :: "bytes list \<Rightarrow> encoded_frame" where
  "sample_frame ns = \<lparr>ef_codec = CodecH264, nalu_format = AnnexBStartCode, ef_payload = annex_b_framed ns, ef_is_keyframe = True,
     ef_payload_type = 102, ef_capture_ts_us = 0, ef_rtp_timestamp = 0, ef_frame_seq = 0\<rparr>"

lemma nalus_of_sample: "\<forall>n \<in> set ns. emulation_free n \<Longrightarrow> nalus_of (sample_frame ns) = ns"
  by (simp add: nalus_of_def sample_frame_def parse_annex_b_framed)

lemmas sample_sender_simps = sample_sender_def new_video_sender_def set_packet_callback_def


text \<open>
  NAL units framed by four-byte start codes or by 32-bit lengths are split into exactly these units, and no
  input is split into empty units.
\<close>

theorem nal_framing_roundtrip:
  "(list_all emulation_free ns \<longrightarrow> parse_annex_b (annex_b_framed ns) = ns)
   \<and> (list_all (\<lambda>n. n \<noteq> [] \<and> length n < 2 ^ 32) ns \<longrightarrow> parse_length_prefixed (length_framed ns) = ns)
   \<and> [] \<notin> set (parse_annex_b bs) \<and> [] \<notin> set (parse_length_prefixed bs)"
  using parse_annex_b_framed [of ns] length_prefixed_loop_framed [of ns "[]" "[]"]
  by (simp add: list_all_iff parse_length_prefixed_def parse_annex_b_nonempty parse_length_prefixed_nonempty
      length_prefixed_loop_nonempty)

theorem nal_framing_roundtrip_witness:
  "parse_annex_b (annex_b_framed [[0x67, 0, 0, 3], [0x68]]) = [[0x67, 0, 0, 3], [0x68]]
   \<and> parse_length_prefixed (length_framed [[0x67, 0, 0, 3], [0x68]]) = [[0x67, 0, 0, 3], [0x68]]"
  using nal_framing_roundtrip [of "[[0x67, 0, 0, 3], [0x68]]" "[]"]
  by (simp add: emulation_free_def)

text \<open>
  C9: after any sequence of frames, key frame requests and retransmissions, the packets emitted so far are
  numbered consecutively from the initial sequence number, and a retransmission request for one of the last
  \<^verbatim>\<open>retransmit_cache_packets\<close> of them repeats it unchanged through the callback, while any other number is a
  miss that sends nothing.
\<close>

theorem retransmit_cache_exact:
  assumes "fold sender_step ops (Some (set_packet_callback True (new_video_sender c), [])) = Some (s, h)"
    and "retransmit_cache_packets c \<le> 65536"
  shows "map (\<lambda>(p, t, q, m). q) h = map (\<lambda>i. s_initial_seq c + of_nat i) [0..<length h]
    \<and> list_all (\<lambda>(payload, ts, sq, marker). payload \<noteq> [] \<longrightarrow>
        (\<exists>s'. retransmit sq s = (True, s') \<and> sent s' = sent s @ [(payload, ts, sq, marker)])) (drop (length h - retransmit_cache_packets c) h)
    \<and> (sq \<notin> set (map (\<lambda>(p, t, q, m). q) (drop (length h - retransmit_cache_packets c) h)) \<longrightarrow>
        (\<exists>s'. retransmit sq s = (False, s') \<and> sent s' = sent s))"
proof -
  have ok: "sender_run_ok c (Some (s, h))" using vsend.run_inv [of c ops] assms(1) by simp
  define recent where "recent = drop (length h - retransmit_cache_packets c) h"
  note found = find_cached_recent [OF ok assms(2), folded recent_def]
  have cb: "has_packet_cb s" using ok by (simp add: sender_run_ok_def)
  have hit: "\<exists>s'. retransmit q s = (True, s') \<and> sent s' = sent s @ [(p, t, q, m)]" if "(p, t, q, m) \<in> set recent" "p \<noteq> []" for p t q m
  proof -
    have "find_cached q s = Some (packet_of_call (p, t, q, m))"
      using found that by (auto simp: packet_of_call_def intro!: image_eqI [of _ _ "(p, t, q, m)"])
    then show ?thesis using cb by (simp add: retransmit_def call_packet_cb_def packet_of_call_def Let_def)
  qed
  have miss: "find_cached sq s = None" if "sq \<notin> set (map (\<lambda>(p, t, q, m). q) recent)"
  proof (rule ccontr)
    assume "find_cached sq s \<noteq> None"
    then obtain p where "p \<in> packet_of_call ` set recent" "c_seq p = sq" using found by auto
    then show False using that by (force simp: packet_of_call_def)
  qed
  show ?thesis using ok hit miss
    unfolding recent_def [symmetric] by (auto simp: sender_run_ok_def list_all_iff retransmit_def)
qed

definition sample_vp8 :: "u8 \<Rightarrow> encoded_frame" where
  "sample_vp8 b = (sample_frame [])\<lparr>ef_codec := CodecVP8, ef_payload := [b]\<rparr>"

lemma sample_vp8_run:
  "\<exists>s. fold sender_step [PushFrame (sample_vp8 1) 10, PushFrame (sample_vp8 2) 20, PushFrame (sample_vp8 3) 30]
     (Some (sample_sender 9, [])) = Some (s, [([1], 10, 65535, True), ([2], 20, 0, True), ([3], 30, 1, True)])"
  by (simp add: sender_step_def push_frame_def sample_vp8_def sample_frame_def begin_frame_def sample_sender_simps emit_simple_def
      emit_def cache_packet_def call_packet_cb_def Let_def)

theorem retransmit_cache_exact_witness:
  "\<exists>s h s' s''. fold sender_step [PushFrame (sample_vp8 1) 10, PushFrame (sample_vp8 2) 20, PushFrame (sample_vp8 3) 30]
       (Some (sample_sender 9, [])) = Some (s, h)
     \<and> retransmit 0 s = (True, s') \<and> sent s' = sent s @ [([2], 20, 0, True)]
     \<and> retransmit 65535 s = (False, s'') \<and> sent s'' = sent s"
proof -
  obtain s where s: "fold sender_step [PushFrame (sample_vp8 1) 10, PushFrame (sample_vp8 2) 20, PushFrame (sample_vp8 3) 30]
     (Some (sample_sender 9, [])) = Some (s, [([1], 10, 65535, True), ([2], 20, 0, True), ([3], 30, 1, True)])"
    using sample_vp8_run by blast
  show ?thesis
    using s retransmit_cache_exact [OF s [unfolded sample_sender_def], of 65535] by (auto simp: sample_sender_def)
qed

subsection \<open>Where the sender departs from its documentation\<close>

text \<open>
  The fragment lists are stored one per oversized NAL unit and read by the index of the unit: parameter sets
  followed by an oversized slice, the usual key frame, make \<^verbatim>\<open>emit_h264\<close> read past their end.
\<close>

theorem sender_fragment_index: "emit_h264 [[0x67, 1], [0x65, 1, 2, 3, 4, 5, 6, 7, 8, 9]] 0 (sample_sender 9) = None"
proof -
  let ?ns = "[[0x67, 1], [0x65, 1, 2, 3, 4, 5, 6, 7, 8, 9]] :: bytes list"
  obtain f where f: "fragment_all 9 ?ns [] = Some (Inr [f])"
    using fragment_all_returns [of 9 ?ns "[]"] by (auto simp: list_all2_Cons1)
  have "emit_walk 9 ?ns [f] 0 1 s = None" for s
    by (subst emit_walk.simps) (simp add: at_index_def)
  then have "emit_walk 9 ?ns [f] 0 0 s = None" for s
    by (subst emit_walk.simps) (simp add: Let_def)
  then show ?thesis using f by (simp add: emit_h264_def sample_sender_simps)
qed

text \<open>With an MTU of 2 bytes every fragment is empty and the fragmentation of an oversized NAL unit never ends.\<close>

lemma fragment_loop_stuck:
  assumes "fragment_loop mtu n offset fs = Some r"
  shows "mtu = 2 \<longrightarrow> \<not> offset < length n - 1"
proof (rule fragment_loop.raw_induct [OF _ assms, of "\<lambda>mtu n offset fs r. mtu = 2 \<longrightarrow> \<not> offset < length n - 1"])
  fix again mtu n offset fs r
  assume ih: "\<And>mtu n offset fs r. again mtu n offset fs = Some r \<Longrightarrow> mtu = 2 \<longrightarrow> \<not> offset < length n - 1"
    and body: "(if offset < length n - 1
      then let remaining = length n - 1 - offset; max_body = (if mtu > 2 then mtu - 2 else 0);
               this_len = (if remaining > max_body then max_body else remaining)
           in fu_a_fragment mtu n offset this_len \<bind> (\<lambda>r. case r of
                Inl e \<Rightarrow> Some (Inl e) | Inr frag \<Rightarrow> again mtu n (offset + this_len) (fs @ [frag]))
      else Some (Inr fs)) = Some r"
  show "mtu = 2 \<longrightarrow> \<not> offset < length n - 1"
  proof (rule impI, rule notI)
    assume a: "mtu = 2" "offset < length n - 1"
    then have "n \<noteq> []" "1 + offset + 0 \<le> length n" "0 + 2 \<le> mtu" by auto
    from fu_a_fragment_eq [OF this] obtain f where "fu_a_fragment mtu n offset 0 = Some (Inr f)" by blast
    then have "again mtu n offset (fs @ [f]) = Some r" using body a by (simp add: Let_def split: if_splits)
    then show False using ih a by blast
  qed
qed

theorem sender_mtu_two: "emit_h264 [[0x65, 1, 2]] 0 (sample_sender 2) = None"
  using fragment_loop_stuck [of 2 "[0x65, 1, 2]" 0 "[]"]
  by (cases "fragment_loop 2 [0x65, 1, 2] 0 []") (auto simp: emit_h264_def sample_sender_simps)

text \<open>A NAL unit of exactly the MTU is neither fragmented nor sent: the frame is accepted and nothing is emitted.\<close>

theorem sender_drops_mtu_sized: "\<exists>s. emit_h264 [[0x65, 1, 2, 3, 4, 5, 6, 7, 8]] 0 (sample_sender 9) = Some (Inr (), s) \<and> sent s = []"
proof -
  let ?n = "[0x65, 1, 2, 3, 4, 5, 6, 7, 8] :: bytes"
  have "emit_walk 9 [?n] [] 0 (Suc 0) s = Some s" for s by (subst emit_walk.simps) simp
  then have "emit_walk 9 [?n] [] 0 0 s = Some s" for s by (subst emit_walk.simps) simp
  then show ?thesis by (simp add: emit_h264_def sample_sender_simps)
qed

text \<open>Every packet of a frame that is not a leading fragment carries the marker, not only the last one of the access unit.\<close>

theorem sender_marks_every_unit:
  "map (\<lambda>(p, t, q, m). m) (sent (the (emit_walk 9 [[0x67, 1, 2, 3], [0x65, 4, 5, 6]] [] 0 0 (sample_sender 9)))) = [True, True]"
proof -
  let ?ns = "[[0x67, 1, 2, 3], [0x65, 4, 5, 6]] :: bytes list"
  have e: "emit_walk 9 ?ns [] 0 (Suc (Suc 0)) s = Some s" for s by (subst emit_walk.simps) simp
  show ?thesis
    by (subst emit_walk.simps, simp add: emit_def cache_packet_def call_packet_cb_def sample_sender_simps add_counts_def Let_def)
      (subst emit_walk.simps, simp add: emit_def cache_packet_def call_packet_cb_def add_counts_def e Let_def)
qed

text \<open>
  In a stream that mixes both start codes the units before the first four-byte code are lost, and a
  three-byte code before a byte 1 is taken for a four-byte one.
\<close>

theorem annex_b_mixed_codes:
  "parse_annex_b [0, 0, 1, 0x67, 5, 0, 0, 0, 1, 0x65, 6] = [[0x65, 6]]" "parse_annex_b [0, 0, 1, 1, 7] = [[7]]"
  by (simp_all add: parse_annex_b_def find_next_start4.simps find_next_start.simps prefix_len_def annex_b_loop.simps)

end
