(* ===== verification/Video_Receiver.thy ===== *)
theory Video_Receiver
  imports Rtp_Parser Video_Sender
begin

text \<open>
  The receiver of the video pipeline, \<^verbatim>\<open>src/modules/video_pipeline/src/video_pipeline.cpp\<close>: it follows the sequence
  numbers, undoes the packetization, feeds the video jitter buffer and hands the assembled frames and the
  feedback to callbacks.

  The callbacks are modelled by the histories of their calls. \<open>fl\<close> is the rounding of \<^verbatim>\<open>double\<close> arithmetic in the
  jitter buffer. A call that does not return normally is \<open>None\<close>.
\<close>

section \<open>The receiver\<close>

record receiver_config =
  r_codec :: codec_kind
  r_ssrc :: u32
  r_payload_type :: u8
  jitter_buffer_config :: vj_config
  expect_fu_a :: bool

record receiver_stats =
  packets_pushed :: nat
  r_frames_emitted :: nat
  r_frames_incomplete :: nat
  fua_fragments_seen :: nat
  stap_a_packets_seen :: nat
  nack_entries_emitted :: nat
  sequence_gaps_seen :: nat
  keyframe_requests_emitted :: nat

record receiver_feedback =
  missing_packets :: "u16 list"
  keyframe_requested :: bool

text \<open>\<open>delivered\<close> and \<open>reported\<close> are the histories of the frame and the feedback callback.\<close>

record video_receiver =
  r_cfg :: receiver_config
  r_stats :: receiver_stats
  has_frame_cb :: bool
  delivered :: "(encoded_frame \<times> int) list"
  has_feedback_cb :: bool
  reported :: "receiver_feedback list"
  jb :: video_jitter_buffer
  seq_initialised :: bool
  highest_seq :: u16
  expected_next :: u16
  pending_nacks :: "u16 list"
  fua_in_progress :: bool
  fua_nalu_type :: u8
  fua_nri :: u8
  fua_rtp_ts :: u32
  fua_start_seq :: u16
  fua_buf :: bytes
  fua_end_marker :: bool

definition no_receiver_stats :: receiver_stats where
  "no_receiver_stats = \<lparr>packets_pushed = 0, r_frames_emitted = 0, r_frames_incomplete = 0, fua_fragments_seen = 0,
     stap_a_packets_seen = 0, nack_entries_emitted = 0, sequence_gaps_seen = 0, keyframe_requests_emitted = 0\<rparr>"

definition new_video_receiver :: "receiver_config \<Rightarrow> video_receiver" where
  "new_video_receiver c = \<lparr>r_cfg = c, r_stats = no_receiver_stats, has_frame_cb = False, delivered = [],
     has_feedback_cb = False, reported = [], jb = new_video_jitter_buffer (jitter_buffer_config c),
     seq_initialised = False, highest_seq = 0, expected_next = 0, pending_nacks = [], fua_in_progress = False,
     fua_nalu_type = 0, fua_nri = 0, fua_rtp_ts = 0, fua_start_seq = 0, fua_buf = [], fua_end_marker = False\<rparr>"

definition set_frame_callback :: "bool \<Rightarrow> video_receiver \<Rightarrow> video_receiver" where
  "set_frame_callback cb s = s\<lparr>has_frame_cb := cb\<rparr>"

definition set_feedback_callback :: "bool \<Rightarrow> video_receiver \<Rightarrow> video_receiver" where
  "set_feedback_callback cb s = s\<lparr>has_feedback_cb := cb\<rparr>"

definition call_feedback_cb :: "receiver_feedback \<Rightarrow> video_receiver \<Rightarrow> video_receiver" where
  "call_feedback_cb fb s = s\<lparr>reported := reported s @ [fb]\<rparr>"

definition report_missing :: "u16 list \<Rightarrow> video_receiver \<Rightarrow> video_receiver" where
  "report_missing lost s =
     (if \<not> has_feedback_cb s \<or> lost = [] then s
      else call_feedback_cb \<lparr>missing_packets = lost, keyframe_requested = False\<rparr> s)"

definition receiver_seq_delta :: "u16 \<Rightarrow> u16 \<Rightarrow> int" where
  "receiver_seq_delta newer older =
     (let d = uint newer - uint older;
          d = (if d > 32767 then d - 65536 else d)
      in if d < -32768 then d + 65536 else d)"

definition track_seq :: "u16 \<Rightarrow> video_receiver \<Rightarrow> video_receiver" where
  "track_seq sq s =
     (if \<not> seq_initialised s then s\<lparr>highest_seq := sq, expected_next := sq + 1, seq_initialised := True\<rparr>
      else let d = receiver_seq_delta sq (highest_seq s) in
           if d = 0 then s
           else if d < 0 then s
           else let s = (if d > 1
                         then let lost = map (\<lambda>k. expected_next s + of_nat k) [0..<nat (d - 1)]
                              in report_missing lost
                                   (s\<lparr>r_stats := (r_stats s)\<lparr>sequence_gaps_seen := sequence_gaps_seen (r_stats s) + nat (d - 1)\<rparr>,
                                      pending_nacks := pending_nacks s @ lost\<rparr>)
                         else s)
                in s\<lparr>highest_seq := sq, expected_next := sq + 1\<rparr>)"

definition request_keyframe :: "video_receiver \<Rightarrow> video_receiver" where
  "request_keyframe s =
     (let s = s\<lparr>r_stats := (r_stats s)\<lparr>keyframe_requests_emitted := keyframe_requests_emitted (r_stats s) + 1\<rparr>\<rparr>
      in if \<not> has_feedback_cb s then s
         else call_feedback_cb \<lparr>missing_packets = [], keyframe_requested = True\<rparr> s)"

definition jb_insert :: "(rat \<Rightarrow> rat) \<Rightarrow> inbound_packet \<Rightarrow> video_receiver \<Rightarrow> video_receiver option" where
  "jb_insert fl pkt s = map_option (\<lambda>r. s\<lparr>jb := snd r\<rparr>) (vjb_insert fl pkt (jb s))"

definition flush_fua :: "(rat \<Rightarrow> rat) \<Rightarrow> u8 \<Rightarrow> u8 \<Rightarrow> bytes \<Rightarrow> bool \<Rightarrow> int \<Rightarrow> video_receiver \<Rightarrow> video_receiver option" where
  "flush_fua fl nri type body marker arrival s =
     (if body = [] then Some s
      else let hdr = push_bit 5 (nri AND 0x03) OR (type AND kNaluTypeMask)
           in jb_insert fl \<lparr>in_ssrc = r_ssrc (r_cfg s), in_seq = fua_start_seq s, in_timestamp = fua_rtp_ts s,
                arrival_us = arrival, in_marker = marker, in_payload_type = r_payload_type (r_cfg s),
                in_codec = CodecH264, in_payload = hdr # body\<rparr> s)"

text \<open>The two halves of the FU-A branch: the start bit, and the fragment itself.\<close>

definition start_fua :: "fu_a_header \<Rightarrow> bool \<Rightarrow> u32 \<Rightarrow> video_receiver \<Rightarrow> video_receiver" where
  "start_fua h marker ts s =
     (let start = fu_header h AND 0x80 \<noteq> 0;
          inner = fu_header h AND kNaluTypeMask;
          nri = drop_bit 5 (fu_indicator h AND kNriMask);
          s = s\<lparr>r_stats := (r_stats s)\<lparr>fua_fragments_seen := fua_fragments_seen (r_stats s) + 1\<rparr>\<rparr>
      in if start
         then s\<lparr>fua_in_progress := True, fua_nalu_type := inner, fua_nri := nri, fua_rtp_ts := ts,
                fua_start_seq := highest_seq s, fua_buf := [], fua_end_marker := marker\<rparr>
         else s)"

definition append_fua :: "(rat \<Rightarrow> rat) \<Rightarrow> fu_a_header \<Rightarrow> bool \<Rightarrow> int \<Rightarrow> video_receiver \<Rightarrow> video_receiver option" where
  "append_fua fl h marker arrival s =
     (let fin = fu_header h AND 0x40 \<noteq> 0 in
      if \<not> fua_in_progress s then Some s
      else let s = s\<lparr>fua_buf := fua_buf s @ fu_fragment h\<rparr>
           in if fin
              then map_option (\<lambda>s. s\<lparr>fua_in_progress := False, fua_buf := [], fua_end_marker := False\<rparr>)
                     (flush_fua fl (fua_nri s) (fua_nalu_type s) (fua_buf s) marker arrival s)
              else Some s)"

definition handle_fu_a :: "(rat \<Rightarrow> rat) \<Rightarrow> bytes \<Rightarrow> bool \<Rightarrow> u32 \<Rightarrow> int \<Rightarrow> video_receiver \<Rightarrow> video_receiver option" where
  "handle_fu_a fl payload marker ts arrival s = do {
     h \<leftarrow> parse_fu_a_header payload;
     case h of None \<Rightarrow> Some s | Some h \<Rightarrow> append_fua fl h marker arrival (start_fua h marker ts s)
   }"

definition inbound :: "video_receiver \<Rightarrow> codec_kind \<Rightarrow> bytes \<Rightarrow> bool \<Rightarrow> u32 \<Rightarrow> int \<Rightarrow> inbound_packet" where
  "inbound s codec payload marker ts arrival =
     \<lparr>in_ssrc = r_ssrc (r_cfg s), in_seq = highest_seq s, in_timestamp = ts, arrival_us = arrival, in_marker = marker,
      in_payload_type = r_payload_type (r_cfg s), in_codec = codec, in_payload = payload\<rparr>"

definition handle_stap_a :: "(rat \<Rightarrow> rat) \<Rightarrow> bytes \<Rightarrow> bool \<Rightarrow> u32 \<Rightarrow> int \<Rightarrow> video_receiver \<Rightarrow> video_receiver option" where
  "handle_stap_a fl payload marker ts arrival s = do {
     let s = s\<lparr>r_stats := (r_stats s)\<lparr>stap_a_packets_seen := stap_a_packets_seen (r_stats s) + 1\<rparr>\<rparr>;
     stap \<leftarrow> parse_stap_a payload;
     if \<not> stap_parsed_ok stap \<or> stap_nalus stap = [] then Some s
     else jb_insert fl (inbound s CodecH264 (concat (map nalu_data (stap_nalus stap))) marker ts arrival) s
   }"

definition handle_payload :: "(rat \<Rightarrow> rat) \<Rightarrow> bytes \<Rightarrow> bool \<Rightarrow> u32 \<Rightarrow> int \<Rightarrow> video_receiver \<Rightarrow> video_receiver option" where
  "handle_payload fl payload marker ts arrival s = do {
     nt \<leftarrow> peek_nalu_type payload;
     if r_codec (r_cfg s) = CodecH264 \<and> nt = kFuAType \<and> expect_fu_a (r_cfg s)
     then handle_fu_a fl payload marker ts arrival s
     else if r_codec (r_cfg s) = CodecH264 \<and> nt = kStapAType
     then handle_stap_a fl payload marker ts arrival s
     else jb_insert fl (inbound s (r_codec (r_cfg s)) payload marker ts arrival) s
   }"

text \<open>What the loop of \<^verbatim>\<open>drain_frames\<close> does with one frame.\<close>

definition deliver :: "int \<Rightarrow> assembled_frame \<Rightarrow> video_receiver \<Rightarrow> video_receiver" where
  "deliver now_us f s =
     (let s = s\<lparr>r_stats := (r_stats s)\<lparr>r_frames_emitted := r_frames_emitted (r_stats s) + 1\<rparr>\<rparr>;
          s = (if \<not> af_complete f
               then request_keyframe (s\<lparr>r_stats := (r_stats s)\<lparr>r_frames_incomplete := r_frames_incomplete (r_stats s) + 1\<rparr>\<rparr>)
               else s)
      in if \<not> has_frame_cb s then s
         else s\<lparr>delivered := delivered s @
           [(\<lparr>ef_codec = af_codec f, nalu_format = AnnexBStartCode, ef_payload = af_bitstream f, ef_is_keyframe = is_keyframe f,
              ef_payload_type = r_payload_type (r_cfg s), ef_capture_ts_us = sint (capture_ts_us f),
              ef_rtp_timestamp = af_timestamp f, ef_frame_seq = frame_seq f\<rparr>, now_us)]\<rparr>)"

partial_function (option) drain_frames :: "(rat \<Rightarrow> rat) \<Rightarrow> int \<Rightarrow> video_receiver \<Rightarrow> video_receiver option" where
  "drain_frames fl now_us s =
     (case pop_frame_at fl now_us (jb s) of
        (None, b) \<Rightarrow> Some (s\<lparr>jb := b\<rparr>)
      | (Some f, b) \<Rightarrow> drain_frames fl now_us (deliver now_us f (s\<lparr>jb := b\<rparr>)))"

definition push_rtp :: "(rat \<Rightarrow> rat) \<Rightarrow> packet_view \<Rightarrow> int \<Rightarrow> video_receiver \<Rightarrow> (bool \<times> video_receiver) option" where
  "push_rtp fl pkt now_us s =
     (let s = s\<lparr>r_stats := (r_stats s)\<lparr>packets_pushed := packets_pushed (r_stats s) + 1\<rparr>\<rparr> in
      if pv_payload pkt = [] \<and> \<not> pv_marker pkt then Some (False, s)
      else do {
        s \<leftarrow> handle_payload fl (pv_payload pkt) (pv_marker pkt) (pv_timestamp pkt) now_us (track_seq (pv_seq pkt) s);
        s \<leftarrow> drain_frames fl now_us s;
        Some (True, s)
      })"

definition receiver_pop_nacks :: "video_receiver \<Rightarrow> u16 list \<times> video_receiver" where
  "receiver_pop_nacks s =
     (let (from_jb, b) = pop_nack_entries (jb s);
          out = pending_nacks s @ from_jb
      in (out, s\<lparr>pending_nacks := [], jb := b,
                 r_stats := (r_stats s)\<lparr>nack_entries_emitted := nack_entries_emitted (r_stats s) + length out\<rparr>\<rparr>))"

definition receiver_tick :: "(rat \<Rightarrow> rat) \<Rightarrow> int \<Rightarrow> video_receiver \<Rightarrow> video_receiver option" where
  "receiver_tick fl now_us s = drain_frames fl now_us (s\<lparr>jb := vjb_tick now_us (jb s)\<rparr>)"

definition receiver_reset :: "video_receiver \<Rightarrow> video_receiver" where
  "receiver_reset s = s\<lparr>r_stats := no_receiver_stats, pending_nacks := [], seq_initialised := False, highest_seq := 0,
     expected_next := 0, fua_in_progress := False, fua_buf := [], fua_end_marker := False, jb := vjb_reset (jb s)\<rparr>"

section \<open>Draining the jitter buffer\<close>

definition jb_ok :: "vj_config \<Rightarrow> video_jitter_buffer \<Rightarrow> bool" where
  "jb_ok c b \<longleftrightarrow> (\<exists>out. vj_ok c (Some (b, out)))"

definition jb_work :: "video_jitter_buffer \<Rightarrow> nat" where
  "jb_work b = length (pending_incomplete b) + pending (buckets b)"

lemma pending_emit:
  "ordered m \<Longrightarrow> (k, v) \<in> set m \<Longrightarrow> \<not> emitted v \<Longrightarrow> emitted v' \<Longrightarrow> pending (upsert k d (\<lambda>_. v') m) < pending m"
proof (induction m)
  case (Cons x m)
  obtain k' w where x: "x = (k', w)" by (cases x)
  show ?case
  proof (cases "k = k'")
    case True
    then have "w = v" using Cons.prems(1,2) x by (auto simp: ordered_def)
    then show ?thesis using Cons.prems x True by simp
  next
    case False
    then have "k' < k" "(k, v) \<in> set m" "ordered m" using Cons.prems(1,2) x by (auto simp: ordered_def)
    then show ?thesis using Cons.IH Cons.prems(3,4) x False by auto
  qed
qed simp

lemma pop_ready_work:
  assumes "vj_ok c (Some (s, out))" "pop_ready fl gate s = (Some f, s')"
  shows "jb_work s' < jb_work s"
proof (cases "pending_incomplete s")
  case (Cons g fs)
  then show ?thesis using assms(2) by (auto simp: pop_ready_def jb_work_def)
next
  case Nil
  then obtain ts b where r: "ready_bucket fl gate s = Some (ts, b)" "emit_bucket ts b s = (f, s')"
    using assms(2) by (auto simp: pop_ready_def split: option.splits prod.splits)
  have "ordered (buckets s)" using assms(1) by (simp add: vj_ok_def buckets_ok_def)
  moreover have "(ts, b) \<in> set (buckets s)" "\<not> emitted b" using ready_bucket_set [OF r(1)] by auto
  ultimately show ?thesis using r(2) Nil pending_emit [of "buckets s" ts b]
    by (auto simp: emit_bucket_def make_assembled_def Let_def jb_work_def)
qed

interpretation jbs: item_source "pop_frame_at fl now" "jb_ok c" jb_work
proof
  fix s f s'
  assume "jb_ok c s" "pop_frame_at fl now s = (Some f, s')"
  then show "jb_ok c s' \<and> jb_work s' < jb_work s"
    unfolding jb_ok_def pop_frame_at_def using pop_ready_ok pop_ready_work by blast
next
  fix s s'
  assume "jb_ok c s" "pop_frame_at fl now s = (None, s')"
  then show "jb_ok c s'" unfolding jb_ok_def pop_frame_at_def using pop_ready_ok by blast
qed

text \<open>What one delivered frame leaves alone.\<close>

lemma deliver_keeps [simp]:
  "jb (deliver now f s) = jb s" "r_cfg (deliver now f s) = r_cfg s" "seq_initialised (deliver now f s) = seq_initialised s"
  "highest_seq (deliver now f s) = highest_seq s" "expected_next (deliver now f s) = expected_next s"
  "pending_nacks (deliver now f s) = pending_nacks s" "fua_in_progress (deliver now f s) = fua_in_progress s"
  "fua_buf (deliver now f s) = fua_buf s" "sequence_gaps_seen (r_stats (deliver now f s)) = sequence_gaps_seen (r_stats s)"
  "r_frames_emitted (r_stats (deliver now f s)) = r_frames_emitted (r_stats s) + 1"
  "has_frame_cb (deliver now f s) = has_frame_cb s" "has_feedback_cb (deliver now f s) = has_feedback_cb s"
  by (simp_all add: deliver_def request_keyframe_def call_feedback_cb_def Let_def)

section \<open>The receiver's invariant\<close>

text \<open>
  The jitter buffer is well formed and has handed out as many frames as the receiver has counted; the next
  sequence number is the one after the highest; the NACK candidates are counted as gaps; outside a fragmented
  NAL unit nothing is kept.
\<close>

definition rcv_ok :: "receiver_config \<Rightarrow> video_receiver \<Rightarrow> bool" where
  "rcv_ok c s \<longleftrightarrow> r_cfg s = c
     \<and> (\<exists>out. vj_ok (jitter_buffer_config c) (Some (jb s, out)) \<and> length out = r_frames_emitted (r_stats s))
     \<and> (seq_initialised s \<longrightarrow> expected_next s = highest_seq s + 1)
     \<and> length (pending_nacks s) \<le> sequence_gaps_seen (r_stats s) \<and> (fua_in_progress s \<or> fua_buf s = [])"

lemma drain_frames_returns:
  assumes "rcv_ok c s"
  shows "\<exists>s'. drain_frames fl now s = Some s' \<and> rcv_ok c s'"
proof -
  have "jb_ok (jitter_buffer_config c) (jb s)" using assms by (auto simp: rcv_ok_def jb_ok_def)
  then show ?thesis using assms
  proof (induction "jb s" arbitrary: s rule: jbs.drain_induct [where fl = fl and now = now])
    case (empty b s)
    then show ?case
      by (subst drain_frames.simps) (auto simp: rcv_ok_def pop_frame_at_def dest: pop_ready_ok)
  next
    case (item f b s)
    have "rcv_ok c (deliver now f (s\<lparr>jb := b\<rparr>))"
    proof -
      obtain out where "vj_ok (jitter_buffer_config c) (Some (jb s, out))" "length out = r_frames_emitted (r_stats s)"
        using item(5) by (auto simp: rcv_ok_def)
      then have "vj_ok (jitter_buffer_config c) (Some (b, out @ [f]))" "length (out @ [f]) = r_frames_emitted (r_stats s) + 1"
        using item(2) pop_ready_ok [of _ "jb s" out fl now "Some f" b] by (simp_all add: pop_frame_at_def)
      then show ?thesis using item(5) unfolding rcv_ok_def by auto
    qed
    from item(4) [OF _ this] show ?case using item(2) by (subst drain_frames.simps) simp
  qed
qed

lemma jb_insert_ok:
  assumes "rcv_ok c s"
  shows "\<exists>s'. jb_insert fl pkt s = Some s' \<and> rcv_ok c s'"
proof -
  obtain out where o: "vj_ok (jitter_buffer_config c) (Some (jb s, out))" "length out = r_frames_emitted (r_stats s)"
    using assms by (auto simp: rcv_ok_def)
  from vjb_insert_ok [OF o(1)] obtain ok b where b: "vjb_insert fl pkt (jb s) = Some (ok, b)" "vj_ok (jitter_buffer_config c) (Some (b, out))"
    by blast
  then have "jb_insert fl pkt s = Some (s\<lparr>jb := b\<rparr>)" "rcv_ok c (s\<lparr>jb := b\<rparr>)"
    using assms o by (auto simp: jb_insert_def rcv_ok_def)
  then show ?thesis by blast
qed

lemma flush_fua_ok: "rcv_ok c s \<Longrightarrow> \<exists>s'. flush_fua fl nri t body marker now s = Some s' \<and> rcv_ok c s'"
  using jb_insert_ok [of c s fl] by (auto simp: flush_fua_def Let_def)

lemma track_seq_ok: "rcv_ok c s \<Longrightarrow> rcv_ok c (track_seq sq s)"
  by (auto simp: rcv_ok_def track_seq_def report_missing_def call_feedback_cb_def Let_def)

lemma start_fua_ok: "rcv_ok c s \<Longrightarrow> rcv_ok c (start_fua h marker ts s)"
  by (simp add: start_fua_def rcv_ok_def Let_def)

lemma append_fua_ok:
  assumes "rcv_ok c s"
  shows "\<exists>s'. append_fua fl h marker now s = Some s' \<and> rcv_ok c s'"
proof -
  define s1 where "s1 = s\<lparr>fua_buf := fua_buf s @ fu_fragment h\<rparr>"
  have "rcv_ok c s1" if "fua_in_progress s" using assms that by (simp add: s1_def rcv_ok_def)
  moreover have "rcv_ok c (s'\<lparr>fua_in_progress := False, fua_buf := [], fua_end_marker := False\<rparr>)" if "rcv_ok c s'" for s'
    using that by (simp add: rcv_ok_def)
  ultimately show ?thesis
    using assms flush_fua_ok [of c s1 fl "fua_nri s1" "fua_nalu_type s1" "fua_buf s1" marker now]
    unfolding append_fua_def Let_def s1_def [symmetric] by auto
qed

lemma handle_fu_a_ok: "rcv_ok c s \<Longrightarrow> \<exists>s'. handle_fu_a fl payload marker ts now s = Some s' \<and> rcv_ok c s'"
  using append_fua_ok [OF start_fua_ok] by (auto simp: handle_fu_a_def parse_fu_a_header_eq split: option.split)

lemma handle_stap_a_ok:
  assumes "rcv_ok c s"
  shows "\<exists>s'. handle_stap_a fl payload marker ts now s = Some s' \<and> rcv_ok c s'"
proof -
  define s1 where "s1 = s\<lparr>r_stats := (r_stats s)\<lparr>stap_a_packets_seen := stap_a_packets_seen (r_stats s) + 1\<rparr>\<rparr>"
  have ok: "rcv_ok c s1" using assms by (simp add: s1_def rcv_ok_def)
  obtain ns where "stap_a_loop payload (Suc 0) [] = Some ns" using stap_a_loop_safe [of payload 1 "[]"] by auto
  then have "\<exists>r. parse_stap_a payload = Some r" by (cases payload) (simp_all add: parse_stap_a_def wire_simps)
  then show ?thesis using ok jb_insert_ok [OF ok, of fl] unfolding handle_stap_a_def Let_def s1_def [symmetric] by auto
qed

lemma handle_payload_ok:
  assumes "rcv_ok c s"
  shows "\<exists>s'. handle_payload fl payload marker ts now s = Some s' \<and> rcv_ok c s'"
proof -
  obtain nt where "peek_nalu_type payload = Some nt" by (cases payload) (auto simp: peek_nalu_type_def wire_simps)
  then show ?thesis
    using handle_fu_a_ok [OF assms] handle_stap_a_ok [OF assms] jb_insert_ok [OF assms] unfolding handle_payload_def by auto
qed

lemma push_rtp_ok:
  assumes "rcv_ok c s"
  shows "\<exists>ok s'. push_rtp fl pkt now s = Some (ok, s') \<and> rcv_ok c s'"
proof -
  define s1 where "s1 = s\<lparr>r_stats := (r_stats s)\<lparr>packets_pushed := packets_pushed (r_stats s) + 1\<rparr>\<rparr>"
  have ok: "rcv_ok c s1" using assms by (simp add: s1_def rcv_ok_def)
  obtain s2 where s2: "handle_payload fl (pv_payload pkt) (pv_marker pkt) (pv_timestamp pkt) now (track_seq (pv_seq pkt) s1) = Some s2" "rcv_ok c s2"
    using handle_payload_ok [OF track_seq_ok [OF ok]] by blast
  from drain_frames_returns [OF s2(2)] obtain s3 where "drain_frames fl now s2 = Some s3" "rcv_ok c s3" by blast
  then show ?thesis using ok s2(1) unfolding push_rtp_def Let_def s1_def [symmetric] by auto
qed

lemma receiver_tick_ok:
  assumes "rcv_ok c s"
  shows "\<exists>s'. receiver_tick fl now s = Some s' \<and> rcv_ok c s'"
proof -
  have "rcv_ok c (s\<lparr>jb := vjb_tick now (jb s)\<rparr>)" using assms vjb_tick_ok by (fastforce simp: rcv_ok_def)
  from drain_frames_returns [OF this] show ?thesis by (simp add: receiver_tick_def)
qed

lemma receiver_pop_nacks_ok: "rcv_ok c s \<Longrightarrow> rcv_ok c (snd (receiver_pop_nacks s))"
  using pop_nack_entries_ok by (fastforce simp: rcv_ok_def receiver_pop_nacks_def split: prod.splits)

lemma receiver_reset_ok: "rcv_ok c s \<Longrightarrow> rcv_ok c (receiver_reset s)"
  using vjb_reset_ok by (fastforce simp: rcv_ok_def receiver_reset_def no_receiver_stats_def)

datatype receiver_op = RPush packet_view int | RNacks | RTick int | RReset | RFrameCb bool | RFeedbackCb bool

definition receiver_step :: "(rat \<Rightarrow> rat) \<Rightarrow> receiver_op \<Rightarrow> video_receiver option \<Rightarrow> video_receiver option" where
  "receiver_step fl op r = (case r of None \<Rightarrow> None | Some s \<Rightarrow>
     (case op of
        RPush pkt now \<Rightarrow> map_option snd (push_rtp fl pkt now s)
      | RNacks \<Rightarrow> Some (snd (receiver_pop_nacks s))
      | RTick now \<Rightarrow> receiver_tick fl now s
      | RReset \<Rightarrow> Some (receiver_reset s)
      | RFrameCb cb \<Rightarrow> Some (set_frame_callback cb s)
      | RFeedbackCb cb \<Rightarrow> Some (set_feedback_callback cb s)))"

definition rcv_run_ok :: "receiver_config \<Rightarrow> video_receiver option \<Rightarrow> bool" where
  "rcv_run_ok c r = (case r of None \<Rightarrow> False | Some s \<Rightarrow> rcv_ok c s)"

lemma receiver_init_ok: "rcv_ok c (new_video_receiver c)"
  using vj_init_ok [of "jitter_buffer_config c"] by (auto simp: rcv_ok_def new_video_receiver_def no_receiver_stats_def)

lemma receiver_step_ok: "rcv_run_ok c r \<Longrightarrow> rcv_run_ok c (receiver_step fl op r)"
proof -
  assume "rcv_run_ok c r"
  then obtain s where r: "r = Some s" and ok: "rcv_ok c s" by (auto simp: rcv_run_ok_def split: option.splits)
  show ?thesis
  proof (cases op)
    case (RPush pkt now)
    then show ?thesis using push_rtp_ok [OF ok, of fl pkt now] by (auto simp: r receiver_step_def rcv_run_ok_def)
  next
    case (RTick now)
    then show ?thesis using receiver_tick_ok [OF ok, of fl now] by (auto simp: r receiver_step_def rcv_run_ok_def)
  qed (use receiver_pop_nacks_ok [OF ok] receiver_reset_ok [OF ok] ok in
      \<open>simp_all add: r receiver_step_def rcv_run_ok_def set_frame_callback_def set_feedback_callback_def rcv_ok_def\<close>)
qed

interpretation vrecv: component "Some (new_video_receiver c)" "receiver_step fl" "rcv_run_ok c"
  by unfold_locales (simp add: rcv_run_ok_def receiver_init_ok, rule receiver_step_ok)

section \<open>Which packets are reported lost\<close>

text \<open>The part of the state that \<^verbatim>\<open>track_seq\<close> is about, with the losses reported so far.\<close>

definition reported_lost :: "video_receiver \<Rightarrow> u16 list" where
  "reported_lost s = concat (map missing_packets (reported s))"

definition tracking :: "video_receiver \<Rightarrow> bool \<times> u16 \<times> u16 \<times> u16 list \<times> bool \<times> u16 list" where
  "tracking s = (seq_initialised s, highest_seq s, expected_next s, pending_nacks s, has_feedback_cb s, reported_lost s)"

lemma jb_insert_tracking: "jb_insert fl pkt s = Some s' \<Longrightarrow> tracking s' = tracking s"
  by (auto simp: jb_insert_def tracking_def reported_lost_def)

lemma handle_payload_tracking:
  assumes "handle_payload fl payload marker ts now s = Some s'"
  shows "tracking s' = tracking s"
proof -
  have flush: "flush_fua fl nri t body m now s1 = Some s2 \<Longrightarrow> tracking s2 = tracking s1" for nri t body m s1 s2
    by (auto simp: flush_fua_def Let_def jb_insert_tracking split: if_splits)
  have append: "append_fua fl h m now s1 = Some s2 \<Longrightarrow> tracking s2 = tracking s1" for h m s1 s2
    by (auto simp: append_fua_def Let_def split: if_splits dest!: flush) (auto simp: tracking_def reported_lost_def)
  have start: "tracking (start_fua h m ts s1) = tracking s1" for h m s1
    by (simp add: start_fua_def tracking_def reported_lost_def Let_def)
  have stap: "handle_stap_a fl payload marker ts now s1 = Some s2 \<Longrightarrow> tracking s2 = tracking s1" for s1 s2
    by (auto simp: handle_stap_a_def Let_def split: bind_splits if_splits dest!: jb_insert_tracking) (auto simp: tracking_def reported_lost_def)
  show ?thesis using assms append start stap jb_insert_tracking
    by (auto simp: handle_payload_def handle_fu_a_def split: bind_splits if_splits option.splits)
qed

lemma deliver_tracking: "tracking (deliver now f s) = tracking s"
  by (simp add: tracking_def reported_lost_def deliver_def request_keyframe_def call_feedback_cb_def Let_def)

lemma drain_frames_tracking:
  assumes "drain_frames fl now s = Some s'"
  shows "tracking s' = tracking s"
proof (rule drain_frames.raw_induct [OF _ assms, of "\<lambda>fl now s s'. tracking s' = tracking s"])
  fix again fl now s s'
  assume "\<And>fl now s s'. again fl now s = Some s' \<Longrightarrow> tracking s' = tracking s"
    and "(case pop_frame_at fl now (jb s) of (None, b) \<Rightarrow> Some (s\<lparr>jb := b\<rparr>)
      | (Some f, b) \<Rightarrow> again fl now (deliver now f (s\<lparr>jb := b\<rparr>))) = Some s'"
  then show "tracking s' = tracking s"
    by (auto split: prod.splits option.splits simp: deliver_tracking) (auto simp: tracking_def reported_lost_def)
qed

text \<open>
  Numbers as naturals, before they are cut to 16 bits. \<open>skipped\<close> lists what is passed over when a new highest
  number arrives; \<open>near\<close> says that each arrival is within half the number range of the highest so far.
\<close>

fun skipped :: "nat \<Rightarrow> nat list \<Rightarrow> nat list" where
  "skipped m [] = []"
| "skipped m (x # xs) = (if m < x then [m + 1..<x] @ skipped x xs else skipped m xs)"

fun near :: "nat \<Rightarrow> nat list \<Rightarrow> bool" where
  "near m [] \<longleftrightarrow> True"
| "near m (x # xs) \<longleftrightarrow> x \<le> m + 32767 \<and> m \<le> x + 32768 \<and> near (max m x) xs"

lemma skipped_later: "n \<in> set (skipped m xs) \<longleftrightarrow> m < n \<and> (\<exists>ys y zs. xs = ys @ y # zs \<and> n < y \<and> n \<notin> set ys)"
proof (induction m xs rule: skipped.induct)
  case (2 m x xs)
  have split: "(\<exists>ys y zs. x # xs = ys @ y # zs \<and> n < y \<and> n \<notin> set ys)
      \<longleftrightarrow> n < x \<or> n \<noteq> x \<and> (\<exists>ys y zs. xs = ys @ y # zs \<and> n < y \<and> n \<notin> set ys)"
    by (auto simp: Cons_eq_append_conv) (metis append_Cons append_Nil empty_iff list.set(1) set_ConsD)+
  show ?case
  proof (cases "m < x")
    case True
    then show ?thesis using 2(1) [OF True] split by auto
  next
    case False
    then show ?thesis using 2(2) [OF False] split by auto
  qed
qed simp

lemma skipped_bounds: "n \<in> set (skipped m xs) \<Longrightarrow> m < n"
  by (simp add: skipped_later)

lemma skipped_distinct: "distinct (skipped m xs)"
  by (induction m xs rule: skipped.induct) (auto dest: skipped_bounds)

lemma receiver_seq_delta_near:
  assumes "x \<le> m + 32767" "m \<le> x + 32768"
  shows "receiver_seq_delta (of_nat x) (of_nat m) = int x - int m"
proof -
  define a b k where "a = int x mod 65536" and "b = int m mod 65536" and "k = int x div 65536 - int m div 65536"
  have u: "uint (of_nat x :: u16) = a" "uint (of_nat m :: u16) = b"
    by (simp_all add: a_def b_def unsigned_of_nat take_bit_eq_mod zmod_int)
  have ab: "0 \<le> a" "a < 65536" "0 \<le> b" "b < 65536" by (simp_all add: a_def b_def)
  have d: "int x - int m = 65536 * k + (a - b)" by (simp add: a_def b_def k_def algebra_simps)
  then have "65536 * k < 65536 * 2" "65536 * (-2) < 65536 * k" using ab assms by linarith+
  then have "k = -1 \<or> k = 0 \<or> k = 1" by auto
  then show ?thesis using d ab assms by (auto simp: receiver_seq_delta_def u Let_def)
qed

lemma track_first:
  "\<not> seq_initialised s \<Longrightarrow>
     tracking (track_seq (of_nat x) s) = (True, of_nat x, of_nat (x + 1), pending_nacks s, has_feedback_cb s, reported_lost s)"
  by (simp add: track_seq_def tracking_def reported_lost_def add.commute)

lemma track_next:
  assumes "tracking s = (True, of_nat m, of_nat (m + 1), ns, True, rs)" "x \<le> m + 32767" "m \<le> x + 32768"
  defines "lost \<equiv> if m < x then map of_nat [m + 1..<x] else []"
  shows "tracking (track_seq (of_nat x) s) = (True, of_nat (max m x), of_nat (max m x + 1), ns @ lost, True, rs @ lost)"
proof -
  note d = receiver_seq_delta_near [OF assms(2,3)]
  have t: "seq_initialised s" "highest_seq s = of_nat m" "expected_next s = of_nat (m + 1)" "pending_nacks s = ns"
    "has_feedback_cb s" "reported_lost s = rs"
    using assms(1) by (simp_all add: tracking_def)
  show ?thesis
  proof (cases "m < x")
    case False
    then show ?thesis using assms(1) by (simp add: track_seq_def Let_def t d max_def lost_def)
  next
    case True
    have "map (\<lambda>k. of_nat (m + 1) + of_nat k) [0..<nat (int x - int m - 1)] = lost"
    proof (rule nth_equalityI)
      fix i assume "i < length (map (\<lambda>k. of_nat (m + 1) + of_nat k :: u16) [0..<nat (int x - int m - 1)])"
      then show "map (\<lambda>k. of_nat (m + 1) + of_nat k) [0..<nat (int x - int m - 1)] ! i = lost ! i"
        using True by (simp add: add_ac lost_def)
    qed (use True in \<open>auto simp: lost_def\<close>)
    moreover have "\<not> int x - int m > 1 \<Longrightarrow> lost = []" using True by (simp add: lost_def)
    ultimately show ?thesis using True t(6)
      by (auto simp: track_seq_def Let_def t d tracking_def reported_lost_def report_missing_def call_feedback_cb_def max_def add.commute)
  qed
qed

lemma push_rtp_tracking:
  assumes "rcv_ok c s" "pv_payload pkt \<noteq> [] \<or> pv_marker pkt"
  shows "\<exists>s'. push_rtp fl pkt now s = Some (True, s') \<and> rcv_ok c s' \<and> tracking s' = tracking (track_seq (pv_seq pkt) s)"
proof -
  define s1 where "s1 = s\<lparr>r_stats := (r_stats s)\<lparr>packets_pushed := packets_pushed (r_stats s) + 1\<rparr>\<rparr>"
  have ok: "rcv_ok c s1" using assms(1) by (simp add: s1_def rcv_ok_def)
  obtain s2 where s2: "handle_payload fl (pv_payload pkt) (pv_marker pkt) (pv_timestamp pkt) now (track_seq (pv_seq pkt) s1) = Some s2" "rcv_ok c s2"
    using handle_payload_ok [OF track_seq_ok [OF ok]] by blast
  obtain s3 where s3: "drain_frames fl now s2 = Some s3" "rcv_ok c s3" using drain_frames_returns [OF s2(2)] by blast
  have "tracking s3 = tracking (track_seq (pv_seq pkt) s1)"
    using drain_frames_tracking [OF s3(1)] handle_payload_tracking [OF s2(1)] by simp
  also have "\<dots> = tracking (track_seq (pv_seq pkt) s)"
    by (simp add: s1_def track_seq_def tracking_def reported_lost_def report_missing_def call_feedback_cb_def Let_def)
  finally show ?thesis using assms(2) s2(1) s3 unfolding push_rtp_def Let_def s1_def [symmetric] by auto
qed

definition push_all :: "(rat \<Rightarrow> rat) \<Rightarrow> (packet_view \<times> int) list \<Rightarrow> video_receiver \<Rightarrow> video_receiver option" where
  "push_all fl pkts s = fold (receiver_step fl) (map (\<lambda>(pkt, now). RPush pkt now) pkts) (Some s)"

lemma push_all_simps:
  "push_all fl [] s = Some s"
  "push_rtp fl pkt now s = Some (ok, s') \<Longrightarrow> push_all fl ((pkt, now) # pkts) s = push_all fl pkts s'"
  by (simp_all add: push_all_def receiver_step_def)

lemma push_all_tracking:
  assumes "rcv_ok c s" "\<forall>p \<in> set pkts. pv_payload (fst p) \<noteq> [] \<or> pv_marker (fst p)"
    and "map (pv_seq \<circ> fst) pkts = map of_nat xs" "near m xs" "tracking s = (True, of_nat m, of_nat (m + 1), ns, True, rs)"
  shows "\<exists>s'. push_all fl pkts s = Some s' \<and> rcv_ok c s' \<and> pending_nacks s' = ns @ map of_nat (skipped m xs)
    \<and> reported_lost s' = rs @ map of_nat (skipped m xs)"
  using assms
proof (induction pkts arbitrary: s m xs ns rs)
  case Nil
  then show ?case by (simp add: push_all_simps tracking_def)
next
  case (Cons p pkts)
  obtain pkt now where p: "p = (pkt, now)" by (cases p)
  obtain x ys where xs: "xs = x # ys" "pv_seq pkt = of_nat x" "map (pv_seq \<circ> fst) pkts = map of_nat ys"
    using Cons.prems(3) p by (cases xs) (auto simp: comp_def)
  obtain s1 where s1: "push_rtp fl pkt now s = Some (True, s1)" "rcv_ok c s1" "tracking s1 = tracking (track_seq (of_nat x) s)"
    using push_rtp_tracking [OF Cons.prems(1), of pkt fl now] Cons.prems(2) p xs(2) by auto
  have n: "x \<le> m + 32767" "m \<le> x + 32768" "near (max m x) ys" using Cons.prems(4) xs(1) by auto
  note t = s1(3) [unfolded track_next [OF Cons.prems(5) n(1,2)]]
  from Cons.IH [OF s1(2) _ xs(3) n(3) t] Cons.prems(2)
  obtain s' where s': "push_all fl pkts s1 = Some s'" "rcv_ok c s'"
    "pending_nacks s' = (ns @ (if m < x then map of_nat [m + 1..<x] else [])) @ map of_nat (skipped (max m x) ys)"
    "reported_lost s' = (rs @ (if m < x then map of_nat [m + 1..<x] else [])) @ map of_nat (skipped (max m x) ys)" by auto
  then show ?case by (auto simp: p push_all_simps(2) [OF s1(1)] xs(1) max_def)
qed

section \<open>Receiving a NAL unit\<close>

text \<open>A jitter buffer in fixed-window mode with nothing to hand out; \<open>keys\<close> are the timestamps it remembers.\<close>

definition quiet :: "u32 set \<Rightarrow> video_jitter_buffer \<Rightarrow> bool" where
  "quiet keys b \<longleftrightarrow> pending_incomplete b = [] \<and> \<not> vj_adaptive (vj_cfg b) \<and> ordered (buckets b) \<and> fst ` set (buckets b) = keys
     \<and> (\<forall>(ts, x) \<in> set (buckets b). emitted x)"

lemma quiet_pending: "quiet keys b \<Longrightarrow> pending (buckets b) = 0"
  by (auto simp: quiet_def pending_def filter_empty_conv)

lemma quiet_find_victim: "quiet keys b \<Longrightarrow> find_victim (buckets b) = None"
  by (auto simp: quiet_def find_victim_def find_None_iff split: option.splits dest!: find_Some_set)

lemma quiet_pop: "quiet keys b \<Longrightarrow> pop_frame_at fl now b = (None, b)"
  by (auto simp: quiet_def pop_frame_at_def pop_ready_def ready_bucket_def find_None_iff split: option.split dest!: find_Some_set)

lemma find_upsert:
  assumes "ordered m" "map_of m k = None" "\<forall>(k', v) \<in> set m. \<not> P (k', v)" "P (k, v)"
  shows "find P (upsert k v (\<lambda>_. v) m) = Some (k, v)"
proof -
  have "find P (upsert k v (\<lambda>_. v) m) \<noteq> None" using assms(4) by (auto simp: find_None_iff set_upsert [OF assms(1)])
  then obtain x where x: "find P (upsert k v (\<lambda>_. v) m) = Some x" by auto
  then show ?thesis using find_Some_set [OF x] assms(3) by (auto simp: set_upsert [OF assms(1)])
qed

lemma upsert_upsert: "upsert k v (\<lambda>_. v) (upsert k d f m) = upsert k v (\<lambda>_. v) m"
  by (induction k d f m rule: upsert.induct) auto

lemma quiet_insert:
  assumes "quiet keys b" "in_timestamp pkt \<notin> keys" "in_payload pkt \<noteq> []" "store_packet pkt (new_bucket pkt) = Some x"
  shows "\<exists>b'. vjb_insert fl pkt b = Some (True, b') \<and> pending_incomplete b' = [] \<and> \<not> vj_adaptive (vj_cfg b')
    \<and> buckets b' = upsert (in_timestamp pkt) x (\<lambda>_. x) (buckets b)"
proof -
  define b0 where "b0 = b\<lparr>vj_counts := (vj_counts b)\<lparr>packets_inserted := packets_inserted (vj_counts b) + 1\<rparr>\<rparr>"
  have q: "quiet keys b0" using assms(1) by (simp add: quiet_def b0_def)
  have new: "map_of (buckets b0) (in_timestamp pkt) = None" using assms(1,2) by (auto simp: quiet_def b0_def map_of_eq_None_iff)
  have "enforce_inflight_cap 1 b0 = b0"
    unfolding enforce_inflight_cap_def by (subst evict_to_cap.simps) (simp add: quiet_find_victim [OF q])
  then have f: "find_or_create_bucket fl pkt b0 = observe_frame fl pkt (b0\<lparr>buckets := upsert (in_timestamp pkt) (new_bucket pkt) (\<lambda>b. b) (buckets b0)\<rparr>)"
    using new by (simp add: find_or_create_bucket_def)
  have "map_of (upsert (in_timestamp pkt) (new_bucket pkt) (\<lambda>b. b) (buckets b0)) (in_timestamp pkt) = Some (new_bucket pkt)"
    using q new by (simp add: map_of_upsert quiet_def)
  then show ?thesis using assms(3,4) q
    unfolding vjb_insert_def Let_def b0_def [symmetric] f
    by (auto simp: observe_frame_keeps quiet_def b0_def upsert_upsert)
qed

text \<open>A complete frame in a quiet buffer is handed out at once, and the buffer is quiet again.\<close>

definition whole_packet :: "inbound_packet \<Rightarrow> bool" where
  "whole_packet pkt \<longleftrightarrow> in_marker pkt \<and> in_payload pkt \<noteq> [] \<and> \<not> (in_codec pkt = CodecH264 \<and> is_fu_a (in_payload pkt))"

definition frame_of :: "inbound_packet \<Rightarrow> assembled_frame \<Rightarrow> bool" where
  "frame_of pkt f \<longleftrightarrow> af_bitstream f = in_payload pkt \<and> af_complete f \<and> af_timestamp f = in_timestamp pkt \<and> af_codec f = in_codec pkt
     \<and> is_keyframe f = is_keyframe_payload (in_codec pkt) (in_payload pkt)"

lemma quiet_whole_packet:
  assumes "quiet keys b" "in_timestamp pkt \<notin> keys" "whole_packet pkt"
  shows "\<exists>b1 f b2. vjb_insert fl pkt b = Some (True, b1) \<and> pop_frame_at fl now b1 = (Some f, b2) \<and> frame_of pkt f
    \<and> quiet (insert (in_timestamp pkt) keys) b2"
proof -
  define ts where "ts = in_timestamp pkt"
  define x where "x = (new_bucket pkt)\<lparr>received_seqs := [in_seq pkt], fb_last_seq := in_seq pkt, last_arrival_us := arrival_us pkt,
     marker_seen := True, bitstream := in_payload pkt\<rparr>"
  have "store_packet pkt (new_bucket pkt) = Some x"
    using assms(3) by (auto simp: store_packet_def whole_packet_def x_def new_bucket_def Let_def)
  then obtain b1 where b1: "vjb_insert fl pkt b = Some (True, b1)" "pending_incomplete b1 = []" "\<not> vj_adaptive (vj_cfg b1)"
    "buckets b1 = upsert ts x (\<lambda>_. x) (buckets b)"
    using quiet_insert [OF assms(1,2)] assms(3) by (auto simp: whole_packet_def ts_def)
  have new: "map_of (buckets b) ts = None" using assms(1,2) by (auto simp: quiet_def map_of_eq_None_iff ts_def)
  have o: "ordered (buckets b)" "fst ` set (buckets b) = keys" "\<forall>(ts, x) \<in> set (buckets b). emitted x"
    using assms(1) by (auto simp: quiet_def)
  have x: "\<not> emitted x" "frame_complete x" by (simp_all add: x_def new_bucket_def frame_complete_def)
  have "find (\<lambda>(ts, b). \<not> emitted b \<and> frame_complete b) (buckets b1) = Some (ts, x)"
    unfolding b1(4) using o new x by (intro find_upsert) auto
  then have r: "ready_bucket fl now b1 = Some (ts, x)" using b1(3) by (simp add: ready_bucket_def)
  obtain f b2 where e: "emit_bucket ts x b1 = (f, b2)" by (cases "emit_bucket ts x b1")
  define y where "y = x\<lparr>emitted := True, bitstream := []\<rparr>"
  have f: "frame_of pkt f" using e by (auto simp: emit_bucket_def make_assembled_def Let_def frame_of_def x_def new_bucket_def)
  have b2: "buckets b2 = upsert ts y (\<lambda>_. y) (buckets b)" "pending_incomplete b2 = []" "\<not> vj_adaptive (vj_cfg b2)"
    using e b1(2-4) by (auto simp: emit_bucket_def make_assembled_def Let_def upsert_upsert y_def)
  have "quiet (insert ts keys) b2"
    unfolding quiet_def b2(1) using b2(2,3) o ordered_upsert [OF o(1)]
    by (auto simp: keys_upsert set_upsert y_def)
  then show ?thesis using b1(1,2) r e f by (auto simp: pop_frame_at_def pop_ready_def ts_def)
qed

text \<open>An H.264 receiver between frames, with its callback registered.\<close>

definition between_frames :: "u32 set \<Rightarrow> video_receiver \<Rightarrow> bool" where
  "between_frames keys s \<longleftrightarrow> quiet keys (jb s) \<and> r_codec (r_cfg s) = CodecH264 \<and> expect_fu_a (r_cfg s) \<and> has_frame_cb s"

definition deliveries :: "video_receiver \<Rightarrow> (bytes \<times> u32) list" where
  "deliveries s = map (\<lambda>(f, now). (ef_payload f, ef_rtp_timestamp f)) (delivered s)"

lemma drain_quiet: "quiet keys (jb s) \<Longrightarrow> drain_frames fl now s = Some s"
  by (subst drain_frames.simps) (simp add: quiet_pop)

lemma drain_one:
  assumes "pop_frame_at fl now (jb s) = (Some f, b)" "quiet keys b"
  shows "drain_frames fl now s = Some (deliver now f (s\<lparr>jb := b\<rparr>))"
  using assms by (subst drain_frames.simps) (simp add: drain_quiet)

lemma deliver_frame:
  assumes "has_frame_cb s" "frame_of pkt f"
  shows "deliveries (deliver now f s) = deliveries s @ [(in_payload pkt, in_timestamp pkt)]"
  using assms by (simp add: deliver_def deliveries_def frame_of_def Let_def)

text \<open>Inserting a whole frame and draining afterwards, whatever changes in between outside the jitter buffer.\<close>

lemma insert_then_drain:
  assumes "between_frames keys s" "in_timestamp pkt \<notin> keys" "whole_packet pkt"
  shows "\<exists>b. jb_insert fl pkt s = Some (s\<lparr>jb := b\<rparr>) \<and>
    (\<forall>s'. jb s' = b \<longrightarrow> r_cfg s' = r_cfg s \<longrightarrow> has_frame_cb s' \<longrightarrow>
      (\<exists>s2. drain_frames fl now s' = Some s2 \<and> between_frames (insert (in_timestamp pkt) keys) s2
         \<and> deliveries s2 = deliveries s' @ [(in_payload pkt, in_timestamp pkt)]))"
proof -
  have q: "quiet keys (jb s)" using assms(1) by (simp add: between_frames_def)
  obtain b1 f b2 where b: "vjb_insert fl pkt (jb s) = Some (True, b1)" "pop_frame_at fl now b1 = (Some f, b2)" "frame_of pkt f"
    "quiet (insert (in_timestamp pkt) keys) b2"
    using quiet_whole_packet [OF q assms(2,3), of fl now] by auto
  have "between_frames (insert (in_timestamp pkt) keys) (deliver now f (s'\<lparr>jb := b2\<rparr>))" if "r_cfg s' = r_cfg s" "has_frame_cb s'" for s'
    using that b(4) assms(1) by (simp add: between_frames_def)
  moreover have "deliveries (deliver now f (s'\<lparr>jb := b2\<rparr>)) = deliveries s' @ [(in_payload pkt, in_timestamp pkt)]" if "has_frame_cb s'" for s'
    using deliver_frame [of "s'\<lparr>jb := b2\<rparr>", OF _ b(3)] that by (simp add: deliveries_def)
  ultimately show ?thesis using b(1,2) drain_one [OF _ b(4), of fl now]
    by (intro exI [of _ b1]) (auto simp: jb_insert_def)
qed

text \<open>The state while the fragments of a NAL unit with header \<open>h\<close> arrive.\<close>

definition collecting :: "u8 \<Rightarrow> u32 \<Rightarrow> bytes \<Rightarrow> video_receiver \<Rightarrow> bool" where
  "collecting h ts buf s \<longleftrightarrow> fua_in_progress s \<and> fua_nalu_type s = h AND 0x1F \<and> fua_nri s = drop_bit 5 (h AND 0x60) \<and> fua_rtp_ts s = ts
     \<and> fua_buf s = buf"

text \<open>\<^verbatim>\<open>push_rtp\<close> up to the payload.\<close>

definition tracked :: "u16 \<Rightarrow> video_receiver \<Rightarrow> video_receiver" where
  "tracked sq s = track_seq sq (s\<lparr>r_stats := (r_stats s)\<lparr>packets_pushed := packets_pushed (r_stats s) + 1\<rparr>\<rparr>)"

lemma tracked_keeps:
  "between_frames keys (tracked sq s) = between_frames keys s" "collecting h ts buf (tracked sq s) = collecting h ts buf s"
  "deliveries (tracked sq s) = deliveries s" "r_cfg (tracked sq s) = r_cfg s" "jb (tracked sq s) = jb s"
  by (simp_all add: tracked_def track_seq_def report_missing_def call_feedback_cb_def between_frames_def collecting_def deliveries_def Let_def)

lemma push_rtp_eq:
  "pv_payload v \<noteq> [] \<Longrightarrow> push_rtp fl v now s = do {
     s1 \<leftarrow> handle_payload fl (pv_payload v) (pv_marker v) (pv_timestamp v) now (tracked (pv_seq v) s);
     s2 \<leftarrow> drain_frames fl now s1;
     Some (True, s2) }"
  by (simp add: push_rtp_def tracked_def Let_def)

lemma push_single:
  assumes "between_frames keys s" "pv_payload v = n" "pv_marker v" "pv_timestamp v = ts" "ts \<notin> keys"
    and "n \<noteq> []" "hd n AND 0x1F \<noteq> 28" "hd n AND 0x1F \<noteq> 24"
  shows "\<exists>s'. push_rtp fl v now s = Some (True, s') \<and> between_frames (insert ts keys) s' \<and> deliveries s' = deliveries s @ [(n, ts)]"
proof -
  define s0 where "s0 = tracked (pv_seq v) s"
  have s0: "between_frames keys s0" "deliveries s0 = deliveries s" using assms(1) by (simp_all add: s0_def tracked_keeps)
  then have cfg: "r_codec (r_cfg s0) = CodecH264" "has_frame_cb s0" by (simp_all add: between_frames_def)
  define pkt where "pkt = inbound s0 CodecH264 n True ts now"
  have p: "whole_packet pkt" "in_timestamp pkt = ts" "in_payload pkt = n"
    using assms(6,7) by (cases n; auto simp: whole_packet_def pkt_def inbound_def is_fu_a_def)+
  obtain b where b: "jb_insert fl pkt s0 = Some (s0\<lparr>jb := b\<rparr>)"
    and d: "\<forall>s'. jb s' = b \<longrightarrow> r_cfg s' = r_cfg s0 \<longrightarrow> has_frame_cb s' \<longrightarrow>
      (\<exists>s2. drain_frames fl now s' = Some s2 \<and> between_frames (insert ts keys) s2 \<and> deliveries s2 = deliveries s' @ [(n, ts)])"
    using insert_then_drain [OF s0(1) _ p(1), of fl now, unfolded p(2,3)] assms(5) by blast
  have "deliveries (s0\<lparr>jb := b\<rparr>) = deliveries s0" by (simp add: deliveries_def)
  then have d0: "\<exists>s2. drain_frames fl now (s0\<lparr>jb := b\<rparr>) = Some s2 \<and> between_frames (insert ts keys) s2 \<and> deliveries s2 = deliveries s0 @ [(n, ts)]"
    using d [rule_format, of "s0\<lparr>jb := b\<rparr>"] cfg(2) by simp
  have "handle_payload fl n True ts now s0 = Some (s0\<lparr>jb := b\<rparr>)"
    using assms(6-8) b cfg by (cases n) (simp_all add: handle_payload_def peek_nalu_type_def wire_simps h264_consts pkt_def)
  then show ?thesis using d0 assms(2-4,6) s0(2) by (auto simp: push_rtp_eq s0_def [symmetric])
qed

lemma fragment_parse:
  "parse_fu_a_header (fragment_bytes h c start fin)
     = Some (Some \<lparr>fu_indicator = (h AND 0x60) OR 28, fu_header = fu_a_byte1 h start fin, fu_fragment = c\<rparr>)"
  "peek_nalu_type (fragment_bytes h c start fin) = Some kFuAType" "fragment_bytes h c start fin \<noteq> []"
proof -
  have "((h AND 0x60) OR 28) AND 0x1F = (28 :: u8)" by (rule u8_eqI) (simp_all add: bit_simps)
  then show "parse_fu_a_header (fragment_bytes h c start fin)
     = Some (Some \<lparr>fu_indicator = (h AND 0x60) OR 28, fu_header = fu_a_byte1 h start fin, fu_fragment = c\<rparr>)"
    "peek_nalu_type (fragment_bytes h c start fin) = Some kFuAType" "fragment_bytes h c start fin \<noteq> []"
    by (simp_all add: fragment_bytes_def fu_a_payload_def parse_fu_a_header_def peek_nalu_type_def wire_simps h264_consts)
qed

lemma fragment_nri: "drop_bit 5 (((h AND 0x60) OR 28) AND 0x60) = drop_bit 5 (h AND (0x60 :: u8))"
  by (rule u8_eqI) (simp_all add: bit_simps)

lemma nal_header_again: "h AND 0x80 = 0 \<Longrightarrow> push_bit 5 (drop_bit 5 (h AND 0x60) AND 3) OR (h AND 0x1F AND 0x1F) = (h :: u8)"
  by (rule u8_eqI) (simp_all add: bit_simps flag_simps)

text \<open>A fragment that does not end the unit.\<close>

lemma push_fragment:
  assumes "between_frames keys s" "pv_payload v = fragment_bytes h c start False" "pv_timestamp v = ts"
    and "start \<and> buf = [] \<or> \<not> start \<and> collecting h ts buf s"
  shows "\<exists>s'. push_rtp fl v now s = Some (True, s') \<and> between_frames keys s' \<and> deliveries s' = deliveries s \<and> collecting h ts (buf @ c) s'"
proof -
  define s0 where "s0 = tracked (pv_seq v) s"
  define hd where "hd = \<lparr>fu_indicator = (h AND 0x60) OR 28, fu_header = fu_a_byte1 h start False, fu_fragment = c\<rparr>"
  define s1 where "s1 = start_fua hd (pv_marker v) ts s0"
  define s2 where "s2 = s1\<lparr>fua_buf := fua_buf s1 @ c\<rparr>"
  have s0: "between_frames keys s0" "deliveries s0 = deliveries s" "\<not> start \<Longrightarrow> collecting h ts buf s0"
    using assms(1,4) by (simp_all add: s0_def tracked_keeps)
  have s1: "collecting h ts buf s1" "between_frames keys s1" "deliveries s1 = deliveries s"
    using s0 assms(4) by (auto simp: s1_def start_fua_def hd_def fu_a_byte1_flags h264_consts fragment_nri collecting_def
        between_frames_def deliveries_def Let_def)
  have s2: "collecting h ts (buf @ c) s2" "between_frames keys s2" "deliveries s2 = deliveries s"
    using s1 by (simp_all add: s2_def collecting_def between_frames_def deliveries_def)
  have "append_fua fl hd (pv_marker v) now s1 = Some s2"
    using s1(1) by (simp add: append_fua_def collecting_def hd_def fu_a_byte1_flags s2_def)
  moreover have "r_codec (r_cfg s0) = CodecH264" "expect_fu_a (r_cfg s0)" using s0(1) by (simp_all add: between_frames_def)
  ultimately have "handle_payload fl (fragment_bytes h c start False) (pv_marker v) ts now s0 = Some s2"
    by (simp add: handle_payload_def fragment_parse handle_fu_a_def hd_def [symmetric] s1_def [symmetric])
  moreover have "drain_frames fl now s2 = Some s2" using s2(2) by (auto simp: between_frames_def intro: drain_quiet)
  ultimately show ?thesis using assms(2,3) s2 by (simp add: push_rtp_eq fragment_parse(3) s0_def [symmetric])
qed

text \<open>The last fragment.\<close>

lemma push_last_fragment:
  assumes "between_frames keys s" "pv_payload v = fragment_bytes h c False True" "pv_timestamp v = ts" "pv_marker v"
    and "collecting h ts buf s" "ts \<notin> keys" "buf @ c \<noteq> []" "h AND 0x80 = 0" "h AND 0x1F \<noteq> 28"
  shows "\<exists>s'. push_rtp fl v now s = Some (True, s') \<and> between_frames (insert ts keys) s' \<and> deliveries s' = deliveries s @ [(h # buf @ c, ts)]"
proof -
  define s0 where "s0 = tracked (pv_seq v) s"
  define hd where "hd = \<lparr>fu_indicator = (h AND 0x60) OR 28, fu_header = fu_a_byte1 h False True, fu_fragment = c\<rparr>"
  define s1 where "s1 = start_fua hd True ts s0"
  define s2 where "s2 = s1\<lparr>fua_buf := fua_buf s1 @ c\<rparr>"
  have s0: "between_frames keys s0" "deliveries s0 = deliveries s" "collecting h ts buf s0"
    using assms(1,5) by (simp_all add: s0_def tracked_keeps)
  have s2: "collecting h ts (buf @ c) s2" "between_frames keys s2" "deliveries s2 = deliveries s"
    using s0 by (auto simp: s2_def s1_def start_fua_def hd_def fu_a_byte1_flags collecting_def between_frames_def deliveries_def Let_def)
  have cfg: "r_codec (r_cfg s0) = CodecH264" "expect_fu_a (r_cfg s0)" "fua_in_progress s1"
    using s0(1) s2(1) by (simp_all add: between_frames_def collecting_def s2_def)
  define pkt where "pkt = \<lparr>in_ssrc = r_ssrc (r_cfg s2), in_seq = fua_start_seq s2, in_timestamp = ts, arrival_us = now, in_marker = True,
    in_payload_type = r_payload_type (r_cfg s2), in_codec = CodecH264, in_payload = h # buf @ c\<rparr>"
  have p: "whole_packet pkt" "in_timestamp pkt = ts" "in_payload pkt = h # buf @ c"
    using assms(9) by (simp_all add: whole_packet_def pkt_def is_fu_a_def)
  obtain b where b: "jb_insert fl pkt s2 = Some (s2\<lparr>jb := b\<rparr>)"
    and d: "\<forall>s'. jb s' = b \<longrightarrow> r_cfg s' = r_cfg s2 \<longrightarrow> has_frame_cb s' \<longrightarrow>
      (\<exists>s3. drain_frames fl now s' = Some s3 \<and> between_frames (insert ts keys) s3 \<and> deliveries s3 = deliveries s' @ [(h # buf @ c, ts)])"
    using insert_then_drain [OF s2(2) _ p(1), of fl now, unfolded p(2,3)] assms(6) by blast
  define s3 where "s3 = s2\<lparr>jb := b, fua_in_progress := False, fua_buf := [], fua_end_marker := False\<rparr>"
  have "flush_fua fl (fua_nri s2) (fua_nalu_type s2) (fua_buf s2) True now s2 = Some (s2\<lparr>jb := b\<rparr>)"
    using s2(1) assms(7) b nal_header_again [OF assms(8)] by (auto simp: flush_fua_def collecting_def h264_consts pkt_def Let_def)
  then have "append_fua fl hd True now s1 = Some s3"
    using cfg(3) by (simp add: append_fua_def hd_def fu_a_byte1_flags s2_def [symmetric, unfolded hd_def] s3_def)
  then have h: "handle_payload fl (fragment_bytes h c False True) True ts now s0 = Some s3"
    using cfg(1,2) by (simp add: handle_payload_def fragment_parse handle_fu_a_def hd_def [symmetric] s1_def [symmetric])
  have "jb s3 = b" "r_cfg s3 = r_cfg s2" "has_frame_cb s3" "deliveries s3 = deliveries s2"
    using s2(2) by (simp_all add: s3_def between_frames_def deliveries_def)
  with d [rule_format, of s3] s2(3) obtain s4 where "drain_frames fl now s3 = Some s4" "between_frames (insert ts keys) s4"
    "deliveries s4 = deliveries s @ [(h # buf @ c, ts)]" by auto
  then show ?thesis using assms(2-4) h by (simp add: push_rtp_eq fragment_parse(3) s0_def [symmetric])
qed

text \<open>Received views of the packets \<open>ps\<close>, with their arrival times.\<close>

definition views_of :: "u32 \<Rightarrow> (bytes \<times> bool) list \<Rightarrow> (packet_view \<times> int) list \<Rightarrow> bool" where
  "views_of ts ps vs \<longleftrightarrow> list_all2 (\<lambda>(payload, marker) (v, now). pv_payload v = payload \<and> pv_marker v = marker \<and> pv_timestamp v = ts) ps vs"

lemma views_of_Cons:
  "views_of ts ((payload, marker) # ps) vs \<longleftrightarrow>
     (\<exists>v now ws. vs = (v, now) # ws \<and> pv_payload v = payload \<and> pv_marker v = marker \<and> pv_timestamp v = ts \<and> views_of ts ps ws)"
  by (auto simp: views_of_def list_all2_Cons1)

lemma marked_simps: "marked [a] = [(a, True)]" "marked (a # b # ps) = (a, False) # marked (b # ps)"
  by (simp_all add: marked_def)

lemma wrap_chunks_Cons: "cs \<noteq> [] \<Longrightarrow> wrap_chunks h start (c # cs) = fragment_bytes h c start False # wrap_chunks h False cs"
  by (cases cs) simp_all

lemma marked_Cons: "ps \<noteq> [] \<Longrightarrow> marked (a # ps) = (a, False) # marked ps"
  by (cases ps) (simp_all add: marked_simps)

lemma push_chunks:
  assumes "between_frames keys s" "collecting h ts buf s" "views_of ts (marked (wrap_chunks h False cs)) vs" "cs \<noteq> []" "[] \<notin> set cs"
    and "ts \<notin> keys" "h AND 0x80 = 0" "h AND 0x1F \<noteq> 28"
  shows "\<exists>s'. push_all fl vs s = Some s' \<and> between_frames (insert ts keys) s' \<and> deliveries s' = deliveries s @ [(h # buf @ concat cs, ts)]"
  using assms(1-5)
proof (induction cs arbitrary: s buf vs)
  case (Cons c cs)
  show ?case
  proof (cases "cs = []")
    case True
    with Cons.prems(3) obtain v now where v: "vs = [(v, now)]" "pv_payload v = fragment_bytes h c False True" "pv_marker v" "pv_timestamp v = ts"
      by (auto simp: marked_simps views_of_Cons) (auto simp: views_of_def)
    show ?thesis
      using push_last_fragment [OF Cons.prems(1) v(2,4,3) Cons.prems(2) assms(6) _ assms(7,8), of fl now] Cons.prems(5) True v(1)
      by (auto simp: push_all_simps(2) push_all_simps(1))
  next
    case False
    then have ne: "wrap_chunks h False cs \<noteq> []" by (metis length_0_conv length_wrap_chunks)
    from Cons.prems(3) obtain v now ws where v: "vs = (v, now) # ws" "pv_payload v = fragment_bytes h c False False" "pv_timestamp v = ts"
      "views_of ts (marked (wrap_chunks h False cs)) ws"
      by (auto simp: wrap_chunks_Cons [OF False] marked_Cons [OF ne] views_of_Cons)
    obtain s1 where s1: "push_rtp fl v now s = Some (True, s1)" "between_frames keys s1" "deliveries s1 = deliveries s" "collecting h ts (buf @ c) s1"
      using push_fragment [OF Cons.prems(1) v(2,3), of buf fl now] Cons.prems(2) by auto
    from Cons.IH [OF s1(2,4) v(4) False] Cons.prems(5) show ?thesis
      by (simp add: v(1) push_all_simps(2) [OF s1(1)] s1(3))
  qed
qed simp

text \<open>A NAL unit that a packet may carry by itself: type 1 to 23, forbidden bit clear, not empty.\<close>

definition proper_nal :: "bytes \<Rightarrow> bool" where
  "proper_nal n \<longleftrightarrow> n \<noteq> [] \<and> hd n AND 0x80 = 0 \<and> 1 \<le> hd n AND 0x1F \<and> hd n AND 0x1F \<le> 23"

lemma carries_none: "carries ps ns \<Longrightarrow> ns = [] \<Longrightarrow> ps = []"
  by (induction rule: carries.induct) auto

lemma carries_one:
  assumes "carries ps [n]"
  shows "ps = [(n, True)] \<or> (\<exists>h cs. n = h # concat cs \<and> ps = marked (wrap_chunks h True cs) \<and> 2 \<le> length cs \<and> [] \<notin> set cs)"
  using assms by (cases rule: carries.cases) (auto dest: carries_none simp: Cons_eq_append_conv append_eq_Cons_conv)

lemma push_nal:
  assumes "between_frames keys s" "carries ps [n]" "views_of ts ps vs" "proper_nal n" "ts \<notin> keys"
  shows "\<exists>s'. push_all fl vs s = Some s' \<and> between_frames (insert ts keys) s' \<and> deliveries s' = deliveries s @ [(n, ts)]"
  using carries_one [OF assms(2)]
proof (elim disjE exE conjE)
  assume ps: "ps = [(n, True)]"
  then obtain v now where v: "vs = [(v, now)]" "pv_payload v = n" "pv_marker v" "pv_timestamp v = ts"
    using assms(3) by (auto simp: views_of_Cons) (auto simp: views_of_def)
  have "hd n AND 0x1F \<noteq> 28" "hd n AND 0x1F \<noteq> 24" using assms(4) by (auto simp: proper_nal_def)
  with push_single [OF assms(1) v(2-4) assms(5), of fl now] assms(4) v(1) show ?thesis
    by (auto simp: proper_nal_def push_all_simps(2) push_all_simps(1))
next
  fix h cs
  assume n: "n = h # concat cs" and ps: "ps = marked (wrap_chunks h True cs)" and cs: "2 \<le> length cs" "[] \<notin> set cs"
  then obtain c ds where c: "cs = c # ds" "ds \<noteq> []" by (cases cs; cases "tl cs") auto
  then have ne: "wrap_chunks h False ds \<noteq> []" by (metis length_0_conv length_wrap_chunks)
  from assms(3) obtain v now ws where v: "vs = (v, now) # ws" "pv_payload v = fragment_bytes h c True False" "pv_timestamp v = ts"
    "views_of ts (marked (wrap_chunks h False ds)) ws"
    by (auto simp: ps c(1) wrap_chunks_Cons [OF c(2)] marked_Cons [OF ne] views_of_Cons)
  obtain s1 where s1: "push_rtp fl v now s = Some (True, s1)" "between_frames keys s1" "deliveries s1 = deliveries s" "collecting h ts c s1"
    using push_fragment [OF assms(1) v(2,3), of "[]" fl now] by auto
  have h: "h AND 0x80 = 0" "h AND 0x1F \<noteq> 28" using assms(4) by (auto simp: proper_nal_def n)
  from push_chunks [OF s1(2,4) v(4) c(2) _ assms(5) h] cs(2) show ?thesis
    by (simp add: v(1) push_all_simps(2) [OF s1(1)] s1(3) n c(1))
qed

section \<open>Properties\<close>

text \<open>
  C5: whatever packets arrive and however pushes, timer ticks, NACK queries and resets are interleaved, every call
  of the receiver returns (the loop that drains the jitter buffer ends and no access is out of bounds), and
  afterwards: the buffer has handed out or queued as many frames as it counted, each frame it handed out was counted by the
  receiver, the next number expected follows the highest one, every NACK candidate was counted as a gap, and bytes of
  a fragmented NAL unit are only kept while one is in progress.
\<close>

theorem receiver_always_returns:
  "\<exists>s. fold (receiver_step fl) ops (Some (new_video_receiver c)) = Some s \<and> r_cfg s = c
     \<and> vj_frames_emitted (vj_counts (jb s)) = r_frames_emitted (r_stats s) + length (pending_incomplete (jb s))
     \<and> (seq_initialised s \<longrightarrow> expected_next s = highest_seq s + 1)
     \<and> length (pending_nacks s) \<le> sequence_gaps_seen (r_stats s) \<and> (fua_in_progress s \<or> fua_buf s = [])"
proof -
  obtain s where s: "fold (receiver_step fl) ops (Some (new_video_receiver c)) = Some s" "rcv_ok c s"
    using vrecv.run_inv [of c fl ops] by (auto simp: rcv_run_ok_def split: option.splits)
  obtain out where o: "vj_ok (jitter_buffer_config c) (Some (jb s, out))" "length out = r_frames_emitted (r_stats s)"
    using s(2) by (auto simp: rcv_ok_def)
  then have "map frame_seq (out @ pending_incomplete (jb s)) = map of_nat [1..<vj_frames_emitted (vj_counts (jb s)) + 1]"
    by (simp add: vj_ok_def numbered_def)
  from arg_cong [OF this, of length] have "vj_frames_emitted (vj_counts (jb s)) = r_frames_emitted (r_stats s) + length (pending_incomplete (jb s))"
    using o(2) by simp
  then show ?thesis using s by (auto simp: rcv_ok_def)
qed

definition sample_receiver_config :: receiver_config where
  "sample_receiver_config = \<lparr>r_codec = CodecH264, r_ssrc = 7, r_payload_type = 102, jitter_buffer_config = default_vj_config, expect_fu_a = True\<rparr>"

definition sample_view :: "u16 \<Rightarrow> bool \<Rightarrow> bytes \<Rightarrow> packet_view" where
  "sample_view sq marker payload = \<lparr>pv_raw = [], pv_payload = payload, pv_ssrc = 7, pv_seq = sq, pv_timestamp = 9000,
     pv_payload_type = 102, pv_marker = marker, pv_csrc = [], pv_extension = None, pv_extmap_uri = Map.empty\<rparr>"

theorem receiver_always_returns_witness:
  "\<exists>s. fold (receiver_step (\<lambda>x. x)) [RPush (sample_view 5 True [0x65, 1]) 0, RTick 10, RNacks, RReset] (Some (new_video_receiver sample_receiver_config)) = Some s
     \<and> r_cfg s = sample_receiver_config \<and> (fua_in_progress s \<or> fua_buf s = [])"
  using receiver_always_returns [of "\<lambda>x. x" "[RPush (sample_view 5 True [0x65, 1]) 0, RTick 10, RNacks, RReset]" sample_receiver_config] by blast

text \<open>
  C8: the packets a receiver reports lost, in its NACK list and through the feedback callback, are exactly the
  numbers after the first one that had not arrived when a packet with a higher number did, each once, for every
  order of arrival within half the number range, also across the wrap-around.
\<close>

theorem receiver_nacks_exact:
  assumes "list_all (\<lambda>(v, now). pv_payload v \<noteq> [] \<or> pv_marker v) vs" "map (\<lambda>(v, now). pv_seq v) vs = map of_nat (x # xs)" "near x xs"
  shows "\<exists>s lost. push_all fl vs (set_feedback_callback True (new_video_receiver c)) = Some s
    \<and> pending_nacks s = map of_nat lost \<and> concat (map missing_packets (reported s)) = map of_nat lost \<and> distinct lost
    \<and> (\<forall>n. n \<in> set lost \<longleftrightarrow> x < n \<and> (\<exists>ys y zs. xs = ys @ y # zs \<and> n < y \<and> n \<notin> set ys))"
proof -
  obtain v now ws where vs: "vs = (v, now) # ws" using assms(2) by (cases vs) auto
  define s0 where "s0 = set_feedback_callback True (new_video_receiver c)"
  have ok: "rcv_ok c s0" using receiver_init_ok [of c] by (simp add: s0_def set_feedback_callback_def rcv_ok_def)
  have v: "pv_payload v \<noteq> [] \<or> pv_marker v" "pv_seq v = of_nat x" "map (pv_seq \<circ> fst) ws = map of_nat xs"
    "\<forall>p \<in> set ws. pv_payload (fst p) \<noteq> [] \<or> pv_marker (fst p)"
    using assms(1,2) by (auto simp: vs list_all_iff comp_def case_prod_unfold)
  obtain s1 where s1: "push_rtp fl v now s0 = Some (True, s1)" "rcv_ok c s1" "tracking s1 = tracking (track_seq (of_nat x) s0)"
    using push_rtp_tracking [OF ok v(1), of fl now] v(2) by auto
  have "tracking s1 = (True, of_nat x, of_nat (x + 1), [], True, [])"
    unfolding s1(3) by (subst track_first) (simp_all add: s0_def set_feedback_callback_def new_video_receiver_def reported_lost_def)
  from push_all_tracking [OF s1(2) v(4,3) assms(3) this]
  obtain s where "push_all fl ws s1 = Some s" "pending_nacks s = map of_nat (skipped x xs)" "reported_lost s = map of_nat (skipped x xs)"
    by auto
  then show ?thesis
    by (intro exI [of _ s] exI [of _ "skipped x xs"])
      (simp add: vs push_all_simps(2) [OF s1(1)] s0_def [symmetric] skipped_distinct skipped_later reported_lost_def)
qed

theorem receiver_nacks_exact_witness:
  "\<exists>s lost. push_all (\<lambda>x. x) (map (\<lambda>sq. (sample_view sq False [0x41, 1], 0)) [65534, 1, 65535, 2])
       (set_feedback_callback True (new_video_receiver sample_receiver_config)) = Some s
    \<and> pending_nacks s = map of_nat lost \<and> concat (map missing_packets (reported s)) = map of_nat lost \<and> distinct lost
    \<and> (\<forall>n. n \<in> set lost \<longleftrightarrow> 65534 < n \<and> (\<exists>ys y zs. [65537, 65535, 65538] = ys @ y # zs \<and> n < y \<and> n \<notin> set ys))"
  by (rule receiver_nacks_exact) (simp_all add: sample_view_def)

end
