(* ===== verification/Video_Rtcp_Feedback.thy ===== *)
theory Video_Rtcp_Feedback
  imports Prelude
begin

text \<open>
  RTCP feedback for video, \<^verbatim>\<open>src/modules/video_rtcp_feedback/src/video_rtcp_feedback.cpp\<close>: PLI, FIR, SLI and
  generic NACK messages, the packing of lost sequence numbers into NACK entries, and the rate limiter
  for FIR. Builders take the caller's output span and return the byte count with the updated span; an outer
  \<open>None\<close> is an access out of bounds.
\<close>

section \<open>Data\<close>

definition kFbHeaderSize :: nat where "kFbHeaderSize = 4"
definition kSsrcBlockSize :: nat where "kSsrcBlockSize = 8"
definition kPliPacketSize :: nat where "kPliPacketSize = kFbHeaderSize + kSsrcBlockSize"
definition kNackMinSize :: nat where "kNackMinSize = kPliPacketSize"
definition kFirEntrySize :: nat where "kFirEntrySize = 8"
definition kSliEntrySize :: nat where "kSliEntrySize = 8"
definition kNackEntrySize :: nat where "kNackEntrySize = 4"
definition kFirMinIntervalUs :: int where "kFirMinIntervalUs = 250000"
definition kPsfbPt :: u8 where "kPsfbPt = 206"
definition kRtpfbPt :: u8 where "kRtpfbPt = 205"
definition kFmtPli :: u8 where "kFmtPli = 1"
definition kFmtFir :: u8 where "kFmtFir = 4"
definition kFmtSli :: u8 where "kFmtSli = 2"
definition kFmtNack :: u8 where "kFmtNack = 1"
definition kFciOffset :: nat where "kFciOffset = kFbHeaderSize + kSsrcBlockSize"

lemmas fb_consts = kFbHeaderSize_def kSsrcBlockSize_def kPliPacketSize_def kNackMinSize_def kFirEntrySize_def
  kSliEntrySize_def kNackEntrySize_def kPsfbPt_def kRtpfbPt_def kFmtPli_def kFmtFir_def kFmtSli_def kFmtNack_def kFciOffset_def

record pli_packet =
  pli_sender_ssrc :: u32
  pli_media_ssrc :: u32

record fir_entry =
  fir_ssrc :: u32
  fir_seq_nr :: u8

record fir_packet =
  fir_sender_ssrc :: u32
  fir_entries :: "fir_entry list"

record sli_entry =
  sli_first :: u16
  sli_number :: u16
  sli_picture_id :: u32

record sli_packet =
  sli_sender_ssrc :: u32
  sli_media_ssrc :: u32
  sli_entries :: "sli_entry list"

record fb_nack_entry =
  fb_pid :: u16
  fb_blp :: u16

record fb_nack_packet =
  fbn_sender_ssrc :: u32
  fbn_media_ssrc :: u32
  fbn_entries :: "fb_nack_entry list"

record header_check =
  hc_fmt :: u8
  hc_length_words :: u16
  hc_total_bytes :: nat

section \<open>Headers\<close>

definition fb_byte0 :: "u8 \<Rightarrow> u8" where
  "fb_byte0 fmt = push_bit 6 2 OR (fmt AND 0x1F)"

definition length_from_bytes :: "nat \<Rightarrow> u16" where
  "length_from_bytes n = of_nat (n div 4 - 1)"

definition parse_fb_header :: "u8 \<Rightarrow> u8 \<Rightarrow> bytes \<Rightarrow> nat \<Rightarrow> header_check result option" where
  "parse_fb_header expected_pt expected_fmt input min_fci =
     (if length input < kFbHeaderSize then Some (Inl ProtocolError)
      else do {
        b0 \<leftarrow> rd input 0;
        pt \<leftarrow> rd input 1;
        let version = drop_bit 6 b0 AND 0x03; padding = drop_bit 5 b0 AND 0x01; fmt = b0 AND 0x1F in
        if version \<noteq> 2 then Some (Inl ProtocolError)
        else if padding \<noteq> 0 then Some (Inl ProtocolError)
        else if pt \<noteq> expected_pt then Some (Inl ProtocolError)
        else if fmt \<noteq> expected_fmt then Some (Inl ProtocolError)
        else do {
          words \<leftarrow> rd_be16 input 2;
          let total_bytes = (unat words + 1) * 4 in
          if total_bytes < kPliPacketSize then Some (Inl ProtocolError)
          else if length input < total_bytes then Some (Inl ProtocolError)
          else if total_bytes - kPliPacketSize < min_fci then Some (Inl ProtocolError)
          else Some (Inr \<lparr>hc_fmt = fmt, hc_length_words = words, hc_total_bytes = total_bytes\<rparr>)
        }
      })"

definition write_fb_header :: "u8 \<Rightarrow> u8 \<Rightarrow> u16 \<Rightarrow> (nat \<times> bytes) list" where
  "write_fb_header fmt pt words = [(0, [fb_byte0 fmt]), (1, [pt]), (2, be16 words)]"

section \<open>PLI\<close>

definition build_pli :: "bytes \<Rightarrow> pli_packet \<Rightarrow> (nat \<times> bytes) option" where
  "build_pli out p =
     (if length out < kPliPacketSize then Some (0, out)
      else map_option (Pair kPliPacketSize)
        (writes (write_fb_header kFmtPli kPsfbPt (length_from_bytes kPliPacketSize)
          @ [(kFbHeaderSize, be32 (pli_sender_ssrc p)), (kFbHeaderSize + 4, be32 (pli_media_ssrc p))]) out))"

definition parse_pli :: "bytes \<Rightarrow> pli_packet result option" where
  "parse_pli input = do {
     h \<leftarrow> parse_fb_header kPsfbPt kFmtPli input 0;
     case h of
       Inl e \<Rightarrow> Some (Inl e)
     | Inr h \<Rightarrow>
         if hc_length_words h \<noteq> 2 then Some (Inl ProtocolError)
         else do {
           s \<leftarrow> rd_be32 input kFbHeaderSize;
           m \<leftarrow> rd_be32 input (kFbHeaderSize + 4);
           Some (Inr \<lparr>pli_sender_ssrc = s, pli_media_ssrc = m\<rparr>)
         }
   }"

section \<open>FIR\<close>

definition fir_entry_writes :: "nat \<Rightarrow> fir_entry \<Rightarrow> (nat \<times> bytes) list" where
  "fir_entry_writes fp e = [(fp, be32 (fir_ssrc e)), (fp + 4, [0]), (fp + 5, [fir_seq_nr e]), (fp + 6, [0]), (fp + 7, [0])]"

text \<open>The entry loops: each entry is written at the cursor, which then advances by the entry size.\<close>

fun entry_loop :: "nat \<Rightarrow> (nat \<Rightarrow> 'e \<Rightarrow> (nat \<times> bytes) list) \<Rightarrow> nat \<Rightarrow> 'e list \<Rightarrow> (nat \<times> bytes) list" where
  "entry_loop width w fp [] = []"
| "entry_loop width w fp (e # es) = w fp e @ entry_loop width w (fp + width) es"

definition build_fir :: "bytes \<Rightarrow> fir_packet \<Rightarrow> (nat \<times> bytes) option" where
  "build_fir out p =
     (let total = kPliPacketSize + length (fir_entries p) * kFirEntrySize in
      if length out < total then Some (0, out)
      else map_option (Pair total)
        (writes (write_fb_header kFmtFir kPsfbPt (length_from_bytes total)
          @ [(kFbHeaderSize, be32 (fir_sender_ssrc p))]
          @ entry_loop kFirEntrySize fir_entry_writes kFciOffset (fir_entries p)) out))"

definition parse_fir_entry :: "bytes \<Rightarrow> nat \<Rightarrow> fir_entry option" where
  "parse_fir_entry input fp = do {
     s \<leftarrow> rd_be32 input fp;
     n \<leftarrow> rd input (fp + 5);
     Some \<lparr>fir_ssrc = s, fir_seq_nr = n\<rparr>
   }"

definition parse_fir :: "bytes \<Rightarrow> fir_packet result option" where
  "parse_fir input = do {
     h \<leftarrow> parse_fb_header kPsfbPt kFmtFir input kFirEntrySize;
     case h of
       Inl e \<Rightarrow> Some (Inl e)
     | Inr h \<Rightarrow>
         let fci_bytes = hc_total_bytes h - kPliPacketSize in
         if fci_bytes mod kFirEntrySize \<noteq> 0 then Some (Inl ProtocolError)
         else do {
           s \<leftarrow> rd_be32 input kFbHeaderSize;
           es \<leftarrow> those (map (\<lambda>i. parse_fir_entry input (kFciOffset + i * kFirEntrySize)) [0..<fci_bytes div kFirEntrySize]);
           Some (Inr \<lparr>fir_sender_ssrc = s, fir_entries = es\<rparr>)
         }
   }"

section \<open>SLI\<close>

definition sli_entry_writes :: "nat \<Rightarrow> sli_entry \<Rightarrow> (nat \<times> bytes) list" where
  "sli_entry_writes fp e = [(fp, be16 (sli_first e)), (fp + 2, be16 (sli_number e)), (fp + 4, be32 (sli_picture_id e))]"

definition build_sli :: "bytes \<Rightarrow> sli_packet \<Rightarrow> (nat \<times> bytes) option" where
  "build_sli out p =
     (let total = kPliPacketSize + length (sli_entries p) * kSliEntrySize in
      if length out < total then Some (0, out)
      else map_option (Pair total)
        (writes (write_fb_header kFmtSli kPsfbPt (length_from_bytes total)
          @ [(kFbHeaderSize, be32 (sli_sender_ssrc p)), (kFbHeaderSize + 4, be32 (sli_media_ssrc p))]
          @ entry_loop kSliEntrySize sli_entry_writes kFciOffset (sli_entries p)) out))"

definition parse_sli_entry :: "bytes \<Rightarrow> nat \<Rightarrow> sli_entry option" where
  "parse_sli_entry input fp = do {
     f \<leftarrow> rd_be16 input fp;
     n \<leftarrow> rd_be16 input (fp + 2);
     i \<leftarrow> rd_be32 input (fp + 4);
     Some \<lparr>sli_first = f, sli_number = n, sli_picture_id = i\<rparr>
   }"

definition parse_sli :: "bytes \<Rightarrow> sli_packet result option" where
  "parse_sli input = do {
     h \<leftarrow> parse_fb_header kPsfbPt kFmtSli input kSliEntrySize;
     case h of
       Inl e \<Rightarrow> Some (Inl e)
     | Inr h \<Rightarrow>
         let fci_bytes = hc_total_bytes h - kPliPacketSize in
         if fci_bytes mod kSliEntrySize \<noteq> 0 then Some (Inl ProtocolError)
         else do {
           s \<leftarrow> rd_be32 input kFbHeaderSize;
           m \<leftarrow> rd_be32 input (kFbHeaderSize + 4);
           es \<leftarrow> those (map (\<lambda>i. parse_sli_entry input (kFciOffset + i * kSliEntrySize)) [0..<fci_bytes div kSliEntrySize]);
           Some (Inr \<lparr>sli_sender_ssrc = s, sli_media_ssrc = m, sli_entries = es\<rparr>)
         }
   }"

section \<open>NACK\<close>

definition fb_nack_entry_writes :: "nat \<Rightarrow> fb_nack_entry \<Rightarrow> (nat \<times> bytes) list" where
  "fb_nack_entry_writes fp e = [(fp, be16 (fb_pid e)), (fp + 2, be16 (fb_blp e))]"

definition fb_build_nack :: "bytes \<Rightarrow> fb_nack_packet \<Rightarrow> (nat \<times> bytes) option" where
  "fb_build_nack out p =
     (let total = kPliPacketSize + length (fbn_entries p) * kNackEntrySize in
      if length out < total then Some (0, out)
      else map_option (Pair total)
        (writes (write_fb_header kFmtNack kRtpfbPt (length_from_bytes total)
          @ [(kFbHeaderSize, be32 (fbn_sender_ssrc p)), (kFbHeaderSize + 4, be32 (fbn_media_ssrc p))]
          @ entry_loop kNackEntrySize fb_nack_entry_writes kFciOffset (fbn_entries p)) out))"

definition parse_fb_nack_entry :: "bytes \<Rightarrow> nat \<Rightarrow> fb_nack_entry option" where
  "parse_fb_nack_entry input fp = do {
     p \<leftarrow> rd_be16 input fp;
     b \<leftarrow> rd_be16 input (fp + 2);
     Some \<lparr>fb_pid = p, fb_blp = b\<rparr>
   }"

definition fb_parse_nack :: "bytes \<Rightarrow> fb_nack_packet result option" where
  "fb_parse_nack input = do {
     h \<leftarrow> parse_fb_header kRtpfbPt kFmtNack input kNackEntrySize;
     case h of
       Inl e \<Rightarrow> Some (Inl e)
     | Inr h \<Rightarrow>
         let fci_bytes = hc_total_bytes h - kPliPacketSize in
         if fci_bytes mod kNackEntrySize \<noteq> 0 then Some (Inl ProtocolError)
         else do {
           s \<leftarrow> rd_be32 input kFbHeaderSize;
           m \<leftarrow> rd_be32 input (kFbHeaderSize + 4);
           es \<leftarrow> those (map (\<lambda>i. parse_fb_nack_entry input (kFciOffset + i * kNackEntrySize)) [0..<fci_bytes div kNackEntrySize]);
           Some (Inr \<lparr>fbn_sender_ssrc = s, fbn_media_ssrc = m, fbn_entries = es\<rparr>)
         }
   }"

section \<open>Packing lost sequence numbers\<close>

definition nack_delta :: "u16 \<Rightarrow> u16 \<Rightarrow> int" where
  "nack_delta anchor s = (let raw = uint s - uint anchor in if raw > 32767 then raw - 65536 else raw)"

text \<open>The inner loop: the bit mask, and the differences it did not cover.\<close>

fun collect_blp :: "int \<Rightarrow> int list \<Rightarrow> u16 \<Rightarrow> u16 \<times> int list" where
  "collect_blp pid_delta [] m = (m, [])"
| "collect_blp pid_delta (d # ds) m =
     (let off = d - pid_delta in
      if off < 1 \<or> off > 16 then (m, d # ds)
      else collect_blp pid_delta ds (m OR push_bit (nat (off - 1)) 1))"

lemma collect_blp_shrinks: "collect_blp p ds b = (b', rest) \<Longrightarrow> length rest \<le> length ds"
  by (induction p ds b rule: collect_blp.induct) (auto simp: Let_def split: if_splits)

function pack_deltas :: "u16 \<Rightarrow> int list \<Rightarrow> fb_nack_entry list" where
  "pack_deltas anchor [] = []"
| "pack_deltas anchor (d # ds) =
     (let (b, rest) = collect_blp d ds 0
      in \<lparr>fb_pid = word_of_int (uint anchor + d), fb_blp = b\<rparr> # pack_deltas anchor rest)"
  by pat_completeness auto
termination
  by (relation "measure (\<lambda>(a, ds). length ds)") (auto dest!: collect_blp_shrinks [OF sym] simp: less_Suc_eq_le)

definition pack_nack_entries :: "u16 list \<Rightarrow> fb_nack_entry list" where
  "pack_nack_entries seqs =
     (case seqs of
        [] \<Rightarrow> []
      | anchor # _ \<Rightarrow> pack_deltas anchor (remdups_adj (sort (map (nack_delta anchor) seqs))))"

definition unpack_entry :: "fb_nack_entry \<Rightarrow> u16 list" where
  "unpack_entry e = fb_pid e # map (\<lambda>i. fb_pid e + of_nat i + 1) (filter (bit (fb_blp e)) [0..<16])"

definition unpack_nack_entries :: "fb_nack_packet \<Rightarrow> u16 list" where
  "unpack_nack_entries p = concat (map unpack_entry (fbn_entries p))"

section \<open>FIR coalescer\<close>

record fir_coalescer =
  co_sender_ssrc :: u32
  co_next_seq_nr :: u8
  last_sent_us :: "u32 \<rightharpoonup> int"

definition new_fir_coalescer :: "u32 \<Rightarrow> fir_coalescer" where
  "new_fir_coalescer ssrc = \<lparr>co_sender_ssrc = ssrc, co_next_seq_nr = 0, last_sent_us = Map.empty\<rparr>"

definition should_send :: "u32 \<Rightarrow> int \<Rightarrow> fir_coalescer \<Rightarrow> bool" where
  "should_send media_ssrc now_us c =
     (case last_sent_us c media_ssrc of None \<Rightarrow> True | Some t \<Rightarrow> now_us - t \<ge> kFirMinIntervalUs)"

definition mark_sent :: "u32 \<Rightarrow> int \<Rightarrow> fir_coalescer \<Rightarrow> fir_coalescer" where
  "mark_sent media_ssrc now_us c = c\<lparr>last_sent_us := (last_sent_us c)(media_ssrc \<mapsto> now_us)\<rparr>"

definition make_entry :: "u32 \<Rightarrow> fir_coalescer \<Rightarrow> fir_entry \<times> fir_coalescer" where
  "make_entry media_ssrc c = (\<lparr>fir_ssrc = media_ssrc, fir_seq_nr = co_next_seq_nr c\<rparr>, c\<lparr>co_next_seq_nr := co_next_seq_nr c + 1\<rparr>)"

section \<open>Packing and unpacking\<close>

lemma collect_blp_spec:
  assumes "sorted_wrt (<) ds" "\<forall>d \<in> set ds. pid < d" "collect_blp pid ds m = (m', rest)"
  shows "rest = dropWhile (\<lambda>d. d \<le> pid + 16) ds"
    "\<And>i. bit m' i \<longleftrightarrow> bit m i \<or> i < 16 \<and> pid + int i + 1 \<in> set (takeWhile (\<lambda>d. d \<le> pid + 16) ds)"
proof -
  have "rest = dropWhile (\<lambda>d. d \<le> pid + 16) ds
    \<and> (\<forall>i. bit m' i \<longleftrightarrow> bit m i \<or> i < 16 \<and> pid + int i + 1 \<in> set (takeWhile (\<lambda>d. d \<le> pid + 16) ds))"
    using assms
  proof (induction pid ds m rule: collect_blp.induct)
    case (2 pid d ds m)
    show ?case
    proof (cases "d \<le> pid + 16")
      case True
      have pos: "1 \<le> d - pid" using 2(3) by simp
      define j where "j = nat (d - pid - 1)"
      have j: "d = pid + int j + 1" "j < 16" using True pos by (auto simp: j_def)
      have "collect_blp pid ds (m OR push_bit j 1) = (m', rest)"
        using 2(4) True pos by (simp add: j_def Let_def)
      then have IH: "rest = dropWhile (\<lambda>d. d \<le> pid + 16) ds"
        "bit m' i \<longleftrightarrow> bit (m OR push_bit j 1) i \<or> i < 16 \<and> pid + int i + 1 \<in> set (takeWhile (\<lambda>d. d \<le> pid + 16) ds)" for i
        using 2(1) [of "d - pid"] 2(2,3) True pos by (auto simp: j_def)
      have "bit (m OR push_bit j 1 :: u16) i \<longleftrightarrow> bit m i \<or> i = j" for i
        using j(2) by (auto simp: bit_simps)
      then show ?thesis using IH True j by auto
    qed (use 2(4) in \<open>auto simp: Let_def\<close>)
  qed auto
  then show "rest = dropWhile (\<lambda>d. d \<le> pid + 16) ds"
    "\<And>i. bit m' i \<longleftrightarrow> bit m i \<or> i < 16 \<and> pid + int i + 1 \<in> set (takeWhile (\<lambda>d. d \<le> pid + 16) ds)" by auto
qed

lemma mask_positions:
  assumes "sorted_wrt (<) ds" "\<forall>d \<in> set ds. pid < d" "collect_blp pid ds 0 = (m', rest)"
  shows "map (\<lambda>i. pid + int i + 1) (filter (bit m') [0..<16]) = takeWhile (\<lambda>d. d \<le> pid + 16) ds"
proof (rule sorted_distinct_set_unique)
  note spec = collect_blp_spec(2) [OF assms]
  show "sorted (map (\<lambda>i. pid + int i + 1) (filter (bit m') [0..<16]))"
    unfolding sorted_map by (rule sorted_wrt_filter, rule sorted_wrt_mono_rel [OF _ sorted_upt]) simp
  show "distinct (map (\<lambda>i. pid + int i + 1) (filter (bit m') [0..<16]))" by (simp add: distinct_map inj_on_def)
  have "sorted ds" "distinct ds" using assms(1) by (simp_all add: strict_sorted_iff)
  then show "sorted (takeWhile (\<lambda>d. d \<le> pid + 16) ds)" "distinct (takeWhile (\<lambda>d. d \<le> pid + 16) ds)"
    by (simp_all add: sorted_takeWhile)
  have "d \<in> (\<lambda>i. pid + int i + 1) ` {i. i < 16 \<and> bit m' i}" if "d \<in> set (takeWhile (\<lambda>d. d \<le> pid + 16) ds)" for d
  proof -
    have "pid < d" "d \<le> pid + 16" using that assms(2) set_takeWhileD by fastforce+
    then have "d = pid + int (nat (d - pid - 1)) + 1" "nat (d - pid - 1) < 16" by auto
    then show ?thesis using that spec [of "nat (d - pid - 1)"] by (intro image_eqI [of _ _ "nat (d - pid - 1)"]) auto
  qed
  then show "set (map (\<lambda>i. pid + int i + 1) (filter (bit m') [0..<16])) = set (takeWhile (\<lambda>d. d \<le> pid + 16) ds)"
    using spec by auto
qed

lemma unpack_pack_deltas:
  "sorted_wrt (<) ds \<Longrightarrow> concat (map unpack_entry (pack_deltas anchor ds)) = map (\<lambda>d. word_of_int (uint anchor + d)) ds"
proof (induction anchor ds rule: pack_deltas.induct)
  case (2 anchor d ds)
  obtain m rest where c: "collect_blp d ds 0 = (m, rest)" by (cases "collect_blp d ds 0")
  have ds: "sorted_wrt (<) ds" "\<forall>x \<in> set ds. d < x" using 2(2) by auto
  note rest = collect_blp_spec(1) [OF ds c]
  have "sorted_wrt (<) rest" using ds(1) unfolding rest by (metis sorted_wrt_append takeWhile_dropWhile_id)
  then have IH: "concat (map unpack_entry (pack_deltas anchor rest)) = map (\<lambda>d. word_of_int (uint anchor + d)) rest"
    using 2(1) [OF c [symmetric] refl] by simp
  have "map (\<lambda>i. (word_of_int (uint anchor + d) :: u16) + of_nat i + 1) (filter (bit m) [0..<16])
      = map (\<lambda>x. word_of_int (uint anchor + x)) (map (\<lambda>i. d + int i + 1) (filter (bit m) [0..<16]))"
    by (simp add: wi_hom_syms algebra_simps)
  also have "\<dots> = map (\<lambda>x. word_of_int (uint anchor + x)) (takeWhile (\<lambda>x. x \<le> d + 16) ds)"
    unfolding mask_positions [OF ds c] ..
  finally have "unpack_entry \<lparr>fb_pid = word_of_int (uint anchor + d), fb_blp = m\<rparr> @ map (\<lambda>x. word_of_int (uint anchor + x)) rest
      = map (\<lambda>x. word_of_int (uint anchor + x)) (d # ds)"
    by (simp add: unpack_entry_def rest flip: map_append)
  then show ?case using IH by (simp add: c)
qed simp

lemma nack_delta_inverse: "word_of_int (uint anchor + nack_delta anchor s) = (s :: u16)"
proof -
  have "(65536 :: u16) = 0" by (simp add: word_eq_iff_unsigned)
  then have "word_of_int (uint s - 65536) = s" by simp
  then show ?thesis by (auto simp: nack_delta_def Let_def)
qed

section \<open>Layout of the messages\<close>

definition fb_message :: "u8 \<Rightarrow> u8 \<Rightarrow> nat \<Rightarrow> bytes \<Rightarrow> bytes" where
  "fb_message fmt pt nbytes body = [fb_byte0 fmt, pt] @ be16 (length_from_bytes nbytes) @ body"

definition nack_entry_bytes :: "fb_nack_entry \<Rightarrow> bytes" where
  "nack_entry_bytes e = be16 (fb_pid e) @ be16 (fb_blp e)"

definition sli_entry_bytes :: "sli_entry \<Rightarrow> bytes" where
  "sli_entry_bytes e = be16 (sli_first e) @ be16 (sli_number e) @ be32 (sli_picture_id e)"

definition fir_entry_bytes :: "fir_entry \<Rightarrow> bytes" where
  "fir_entry_bytes e = be32 (fir_ssrc e) @ [0, fir_seq_nr e, 0, 0]"

lemma length_fb_message [simp]: "length (fb_message fmt pt n body) = length body + 4"
  by (simp add: fb_message_def)

lemma length_fb_entry_bytes [simp]:
  "length (nack_entry_bytes e) = 4" "length (sli_entry_bytes f) = 8" "length (fir_entry_bytes g) = 8"
  by (simp_all add: nack_entry_bytes_def sli_entry_bytes_def fir_entry_bytes_def)

lemma length_concat_width: "(\<And>x. length (f x) = w) \<Longrightarrow> length (concat (map f xs)) = length xs * w"
  by (induction xs) simp_all

lemma entry_loop_consecutive:
  assumes "\<And>fp e. consecutive fp (w fp e) \<and> concat (map snd (w fp e)) = enc e" "\<And>e. length (enc e) = width"
  shows "consecutive p (entry_loop width w p es) \<and> concat (map snd (entry_loop width w p es)) = concat (map enc es)"
  using assms by (induction es arbitrary: p) (simp_all add: consecutive_append)

lemma entry_writes_consecutive:
  "consecutive p (entry_loop 4 fb_nack_entry_writes p ns) \<and> concat (map snd (entry_loop 4 fb_nack_entry_writes p ns)) = concat (map nack_entry_bytes ns)"
  "consecutive p (entry_loop 8 sli_entry_writes p ss) \<and> concat (map snd (entry_loop 8 sli_entry_writes p ss)) = concat (map sli_entry_bytes ss)"
  "consecutive p (entry_loop 8 fir_entry_writes p fs) \<and> concat (map snd (entry_loop 8 fir_entry_writes p fs)) = concat (map fir_entry_bytes fs)"
  by (rule entry_loop_consecutive;
      simp add: fb_nack_entry_writes_def nack_entry_bytes_def sli_entry_writes_def sli_entry_bytes_def fir_entry_writes_def fir_entry_bytes_def)+

lemma writes_append: "writes (us @ ws) buf = writes us buf \<bind> writes ws"
proof (induction us buf rule: writes.induct)
  case (2 off xs us buf)
  then show ?case by (cases "wr buf off xs") simp_all
qed simp

text \<open>A message without gaps.\<close>

lemma write_message:
  assumes "consecutive 4 ws" "length (concat (map snd ws)) + 4 = nbytes" "nbytes \<le> length out"
  shows "writes (write_fb_header fmt pt (length_from_bytes nbytes) @ ws) out
    = Some (fb_message fmt pt nbytes (concat (map snd ws)) @ drop nbytes out)"
proof -
  have "consecutive 0 (write_fb_header fmt pt (length_from_bytes nbytes) @ ws)"
    using assms(1) by (simp add: write_fb_header_def numeral_eq_Suc)
  moreover have "concat (map snd (write_fb_header fmt pt (length_from_bytes nbytes) @ ws)) = fb_message fmt pt nbytes (concat (map snd ws))"
    by (simp add: fb_message_def write_fb_header_def)
  moreover have "length (fb_message fmt pt nbytes (concat (map snd ws))) = nbytes" using assms(2) by simp
  ultimately show ?thesis
    using writes_into [of "[]" "write_fb_header fmt pt (length_from_bytes nbytes) @ ws" out] assms(3)
    by (simp only: append_Nil list.size(3))
qed

definition pli_wire :: "bytes \<Rightarrow> pli_packet \<Rightarrow> bytes" where
  "pli_wire out p = fb_message kFmtPli kPsfbPt 12 (be32 (pli_sender_ssrc p) @ be32 (pli_media_ssrc p))"

definition nack_wire :: "bytes \<Rightarrow> fb_nack_packet \<Rightarrow> bytes" where
  "nack_wire out p = fb_message kFmtNack kRtpfbPt (12 + length (fbn_entries p) * 4)
     (be32 (fbn_sender_ssrc p) @ be32 (fbn_media_ssrc p) @ concat (map nack_entry_bytes (fbn_entries p)))"

definition sli_wire :: "bytes \<Rightarrow> sli_packet \<Rightarrow> bytes" where
  "sli_wire out p = fb_message kFmtSli kPsfbPt (12 + length (sli_entries p) * 8)
     (be32 (sli_sender_ssrc p) @ be32 (sli_media_ssrc p) @ concat (map sli_entry_bytes (sli_entries p)))"

definition fir_wire :: "bytes \<Rightarrow> fir_packet \<Rightarrow> bytes" where
  "fir_wire out p = fb_message kFmtFir kPsfbPt (12 + length (fir_entries p) * 8)
     (be32 (fir_sender_ssrc p) @ take 4 (drop 8 out @ [0, 0, 0, 0]) @ concat (map fir_entry_bytes (fir_entries p)))"

lemma length_concat_entries [simp]:
  "length (concat (map nack_entry_bytes ns)) = length ns * 4" "length (concat (map sli_entry_bytes ss)) = length ss * 8"
  "length (concat (map fir_entry_bytes fs)) = length fs * 8"
  by (simp_all add: length_concat_width)

lemma length_wire:
  "length (pli_wire out p) = 12" "length (nack_wire out n) = 12 + length (fbn_entries n) * 4"
  "length (sli_wire out s) = 12 + length (sli_entries s) * 8"
  "length (fir_wire out f) = 12 + length (fir_entries f) * 8"
  by (simp_all add: pli_wire_def nack_wire_def sli_wire_def fir_wire_def)

lemma build_pli_fits: "12 \<le> length out \<Longrightarrow> build_pli out p = Some (12, pli_wire out p @ drop 12 out)"
  using write_message [of "[(4, be32 (pli_sender_ssrc p)), (8, be32 (pli_media_ssrc p))]" 12 out kFmtPli kPsfbPt]
  by (simp add: build_pli_def pli_wire_def kPliPacketSize_def kFbHeaderSize_def kSsrcBlockSize_def)

lemma build_nack_fits:
  "12 + length (fbn_entries p) * 4 \<le> length out \<Longrightarrow>
     fb_build_nack out p = Some (12 + length (fbn_entries p) * 4, nack_wire out p @ drop (12 + length (fbn_entries p) * 4) out)"
  using write_message [of "[(4, be32 (fbn_sender_ssrc p)), (8, be32 (fbn_media_ssrc p))] @ entry_loop 4 fb_nack_entry_writes 12 (fbn_entries p)"
      "12 + length (fbn_entries p) * 4" out kFmtNack kRtpfbPt] entry_writes_consecutive(1) [of 12 "fbn_entries p"]
  by (simp add: fb_build_nack_def nack_wire_def Let_def kPliPacketSize_def kFbHeaderSize_def kSsrcBlockSize_def kFciOffset_def kNackEntrySize_def)

lemma build_sli_fits:
  "12 + length (sli_entries p) * 8 \<le> length out \<Longrightarrow>
     build_sli out p = Some (12 + length (sli_entries p) * 8, sli_wire out p @ drop (12 + length (sli_entries p) * 8) out)"
  using write_message [of "[(4, be32 (sli_sender_ssrc p)), (8, be32 (sli_media_ssrc p))] @ entry_loop 8 sli_entry_writes 12 (sli_entries p)"
      "12 + length (sli_entries p) * 8" out kFmtSli kPsfbPt] entry_writes_consecutive(2) [of 12 "sli_entries p"]
  by (simp add: build_sli_def sli_wire_def Let_def kPliPacketSize_def kFbHeaderSize_def kSsrcBlockSize_def kFciOffset_def kSliEntrySize_def)

lemma build_fir_fits:
  assumes "12 + length (fir_entries p) * 8 \<le> length out"
  shows "build_fir out p = Some (12 + length (fir_entries p) * 8, fir_wire out p @ drop (12 + length (fir_entries p) * 8) out)"
proof -
  let ?n = "12 + length (fir_entries p) * 8"
  define h where "h = [fb_byte0 kFmtFir, kPsfbPt] @ be16 (length_from_bytes ?n) @ be32 (fir_sender_ssrc p)"
  have "writes (write_fb_header kFmtFir kPsfbPt (length_from_bytes ?n) @ [(4, be32 (fir_sender_ssrc p))]) out = Some (h @ drop 8 out)"
    using writes_into [of "[]" "write_fb_header kFmtFir kPsfbPt (length_from_bytes ?n) @ [(4, be32 (fir_sender_ssrc p))]" out] assms
    by (simp add: write_fb_header_def h_def)
  moreover have "h @ drop 8 out = (h @ take 4 (drop 8 out)) @ drop 12 out"
    using take_drop_chain [of 4 8 out] by simp
  moreover have "writes (entry_loop 8 fir_entry_writes 12 (fir_entries p)) ((h @ take 4 (drop 8 out)) @ drop 12 out)
      = Some ((h @ take 4 (drop 8 out)) @ concat (map fir_entry_bytes (fir_entries p)) @ drop ?n out)"
    using writes_into [of "h @ take 4 (drop 8 out)" "entry_loop 8 fir_entry_writes 12 (fir_entries p)" "drop 12 out"]
      entry_writes_consecutive(3) [of 12 "fir_entries p"] assms by (simp add: h_def add.commute)
  ultimately have "writes ((write_fb_header kFmtFir kPsfbPt (length_from_bytes ?n) @ [(4, be32 (fir_sender_ssrc p))])
        @ entry_loop 8 fir_entry_writes 12 (fir_entries p)) out
      = Some ((h @ take 4 (drop 8 out)) @ concat (map fir_entry_bytes (fir_entries p)) @ drop ?n out)"
    by (simp only: writes_append bind.bind_lunit)
  moreover have "fir_wire out p = (h @ take 4 (drop 8 out)) @ concat (map fir_entry_bytes (fir_entries p))"
    using assms by (simp add: fir_wire_def fb_message_def h_def)
  ultimately have "writes (write_fb_header kFmtFir kPsfbPt (length_from_bytes ?n) @ [(4, be32 (fir_sender_ssrc p))]
        @ entry_loop 8 fir_entry_writes 12 (fir_entries p)) out = Some (fir_wire out p @ drop ?n out)"
    by (simp only: append_assoc)
  then show ?thesis using assms
    by (simp add: build_fir_def Let_def kPliPacketSize_def kFbHeaderSize_def kSsrcBlockSize_def kFciOffset_def kFirEntrySize_def)
qed

section \<open>Parsing what was built\<close>

lemma parse_fb_header_message:
  assumes "length body + 4 = n" "n mod 4 = 0" "12 \<le> n" "n \<le> 262144" "m \<le> n - 12" "fmt \<in> {1, 2, 4}"
  shows "parse_fb_header pt fmt (fb_message fmt pt n body) m =
    Some (Inr \<lparr>hc_fmt = fmt, hc_length_words = of_nat (n div 4 - 1), hc_total_bytes = n\<rparr>)"
proof -
  define raw where "raw = fb_message fmt pt n body"
  have len: "length raw = n" using assms(1) by (simp add: raw_def)
  have b: "raw ! 0 = fb_byte0 fmt" "raw ! 1 = pt" by (simp_all add: raw_def fb_message_def)
  have v: "drop_bit 6 (fb_byte0 fmt) AND 0x03 = 2" "drop_bit 5 (fb_byte0 fmt) AND 0x01 = 0" "fb_byte0 fmt AND 0x1F = fmt"
    using assms(6) by (auto simp: fb_byte0_def)
  have w: "rd_be16 raw 2 = Some (of_nat (n div 4 - 1))"
    using assms(3) len by (simp add: wire_simps) (simp add: raw_def fb_message_def be16_def length_from_bytes_def codec_simps)
  define j where "j = n div 4 - 1"
  have "n = 4 * (j + 1)" "j < 65536" using assms(2-4) by (auto simp: j_def)
  then have t: "(unat (of_nat (n div 4 - 1) :: u16) + 1) * 4 = n"
    unfolding j_def [symmetric] by (simp add: unat_of_nat)
  show ?thesis unfolding raw_def [symmetric]
    using len b v w t assms(3,5) by (simp add: parse_fb_header_def wire_simps fb_consts Let_def)
qed

definition fb_nack_wf :: "fb_nack_packet \<Rightarrow> bool" where
  "fb_nack_wf p \<longleftrightarrow> 1 \<le> length (fbn_entries p) \<and> length (fbn_entries p) \<le> 65533"
definition sli_wf :: "sli_packet \<Rightarrow> bool" where
  "sli_wf p \<longleftrightarrow> 1 \<le> length (sli_entries p) \<and> length (sli_entries p) \<le> 32766"
definition fir_wf :: "fir_packet \<Rightarrow> bool" where
  "fir_wf p \<longleftrightarrow> 1 \<le> length (fir_entries p) \<and> length (fir_entries p) \<le> 32766"

text \<open>The two SSRC fields and the entries behind them.\<close>

lemma message_ssrcs:
  assumes "length rest = length es * w"
  shows "rd_be32 (fb_message fmt pt n (be32 a @ be32 b @ rest)) 4 = Some a"
    "rd_be32 (fb_message fmt pt n (be32 a @ be32 b @ rest)) 8 = Some b"
  by (simp_all add: wire_simps) (simp_all add: fb_message_def be32_def be16_def nth_append codec_simps)

lemma message_entries:
  assumes "\<And>x. length (enc x) = w" "\<And>pre x post. dec (pre @ enc x @ post) (length pre) = Some x" "length a = 4" "length b = 4"
  shows "those (map (\<lambda>i. dec (fb_message fmt pt n (a @ b @ concat (map enc es))) (12 + i * w)) [0..<length es]) = Some es"
  using those_fixed_width [of enc w es dec "[fb_byte0 fmt, pt] @ be16 (length_from_bytes n) @ a @ b" "[]"] assms
  by (simp add: fb_message_def)

lemma parse_pli_wire: "parse_pli (pli_wire out p) = Some (Inr p)"
proof -
  have "parse_fb_header kPsfbPt kFmtPli (pli_wire out p) 0 = Some (Inr \<lparr>hc_fmt = 1, hc_length_words = 2, hc_total_bytes = 12\<rparr>)"
    using parse_fb_header_message [of "be32 (pli_sender_ssrc p) @ be32 (pli_media_ssrc p)" 12 0 1 206]
    by (simp add: pli_wire_def kFmtPli_def kPsfbPt_def)
  moreover have "rd_be32 (pli_wire out p) 4 = Some (pli_sender_ssrc p)" "rd_be32 (pli_wire out p) 8 = Some (pli_media_ssrc p)"
    using message_ssrcs [of "[]" "[] :: nat list" 0 kFmtPli kPsfbPt 12 "pli_sender_ssrc p" "pli_media_ssrc p"] by (simp_all add: pli_wire_def)
  ultimately show ?thesis by (simp add: parse_pli_def kFbHeaderSize_def)
qed

lemma parse_nack_wire:
  assumes "fb_nack_wf p"
  shows "fb_parse_nack (nack_wire out p) = Some (Inr p)"
proof -
  let ?n = "12 + length (fbn_entries p) * 4"
  have "parse_fb_header kRtpfbPt kFmtNack (nack_wire out p) 4 = Some (Inr \<lparr>hc_fmt = 1, hc_length_words = of_nat (?n div 4 - 1), hc_total_bytes = ?n\<rparr>)"
    using assms parse_fb_header_message [of "be32 (fbn_sender_ssrc p) @ be32 (fbn_media_ssrc p) @ concat (map nack_entry_bytes (fbn_entries p))" ?n 4 1 205]
    by (simp add: nack_wire_def kFmtNack_def kRtpfbPt_def fb_nack_wf_def)
  moreover have "rd_be32 (nack_wire out p) 4 = Some (fbn_sender_ssrc p)" "rd_be32 (nack_wire out p) 8 = Some (fbn_media_ssrc p)"
    using message_ssrcs [of "concat (map nack_entry_bytes (fbn_entries p))" "fbn_entries p" 4] by (simp_all add: nack_wire_def)
  moreover have "those (map (\<lambda>i. parse_fb_nack_entry (nack_wire out p) (12 + i * 4)) [0..<length (fbn_entries p)]) = Some (fbn_entries p)"
    unfolding nack_wire_def
    by (rule message_entries) (simp_all add: parse_fb_nack_entry_def nack_entry_bytes_def be16_def wire_simps nth_append codec_simps)
  ultimately show ?thesis by (simp add: fb_parse_nack_def fb_consts Let_def)
qed

lemma parse_sli_wire:
  assumes "sli_wf p"
  shows "parse_sli (sli_wire out p) = Some (Inr p)"
proof -
  let ?n = "12 + length (sli_entries p) * 8"
  have "parse_fb_header kPsfbPt kFmtSli (sli_wire out p) 8 = Some (Inr \<lparr>hc_fmt = 2, hc_length_words = of_nat (?n div 4 - 1), hc_total_bytes = ?n\<rparr>)"
    using assms parse_fb_header_message [of "be32 (sli_sender_ssrc p) @ be32 (sli_media_ssrc p) @ concat (map sli_entry_bytes (sli_entries p))" ?n 8 2 206]
    by (simp add: sli_wire_def kFmtSli_def kPsfbPt_def sli_wf_def)
  moreover have "rd_be32 (sli_wire out p) 4 = Some (sli_sender_ssrc p)" "rd_be32 (sli_wire out p) 8 = Some (sli_media_ssrc p)"
    using message_ssrcs [of "concat (map sli_entry_bytes (sli_entries p))" "sli_entries p" 8] by (simp_all add: sli_wire_def)
  moreover have "those (map (\<lambda>i. parse_sli_entry (sli_wire out p) (12 + i * 8)) [0..<length (sli_entries p)]) = Some (sli_entries p)"
    unfolding sli_wire_def
    by (rule message_entries) (simp_all add: parse_sli_entry_def sli_entry_bytes_def be16_def be32_def wire_simps nth_append codec_simps)
  ultimately show ?thesis by (simp add: parse_sli_def fb_consts Let_def)
qed

lemma parse_fir_wire:
  assumes "fir_wf p"
  shows "parse_fir (fir_wire out p) = Some (Inr p)"
proof -
  let ?n = "12 + length (fir_entries p) * 8"
  have "parse_fb_header kPsfbPt kFmtFir (fir_wire out p) 8 = Some (Inr \<lparr>hc_fmt = 4, hc_length_words = of_nat (?n div 4 - 1), hc_total_bytes = ?n\<rparr>)"
    using assms parse_fb_header_message [of "be32 (fir_sender_ssrc p) @ take 4 (drop 8 out @ [0, 0, 0, 0]) @ concat (map fir_entry_bytes (fir_entries p))" ?n 8 4 206]
    by (simp add: fir_wire_def kFmtFir_def kPsfbPt_def fir_wf_def)
  moreover have "rd_be32 (fir_wire out p) 4 = Some (fir_sender_ssrc p)"
    by (simp add: wire_simps fir_wire_def) (simp add: fb_message_def be32_def be16_def nth_append codec_simps)
  moreover have "those (map (\<lambda>i. parse_fir_entry (fir_wire out p) (12 + i * 8)) [0..<length (fir_entries p)]) = Some (fir_entries p)"
    unfolding fir_wire_def
    by (rule message_entries) (simp_all add: parse_fir_entry_def fir_entry_bytes_def be32_def wire_simps nth_append codec_simps)
  ultimately show ?thesis by (simp add: parse_fir_def fb_consts Let_def)
qed

lemma build_small:
  "length out < 12 \<Longrightarrow> build_pli out p = Some (0, out)"
  "length out < 12 + length (fbn_entries n) * 4 \<Longrightarrow> fb_build_nack out n = Some (0, out)"
  "length out < 12 + length (sli_entries s) * 8 \<Longrightarrow> build_sli out s = Some (0, out)"
  "length out < 12 + length (fir_entries f) * 8 \<Longrightarrow> build_fir out f = Some (0, out)"
  by (simp_all add: build_pli_def fb_build_nack_def build_sli_def build_fir_def fb_consts)

interpretation pli: message_codec "\<lambda>_. True" pli_wire build_pli parse_pli "\<lambda>p. p"
  by unfold_locales (simp_all add: length_wire build_pli_fits parse_pli_wire build_small)

interpretation fbnack: message_codec fb_nack_wf nack_wire fb_build_nack fb_parse_nack "\<lambda>p. p"
  by unfold_locales (simp_all add: length_wire build_nack_fits parse_nack_wire build_small)

interpretation sli: message_codec sli_wf sli_wire build_sli parse_sli "\<lambda>p. p"
  by unfold_locales (simp_all add: length_wire build_sli_fits parse_sli_wire build_small)

interpretation fir: message_codec fir_wf fir_wire build_fir parse_fir "\<lambda>p. p"
  by unfold_locales (simp_all add: length_wire build_fir_fits parse_fir_wire build_small)

section \<open>Safety of the parsers\<close>

lemma parse_fb_header_cases:
  "parse_fb_header pt fmt input m = Some (Inl ProtocolError) \<or>
   (\<exists>h. parse_fb_header pt fmt input m = Some (Inr h) \<and> 12 \<le> hc_total_bytes h \<and> hc_total_bytes h \<le> length input
     \<and> m \<le> hc_total_bytes h - 12 \<and> hc_total_bytes h = (unat (hc_length_words h) + 1) * 4)"
proof (cases "length input < 4")
  case True
  then show ?thesis by (simp add: parse_fb_header_def fb_consts)
next
  case False
  then have r: "rd input 0 = Some (input ! 0)" "rd input 1 = Some (input ! 1)" "rd_be16 input 2 = Some (be16_of (input ! 2) (input ! 3))"
    by (auto simp: rd_be16_def rd_def)
  have k: "kFbHeaderSize = 4" "kPliPacketSize = 12" by (simp_all add: fb_consts)
  show ?thesis unfolding parse_fb_header_def r k Let_def using False by simp
qed

lemma those_in_range:
  assumes "\<And>i. i < n \<Longrightarrow> f i \<noteq> None"
  shows "\<exists>ys. those (map f [0..<n]) = Some ys \<and> length ys = n"
proof -
  have "those (map f [0..<n]) = Some (map (\<lambda>i. the (f i)) [0..<n])"
    using assms by (intro those_map_Some) auto
  then show ?thesis by simp
qed

text \<open>Every parser reads in bounds, and gives an error or a value of the size the header announced.\<close>

lemma parse_pli_cases: "parse_pli input = Some (Inl ProtocolError) \<or> (\<exists>p. parse_pli input = Some (Inr p)) \<and> 12 \<le> length input"
proof (cases "parse_fb_header kPsfbPt kFmtPli input 0 = Some (Inl ProtocolError)")
  case False
  then obtain h where "parse_fb_header kPsfbPt kFmtPli input 0 = Some (Inr h)" "12 \<le> length input"
    using parse_fb_header_cases [of kPsfbPt kFmtPli input 0] by auto
  then show ?thesis by (cases "hc_length_words h = 2") (simp_all add: parse_pli_def kFbHeaderSize_def wire_simps)
qed (simp add: parse_pli_def)

lemma fb_header_entries:
  assumes "parse_fb_header pt fmt input w = Some (Inr h)" "0 < w"
  defines "n \<equiv> (hc_total_bytes h - 12) div w"
  shows "1 \<le> n" "12 + n * w \<le> length input"
proof -
  have h: "12 \<le> hc_total_bytes h" "hc_total_bytes h \<le> length input" "w \<le> hc_total_bytes h - 12"
    using parse_fb_header_cases [of pt fmt input w] assms(1) by auto
  then show "1 \<le> n" using assms(2) div_le_mono [of w "hc_total_bytes h - 12" w] by (simp add: n_def)
  have "n * w \<le> hc_total_bytes h - 12" by (simp add: n_def div_times_less_eq_dividend)
  then show "12 + n * w \<le> length input" using h by linarith
qed

lemma parse_nack_cases:
  "fb_parse_nack input = Some (Inl ProtocolError) \<or>
   (\<exists>p. fb_parse_nack input = Some (Inr p) \<and> 1 \<le> length (fbn_entries p) \<and> 12 + length (fbn_entries p) * 4 \<le> length input)"
proof (cases "parse_fb_header kRtpfbPt kFmtNack input 4 = Some (Inl ProtocolError)")
  case True
  then show ?thesis by (simp add: fb_parse_nack_def kNackEntrySize_def)
next
  case False
  then obtain h where h: "parse_fb_header kRtpfbPt kFmtNack input 4 = Some (Inr h)"
    using parse_fb_header_cases [of kRtpfbPt kFmtNack input 4] by auto
  define n where "n = (hc_total_bytes h - 12) div 4"
  have n: "1 \<le> n" "12 + n * 4 \<le> length input" using fb_header_entries [OF h] by (simp_all add: n_def)
  obtain es where es: "those (map (\<lambda>i. parse_fb_nack_entry input (12 + i * 4)) [0..<n]) = Some es" "length es = n"
    using those_in_range [of n "\<lambda>i. parse_fb_nack_entry input (12 + i * 4)"] n(2)
    by (auto simp: parse_fb_nack_entry_def wire_simps)
  show ?thesis using h n es
    by (simp add: fb_parse_nack_def kNackEntrySize_def kPliPacketSize_def kFbHeaderSize_def kSsrcBlockSize_def kFciOffset_def Let_def
        wire_simps n_def [symmetric])
qed

lemma parse_sli_cases:
  "parse_sli input = Some (Inl ProtocolError) \<or>
   (\<exists>p. parse_sli input = Some (Inr p) \<and> 1 \<le> length (sli_entries p) \<and> 12 + length (sli_entries p) * 8 \<le> length input)"
proof (cases "parse_fb_header kPsfbPt kFmtSli input 8 = Some (Inl ProtocolError)")
  case True
  then show ?thesis by (simp add: parse_sli_def kSliEntrySize_def)
next
  case False
  then obtain h where h: "parse_fb_header kPsfbPt kFmtSli input 8 = Some (Inr h)"
    using parse_fb_header_cases [of kPsfbPt kFmtSli input 8] by auto
  define n where "n = (hc_total_bytes h - 12) div 8"
  have n: "1 \<le> n" "12 + n * 8 \<le> length input" using fb_header_entries [OF h] by (simp_all add: n_def)
  obtain es where es: "those (map (\<lambda>i. parse_sli_entry input (12 + i * 8)) [0..<n]) = Some es" "length es = n"
    using those_in_range [of n "\<lambda>i. parse_sli_entry input (12 + i * 8)"] n(2)
    by (auto simp: parse_sli_entry_def wire_simps)
  show ?thesis using h n es
    by (simp add: parse_sli_def kSliEntrySize_def kPliPacketSize_def kFbHeaderSize_def kSsrcBlockSize_def kFciOffset_def Let_def
        wire_simps n_def [symmetric])
qed

lemma parse_fir_cases:
  "parse_fir input = Some (Inl ProtocolError) \<or>
   (\<exists>p. parse_fir input = Some (Inr p) \<and> 1 \<le> length (fir_entries p) \<and> 12 + length (fir_entries p) * 8 \<le> length input)"
proof (cases "parse_fb_header kPsfbPt kFmtFir input 8 = Some (Inl ProtocolError)")
  case True
  then show ?thesis by (simp add: parse_fir_def kFirEntrySize_def)
next
  case False
  then obtain h where h: "parse_fb_header kPsfbPt kFmtFir input 8 = Some (Inr h)"
    using parse_fb_header_cases [of kPsfbPt kFmtFir input 8] by auto
  define n where "n = (hc_total_bytes h - 12) div 8"
  have n: "1 \<le> n" "12 + n * 8 \<le> length input" using fb_header_entries [OF h] by (simp_all add: n_def)
  obtain es where es: "those (map (\<lambda>i. parse_fir_entry input (12 + i * 8)) [0..<n]) = Some es" "length es = n"
    using those_in_range [of n "\<lambda>i. parse_fir_entry input (12 + i * 8)"] n(2)
    by (auto simp: parse_fir_entry_def wire_simps)
  show ?thesis using h n es
    by (simp add: parse_fir_def kFirEntrySize_def kPliPacketSize_def kFbHeaderSize_def kSsrcBlockSize_def kFciOffset_def Let_def
        wire_simps n_def [symmetric])
qed

lemma strict_remdups_adj: "sorted xs \<Longrightarrow> sorted_wrt (<) (remdups_adj (xs :: 'a :: linorder list))"
  by (induction xs rule: remdups_adj.induct) (auto simp: less_le)

lemma unpack_pack:
  "set (unpack_nack_entries \<lparr>fbn_sender_ssrc = a, fbn_media_ssrc = b, fbn_entries = pack_nack_entries seqs\<rparr>) = set seqs
   \<and> distinct (unpack_nack_entries \<lparr>fbn_sender_ssrc = a, fbn_media_ssrc = b, fbn_entries = pack_nack_entries seqs\<rparr>)"
proof (cases seqs)
  case Nil
  then show ?thesis by (simp add: unpack_nack_entries_def pack_nack_entries_def)
next
  case (Cons anchor rest)
  define ds where "ds = remdups_adj (sort (map (nack_delta anchor) seqs))"
  have s: "sorted_wrt (<) ds" unfolding ds_def by (rule strict_remdups_adj) simp
  have set: "set ds = nack_delta anchor ` set seqs" by (simp add: ds_def)
  have u: "unpack_nack_entries \<lparr>fbn_sender_ssrc = a, fbn_media_ssrc = b, fbn_entries = pack_nack_entries seqs\<rparr>
      = map (\<lambda>d. word_of_int (uint anchor + d)) ds"
    using unpack_pack_deltas [OF s, of anchor] Cons by (simp add: unpack_nack_entries_def pack_nack_entries_def ds_def)
  have "inj_on (\<lambda>d. word_of_int (uint anchor + d) :: u16) (set ds)"
    unfolding set inj_on_def by (metis (no_types, lifting) imageE nack_delta_inverse)
  moreover have "distinct ds" using s by (simp add: strict_sorted_iff)
  ultimately show ?thesis by (auto simp: u set distinct_map image_image nack_delta_inverse [simplified])
qed

section \<open>Properties\<close>

text \<open>
  Packing a list of lost sequence numbers into NACK entries and unpacking them gives exactly the numbers of
  the list, each once, also across the wrap-around: nothing is requested that was not lost and nothing lost is
  left out.
\<close>

theorem nack_pack_exact:
  "set (unpack_nack_entries \<lparr>fbn_sender_ssrc = a, fbn_media_ssrc = b, fbn_entries = pack_nack_entries seqs\<rparr>) = set seqs
   \<and> distinct (unpack_nack_entries \<lparr>fbn_sender_ssrc = a, fbn_media_ssrc = b, fbn_entries = pack_nack_entries seqs\<rparr>)"
  by (rule unpack_pack)

text \<open>
  C26: PLI, FIR, SLI and NACK messages built into any output span they fit in are written in bounds, leave the
  rest of the span alone and are parsed back unchanged.
\<close>

theorem feedback_roundtrip:
  "(12 \<le> length out \<longrightarrow> (\<exists>n out'. build_pli out p = Some (n, out') \<and> parse_pli (take n out') = Some (Inr p) \<and> drop n out' = drop n out))
   \<and> (fb_nack_wf q \<and> 12 + length (fbn_entries q) * 4 \<le> length out \<longrightarrow>
       (\<exists>n out'. fb_build_nack out q = Some (n, out') \<and> fb_parse_nack (take n out') = Some (Inr q) \<and> drop n out' = drop n out))
   \<and> (sli_wf s \<and> 12 + length (sli_entries s) * 8 \<le> length out \<longrightarrow>
       (\<exists>n out'. build_sli out s = Some (n, out') \<and> parse_sli (take n out') = Some (Inr s) \<and> drop n out' = drop n out))
   \<and> (fir_wf f \<and> 12 + length (fir_entries f) * 8 \<le> length out \<longrightarrow>
       (\<exists>n out'. build_fir out f = Some (n, out') \<and> parse_fir (take n out') = Some (Inr f) \<and> drop n out' = drop n out))"
  using pli.roundtrip [of out p] fbnack.roundtrip [of q out] sli.roundtrip [of s out] fir.roundtrip [of f out]
  by (simp add: length_wire)

theorem feedback_roundtrip_witness:
  "\<exists>n out'. fb_build_nack (replicate 20 7) \<lparr>fbn_sender_ssrc = 1, fbn_media_ssrc = 2, fbn_entries = [\<lparr>fb_pid = 9, fb_blp = 5\<rparr>]\<rparr> = Some (n, out')
     \<and> fb_parse_nack (take n out') = Some (Inr \<lparr>fbn_sender_ssrc = 1, fbn_media_ssrc = 2, fbn_entries = [\<lparr>fb_pid = 9, fb_blp = 5\<rparr>]\<rparr>)
     \<and> drop n out' = drop n (replicate 20 7)"
  using feedback_roundtrip [of "replicate 20 7" _ "\<lparr>fbn_sender_ssrc = 1, fbn_media_ssrc = 2, fbn_entries = [\<lparr>fb_pid = 9, fb_blp = 5\<rparr>]\<rparr>"]
  by (simp add: fb_nack_wf_def)

text \<open>
  C28: on every input the four parsers read in bounds and either report a protocol error or return a message
  whose entries all lie inside the input.
\<close>

theorem feedback_parse_errors:
  "(parse_pli input = Some (Inl ProtocolError) \<or> (\<exists>p. parse_pli input = Some (Inr p)) \<and> 12 \<le> length input)
   \<and> (fb_parse_nack input = Some (Inl ProtocolError) \<or>
       (\<exists>p. fb_parse_nack input = Some (Inr p) \<and> 1 \<le> length (fbn_entries p) \<and> 12 + length (fbn_entries p) * 4 \<le> length input))
   \<and> (parse_sli input = Some (Inl ProtocolError) \<or>
       (\<exists>p. parse_sli input = Some (Inr p) \<and> 1 \<le> length (sli_entries p) \<and> 12 + length (sli_entries p) * 8 \<le> length input))
   \<and> (parse_fir input = Some (Inl ProtocolError) \<or>
       (\<exists>p. parse_fir input = Some (Inr p) \<and> 1 \<le> length (fir_entries p) \<and> 12 + length (fir_entries p) * 8 \<le> length input))"
  using parse_pli_cases parse_nack_cases parse_sli_cases parse_fir_cases by simp

text \<open>A loss that straddles the wrap-around of the sequence numbers is packed into two entries, not one.\<close>

theorem nack_pack_wrap: "map fb_pid (pack_nack_entries [65535, 0]) = [0, 65535]"
proof -
  have "remdups_adj (sort (map (nack_delta 65535) [65535, 0])) = [-65535, 0]"
    by (simp add: nack_delta_def)
  then show ?thesis by (simp add: pack_nack_entries_def Let_def)
qed

end
