(* ===== verification/Video_Pipeline.thy ===== *)
theory Video_Pipeline
  imports Rtp_Builder Video_Receiver Video_Rtcp_Feedback
begin

text \<open>
  The feedback bridge of the video pipeline, \<^verbatim>\<open>src/modules/video_pipeline/src/video_pipeline.cpp\<close>: receiver feedback
  becomes RTCP messages, and RTCP messages act on a sender. The properties here span the sender, the
  receiver, the jitter buffer and the RTP and RTCP codecs.
\<close>

section \<open>The feedback bridge\<close>

definition feedback_rtcp_size :: "receiver_feedback \<Rightarrow> nat" where
  "feedback_rtcp_size fb =
     (if missing_packets fb \<noteq> [] then kNackMinSize + length (pack_nack_entries (missing_packets fb)) * kNackEntrySize else 0)
     + (if keyframe_requested fb then kPliPacketSize else 0)"

text \<open>Building into the part of the output from \<open>pos\<close> on.\<close>

definition build_at :: "nat \<Rightarrow> (bytes \<Rightarrow> (nat \<times> bytes) option) \<Rightarrow> bytes \<Rightarrow> (nat \<times> bytes) option" where
  "build_at pos mk out =
     (if pos \<le> length out then map_option (\<lambda>(n, part). (n, take pos out @ part)) (mk (drop pos out)) else None)"

definition build_feedback_rtcp :: "bytes \<Rightarrow> receiver_feedback \<Rightarrow> u32 \<Rightarrow> u32 \<Rightarrow> (nat \<times> bytes) option" where
  "build_feedback_rtcp out fb sender_ssrc media_ssrc =
     (if length out < feedback_rtcp_size fb then Some (0, out)
      else let entries = pack_nack_entries (missing_packets fb) in do {
        (ok, written, out) \<leftarrow>
          (if missing_packets fb \<noteq> [] \<and> entries \<noteq> []
           then map_option (\<lambda>(n, out). (n \<noteq> 0, n, out))
                  (build_at 0 (\<lambda>part. fb_build_nack part \<lparr>fbn_sender_ssrc = sender_ssrc, fbn_media_ssrc = media_ssrc, fbn_entries = entries\<rparr>) out)
           else Some (True, 0, out));
        if \<not> ok then Some (0, out)
        else if keyframe_requested fb then do {
          (n, out) \<leftarrow> build_at written (\<lambda>part. build_pli part \<lparr>pli_sender_ssrc = sender_ssrc, pli_media_ssrc = media_ssrc\<rparr>) out;
          Some (if n = 0 then 0 else written + n, out)
        }
        else Some (written, out)
      })"

fun retransmit_all :: "u16 list \<Rightarrow> nat \<Rightarrow> video_sender \<Rightarrow> nat \<times> video_sender" where
  "retransmit_all [] actions s = (actions, s)"
| "retransmit_all (sq # seqs) actions s =
     (let (ok, s) = retransmit sq s in retransmit_all seqs (if ok then actions + 1 else actions) s)"

text \<open>One packet of the compound: the actions so far and the sender, or the error.\<close>

definition apply_packet :: "bytes \<Rightarrow> u8 \<Rightarrow> u8 \<Rightarrow> nat \<Rightarrow> video_sender \<Rightarrow> (nat result \<times> video_sender) option" where
  "apply_packet packet pt fmt actions s =
     (if pt = kRtpfbPt \<and> fmt = kFmtNack then
        if length packet < kNackMinSize then Some (Inl ProtocolError, s)
        else do {
          parsed \<leftarrow> fb_parse_nack packet;
          case parsed of
            Inl e \<Rightarrow> Some (Inl e, s)
          | Inr n \<Rightarrow> let (actions, s) = retransmit_all (unpack_nack_entries n) actions s in Some (Inr actions, s)
        }
      else if pt = kPsfbPt \<and> fmt = kFmtPli then
        if length packet < kPliPacketSize then Some (Inl ProtocolError, s)
        else do {
          parsed \<leftarrow> parse_pli packet;
          case parsed of Inl e \<Rightarrow> Some (Inl e, s) | Inr _ \<Rightarrow> Some (Inr (actions + 1), force_keyframe s)
        }
      else if pt = kPsfbPt \<and> fmt = kFmtFir then
        if length packet < kPliPacketSize then Some (Inl ProtocolError, s)
        else do {
          parsed \<leftarrow> parse_fir packet;
          case parsed of Inl e \<Rightarrow> Some (Inl e, s) | Inr _ \<Rightarrow> Some (Inr (actions + 1), force_keyframe s)
        }
      else Some (Inr actions, s))"

function apply_loop :: "bytes \<Rightarrow> nat \<Rightarrow> nat \<Rightarrow> video_sender \<Rightarrow> (nat result \<times> video_sender) option" where
  "apply_loop rtcp offset actions s =
     (if offset < length rtcp then
        if length rtcp - offset < kFbHeaderSize then Some (Inl ProtocolError, s)
        else do {
          b0 \<leftarrow> rd rtcp offset;
          pt \<leftarrow> rd rtcp (offset + 1);
          length_words \<leftarrow> rd_be16 rtcp (offset + 2);
          let packet_size = (unat length_words + 1) * 4;
          if packet_size < kFbHeaderSize \<or> offset + packet_size > length rtcp then Some (Inl ProtocolError, s)
          else do {
            packet \<leftarrow> subspan rtcp offset packet_size;
            r \<leftarrow> apply_packet packet pt (b0 AND 0x1F) actions s;
            case r of
              (Inl e, s) \<Rightarrow> Some (Inl e, s)
            | (Inr actions, s) \<Rightarrow> apply_loop rtcp (offset + packet_size) actions s
          }
        }
      else Some (Inr actions, s))"
  by pat_completeness auto
termination by (relation "measure (\<lambda>(rtcp, offset, actions, s). length rtcp - offset)") auto

declare apply_loop.simps [simp del]

definition apply_feedback_rtcp :: "video_sender \<Rightarrow> bytes \<Rightarrow> (nat result \<times> video_sender) option" where
  "apply_feedback_rtcp s rtcp = apply_loop rtcp 0 0 s"

section \<open>From the sender to the receiver\<close>

text \<open>The RTP packet of a call of the packet callback, as the owner of the transport builds it.\<close>

definition rtp_packet :: "sender_config \<Rightarrow> bytes \<times> u32 \<times> u16 \<times> bool \<Rightarrow> packet_builder" where
  "rtp_packet c = (\<lambda>(payload, ts, sq, marker). set_payload payload (set_marker marker (set_seq sq (set_timestamp ts
     (set_payload_type (s_payload_type c) (set_ssrc (s_ssrc c) reset_builder))))))"

definition annex_frame :: "bytes \<Rightarrow> encoded_frame" where
  "annex_frame n = \<lparr>ef_codec = CodecH264, nalu_format = AnnexBStartCode, ef_payload = annex_b_framed [n], ef_is_keyframe = False,
     ef_payload_type = 0, ef_capture_ts_us = 0, ef_rtp_timestamp = 0, ef_frame_seq = 0\<rparr>"

fun send_nals :: "(bytes \<times> u32) list \<Rightarrow> video_sender \<Rightarrow> video_sender option" where
  "send_nals [] s = Some s"
| "send_nals ((n, ts) # fs) s = push_frame (annex_frame n) ts s \<bind> (\<lambda>(r, s). send_nals fs s)"

inductive carried :: "(bytes \<times> u32) list \<Rightarrow> (bytes \<times> u32 \<times> u16 \<times> bool) list \<Rightarrow> bool" where
  carried_nil: "carried [] []"
| carried_nal: "carries ps [n] \<Longrightarrow> carried fs calls \<Longrightarrow> carried ((n, ts) # fs) (map call_of (packets_from sq ts ps) @ calls)"

lemma rtp_packet_view:
  "encodable (rtp_packet c call)"
  "pv_payload (rtp_view (rtp_packet c (payload, ts, sq, marker))) = payload"
  "pv_timestamp (rtp_view (rtp_packet c (payload, ts, sq, marker))) = ts"
  "pv_seq (rtp_view (rtp_packet c (payload, ts, sq, marker))) = sq"
  "pv_marker (rtp_view (rtp_packet c (payload, ts, sq, marker))) = marker"
  by (simp_all add: rtp_packet_def rtp_view_def encodable_def builder_wf_def setter_defs reset_builder_def split: prod.split)

lemma send_nals_carried:
  assumes "sender_ok (s_cfg s) s" "has_packet_cb s" "s_mode (s_cfg s) \<noteq> Interleaved" "3 \<le> unat (s_mtu (s_cfg s))"
    and "list_all (\<lambda>(n, ts). emulation_free n \<and> sendable (unat (s_mtu (s_cfg s))) n) fs"
  shows "\<exists>s' calls. send_nals fs s = Some s' \<and> sent s' = sent s @ calls \<and> carried fs calls"
  using assms
proof (induction fs arbitrary: s)
  case Nil
  then show ?case by (auto intro: carried_nil)
next
  case (Cons f fs)
  obtain n ts where f: "f = (n, ts)" by (cases f)
  have n: "emulation_free n" "sendable (unat (s_mtu (s_cfg s))) n" using Cons.prems(5) by (auto simp: f)
  have ns: "nalus_of (annex_frame n) = [n]" using n(1) by (simp add: nalus_of_def annex_frame_def parse_annex_b_framed)
  have "oversized_first (unat (s_mtu (s_cfg s))) [n]"
    unfolding oversized_first_def by (rule exI [of _ "if length n > unat (s_mtu (s_cfg s)) then 1 else 0"]) auto
  then obtain s1 ps where s1: "emit_h264 [n] ts (begin_frame s) = Some (Inr (), s1)" "emits ts ps (begin_frame s) s1" "carries ps [n]"
    using emit_h264_walked [of "begin_frame s" "[n]" ts] Cons.prems(1-4) n(2) n(1)
    by (auto simp: begin_frame_keeps emulation_free_def)
  have k: "sender_ok (s_cfg s1) s1" "s_cfg s1 = s_cfg s" "has_packet_cb s1" "sent s1 = sent s @ map call_of (packets_from (s_next_seq s) ts ps)"
    using s1(2) emitsE [OF s1(2)] Cons.prems(2) by (auto simp: emits_def begin_frame_keeps)
  obtain s' calls where "send_nals fs s1 = Some s'" "sent s' = sent s1 @ calls" "carried fs calls"
    using Cons.IH [of s1] k Cons.prems by (auto simp: f)
  moreover have "push_frame (annex_frame n) ts s = Some (Inr (), s1)"
    using s1(1) ns by (simp add: push_frame_h264 annex_frame_def)
  ultimately show ?case using k(4) carried_nal [OF s1(3)] by (auto simp: f)
qed

definition received_as :: "bytes \<times> u32 \<times> u16 \<times> bool \<Rightarrow> packet_view \<times> int \<Rightarrow> bool" where
  "received_as call p \<longleftrightarrow> pv_payload (fst p) = fst call \<and> pv_timestamp (fst p) = fst (snd call) \<and> pv_marker (fst p) = snd (snd (snd call))"

lemma received_views:
  "list_all2 received_as (map call_of (packets_from sq ts ps)) vs \<Longrightarrow> views_of ts ps vs"
proof (induction sq ts ps arbitrary: vs rule: packets_from.induct)
  case (2 sq ts payload marker ps)
  then show ?case by (cases vs) (auto simp: views_of_def received_as_def call_of_def case_prod_unfold)
qed (simp add: views_of_def)

lemma push_all_append: "push_all fl vs s = Some s1 \<Longrightarrow> push_all fl (vs @ ws) s = push_all fl ws s1"
  by (simp add: push_all_def)

lemma push_carried:
  assumes "carried fs calls" "list_all2 received_as calls vs" "between_frames keys s"
    and "list_all (\<lambda>(n, ts). proper_nal n) fs" "distinct (map snd fs)" "snd ` set fs \<inter> keys = {}"
  shows "\<exists>s'. push_all fl vs s = Some s' \<and> deliveries s' = deliveries s @ fs"
  using assms
proof (induction arbitrary: vs keys s rule: carried.induct)
  case carried_nil
  then show ?case by (simp add: push_all_simps)
next
  case (carried_nal ps n fs calls ts sq)
  obtain vs1 vs2 where vs: "vs = vs1 @ vs2" "list_all2 received_as (map call_of (packets_from sq ts ps)) vs1" "list_all2 received_as calls vs2"
    using carried_nal.prems(1) by (auto simp: list_all2_append1)
  obtain s1 where s1: "push_all fl vs1 s = Some s1" "between_frames (insert ts keys) s1" "deliveries s1 = deliveries s @ [(n, ts)]"
    using push_nal [OF carried_nal.prems(2) carried_nal.hyps(1) received_views [OF vs(2)], of fl] carried_nal.prems(3,5) by auto
  have rest: "list_all (\<lambda>(n, ts). proper_nal n) fs" "distinct (map snd fs)" "snd ` set fs \<inter> insert ts keys = {}"
    using carried_nal.prems(3-5) by auto
  obtain s' where "push_all fl vs2 s1 = Some s'" "deliveries s' = deliveries s1 @ fs"
    using carried_nal.IH [OF vs(3) s1(2) rest] by auto
  then show ?case using s1 by (simp add: vs(1) push_all_append)
qed

section \<open>The feedback loop\<close>


lemma length_pack_deltas: "length (pack_deltas anchor ds) \<le> length ds"
proof (induction anchor ds rule: pack_deltas.induct)
  case (2 anchor d ds)
  obtain b rest where "collect_blp d ds 0 = (b, rest)" by (cases "collect_blp d ds 0")
  then show ?case using 2 [of "(b, rest)" b rest] collect_blp_shrinks [of d ds 0 b rest] by simp
qed simp

lemma length_pack_nack: "length (pack_nack_entries seqs) \<le> length seqs"
proof (cases seqs)
  case (Cons a rest)
  have "length (remdups_adj (sort (map (nack_delta a) seqs))) \<le> length seqs"
    by (metis remdups_adj_length length_map length_sort)
  then show ?thesis using length_pack_deltas [of a "remdups_adj (sort (map (nack_delta a) seqs))"] Cons
    by (simp add: pack_nack_entries_def Let_def)
qed (simp add: pack_nack_entries_def)

text \<open>Retransmitting leaves the cache alone, so each request of a NACK is answered from the same packets.\<close>

lemma retransmit_keeps:
  "rtx_cache (snd (retransmit sq s)) = rtx_cache s" "has_packet_cb (snd (retransmit sq s)) = has_packet_cb s"
  "s_keyframe_pending (snd (retransmit sq s)) = s_keyframe_pending s" "fst (retransmit sq s) = (find_cached sq s \<noteq> None)"
  "has_packet_cb s \<Longrightarrow> sent (snd (retransmit sq s)) = sent s @ (case find_cached sq s of None \<Rightarrow> [] | Some p \<Rightarrow> [call_of p])"
  by (simp_all add: retransmit_def call_packet_cb_def call_of_def Let_def split: option.split)

definition cached_answers :: "video_sender \<Rightarrow> u16 list \<Rightarrow> cached_packet list" where
  "cached_answers s seqs = List.map_filter (\<lambda>sq. find_cached sq s) seqs"

lemma retransmit_all_answers:
  assumes "has_packet_cb s"
  shows "\<exists>s'. retransmit_all seqs k s = (k + length (cached_answers s seqs), s') \<and> sent s' = sent s @ map call_of (cached_answers s seqs)
    \<and> s_keyframe_pending s' = s_keyframe_pending s"
  using assms
proof (induction seqs arbitrary: k s)
  case (Cons sq seqs)
  obtain ok s1 where r: "retransmit sq s = (ok, s1)" by (cases "retransmit sq s")
  note keep = retransmit_keeps [where sq = sq and s = s, unfolded r fst_conv snd_conv]
  have "find_cached q s1 = find_cached q s" for q using keep(1) by (simp add: find_cached_def)
  then have "cached_answers s1 = cached_answers s" by (simp add: cached_answers_def fun_eq_iff)
  then show ?case using Cons.IH [of s1 "if ok then k + 1 else k"] keep Cons.prems r
    by (auto simp: cached_answers_def List.map_filter_simps split: option.splits)
qed (simp add: cached_answers_def List.map_filter_simps)

lemma apply_loop_message:
  fixes pt :: u8
  assumes "length body + 4 = n" "n mod 4 = 0" "12 \<le> n" "n \<le> 262144" "fmt \<in> {1, 2, 4}"
  defines "msg \<equiv> fb_message fmt pt n body"
  shows "apply_loop (pre @ msg @ post) (length pre) k s = apply_packet msg pt fmt k s \<bind> (\<lambda>r. case r of
      (Inl e, s) \<Rightarrow> Some (Inl e, s) | (Inr k, s) \<Rightarrow> apply_loop (pre @ msg @ post) (length pre + n) k s)"
proof -
  have len: "length msg = n" using assms(1) by (simp add: msg_def)
  have v: "fb_byte0 fmt AND 0x1F = fmt" using assms(5) by (auto simp: fb_byte0_def)
  define j where "j = n div 4 - 1"
  have j: "n = 4 * (j + 1)" "j < 65536" using assms(2-4) by (auto simp: j_def)
  have t: "(unat (of_nat j :: u16) + 1) * 4 = n" using j by (simp add: unat_of_nat)
  have b: "rd (pre @ msg @ post) (length pre) = Some (fb_byte0 fmt)" "rd (pre @ msg @ post) (length pre + 1) = Some pt"
    "rd_be16 (pre @ msg @ post) (length pre + 2) = Some (of_nat j)"
    using len assms(3) by (simp_all add: wire_simps) (simp_all add: msg_def fb_message_def be16_def length_from_bytes_def codec_simps nth_append j_def)
  have sub: "subspan (pre @ msg @ post) (length pre) n = Some msg" using len by (simp add: subspan_def)
  have c: "length pre < length (pre @ msg @ post)" "\<not> length (pre @ msg @ post) - length pre < kFbHeaderSize"
    "\<not> (n < kFbHeaderSize \<or> length pre + n > length (pre @ msg @ post))"
    using len assms(3) by (simp_all add: kFbHeaderSize_def)
  show ?thesis
    unfolding apply_loop.simps [of "pre @ msg @ post" "length pre"] if_P [OF c(1)] if_not_P [OF c(2)] b bind.bind_lunit Let_def t
      if_not_P [OF c(3)] sub v ..
qed

lemma apply_loop_end: "apply_loop rtcp (length rtcp) k s = Some (Inr k, s)"
  by (subst apply_loop.simps) simp

lemma pack_nack_nonempty: "seqs \<noteq> [] \<Longrightarrow> pack_nack_entries seqs \<noteq> []"
  using unpack_pack [of 0 0 seqs] by (auto simp: unpack_nack_entries_def)

text \<open>The two messages of a report.\<close>

definition nack_of :: "receiver_feedback \<Rightarrow> u32 \<Rightarrow> u32 \<Rightarrow> fb_nack_packet" where
  "nack_of fb a b = \<lparr>fbn_sender_ssrc = a, fbn_media_ssrc = b, fbn_entries = pack_nack_entries (missing_packets fb)\<rparr>"

definition report_wire :: "receiver_feedback \<Rightarrow> u32 \<Rightarrow> u32 \<Rightarrow> bytes" where
  "report_wire fb a b = (if missing_packets fb \<noteq> [] then nack_wire [] (nack_of fb a b) else [])
     @ (if keyframe_requested fb then pli_wire [] \<lparr>pli_sender_ssrc = a, pli_media_ssrc = b\<rparr> else [])"

lemma length_report_wire: "length (report_wire fb a b) = feedback_rtcp_size fb"
  by (simp add: report_wire_def feedback_rtcp_size_def length_wire nack_of_def fb_consts)

lemma build_feedback_fits:
  assumes "feedback_rtcp_size fb \<le> length out"
  shows "build_feedback_rtcp out fb a b = Some (feedback_rtcp_size fb, report_wire fb a b @ drop (feedback_rtcp_size fb) out)"
proof -
  define n where "n = (if missing_packets fb \<noteq> [] then 12 + length (pack_nack_entries (missing_packets fb)) * 4 else 0)"
  have size: "feedback_rtcp_size fb = n + (if keyframe_requested fb then 12 else 0)"
    by (simp add: feedback_rtcp_size_def n_def fb_consts)
  define first where "first = (if missing_packets fb \<noteq> [] then nack_wire [] (nack_of fb a b) else [])"
  have len: "length first = n" by (simp add: first_def n_def length_wire nack_of_def)
  have nack: "(if missing_packets fb \<noteq> [] \<and> pack_nack_entries (missing_packets fb) \<noteq> []
      then map_option (\<lambda>(n, out). (n \<noteq> 0, n, out)) (build_at 0 (\<lambda>part. fb_build_nack part (nack_of fb a b)) out)
      else Some (True, 0, out)) = Some (True, n, first @ drop n out)"
    using assms size pack_nack_nonempty [of "missing_packets fb"] build_nack_fits [of "nack_of fb a b" out]
    by (auto simp: build_at_def first_def n_def nack_of_def nack_wire_def)
  have pli: "build_at n (\<lambda>part. build_pli part p) (first @ drop n out) = Some (12, first @ pli_wire [] p @ drop (n + 12) out)"
    if "keyframe_requested fb" for p
    using that assms size build_pli_fits [of "drop n out" p] len by (auto simp: build_at_def pli_wire_def add.commute)
  show ?thesis
    using assms pli unfolding build_feedback_rtcp_def Let_def nack_of_def [symmetric] nack
    by (auto simp: size report_wire_def first_def [symmetric])
qed

lemma apply_nack:
  assumes "missing_packets fb \<noteq> []" "length (missing_packets fb) \<le> 65533" "has_packet_cb s"
  shows "\<exists>seqs s'. set seqs = set (missing_packets fb) \<and> distinct seqs
    \<and> apply_packet (nack_wire [] (nack_of fb a b)) kRtpfbPt kFmtNack 0 s = Some (Inr (length (cached_answers s seqs)), s')
    \<and> sent s' = sent s @ map call_of (cached_answers s seqs) \<and> s_keyframe_pending s' = s_keyframe_pending s"
proof -
  define seqs where "seqs = unpack_nack_entries (nack_of fb a b)"
  have u: "set seqs = set (missing_packets fb)" "distinct seqs" using unpack_pack by (simp_all add: seqs_def nack_of_def)
  have wf: "fb_nack_wf (nack_of fb a b)"
    using assms(2) length_pack_nack [of "missing_packets fb"] pack_nack_nonempty [OF assms(1)]
    by (simp add: fb_nack_wf_def nack_of_def Suc_le_eq)
  obtain s' where r: "retransmit_all seqs 0 s = (length (cached_answers s seqs), s')"
    "sent s' = sent s @ map call_of (cached_answers s seqs)" "s_keyframe_pending s' = s_keyframe_pending s"
    using retransmit_all_answers [OF assms(3), of seqs 0] by auto
  have "12 \<le> length (nack_wire [] (nack_of fb a b))" by (simp add: length_wire)
  then have "apply_packet (nack_wire [] (nack_of fb a b)) kRtpfbPt kFmtNack 0 s = Some (Inr (length (cached_answers s seqs)), s')"
    using r(1) parse_nack_wire [OF wf, of "[]"] by (simp add: apply_packet_def seqs_def [symmetric] kNackMinSize_def fb_consts)
  then show ?thesis using u r by blast
qed

lemma apply_pli:
  "apply_packet (pli_wire [] p) kPsfbPt kFmtPli k s = Some (Inr (k + 1), force_keyframe s)"
  using parse_pli_wire [of "[]" p] length_wire(1) [of "[]" p] by (simp add: apply_packet_def fb_consts)

lemma apply_loop_pli:
  "apply_loop (pre @ pli_wire [] p) (length pre) k s = Some (Inr (k + 1), force_keyframe s)"
proof -
  have "apply_loop (pre @ pli_wire [] p @ []) (length pre) k s = apply_packet (pli_wire [] p) kPsfbPt kFmtPli k s \<bind> (\<lambda>r. case r of
      (Inl e, s) \<Rightarrow> Some (Inl e, s) | (Inr k, s) \<Rightarrow> apply_loop (pre @ pli_wire [] p @ []) (length pre + 12) k s)"
    unfolding pli_wire_def by (rule apply_loop_message) (simp_all add: kFmtPli_def)
  then show ?thesis using apply_loop_end [of "pre @ pli_wire [] p"] by (simp add: apply_pli length_wire)
qed

lemma apply_loop_nack:
  assumes "missing_packets fb \<noteq> []" "length (missing_packets fb) \<le> 65533" "has_packet_cb s"
  shows "\<exists>seqs s'. set seqs = set (missing_packets fb) \<and> distinct seqs
    \<and> apply_loop (nack_wire [] (nack_of fb a b) @ post) 0 0 s
        = apply_loop (nack_wire [] (nack_of fb a b) @ post) (length (nack_wire [] (nack_of fb a b))) (length (cached_answers s seqs)) s'
    \<and> sent s' = sent s @ map call_of (cached_answers s seqs) \<and> s_keyframe_pending s' = s_keyframe_pending s"
proof -
  obtain seqs s' where n: "set seqs = set (missing_packets fb)" "distinct seqs"
    "apply_packet (nack_wire [] (nack_of fb a b)) kRtpfbPt kFmtNack 0 s = Some (Inr (length (cached_answers s seqs)), s')"
    "sent s' = sent s @ map call_of (cached_answers s seqs)" "s_keyframe_pending s' = s_keyframe_pending s"
    using apply_nack [OF assms, of a b] by blast
  define m where "m = length (fbn_entries (nack_of fb a b))"
  have m: "m \<le> 65533" using assms(2) length_pack_nack [of "missing_packets fb"] by (simp add: m_def nack_of_def)
  have "apply_loop ([] @ nack_wire [] (nack_of fb a b) @ post) (length ([] :: bytes)) 0 s
      = apply_packet (nack_wire [] (nack_of fb a b)) kRtpfbPt kFmtNack 0 s \<bind> (\<lambda>r. case r of
      (Inl e, s) \<Rightarrow> Some (Inl e, s) | (Inr k, s) \<Rightarrow> apply_loop ([] @ nack_wire [] (nack_of fb a b) @ post) (length ([] :: bytes) + (12 + m * 4)) k s)"
    unfolding nack_wire_def m_def by (rule apply_loop_message) (use m in \<open>simp_all add: kFmtNack_def m_def\<close>)
  then have "apply_loop (nack_wire [] (nack_of fb a b) @ post) 0 0 s
        = apply_loop (nack_wire [] (nack_of fb a b) @ post) (length (nack_wire [] (nack_of fb a b))) (length (cached_answers s seqs)) s'"
    by (simp add: n(3) length_wire m_def)
  then show ?thesis using n(1,2,4,5) by blast
qed

lemma apply_report:
  assumes "length (missing_packets fb) \<le> 65533" "has_packet_cb s"
  shows "\<exists>seqs s'. set seqs = set (missing_packets fb) \<and> distinct seqs
    \<and> apply_feedback_rtcp s (report_wire fb a b) = Some (Inr (length (cached_answers s seqs) + (if keyframe_requested fb then 1 else 0)), s')
    \<and> sent s' = sent s @ map call_of (cached_answers s seqs) \<and> s_keyframe_pending s' = (keyframe_requested fb \<or> s_keyframe_pending s)"
proof -
  define p where "p = \<lparr>pli_sender_ssrc = a, pli_media_ssrc = b\<rparr>"
  define first where "first = (if missing_packets fb \<noteq> [] then nack_wire [] (nack_of fb a b) else [])"
  define post where "post = (if keyframe_requested fb then pli_wire [] p else [])"
  have w: "report_wire fb a b = first @ post" by (simp add: report_wire_def first_def post_def p_def)
  obtain seqs s1 where n: "set seqs = set (missing_packets fb)" "distinct seqs"
    "apply_loop (first @ post) 0 0 s = apply_loop (first @ post) (length first) (length (cached_answers s seqs)) s1"
    "sent s1 = sent s @ map call_of (cached_answers s seqs)" "s_keyframe_pending s1 = s_keyframe_pending s"
  proof (cases "missing_packets fb = []")
    case True
    show ?thesis by (rule that [of "[]" s]) (simp_all add: True first_def cached_answers_def List.map_filter_simps)
  next
    case False
    then show ?thesis using apply_loop_nack [OF False assms, of a b post] that by (auto simp: first_def)
  qed
  have "apply_loop (first @ post) (length first) k s1 =
      Some (Inr (k + (if keyframe_requested fb then 1 else 0)), if keyframe_requested fb then force_keyframe s1 else s1)" for k
    using apply_loop_pli [of first p k s1] apply_loop_end [of first k s1] by (simp add: post_def)
  then show ?thesis using n
    by (intro exI [of _ seqs] exI [of _ "if keyframe_requested fb then force_keyframe s1 else s1"])
      (simp add: apply_feedback_rtcp_def w force_keyframe_def)
qed

section \<open>Every RTCP input\<close>

lemma apply_packet_total:
  "\<exists>r s'. apply_packet packet pt fmt k s = Some (r, s') \<and> (r = Inl ProtocolError \<or> (\<exists>j. r = Inr j))"
  using parse_nack_cases [of packet] parse_pli_cases [of packet] parse_fir_cases [of packet]
  by (auto simp: apply_packet_def Let_def split: prod.split)

lemma apply_loop_total:
  "\<exists>r s'. apply_loop rtcp offset k s = Some (r, s') \<and> (r = Inl ProtocolError \<or> (\<exists>j. r = Inr j))"
proof (induction "length rtcp - offset" arbitrary: offset k s rule: less_induct)
  case less
  show ?case
  proof (cases "offset < length rtcp \<and> \<not> length rtcp - offset < kFbHeaderSize")
    case False
    then show ?thesis by (subst apply_loop.simps) auto
  next
    case True
    then have in_range: "offset + 3 < length rtcp" by (auto simp: kFbHeaderSize_def)
    define w where "w = be16_of (rtcp ! (offset + 2)) (rtcp ! (offset + 3))"
    define n where "n = (unat w + 1) * 4"
    have step: "apply_loop rtcp offset k s = (if n < kFbHeaderSize \<or> offset + n > length rtcp then Some (Inl ProtocolError, s)
      else do { packet \<leftarrow> subspan rtcp offset n; r \<leftarrow> apply_packet packet (rtcp ! (offset + 1)) (rtcp ! offset AND 0x1F) k s;
        case r of (Inl e, s) \<Rightarrow> Some (Inl e, s) | (Inr k, s) \<Rightarrow> apply_loop rtcp (offset + n) k s })"
    proof -
      have r: "rd rtcp offset = Some (rtcp ! offset)" "rd rtcp (offset + 1) = Some (rtcp ! (offset + 1))" "rd_be16 rtcp (offset + 2) = Some w"
        using in_range by (simp_all add: rd_Some rd_be16_Some w_def numeral_3_eq_3)
      show ?thesis using True unfolding apply_loop.simps [of rtcp offset] r bind.bind_lunit Let_def n_def [symmetric] by auto
    qed
    show ?thesis
    proof (cases "n < kFbHeaderSize \<or> offset + n > length rtcp")
      case False
      obtain r s' where r: "apply_packet (take n (drop offset rtcp)) (rtcp ! (offset + 1)) (rtcp ! offset AND 0x1F) k s = Some (r, s')"
        "r = Inl ProtocolError \<or> (\<exists>j. r = Inr j)" using apply_packet_total by blast
      have "length rtcp - (offset + n) < length rtcp - offset" using True by (auto simp: n_def)
      then show ?thesis using False r less by (auto simp: step subspan_Some)
    qed (simp add: step)
  qed
qed

section \<open>Properties\<close>


definition sample_sender_config :: sender_config where
  "sample_sender_config = \<lparr>s_codec = CodecH264, s_ssrc = 7, s_payload_type = 102, s_mtu = 9, s_mode = NonInterleaved,
     s_initial_seq = 65535, retransmit_cache_packets = 4\<rparr>"


text \<open>
  C3: the feedback loop. Receiver feedback that fits into the output span is encoded there without touching the rest
  of it, and applying the encoded report to a sender repeats exactly those of the missing packets that are still in its
  cache, each once, counts them, and asks for a key frame exactly when the receiver did.
\<close>

theorem feedback_loop_exact:
  assumes "feedback_rtcp_size fb \<le> length out" "length (missing_packets fb) \<le> 65533" "has_packet_cb s"
  shows "\<exists>n out' seqs s'. build_feedback_rtcp out fb a b = Some (n, out') \<and> drop n out' = drop n out
    \<and> set seqs = set (missing_packets fb) \<and> distinct seqs
    \<and> apply_feedback_rtcp s (take n out') = Some (Inr (length (cached_answers s seqs) + (if keyframe_requested fb then 1 else 0)), s')
    \<and> sent s' = sent s @ map call_of (cached_answers s seqs) \<and> s_keyframe_pending s' = (keyframe_requested fb \<or> s_keyframe_pending s)"
proof -
  obtain seqs s' where "set seqs = set (missing_packets fb)" "distinct seqs"
    "apply_feedback_rtcp s (report_wire fb a b) = Some (Inr (length (cached_answers s seqs) + (if keyframe_requested fb then 1 else 0)), s')"
    "sent s' = sent s @ map call_of (cached_answers s seqs)" "s_keyframe_pending s' = (keyframe_requested fb \<or> s_keyframe_pending s)"
    using apply_report [OF assms(2,3), of a b] by blast
  moreover have "take (feedback_rtcp_size fb) (report_wire fb a b @ drop (feedback_rtcp_size fb) out) = report_wire fb a b"
    "drop (feedback_rtcp_size fb) (report_wire fb a b @ drop (feedback_rtcp_size fb) out) = drop (feedback_rtcp_size fb) out"
    by (simp_all add: length_report_wire [of fb a b, symmetric])
  ultimately show ?thesis using build_feedback_fits [OF assms(1), of a b]
    by (intro exI [of _ "feedback_rtcp_size fb"] exI [of _ "report_wire fb a b @ drop (feedback_rtcp_size fb) out"] exI [of _ seqs] exI [of _ s']) simp
qed

theorem feedback_loop_exact_witness:
  "\<exists>n out' seqs s'. build_feedback_rtcp (replicate 40 0) \<lparr>missing_packets = [7, 9], keyframe_requested = True\<rparr> 1 2 = Some (n, out')
    \<and> set seqs = {7, 9} \<and> distinct seqs
    \<and> apply_feedback_rtcp (sample_sender 9) (take n out') = Some (Inr (length (cached_answers (sample_sender 9) seqs) + 1), s')
    \<and> s_keyframe_pending s'"
proof -
  have "length (pack_nack_entries [7, 9]) \<le> 2" using length_pack_nack [of "[7, 9]"] by simp
  then show ?thesis
    using feedback_loop_exact [of "\<lparr>missing_packets = [7, 9], keyframe_requested = True\<rparr>" "replicate 40 0" "sample_sender 9" 1 2]
    by (auto simp: feedback_rtcp_size_def fb_consts sample_sender_simps)
qed

text \<open>
  C29: applying any RTCP datagram to a sender stays in bounds and ends, and either reports a protocol error or
  returns the number of actions taken.
\<close>

theorem apply_feedback_total:
  "\<exists>r s'. apply_feedback_rtcp s rtcp = Some (r, s') \<and> (r = Inl ProtocolError \<or> (\<exists>actions. r = Inr actions))"
  unfolding apply_feedback_rtcp_def by (rule apply_loop_total)

end
