(* ===== verification/Sdp_Parser.thy ===== *)
theory Sdp_Parser
  imports Prelude "HOL-Library.Char_ord" "HOL-Library.List_Lexorder"
begin

text \<open>
  The parser of session descriptions: \<^verbatim>\<open>src/modules/sdp/src/parser.cpp\<close> with the data types of
  \<^verbatim>\<open>session_description.hpp\<close>. A string or \<^verbatim>\<open>string_view\<close> is a list of characters, and a \<^verbatim>\<open>std::map\<close> keyed by strings
  an association list kept in the order of the keys. \<^verbatim>\<open>string_view::substr\<close> throws \<^verbatim>\<open>std::out_of_range\<close> when it starts
  behind the end of the view; \<open>None\<close> is this exception, which \<^verbatim>\<open>Parser::parse\<close> lets through.
\<close>

section \<open>Data\<close>

datatype media_type = Audio | Video | Application | Data | Other

datatype direction = SendRecv | SendOnly | RecvOnly | Inactive

record msid =
  stream_id :: string
  track_id :: string

record rtp_map =
  rm_encoding :: string
  rm_clock_rate :: u32
  rm_channels :: u32

record ext_map =
  em_id :: int
  em_direction :: direction
  em_uri :: string
  em_params :: "(string \<times> string) list"

record media_description =
  md_type :: media_type
  md_port :: u16
  md_protocol :: string
  md_formats :: "string list"
  md_direction :: direction
  md_mid :: string
  md_ice_ufrag :: string
  md_ice_pwd :: string
  md_ice_options :: string
  md_fingerprint_algo :: string
  md_fingerprint_value :: string
  md_setup :: string
  md_rtcp_mux :: string
  md_rtpmap :: "(string \<times> rtp_map) list"
  md_fmtp :: "(string \<times> string) list"
  md_rtcp_fb :: "string list"
  md_extmap :: "ext_map list"
  md_candidates :: "string list"
  md_extra_attrs :: "(string \<times> string) list"
  md_connection_address :: string
  md_ttl :: int
  md_address_family :: int
  md_msid :: "msid option"

record session_description =
  sd_version :: int
  sd_session_id :: string
  sd_session_name :: string
  sd_session_info :: string
  sd_uri :: string
  sd_origin_username :: string
  sd_origin_session_id :: string
  sd_origin_session_version :: string
  sd_origin_address :: string
  sd_bundle_mids :: "string list"
  sd_ice_options :: string
  sd_msid_semantic_token :: string
  sd_msid_semantic_streams :: "string list"
  sd_msids :: "msid list"
  sd_fingerprint_algo :: string
  sd_fingerprint_value :: string
  sd_setup :: string
  sd_extra_attrs :: "(string \<times> string) list"
  sd_connection_address :: string
  sd_connection_ttl :: int
  sd_address_family :: int
  sd_media :: "media_description list"

definition new_rtp_map :: rtp_map where
  "new_rtp_map = \<lparr>rm_encoding = [], rm_clock_rate = 0, rm_channels = 1\<rparr>"

definition new_ext_map :: ext_map where
  "new_ext_map = \<lparr>em_id = 0, em_direction = SendRecv, em_uri = [], em_params = []\<rparr>"

definition new_media_description :: media_description where
  "new_media_description = \<lparr>md_type = Audio, md_port = 0, md_protocol = [], md_formats = [], md_direction = SendRecv,
     md_mid = [], md_ice_ufrag = [], md_ice_pwd = [], md_ice_options = [], md_fingerprint_algo = [],
     md_fingerprint_value = [], md_setup = [], md_rtcp_mux = [], md_rtpmap = [], md_fmtp = [], md_rtcp_fb = [],
     md_extmap = [], md_candidates = [], md_extra_attrs = [], md_connection_address = ''0.0.0.0'', md_ttl = 0,
     md_address_family = 4, md_msid = None\<rparr>"

definition new_session_description :: session_description where
  "new_session_description = \<lparr>sd_version = 0, sd_session_id = [], sd_session_name = ''-'', sd_session_info = [], sd_uri = [],
     sd_origin_username = ''-'', sd_origin_session_id = [], sd_origin_session_version = [], sd_origin_address = ''0.0.0.0'',
     sd_bundle_mids = [], sd_ice_options = [], sd_msid_semantic_token = ''WMS'', sd_msid_semantic_streams = [], sd_msids = [],
     sd_fingerprint_algo = [], sd_fingerprint_value = [], sd_setup = [], sd_extra_attrs = [], sd_connection_address = [],
     sd_connection_ttl = 0, sd_address_family = 4, sd_media = []\<rparr>"

section \<open>Characters and tokens\<close>

definition is_digit :: "char \<Rightarrow> bool" where
  "is_digit c \<longleftrightarrow> 48 \<le> (of_char c :: nat) \<and> (of_char c :: nat) \<le> 57"

definition is_space :: "char \<Rightarrow> bool" where
  "is_space c \<longleftrightarrow> c = CHR '' '' \<or> c = CHR 0x09"

definition is_eol :: "char \<Rightarrow> bool" where
  "is_eol c \<longleftrightarrow> c = CHR 0x0D \<or> c = CHR 0x0A"

definition digit :: "char \<Rightarrow> nat" where
  "digit c = of_char c - 48"

text \<open>\<^verbatim>\<open>string_view::find\<close> of a character, \<^verbatim>\<open>substr\<close> to the end, \<^verbatim>\<open>starts_with\<close>, and \<^verbatim>\<open>std::map::emplace\<close>, which keeps an existing entry.\<close>

definition find_char :: "char \<Rightarrow> string \<Rightarrow> nat option" where
  "find_char c s = (if c \<in> set s then Some (length (takeWhile (\<lambda>x. x \<noteq> c) s)) else None)"

definition substr :: "string \<Rightarrow> nat \<Rightarrow> string option" where
  "substr s pos = (if pos \<le> length s then Some (drop pos s) else None)"

fun starts_with :: "string \<Rightarrow> string \<Rightarrow> bool" where
  "starts_with s [] \<longleftrightarrow> True"
| "starts_with [] (c # p) \<longleftrightarrow> False"
| "starts_with (x # s) (c # p) \<longleftrightarrow> x = c \<and> starts_with s p"

fun emplace :: "string \<Rightarrow> 'v \<Rightarrow> (string \<times> 'v) list \<Rightarrow> (string \<times> 'v) list" where
  "emplace k v [] = [(k, v)]"
| "emplace k v ((k', v') # m) =
     (if k < k' then (k, v) # (k', v') # m else if k = k' then (k', v') # m else (k', v') # emplace k v m)"

definition split_at :: "string \<Rightarrow> char \<Rightarrow> string \<times> string" where
  "split_at line delim = (case find_char delim line of None \<Rightarrow> (line, []) | Some pos \<Rightarrow> (take pos line, drop (pos + 1) line))"

definition trim :: "string \<Rightarrow> string" where
  "trim s = rev (dropWhile is_space (rev (dropWhile is_space s)))"

primrec uint16_digits :: "string \<Rightarrow> u16 \<Rightarrow> u16 option" where
  "uint16_digits [] r = Some r"
| "uint16_digits (c # s) r = (if \<not> is_digit c then None else uint16_digits s (r * 10 + of_nat (digit c)))"

definition parse_uint16 :: "string \<Rightarrow> u16 option" where
  "parse_uint16 s = (if s = [] then None else uint16_digits s 0)"

text \<open>The accumulator is 64 bits wide and at most ten times \<open>2\<^sup>3\<^sup>2\<close> when it is tested.\<close>

primrec uint32_digits :: "string \<Rightarrow> nat \<Rightarrow> u32 option" where
  "uint32_digits [] r = Some (of_nat r)"
| "uint32_digits (c # s) r =
     (if \<not> is_digit c then None
      else let r = r * 10 + digit c in if r > 0xFFFFFFFF then None else uint32_digits s r)"

definition parse_uint32 :: "string \<Rightarrow> u32 option" where
  "parse_uint32 s = (if s = [] then None else uint32_digits s 0)"

definition next_token :: "string \<Rightarrow> string \<times> string" where
  "next_token s =
     (let s = trim s in
      if s = [] then ([], [])
      else case find_char CHR '' '' s of None \<Rightarrow> (s, []) | Some pos \<Rightarrow> (take pos s, drop (pos + 1) s))"

lemma length_trim: "length (trim s) \<le> length s"
  by (metis trim_def length_rev length_dropWhile_le le_trans)

lemma next_token_shorter: "s \<noteq> [] \<Longrightarrow> length (snd (next_token s)) < length s"
  using length_trim [of s] by (auto simp: next_token_def Let_def split: option.splits)
    (metis diff_Suc_less length_greater_0_conv less_le_trans)

lemma next_token_rest: "(token, rest) = next_token s \<Longrightarrow> s \<noteq> [] \<Longrightarrow> length rest < length s"
  using next_token_shorter [of s] by (metis snd_conv)

section \<open>Line parsers\<close>

definition parse_origin :: "string \<Rightarrow> session_description \<Rightarrow> session_description" where
  "parse_origin value out =
     (let (username, sv) = next_token value;
          (session_id, sv) = next_token sv;
          (session_version, sv) = next_token sv;
          (nettype, sv) = next_token sv;
          (addrtype, sv) = next_token sv
      in out\<lparr>sd_origin_username := username, sd_origin_session_id := session_id,
           sd_origin_session_version := session_version, sd_origin_address := trim sv\<rparr>)"

text \<open>The address, the TTL and the address family of a \<^verbatim>\<open>c=\<close> line, from an initial TTL of 0.\<close>

definition parse_connection :: "string \<Rightarrow> string \<times> int \<times> int" where
  "parse_connection value =
     (let (nettype, sv) = next_token value;
          (addrtype, sv) = next_token sv;
          family = (if addrtype = ''IP6'' then 6 else 4);
          addr = trim sv
      in case find_char CHR ''/'' addr of
           Some slash \<Rightarrow>
             (take slash addr, (case parse_uint16 (drop (slash + 1) addr) of Some t \<Rightarrow> uint t | None \<Rightarrow> 0), family)
         | None \<Rightarrow> (addr, 0, family))"

definition parse_bandwidth :: "string \<Rightarrow> string \<times> u64" where
  "parse_bandwidth value =
     (let (modifier, sv) = next_token value
      in (modifier, fold (\<lambda>c v. if is_digit c then v * 10 + of_nat (digit c) else v) (trim sv) 0))"

text \<open>The tokens of a list separated by spaces: the loops over formats and over BUNDLE identifiers.\<close>

function tokens :: "string \<Rightarrow> string list" where
  "tokens sv =
     (if sv = [] then []
      else let (token, rest) = next_token sv in if token = [] then [] else token # tokens rest)"
  by pat_completeness auto
termination
  by (relation "measure length") (simp_all add: next_token_rest)

declare tokens.simps [simp del]

definition media_type_of :: "string \<Rightarrow> media_type" where
  "media_type_of media =
     (if media = ''audio'' then Audio else if media = ''video'' then Video
      else if media = ''application'' then Application else if media = ''data'' then Data else Other)"

definition parse_media_desc :: "string \<Rightarrow> media_description \<Rightarrow> media_description" where
  "parse_media_desc value out =
     (let (media, sv) = next_token value;
          out = out\<lparr>md_type := media_type_of media\<rparr>;
          (port_str, sv) = next_token sv;
          out = (case parse_uint16 port_str of Some port \<Rightarrow> out\<lparr>md_port := port\<rparr> | None \<Rightarrow> out);
          (protocol, sv) = next_token sv
      in out\<lparr>md_protocol := protocol, md_formats := md_formats out @ tokens (trim sv)\<rparr>)"

definition parse_rtpmap :: "string \<Rightarrow> string \<times> rtp_map" where
  "parse_rtpmap value =
     (let (fmt, sv) = next_token value;
          (encoding_str, sv) = next_token sv;
          (encoding, remainder) = split_at encoding_str CHR ''/'';
          (clock_str, chan_str) = split_at remainder CHR ''/'';
          m = new_rtp_map\<lparr>rm_encoding := encoding\<rparr>;
          m = (case parse_uint32 clock_str of Some r \<Rightarrow> m\<lparr>rm_clock_rate := r\<rparr> | None \<Rightarrow> m)
      in (fmt, if find_char CHR ''/'' remainder \<noteq> None
               then (case parse_uint32 chan_str of Some r \<Rightarrow> m\<lparr>rm_channels := r\<rparr> | None \<Rightarrow> m) else m))"

definition direction_string :: "direction \<Rightarrow> string" where
  "direction_string d = (case d of SendRecv \<Rightarrow> ''sendrecv'' | SendOnly \<Rightarrow> ''sendonly'' | RecvOnly \<Rightarrow> ''recvonly'' | Inactive \<Rightarrow> ''inactive'')"

definition parse_direction :: "string \<Rightarrow> direction option" where
  "parse_direction s =
     (if s = ''sendrecv'' then Some SendRecv else if s = ''sendonly'' then Some SendOnly
      else if s = ''recvonly'' then Some RecvOnly else if s = ''inactive'' then Some Inactive else None)"

definition add_param :: "string \<Rightarrow> (string \<times> string) list \<Rightarrow> (string \<times> string) list" where
  "add_param param_token params =
     (case find_char CHR ''='' param_token of
        Some eq \<Rightarrow> emplace (take eq param_token) (drop (eq + 1) param_token) params
      | None \<Rightarrow> if param_token \<noteq> [] then emplace param_token [] params else params)"

function ext_params :: "string \<Rightarrow> (string \<times> string) list \<Rightarrow> (string \<times> string) list" where
  "ext_params sv params =
     (if sv = [] then params else let (param_token, rest) = next_token sv in ext_params rest (add_param param_token params))"
  by pat_completeness auto
termination
  by (relation "measure (\<lambda>(sv, p). length sv)") (simp_all add: next_token_rest)

declare ext_params.simps [simp del]

definition parse_extmap :: "string \<Rightarrow> ext_map" where
  "parse_extmap value =
     (let (id_token, sv) = next_token value;
          (id_str, dir_part) = split_at id_token CHR ''/'';
          out = (case parse_uint16 id_str of Some i \<Rightarrow> new_ext_map\<lparr>em_id := uint i\<rparr> | None \<Rightarrow> new_ext_map);
          out = (if dir_part \<noteq> [] then (case parse_direction dir_part of Some d \<Rightarrow> out\<lparr>em_direction := d\<rparr> | None \<Rightarrow> out) else out);
          (uri, sv) = next_token sv
      in out\<lparr>em_uri := uri, em_params := ext_params (trim sv) []\<rparr>)"

section \<open>The parser\<close>

text \<open>The session so far and the media block in progress: the local variables of \<^verbatim>\<open>Parser::parse\<close>.\<close>

record parse_state =
  ps_session :: session_description
  cur_media :: "media_description option"

definition new_parse_state :: parse_state where
  "new_parse_state = \<lparr>ps_session = new_session_description, cur_media = None\<rparr>"

text \<open>\<^verbatim>\<open>if (!cur_media) session... else cur_media...\<close>, and \<^verbatim>\<open>if (cur_media) cur_media...\<close>.\<close>

definition at_level :: "(session_description \<Rightarrow> session_description) \<Rightarrow> (media_description \<Rightarrow> media_description) \<Rightarrow> parse_state \<Rightarrow> parse_state" where
  "at_level f g st = (case cur_media st of
     None \<Rightarrow> st\<lparr>ps_session := f (ps_session st)\<rparr> | Some m \<Rightarrow> st\<lparr>cur_media := Some (g m)\<rparr>)"

definition in_media :: "(media_description \<Rightarrow> media_description) \<Rightarrow> parse_state \<Rightarrow> parse_state" where
  "in_media g st = st\<lparr>cur_media := map_option g (cur_media st)\<rparr>"

definition in_session :: "(session_description \<Rightarrow> session_description) \<Rightarrow> parse_state \<Rightarrow> parse_state" where
  "in_session f st = st\<lparr>ps_session := f (ps_session st)\<rparr>"

definition session_extra :: "string \<Rightarrow> string \<Rightarrow> session_description \<Rightarrow> session_description" where
  "session_extra k v s = s\<lparr>sd_extra_attrs := sd_extra_attrs s @ [(k, v)]\<rparr>"

definition media_extra :: "string \<Rightarrow> string \<Rightarrow> media_description \<Rightarrow> media_description" where
  "media_extra k v m = m\<lparr>md_extra_attrs := md_extra_attrs m @ [(k, v)]\<rparr>"

definition parse_fingerprint :: "string \<Rightarrow> parse_state \<Rightarrow> parse_state" where
  "parse_fingerprint fp st =
     (let (algo, hash) = split_at fp CHR '' ''
      in at_level (\<lambda>s. s\<lparr>sd_fingerprint_algo := algo, sd_fingerprint_value := hash\<rparr>)
           (\<lambda>m. m\<lparr>md_fingerprint_algo := algo, md_fingerprint_value := hash\<rparr>) st)"

definition parse_msid_semantic :: "string \<Rightarrow> parse_state \<Rightarrow> parse_state" where
  "parse_msid_semantic ms st =
     (let (token, streams) = split_at ms CHR '' ''
      in in_session (\<lambda>s. s\<lparr>sd_msid_semantic_token := trim token, sd_msid_semantic_streams :=
           sd_msid_semantic_streams s @ (if trim streams \<noteq> [] then [trim streams] else [])\<rparr>) st)"

definition parse_msid :: "string \<Rightarrow> media_description \<Rightarrow> media_description" where
  "parse_msid msid_str m =
     (let (sid, tid) = split_at msid_str CHR '' '' in m\<lparr>md_msid := Some \<lparr>stream_id = trim sid, track_id = trim tid\<rparr>\<rparr>)"

definition parse_generic :: "string \<Rightarrow> parse_state \<Rightarrow> parse_state" where
  "parse_generic av st =
     (let eq = (case find_char CHR '' '' av of Some p \<Rightarrow> p | None \<Rightarrow> length av);
          key = take eq av;
          val = trim (drop eq av)
      in at_level (session_extra key val) (media_extra key val) st)"

text \<open>An \<^verbatim>\<open>a=\<close> line.\<close>

definition parse_attribute :: "string \<Rightarrow> parse_state \<Rightarrow> parse_state option" where
  "parse_attribute value st =
     (let av = trim value in
      if av = ''rtcp-mux'' then
        Some (at_level (session_extra ''a'' ''rtcp-mux'') (\<lambda>m. m\<lparr>md_rtcp_mux := ''rtcp-mux''\<rparr>) st)
      else if av = ''sendonly'' \<or> av = ''recvonly'' \<or> av = ''sendrecv'' \<or> av = ''inactive'' then
        Some (case parse_direction av of
                Some d \<Rightarrow> at_level (session_extra ''a'' av) (\<lambda>m. m\<lparr>md_direction := d\<rparr>) st
              | None \<Rightarrow> st)
      else if starts_with av ''ice-ufrag:'' then do {
        ufrag \<leftarrow> substr av 10;
        Some (at_level (session_extra ''ice-ufrag'' ufrag) (\<lambda>m. m\<lparr>md_ice_ufrag := ufrag\<rparr>) st) }
      else if starts_with av ''ice-pwd:'' then do {
        pwd \<leftarrow> substr av 8;
        Some (at_level (session_extra ''ice-pwd'' pwd) (\<lambda>m. m\<lparr>md_ice_pwd := pwd\<rparr>) st) }
      else if starts_with av ''ice-options:'' then do {
        opts \<leftarrow> substr av 13;
        Some (at_level (\<lambda>s. s\<lparr>sd_ice_options := opts\<rparr>) (\<lambda>m. m\<lparr>md_ice_options := opts\<rparr>) st) }
      else if starts_with av ''fingerprint:'' then do {
        fp \<leftarrow> substr av 12;
        Some (parse_fingerprint fp st) }
      else if starts_with av ''setup:'' then do {
        setup \<leftarrow> substr av 6;
        Some (at_level (\<lambda>s. s\<lparr>sd_setup := setup\<rparr>) (\<lambda>m. m\<lparr>md_setup := setup\<rparr>) st) }
      else if starts_with av ''connection-address:'' then do {
        addr \<leftarrow> substr av 17;
        Some (in_media (\<lambda>m. m\<lparr>md_connection_address := addr\<rparr>) st) }
      else if starts_with av ''mid:'' then do {
        mid \<leftarrow> substr av 4;
        Some (in_media (\<lambda>m. m\<lparr>md_mid := mid\<rparr>) st) }
      else if starts_with av ''rtpmap:'' then do {
        v \<leftarrow> substr av 7;
        Some (in_media (\<lambda>m. let (fmt, rm) = parse_rtpmap v in m\<lparr>md_rtpmap := emplace fmt rm (md_rtpmap m)\<rparr>) st) }
      else if starts_with av ''fmtp:'' then do {
        fp \<leftarrow> substr av 5;
        Some (in_media (\<lambda>m. let (fmt_key, params) = split_at fp CHR '' '' in m\<lparr>md_fmtp := emplace fmt_key params (md_fmtp m)\<rparr>) st) }
      else if starts_with av ''rtcp-fb:'' then do {
        fb \<leftarrow> substr av 8;
        Some (in_media (\<lambda>m. m\<lparr>md_rtcp_fb := md_rtcp_fb m @ [fb]\<rparr>) st) }
      else if starts_with av ''extmap:'' then do {
        v \<leftarrow> substr av 7;
        Some (in_media (\<lambda>m. m\<lparr>md_extmap := md_extmap m @ [parse_extmap v]\<rparr>) st) }
      else if starts_with av ''candidate:'' then do {
        v \<leftarrow> substr av 10;
        Some (in_media (\<lambda>m. m\<lparr>md_candidates := md_candidates m @ [v]\<rparr>) st) }
      else if starts_with av ''group:'' then do {
        gv \<leftarrow> substr av 6;
        if starts_with gv ''BUNDLE'' then do {
          mids \<leftarrow> substr gv 6;
          Some (in_session (\<lambda>s. s\<lparr>sd_bundle_mids := sd_bundle_mids s @ tokens mids\<rparr>) st) }
        else Some st }
      else if starts_with av ''msid-semantic:'' then do {
        ms \<leftarrow> substr av 15;
        Some (parse_msid_semantic ms st) }
      else if starts_with av ''msid:'' then do {
        msid_str \<leftarrow> substr av 5;
        Some (in_media (parse_msid msid_str) st) }
      else Some (parse_generic av st))"

definition inherit_fingerprint :: "session_description \<Rightarrow> media_description \<Rightarrow> media_description" where
  "inherit_fingerprint s m =
     (if md_fingerprint_algo m = [] \<and> sd_fingerprint_algo s \<noteq> []
      then m\<lparr>md_fingerprint_algo := sd_fingerprint_algo s, md_fingerprint_value := sd_fingerprint_value s\<rparr> else m)"

text \<open>The media block in progress is appended to the session, with its entry of \<^verbatim>\<open>msids\<close>.\<close>

definition finish_media :: "parse_state \<Rightarrow> session_description" where
  "finish_media st =
     (let s = ps_session st in
      case cur_media st of
        None \<Rightarrow> s
      | Some m \<Rightarrow> s\<lparr>sd_msids := sd_msids s @ [case md_msid m of Some x \<Rightarrow> x | None \<Rightarrow> \<lparr>stream_id = [], track_id = []\<rparr>],
                   sd_media := sd_media s @ [inherit_fingerprint s m]\<rparr>)"

definition parse_connection_line :: "string \<Rightarrow> parse_state \<Rightarrow> parse_state" where
  "parse_connection_line value st =
     (let (addr, t, fam) = parse_connection value
      in at_level (\<lambda>s. s\<lparr>sd_connection_address := addr, sd_connection_ttl := t, sd_address_family := fam\<rparr>)
           (\<lambda>m. m\<lparr>md_connection_address := addr, md_ttl := t, md_address_family := fam\<rparr>) st)"

text \<open>The body of the loop, for one line.\<close>

definition parse_line :: "string \<Rightarrow> parse_state \<Rightarrow> parse_state result option" where
  "parse_line line st =
     (if line = [] then Some (Inr st)
      else if length line < 2 \<or> line ! 1 \<noteq> CHR ''='' then Some (Inl ProtocolError)
      else
        let type = line ! 0; value = drop 2 line in
        if type = CHR ''v'' then
          Some (Inr (case parse_uint16 (trim value) of Some v \<Rightarrow> in_session (\<lambda>s. s\<lparr>sd_version := uint v\<rparr>) st | None \<Rightarrow> st))
        else if type = CHR ''o'' then Some (Inr (in_session (parse_origin value) st))
        else if type = CHR ''s'' then Some (Inr (in_session (\<lambda>s. s\<lparr>sd_session_name := trim value\<rparr>) st))
        else if type = CHR ''i'' then
          Some (Inr (at_level (\<lambda>s. s\<lparr>sd_session_info := trim value\<rparr>) (media_extra ''i'' (trim value)) st))
        else if type = CHR ''u'' then Some (Inr (in_session (\<lambda>s. s\<lparr>sd_uri := trim value\<rparr>) st))
        else if type = CHR ''c'' then Some (Inr (parse_connection_line value st))
        else if type = CHR ''b'' then (let unused = parse_bandwidth value in Some (Inr st))
        else if type = CHR ''t'' \<or> type = CHR ''r'' \<or> type = CHR ''z'' \<or> type = CHR ''k'' then
          Some (Inr (at_level (session_extra [type] (trim value)) (\<lambda>m. m) st))
        else if type = CHR ''a'' then map_option Inr (parse_attribute value st)
        else if type = CHR ''m'' then
          Some (Inr \<lparr>ps_session = finish_media st, cur_media = Some (parse_media_desc value new_media_description)\<rparr>)
        else Some (Inr st))"

text \<open>\<^verbatim>\<open>if (consumed < remaining.size() && remaining[consumed] == c) ++consumed\<close>\<close>

fun skip_char :: "char \<Rightarrow> string \<Rightarrow> string" where
  "skip_char c [] = []"
| "skip_char c (x # xs) = (if x = c then xs else x # xs)"

definition next_line :: "string \<Rightarrow> string \<times> string" where
  "next_line remaining =
     (let line = takeWhile (\<lambda>c. \<not> is_eol c) remaining
      in (line, skip_char CHR 0x0A (skip_char CHR 0x0D (drop (length line) remaining))))"

lemma next_line_eq: "next_line s = (takeWhile (\<lambda>c. \<not> is_eol c) s,
    skip_char CHR 0x0A (skip_char CHR 0x0D (dropWhile (\<lambda>c. \<not> is_eol c) s)))"
  by (simp add: next_line_def Let_def dropWhile_eq_drop)

lemma length_skip_char: "length (skip_char c s) \<le> length s"
  by (cases s) auto

lemma next_line_shorter:
  assumes "remaining \<noteq> []" "(line, rest) = next_line remaining"
  shows "length rest < length remaining"
proof (cases "dropWhile (\<lambda>c. \<not> is_eol c) remaining")
  case Nil
  then have "rest = []" using assms(2) by (simp add: next_line_eq del: dropWhile_eq_Nil_conv)
  then show ?thesis using assms(1) by simp
next
  case (Cons c cs)
  then have "is_eol c" by (metis hd_dropWhile list.discI list.sel(1))
  moreover have "Suc (length cs) \<le> length remaining" using length_dropWhile_le [of _ remaining] Cons by (metis length_Cons)
  ultimately show ?thesis using assms Cons length_skip_char [of _ cs]
    by (auto simp: next_line_eq is_eol_def less_eq_Suc_le intro: le_trans)
qed

function parse_loop :: "string \<Rightarrow> parse_state \<Rightarrow> parse_state result option" where
  "parse_loop remaining st =
     (if remaining = [] then Some (Inr st)
      else let (line, rest) = next_line remaining in
        case parse_line line st of
          None \<Rightarrow> None
        | Some (Inl e) \<Rightarrow> Some (Inl e)
        | Some (Inr st) \<Rightarrow> parse_loop rest st)"
  by pat_completeness auto
termination
  by (relation "measure (\<lambda>(r, st). length r)") (simp_all add: next_line_shorter)

declare parse_loop.simps [simp del]

definition sdp_parse :: "string \<Rightarrow> session_description result option" where
  "sdp_parse sdp_text =
     (case parse_loop sdp_text new_parse_state of
        None \<Rightarrow> None
      | Some (Inl e) \<Rightarrow> Some (Inl e)
      | Some (Inr st) \<Rightarrow> Some (Inr (finish_media st)))"

section \<open>Lines\<close>

function text_lines :: "string \<Rightarrow> string list" where
  "text_lines s = (if s = [] then [] else let (line, rest) = next_line s in line # text_lines rest)"
  by pat_completeness auto
termination by (relation "measure length") (simp_all add: next_line_shorter)

declare text_lines.simps [simp del]

definition sdp_step :: "string \<Rightarrow> parse_state result option \<Rightarrow> parse_state result option" where
  "sdp_step l x = (case x of Some (Inr st) \<Rightarrow> parse_line l st | _ \<Rightarrow> x)"

lemma sdp_step_simps [simp]:
  "sdp_step l None = None" "sdp_step l (Some (Inl e)) = Some (Inl e)" "sdp_step l (Some (Inr st)) = parse_line l st"
  by (simp_all add: sdp_step_def)

lemma fold_sdp_stop [simp]: "fold sdp_step ls None = None" "fold sdp_step ls (Some (Inl e)) = Some (Inl e)"
  by (induction ls) simp_all

lemma parse_loop_lines: "parse_loop s st = fold sdp_step (text_lines s) (Some (Inr st))"
proof (induction s st rule: parse_loop.induct)
  case (1 s st)
  show ?case
  proof (cases "s = []")
    case True
    then show ?thesis by (simp add: parse_loop.simps [of "[]"] text_lines.simps [of "[]"])
  next
    case False
    obtain line rest where n: "next_line s = (line, rest)" by fastforce
    show ?thesis using False 1 n
      by (cases "parse_line line st") (auto simp: parse_loop.simps [of s] text_lines.simps [of s] split: sum.splits)
  qed
qed

definition crlf :: string where "crlf = [CHR 0x0D, CHR 0x0A]"

lemma takeWhile_line: "list_all (\<lambda>c. \<not> is_eol c) l \<Longrightarrow> takeWhile (\<lambda>c. \<not> is_eol c) (l @ crlf @ r) = l"
  "list_all (\<lambda>c. \<not> is_eol c) l \<Longrightarrow> dropWhile (\<lambda>c. \<not> is_eol c) (l @ crlf @ r) = crlf @ r"
  by (induction l) (simp_all add: crlf_def is_eol_def)

lemma text_lines_concat: "list_all (list_all (\<lambda>c. \<not> is_eol c)) ls \<Longrightarrow> text_lines (concat (map (\<lambda>l. l @ crlf) ls)) = ls"
proof (induction ls)
  case Nil
  then show ?case by (simp add: text_lines.simps)
next
  case (Cons l ls)
  then have "next_line (l @ crlf @ concat (map (\<lambda>l. l @ crlf) ls)) = (l, concat (map (\<lambda>l. l @ crlf) ls))"
    by (simp add: next_line_eq takeWhile_line) (simp add: crlf_def)
  then show ?case using Cons by (simp add: text_lines.simps [of "l @ crlf @ _"]) (simp add: crlf_def)
qed

section \<open>Which lines stop the parser\<close>

definition malformed_line :: "string \<Rightarrow> bool" where
  "malformed_line l \<longleftrightarrow> l \<noteq> [] \<and> (length l < 2 \<or> l ! 1 \<noteq> CHR ''='')"

definition throwing_line :: "string \<Rightarrow> bool" where
  "throwing_line l \<longleftrightarrow> take 2 l = ''a='' \<and> trim (drop 2 l) \<in> {''ice-options:'', ''msid-semantic:''}"

lemma starts_with_prefix: "starts_with s p \<longleftrightarrow> take (length p) s = p"
  by (induction s p rule: starts_with.induct) auto

lemma starts_with_length: "starts_with s p \<Longrightarrow> length p \<le> length s"
  by (induction s p rule: starts_with.induct) auto

lemma starts_with_short: "starts_with s p \<Longrightarrow> \<not> Suc (length p) \<le> length s \<longleftrightarrow> s = p"
  using starts_with_length [of s p] by (auto simp: starts_with_prefix)

lemma substr_prefix [simp]: "starts_with s p \<Longrightarrow> n \<le> length p \<Longrightarrow> substr s n = Some (drop n s)"
  using starts_with_length [of s p] by (simp add: substr_def)

lemma substr_throws: "substr s n = None \<longleftrightarrow> length s < n"
  by (auto simp: substr_def)

lemma starts_with_self [simp]: "starts_with s s"
  by (induction s) simp_all


lemma if_Some: "(if c then x else y) \<noteq> None \<longleftrightarrow> (c \<longrightarrow> x \<noteq> None) \<and> (\<not> c \<longrightarrow> y \<noteq> None)"
  by simp

lemma starts_bind: "starts_with s p \<Longrightarrow> n \<le> length p \<Longrightarrow> substr s n \<bind> f = f (drop n s)"
  by simp

lemma starts_bind_late: "starts_with s p \<Longrightarrow> s \<noteq> p \<Longrightarrow> n = Suc (length p) \<Longrightarrow> substr s n \<bind> f = f (drop n s)"
  using starts_with_short [of s p] by (auto simp: substr_def)

lemma parse_attribute_returns:
  assumes "trim value \<noteq> ''ice-options:''" "trim value \<noteq> ''msid-semantic:''"
  shows "parse_attribute value st \<noteq> None"
proof -
  define av where "av = trim value"
  have o: "starts_with av ''ice-options:'' \<Longrightarrow> substr av 13 \<bind> f = f (drop 13 av)"
    "starts_with av ''msid-semantic:'' \<Longrightarrow> substr av 15 \<bind> f = f (drop 15 av)" for f :: "string \<Rightarrow> parse_state option"
    using assms by (auto simp: av_def [symmetric] intro: starts_bind_late)
  show ?thesis
    unfolding parse_attribute_def av_def [symmetric] Let_def
    by (intro if_Some [THEN iffD2] conjI impI) (simp_all add: o starts_bind)
qed

lemma parse_attribute_throws: "parse_attribute value st = None \<longleftrightarrow> trim value \<in> {''ice-options:'', ''msid-semantic:''}"
proof -
  have "trim value = ''ice-options:'' \<Longrightarrow> parse_attribute value st = None"
    "trim value = ''msid-semantic:'' \<Longrightarrow> parse_attribute value st = None"
    by (simp_all add: parse_attribute_def substr_def)
  then show ?thesis using parse_attribute_returns [of "value" st] by blast
qed

lemma well_formed_line:
  assumes "\<not> malformed_line l" "l \<noteq> []"
  shows "l = [l ! 0, CHR ''=''] @ drop 2 l"
  using assms by (cases l; cases "tl l") (auto simp: malformed_line_def)

lemma parse_line_malformed: "malformed_line l \<Longrightarrow> parse_line l st = Some (Inl ProtocolError)"
  by (auto simp: malformed_line_def parse_line_def)

lemma parse_line_type:
  "parse_line (CHR ''v'' # CHR ''='' # value) st =
     Some (Inr (case parse_uint16 (trim value) of Some v \<Rightarrow> in_session (\<lambda>s. s\<lparr>sd_version := uint v\<rparr>) st | None \<Rightarrow> st))"
  "parse_line (CHR ''o'' # CHR ''='' # value) st = Some (Inr (in_session (parse_origin value) st))"
  "parse_line (CHR ''s'' # CHR ''='' # value) st = Some (Inr (in_session (\<lambda>s. s\<lparr>sd_session_name := trim value\<rparr>) st))"
  "parse_line (CHR ''i'' # CHR ''='' # value) st =
     Some (Inr (at_level (\<lambda>s. s\<lparr>sd_session_info := trim value\<rparr>) (media_extra ''i'' (trim value)) st))"
  "parse_line (CHR ''u'' # CHR ''='' # value) st = Some (Inr (in_session (\<lambda>s. s\<lparr>sd_uri := trim value\<rparr>) st))"
  "parse_line (CHR ''c'' # CHR ''='' # value) st = Some (Inr (parse_connection_line value st))"
  "parse_line (CHR ''t'' # CHR ''='' # value) st = Some (Inr (at_level (session_extra ''t'' (trim value)) (\<lambda>m. m) st))"
  "parse_line (CHR ''a'' # CHR ''='' # value) st = map_option Inr (parse_attribute value st)"
  "parse_line (CHR ''m'' # CHR ''='' # value) st =
     Some (Inr \<lparr>ps_session = finish_media st, cur_media = Some (parse_media_desc value new_media_description)\<rparr>)"
  by (simp_all add: parse_line_def)

lemma parse_line_ordinary:
  assumes "\<not> malformed_line l" "take 2 l \<noteq> ''a=''"
  shows "\<exists>st'. parse_line l st = Some (Inr st')"
proof (cases "l = []")
  case False
  with assms have l: "l = l ! 0 # CHR ''='' # drop 2 l" using well_formed_line [OF assms(1)] by simp
  with assms(2) have "l ! 0 \<noteq> CHR ''a''" by (metis One_nat_def Suc_1 take0 take_Suc_Cons)
  then show ?thesis using assms(1) False by (simp add: parse_line_def malformed_line_def Let_def)
qed (simp add: parse_line_def)

lemma parse_line_outcome:
  "parse_line l st = None \<and> throwing_line l \<and> \<not> malformed_line l
   \<or> parse_line l st = Some (Inl ProtocolError) \<and> malformed_line l
   \<or> (\<exists>st'. parse_line l st = Some (Inr st')) \<and> \<not> malformed_line l \<and> \<not> throwing_line l"
proof (cases "malformed_line l")
  case False
  show ?thesis
  proof (cases "take 2 l = ''a=''")
    case True
    then have l: "l = CHR ''a'' # CHR ''='' # drop 2 l" by (metis append_take_drop_id append_Cons append_Nil)
    have p: "parse_line l st = map_option Inr (parse_attribute (drop 2 l) st)" by (subst l) (rule parse_line_type)
    show ?thesis using False True parse_attribute_throws [of "drop 2 l" st]
      by (cases "parse_attribute (drop 2 l) st") (auto simp: p throwing_line_def)
  next
    case ordinary: False
    then show ?thesis using parse_line_ordinary [OF False ordinary, of st] False by (auto simp: throwing_line_def)
  qed
qed (simp add: parse_line_malformed)

lemma run_lines_outcome:
  "case List.find (\<lambda>l. malformed_line l \<or> throwing_line l) ls of
     None \<Rightarrow> \<exists>st'. fold sdp_step ls (Some (Inr st)) = Some (Inr st')
   | Some l \<Rightarrow> fold sdp_step ls (Some (Inr st)) = (if malformed_line l then Some (Inl ProtocolError) else None)"
proof (induction ls arbitrary: st)
  case (Cons l ls)
  show ?case using parse_line_outcome [of l st] Cons by (auto split: option.splits)
qed simp

text \<open>
  C10: the parser of session descriptions returns on every text (the loop over the lines ends), and the first line it cannot accept decides how. Without one the
  text is accepted; a non-empty line that does not start with a letter and an equals sign is answered with a
  protocol error; and an attribute that is exactly \<^verbatim>\<open>ice-options:\<close> or \<^verbatim>\<open>msid-semantic:\<close>, with nothing behind the colon
  but blanks, makes \<^verbatim>\<open>substr\<close> throw, which \<^verbatim>\<open>parse\<close> does not catch.
\<close>

theorem sdp_parse_outcome:
  "case List.find (\<lambda>l. malformed_line l \<or> throwing_line l) (text_lines text) of
     None \<Rightarrow> \<exists>s. sdp_parse text = Some (Inr s)
   | Some l \<Rightarrow> sdp_parse text = (if malformed_line l then Some (Inl ProtocolError) else None)"
  using run_lines_outcome [of "text_lines text" new_parse_state]
  by (auto simp: sdp_parse_def parse_loop_lines split: option.splits)

section \<open>Media blocks\<close>

definition msid_entry :: "media_description \<Rightarrow> msid" where
  "msid_entry m = (case md_msid m of Some x \<Rightarrow> x | None \<Rightarrow> \<lparr>stream_id = [], track_id = []\<rparr>)"

text \<open>A line other than \<^verbatim>\<open>m=\<close> keeps the finished blocks, and the session's fingerprint once a block was begun.\<close>

definition same_blocks :: "parse_state \<Rightarrow> parse_state \<Rightarrow> bool" where
  "same_blocks st st' \<longleftrightarrow> sd_media (ps_session st') = sd_media (ps_session st) \<and> sd_msids (ps_session st') = sd_msids (ps_session st)
     \<and> (cur_media st' = None \<longleftrightarrow> cur_media st = None)
     \<and> (cur_media st \<noteq> None \<longrightarrow> sd_fingerprint_algo (ps_session st') = sd_fingerprint_algo (ps_session st))"

lemma same_blocks_refl [simp]: "same_blocks st st"
  by (simp add: same_blocks_def)

lemma same_blocks_updates:
  "(\<And>s. sd_media (f s) = sd_media s \<and> sd_msids (f s) = sd_msids s) \<Longrightarrow> same_blocks st (at_level f g st)"
  "same_blocks st (in_media g st)"
  "(\<And>s. sd_media (f s) = sd_media s \<and> sd_msids (f s) = sd_msids s \<and> sd_fingerprint_algo (f s) = sd_fingerprint_algo s) \<Longrightarrow> same_blocks st (in_session f st)"
  by (auto simp: same_blocks_def at_level_def in_media_def in_session_def split: option.splits)

definition keeps_blocks :: "parse_state \<Rightarrow> parse_state option \<Rightarrow> bool" where
  "keeps_blocks st x \<longleftrightarrow> (\<forall>st'. x = Some st' \<longrightarrow> same_blocks st st')"

lemma keeps_blocks_if: "(c \<Longrightarrow> keeps_blocks st x) \<Longrightarrow> (\<not> c \<Longrightarrow> keeps_blocks st y) \<Longrightarrow> keeps_blocks st (if c then x else y)"
  by simp

lemma keeps_blocks_bind: "(\<And>v. keeps_blocks st (f v)) \<Longrightarrow> keeps_blocks st (substr s n \<bind> f)"
  by (cases "substr s n") (simp_all add: keeps_blocks_def)

lemma keeps_blocks_Some: "same_blocks st st' \<Longrightarrow> keeps_blocks st (Some st')"
  by (simp add: keeps_blocks_def)

lemma parse_attribute_blocks: "keeps_blocks st (parse_attribute v st)"
  unfolding parse_attribute_def Let_def
  by (intro keeps_blocks_if keeps_blocks_bind keeps_blocks_Some)
    (auto simp: parse_fingerprint_def parse_msid_semantic_def parse_generic_def session_extra_def Let_def case_prod_unfold
      intro!: same_blocks_updates split: option.splits)

definition media_line :: "string \<Rightarrow> bool" where
  "media_line l \<longleftrightarrow> take 2 l = ''m=''"

definition line_keeps :: "parse_state \<Rightarrow> parse_state result option \<Rightarrow> bool" where
  "line_keeps st x \<longleftrightarrow> (\<forall>st'. x = Some (Inr st') \<longrightarrow> same_blocks st st')"

lemma line_keeps_if: "(c \<Longrightarrow> line_keeps st x) \<Longrightarrow> (\<not> c \<Longrightarrow> line_keeps st y) \<Longrightarrow> line_keeps st (if c then x else y)"
  by simp

lemma line_keeps_value:
  "same_blocks st st' \<Longrightarrow> line_keeps st (Some (Inr st'))" "line_keeps st (Some (Inl e))"
  "keeps_blocks st x \<Longrightarrow> line_keeps st (map_option Inr x)"
  by (auto simp: line_keeps_def keeps_blocks_def)

lemma parse_line_keeps:
  assumes "\<not> media_line l"
  shows "line_keeps st (parse_line l st)"
proof -
  have m: "\<not> (length l < 2 \<or> l ! 1 \<noteq> CHR ''='') \<Longrightarrow> l ! 0 \<noteq> CHR ''m''"
    using assms by (cases l; cases "tl l") (auto simp: media_line_def)
  show ?thesis unfolding parse_line_def Let_def
    by (intro line_keeps_if line_keeps_value parse_attribute_blocks; (rule same_blocks_refl)?)
      (use m in \<open>auto simp: session_extra_def parse_origin_def parse_connection_line_def Let_def case_prod_unfold
        intro!: same_blocks_updates split: option.splits\<close>)
qed

lemma parse_line_blocks:
  assumes "parse_line l st = Some (Inr st')"
  shows "if media_line l then ps_session st' = finish_media st \<and> cur_media st' \<noteq> None else same_blocks st st'"
proof (cases "media_line l")
  case True
  then have "l = CHR ''m'' # CHR ''='' # drop 2 l" by (metis append_take_drop_id append_Cons append_Nil media_line_def)
  from assms [unfolded arg_cong [OF this, of "\<lambda>l. parse_line l st"] parse_line_type] show ?thesis using True by auto
next
  case False
  then show ?thesis using parse_line_keeps [OF False, of st] assms by (simp add: line_keeps_def)
qed

definition blocks_ok :: "parse_state \<Rightarrow> bool" where
  "blocks_ok st \<longleftrightarrow> sd_msids (ps_session st) = map msid_entry (sd_media (ps_session st))
     \<and> (sd_fingerprint_algo (ps_session st) \<noteq> [] \<longrightarrow> (\<forall>m \<in> set (sd_media (ps_session st)). md_fingerprint_algo m \<noteq> []))
     \<and> (cur_media st = None \<longrightarrow> sd_media (ps_session st) = [])"

definition block_count :: "parse_state \<Rightarrow> nat" where
  "block_count st = length (sd_media (finish_media st))"

lemma finish_media_ok:
  assumes "blocks_ok st"
  shows "sd_msids (finish_media st) = map msid_entry (sd_media (finish_media st))"
    "sd_fingerprint_algo (finish_media st) \<noteq> [] \<Longrightarrow> m \<in> set (sd_media (finish_media st)) \<Longrightarrow> md_fingerprint_algo m \<noteq> []"
  using assms by (auto simp: blocks_ok_def finish_media_def msid_entry_def inherit_fingerprint_def Let_def split: option.splits if_splits)

lemma parse_line_ok:
  assumes "blocks_ok st" "parse_line l st = Some (Inr st')"
  shows "blocks_ok st'" "block_count st' = block_count st + (if media_line l then 1 else 0)"
  using parse_line_blocks [OF assms(2)] assms(1) finish_media_ok [OF assms(1)]
  by (auto simp: blocks_ok_def same_blocks_def block_count_def finish_media_def Let_def split: if_splits option.splits)

definition run_ok :: "parse_state result option \<Rightarrow> bool" where
  "run_ok x \<longleftrightarrow> (\<forall>st. x = Some (Inr st) \<longrightarrow> blocks_ok st)"

interpretation sdp: component "Some (Inr new_parse_state)" sdp_step run_ok
proof
  show "run_ok (Some (Inr new_parse_state))"
    by (simp add: run_ok_def blocks_ok_def new_parse_state_def new_session_description_def)
  show "run_ok (sdp_step l x)" if "run_ok x" for l x
    using that parse_line_ok(1) by (auto simp: run_ok_def sdp_step_def split: option.splits sum.splits)
qed

lemma run_block_count:
  assumes "blocks_ok st" "fold sdp_step ls (Some (Inr st)) = Some (Inr st')"
  shows "block_count st' = block_count st + length (filter media_line ls)"
  using assms
proof (induction ls arbitrary: st)
  case (Cons l ls)
  then obtain st1 where "parse_line l st = Some (Inr st1)" by (cases "parse_line l st"; cases "the (parse_line l st)") auto
  with Cons show ?case using parse_line_ok [OF Cons.prems(1)] by fastforce
qed simp

lemma sdp_parse_returns:
  "List.find (\<lambda>l. malformed_line l \<or> throwing_line l) (text_lines text) = None \<Longrightarrow> \<exists>s. sdp_parse text = Some (Inr s)"
  using run_lines_outcome [of "text_lines text" new_parse_state] by (auto simp: sdp_parse_def parse_loop_lines)

text \<open>
  C15: an accepted text yields one media description per \<^verbatim>\<open>m=\<close> line, \<^verbatim>\<open>msids\<close> lists the stream identifiers
  of the media descriptions position by position, and when the session has a fingerprint no media description is left
  without one.
\<close>

theorem sdp_media_blocks:
  assumes "sdp_parse text = Some (Inr s)"
  shows "length (sd_media s) = length (filter media_line (text_lines text)) \<and> sd_msids s = map msid_entry (sd_media s)
    \<and> (sd_fingerprint_algo s \<noteq> [] \<longrightarrow> list_all (\<lambda>m. md_fingerprint_algo m \<noteq> []) (sd_media s))"
proof -
  obtain st where st: "fold sdp_step (text_lines text) (Some (Inr new_parse_state)) = Some (Inr st)" "s = finish_media st"
    using assms by (auto simp: sdp_parse_def parse_loop_lines split: option.splits sum.splits)
  have ok: "blocks_ok new_parse_state" "blocks_ok st" using sdp.init_inv sdp.run_inv [of "text_lines text"] st(1) by (auto simp: run_ok_def)
  have "block_count new_parse_state = 0" by (simp add: block_count_def finish_media_def new_parse_state_def new_session_description_def)
  then show ?thesis using run_block_count [OF ok(1) st(1)] finish_media_ok [OF ok(2)] by (auto simp: st(2) block_count_def list_all_iff)
qed
definition sample_sdp :: string where
  "sample_sdp = concat (map (\<lambda>l. l @ crlf)
     [''v=0'', ''a=fingerprint:sha-256 AB'', ''m=audio 9 RTP/SAVPF 111'', ''a=msid:s t'', ''m=video 9 RTP/SAVPF 96''])"

lemma sample_sdp_lines:
  "text_lines sample_sdp = [''v=0'', ''a=fingerprint:sha-256 AB'', ''m=audio 9 RTP/SAVPF 111'', ''a=msid:s t'', ''m=video 9 RTP/SAVPF 96'']"
  unfolding sample_sdp_def by (rule text_lines_concat) (simp add: is_eol_def)

theorem sdp_media_blocks_witness:
  "\<exists>s. sdp_parse sample_sdp = Some (Inr s) \<and> length (sd_media s) = 2 \<and> sd_msids s = map msid_entry (sd_media s)"
proof -
  have "List.find (\<lambda>l. malformed_line l \<or> throwing_line l) (text_lines sample_sdp) = None"
    by (simp add: sample_sdp_lines malformed_line_def throwing_line_def trim_def is_space_def)
  then obtain s where "sdp_parse sample_sdp = Some (Inr s)" using sdp_parse_returns by blast
  then show ?thesis using sdp_media_blocks [of sample_sdp s] by (simp add: sample_sdp_lines media_line_def)
qed

lemma sdp_throws_sample: "sdp_parse ''a=ice-options: '' = None"
  by code_simp

end
