(* ===== verification/Sdp_Munger.thy ===== *)
theory Sdp_Munger
  imports Sdp_Parser
begin

text \<open>
  The writer of session descriptions: \<^verbatim>\<open>src/modules/sdp/src/munger.cpp\<close>. The theory shows what the parser
  makes of a text the writer produced: which fields come back unchanged, and which do not.
  \<^verbatim>\<open>std::sort\<close> leaves the order of extension maps with equal identifiers open; the model sorts stably, and the
  theorems assume distinct identifiers.
\<close>

section \<open>Model\<close>

fun append_int :: "nat \<Rightarrow> string" where
  "append_int v = (if v < 10 then [char_of (48 + v)] else append_int (v div 10) @ [char_of (48 + v mod 10)])"

declare append_int.simps [simp del]

text \<open>The conversion of an \<^verbatim>\<open>int\<close> argument to \<^verbatim>\<open>std::uint64_t\<close>.\<close>

definition to_u64 :: "int \<Rightarrow> nat" where
  "to_u64 i = nat (i mod 2 ^ 64)"

definition attr :: "string \<Rightarrow> string \<Rightarrow> string" where
  "attr key v = key @ v @ crlf"

definition flag :: "string \<Rightarrow> string" where
  "flag key = ''a='' @ key @ crlf"

definition emit_fingerprint :: "string \<Rightarrow> string \<Rightarrow> string" where
  "emit_fingerprint algo hash = (if algo \<noteq> [] \<and> hash \<noteq> [] then ''a=fingerprint:'' @ algo @ '' '' @ hash @ crlf else [])"

definition emit_msid :: "msid \<Rightarrow> string" where
  "emit_msid x = ''a=msid:'' @ stream_id x @ (if track_id x \<noteq> [] then '' '' @ track_id x else []) @ crlf"

definition emit_rtpmap :: "string \<times> rtp_map \<Rightarrow> string" where
  "emit_rtpmap = (\<lambda>(fmt, m). ''a=rtpmap:'' @ fmt @ '' '' @ rm_encoding m @ ''/'' @ append_int (unat (rm_clock_rate m))
     @ (if rm_channels m \<noteq> 1 then ''/'' @ append_int (unat (rm_channels m)) else []) @ crlf)"

definition emit_fmtp :: "string \<times> string \<Rightarrow> string" where
  "emit_fmtp = (\<lambda>(fmt, params). ''a=fmtp:'' @ fmt @ '' '' @ params @ crlf)"

definition emit_param :: "string \<times> string \<Rightarrow> string" where
  "emit_param = (\<lambda>(k, v). '' '' @ k @ (if v \<noteq> [] then ''='' @ v else []))"

definition emit_extmap :: "ext_map \<Rightarrow> string" where
  "emit_extmap e = ''a=extmap:'' @ append_int (to_u64 (em_id e))
     @ (if em_direction e \<noteq> SendRecv then ''/'' @ direction_string (em_direction e) else [])
     @ '' '' @ em_uri e @ concat (map emit_param (em_params e)) @ crlf"

definition emit_extra :: "string \<times> string \<Rightarrow> string" where
  "emit_extra = (\<lambda>(k, v). ''a='' @ k @ (if v \<noteq> [] then '':'' @ v else []) @ crlf)"

definition emit_media_attrs :: "media_description \<Rightarrow> string" where
  "emit_media_attrs m =
     (if md_ice_ufrag m \<noteq> [] then attr ''a=ice-ufrag:'' (md_ice_ufrag m) else [])
     @ (if md_ice_pwd m \<noteq> [] then attr ''a=ice-pwd:'' (md_ice_pwd m) else [])
     @ (if md_ice_options m \<noteq> [] then attr ''a=ice-options:'' (md_ice_options m) else [])
     @ emit_fingerprint (md_fingerprint_algo m) (md_fingerprint_value m)
     @ (if md_setup m \<noteq> [] then attr ''a=setup:'' (md_setup m) else [])
     @ (if md_connection_address m \<noteq> []
        then ''c=IN IP'' @ (if md_address_family m = 6 then ''6'' else ''4'') @ '' '' @ md_connection_address m
          @ (if md_ttl m > 0 then ''/'' @ append_int (to_u64 (md_ttl m)) else []) @ crlf
        else [])
     @ (if md_rtcp_mux m \<noteq> [] then flag ''rtcp-mux'' else [])
     @ (if md_mid m \<noteq> [] then attr ''a=mid:'' (md_mid m) else [])
     @ (if md_direction m \<noteq> SendRecv then attr ''a='' (direction_string (md_direction m)) else [])
     @ (case md_msid m of Some x \<Rightarrow> emit_msid x | None \<Rightarrow> [])
     @ concat (map emit_rtpmap (md_rtpmap m))
     @ concat (map emit_fmtp (md_fmtp m))
     @ concat (map (attr ''a=rtcp-fb:'') (md_rtcp_fb m))
     @ concat (map emit_extmap (sort_key em_id (md_extmap m)))
     @ concat (map (attr ''a=candidate:'') (md_candidates m))
     @ concat (map emit_extra (md_extra_attrs m))"

definition media_type_string :: "media_type \<Rightarrow> string" where
  "media_type_string t = (case t of Audio \<Rightarrow> ''audio'' | Video \<Rightarrow> ''video'' | Application \<Rightarrow> ''application'' | Data \<Rightarrow> ''data'' | Other \<Rightarrow> ''text'')"

definition or_default :: "string \<Rightarrow> string \<Rightarrow> string" where
  "or_default s d = (if s = [] then d else s)"

definition emit_media :: "media_description \<Rightarrow> string" where
  "emit_media m = ''m='' @ media_type_string (md_type m) @ '' '' @ append_int (unat (md_port m)) @ '' ''
     @ or_default (md_protocol m) ''UDP/TLS/RTP/SAVPF'' @ concat (map (\<lambda>fmt. '' '' @ fmt) (md_formats m)) @ crlf @ emit_media_attrs m"

definition to_sdp :: "session_description \<Rightarrow> string" where
  "to_sdp sdp =
     ''v='' @ append_int (to_u64 (sd_version sdp)) @ crlf
     @ ''o='' @ or_default (sd_origin_username sdp) ''-'' @ '' '' @ or_default (sd_origin_session_id sdp) ''0''
     @ '' '' @ or_default (sd_origin_session_version sdp) ''0'' @ '' IN IP4 '' @ or_default (sd_origin_address sdp) ''0.0.0.0'' @ crlf
     @ ''s='' @ or_default (sd_session_name sdp) ''-'' @ crlf
     @ (if sd_session_info sdp \<noteq> [] then ''i='' @ sd_session_info sdp @ crlf else [])
     @ (if sd_uri sdp \<noteq> [] then ''u='' @ sd_uri sdp @ crlf else [])
     @ (if sd_connection_address sdp \<noteq> []
        then ''c=IN IP'' @ (if sd_address_family sdp = 6 then ''6'' else ''4'') @ '' '' @ sd_connection_address sdp @ crlf else [])
     @ ''t=0 0'' @ crlf
     @ (if sd_bundle_mids sdp \<noteq> [] then ''a=group:BUNDLE'' @ concat (map (\<lambda>mid. '' '' @ mid) (sd_bundle_mids sdp)) @ crlf else [])
     @ (if sd_ice_options sdp \<noteq> [] then attr ''a=ice-options:'' (sd_ice_options sdp) else [])
     @ (if sd_msid_semantic_token sdp \<noteq> []
        then ''a=msid-semantic: '' @ sd_msid_semantic_token sdp @ concat (map (\<lambda>s. '' '' @ s) (sd_msid_semantic_streams sdp)) @ crlf else [])
     @ emit_fingerprint (sd_fingerprint_algo sdp) (sd_fingerprint_value sdp)
     @ (if sd_setup sdp \<noteq> [] then attr ''a=setup:'' (sd_setup sdp) else [])
     @ concat (map emit_extra (sd_extra_attrs sdp))
     @ concat (map emit_media (sd_media sdp))"

definition parse_media_type :: "string \<Rightarrow> media_type option" where
  "parse_media_type s =
     (if s = ''audio'' then Some Audio else if s = ''video'' then Some Video
      else if s = ''application'' then Some Application else if s = ''data'' then Some Data else None)"

section \<open>Reading back tokens\<close>

definition trimmed :: "string \<Rightarrow> bool" where
  "trimmed s \<longleftrightarrow> s = [] \<or> \<not> is_space (hd s) \<and> \<not> is_space (last s)"

definition one_line :: "string \<Rightarrow> bool" where
  "one_line s \<longleftrightarrow> list_all (\<lambda>c. \<not> is_eol c) s"

definition plain :: "string \<Rightarrow> bool" where
  "plain s \<longleftrightarrow> trimmed s \<and> one_line s"

definition token :: "string \<Rightarrow> bool" where
  "token s \<longleftrightarrow> s \<noteq> [] \<and> list_all (\<lambda>c. \<not> is_space c \<and> \<not> is_eol c) s"

definition spaced :: "string list \<Rightarrow> string" where
  "spaced ts = concat (map (\<lambda>t. CHR '' '' # t) ts)"

lemma spaced_simps [simp]: "spaced [] = []" "spaced (t # ts) = CHR '' '' # t @ spaced ts"
  by (simp_all add: spaced_def)

lemma dropWhile_hd: "s = [] \<or> \<not> P (hd s) \<Longrightarrow> dropWhile P s = s"
  by (cases s) auto

lemma trim_trimmed [simp]: "trimmed s \<Longrightarrow> trim s = s"
  unfolding trim_def trimmed_def by (auto simp: dropWhile_hd hd_rev)

lemma trim_space [simp]: "trim (CHR '' '' # s) = trim s"
  by (simp add: trim_def is_space_def)

lemma trimmed_append:
  "p \<noteq> [] \<Longrightarrow> \<not> is_space (hd p) \<Longrightarrow> \<not> is_space (last p) \<Longrightarrow> trimmed v \<Longrightarrow> trimmed (p @ v)"
  by (cases "v = []") (auto simp: trimmed_def)

lemma trimmed_between: "trimmed a \<Longrightarrow> a \<noteq> [] \<Longrightarrow> trimmed b \<Longrightarrow> b \<noteq> [] \<Longrightarrow> trimmed (a @ m @ b)"
  by (auto simp: trimmed_def)

lemma token_trimmed: "token t \<Longrightarrow> trimmed t"
  by (auto simp: token_def trimmed_def list_all_iff)

lemma token_spaced_trimmed: "token t \<Longrightarrow> list_all token ts \<Longrightarrow> trimmed (t @ spaced ts)"
proof (induction ts arbitrary: t)
  case (Cons a ts)
  then show ?case using trimmed_between [of t "a @ spaced ts" "'' ''"] token_trimmed [of t] Cons.IH [of a]
    by (simp add: token_def)
qed (simp add: token_trimmed)

lemma find_char_append [simp]: "c \<notin> set a \<Longrightarrow> find_char c (a @ c # b) = Some (length a)"
  by (induction a) (auto simp: find_char_def)

lemma find_char_none [simp]: "c \<notin> set a \<Longrightarrow> find_char c a = None"
  by (simp add: find_char_def)

lemma split_at_simps [simp]: "c \<notin> set a \<Longrightarrow> split_at (a @ c # b) c = (a, b)" "c \<notin> set a \<Longrightarrow> split_at a c = (a, [])"
  by (simp_all add: split_at_def)

lemma token_no_space: "token t \<Longrightarrow> CHR '' '' \<notin> set t"
  by (auto simp: token_def list_all_iff is_space_def)

lemma next_token_spaced:
  assumes "token t" "list_all token ts"
  shows "next_token (t @ spaced ts) = (t, tl (spaced ts))"
proof -
  have "t @ spaced ts \<noteq> []" "trim (t @ spaced ts) = t @ spaced ts"
    using assms token_spaced_trimmed [OF assms] by (simp_all add: token_def)
  then show ?thesis using token_no_space [OF assms(1)] by (cases ts) (simp_all add: next_token_def)
qed

lemma next_token_space [simp]: "next_token (CHR '' '' # s) = next_token s"
  by (simp add: next_token_def)

lemma tokens_space: "tokens (CHR '' '' # s) = tokens s"
proof (cases "s = []")
  case True
  have "next_token [] = ([], [])" by (simp add: next_token_def trim_def)
  then show ?thesis using True by (simp add: tokens.simps [of "'' ''"] tokens.simps [of "[]"])
next
  case False
  then show ?thesis by (simp add: tokens.simps [of "CHR '' '' # s"] tokens.simps [of s])
qed

lemma tokens_tl: "list_all token ts \<Longrightarrow> tokens (tl (spaced ts)) = tokens (spaced ts)"
  by (cases ts) (simp_all add: tokens_space)

lemma tokens_spaced [simp]: "list_all token ts \<Longrightarrow> tokens (spaced ts) = ts"
proof (induction ts)
  case Nil
  then show ?case by (simp add: tokens.simps)
next
  case (Cons t ts)
  have "tokens (t @ spaced ts) = t # tokens (tl (spaced ts))"
    using Cons.prems by (subst tokens.simps) (simp add: next_token_spaced, simp add: token_def)
  then show ?case using Cons by (simp add: tokens_space tokens_tl)
qed

lemma trimmed_tl_spaced: "list_all token ts \<Longrightarrow> trimmed (tl (spaced ts))"
  by (cases ts) (simp_all add: token_spaced_trimmed, simp add: trimmed_def)

section \<open>Reading back numbers\<close>

lemma digit_char: "n < 10 \<Longrightarrow> is_digit (char_of (48 + n)) \<and> digit (char_of (48 + n)) = n"
  by (simp add: is_digit_def digit_def)

lemma digit_not_special: "is_digit c \<Longrightarrow> \<not> is_space c \<and> \<not> is_eol c \<and> c \<noteq> CHR ''/''"
  by (auto simp: is_digit_def is_space_def is_eol_def)

lemma append_int_digits: "list_all is_digit (append_int n) \<and> append_int n \<noteq> []"
proof (induction n rule: append_int.induct)
  case (1 v)
  then show ?case using digit_char [of v] digit_char [of "v mod 10"] by (subst (1 2) append_int.simps) auto
qed

lemma append_int_token: "token (append_int n)" "CHR ''/'' \<notin> set (append_int n)"
  using append_int_digits [of n] digit_not_special by (auto simp: token_def list_all_iff)

definition decimal :: "string \<Rightarrow> nat \<Rightarrow> nat" where
  "decimal s r = fold (\<lambda>c r. r * 10 + digit c) s r"

lemma decimal_append_int: "decimal (append_int n) 0 = n"
proof (induction n rule: append_int.induct)
  case (1 v)
  then show ?case using digit_char [of v] digit_char [of "v mod 10"] by (subst append_int.simps) (auto simp: decimal_def)
qed

lemma uint16_digits_decimal: "list_all is_digit s \<Longrightarrow> uint16_digits s (of_nat r) = Some (of_nat (decimal s r))"
proof (induction s arbitrary: r)
  case (Cons c s)
  then show ?case using Cons.IH [of "r * 10 + digit c"] by (simp add: decimal_def)
qed (simp add: decimal_def)

lemma decimal_ge: "r \<le> decimal s r"
proof (induction s arbitrary: r)
  case (Cons c s)
  have "r \<le> r * 10 + digit c" by simp
  also have "\<dots> \<le> decimal (c # s) r" using Cons.IH [of "r * 10 + digit c"] by (simp add: decimal_def)
  finally show ?case .
qed (simp add: decimal_def)

lemma uint32_digits_decimal:
  "list_all is_digit s \<Longrightarrow> decimal s r \<le> 0xFFFFFFFF \<Longrightarrow> uint32_digits s r = Some (of_nat (decimal s r))"
proof (induction s arbitrary: r)
  case (Cons c s)
  then show ?case using Cons.IH [of "r * 10 + digit c"] decimal_ge [of "r * 10 + digit c" s] by (simp add: decimal_def Let_def)
qed (simp add: decimal_def)

lemma parse_uint16_append_int [simp]: "parse_uint16 (append_int n) = Some (of_nat n)"
  using append_int_digits [of n] uint16_digits_decimal [of "append_int n" 0] by (simp add: parse_uint16_def decimal_append_int)

lemma parse_uint32_append_int [simp]: "parse_uint32 (append_int (unat w)) = Some w" for w :: u32
proof -
  have "unat w < 2 ^ 32" by (rule less_le_trans [OF unsigned_less]) simp
  then show ?thesis using append_int_digits [of "unat w"] uint32_digits_decimal [of "append_int (unat w)" 0]
    by (simp add: parse_uint32_def decimal_append_int)
qed


section \<open>Reading back attributes\<close>

definition attr_line :: "string \<Rightarrow> string" where
  "attr_line av = ''a='' @ av"

definition reads :: "string list \<Rightarrow> parse_state \<Rightarrow> parse_state \<Rightarrow> bool" where
  "reads ls st st' \<longleftrightarrow> fold sdp_step ls (Some (Inr st)) = Some (Inr st')"

lemma reads_nil: "reads [] st st"
  by (simp add: reads_def)

lemma reads_append: "reads ls st st1 \<Longrightarrow> reads ls' st1 st2 \<Longrightarrow> reads (ls @ ls') st st2"
  by (simp add: reads_def)

lemma reads_Cons: "reads [l] st st1 \<Longrightarrow> reads ls' st1 st2 \<Longrightarrow> reads (l # ls') st st2"
  using reads_append [of "[l]"] by simp

lemma reads_attr: "parse_attribute av st = Some st' \<Longrightarrow> reads [attr_line av] st st'"
  by (simp add: reads_def attr_line_def parse_line_type)

abbreviation in_block :: "session_description \<Rightarrow> media_description \<Rightarrow> parse_state" where
  "in_block s m \<equiv> \<lparr>ps_session = s, cur_media = Some m\<rparr>"

lemma block_simps [simp]:
  "at_level f g (in_block s m) = in_block s (g m)" "in_media g (in_block s m) = in_block s (g m)"
  by (simp_all add: at_level_def in_media_def)

lemma trim_key:
  "trimmed v \<Longrightarrow> key \<in> {''ice-ufrag:'', ''ice-pwd:'', ''ice-options:'', ''fingerprint:'', ''setup:'', ''mid:'', ''rtpmap:'', ''fmtp:'', ''rtcp-fb:'',
     ''extmap:'', ''candidate:'', ''group:BUNDLE'', ''msid:''} \<Longrightarrow> trim (key @ v) = key @ v"
  by (rule trim_trimmed, rule trimmed_append) (auto simp: is_space_def)

lemma parse_attribute_key:
  "trim av = ''ice-ufrag:'' @ v \<Longrightarrow> parse_attribute av st = Some (at_level (session_extra ''ice-ufrag'' v) (\<lambda>m. m\<lparr>md_ice_ufrag := v\<rparr>) st)"
  "trim av = ''ice-pwd:'' @ v \<Longrightarrow> parse_attribute av st = Some (at_level (session_extra ''ice-pwd'' v) (\<lambda>m. m\<lparr>md_ice_pwd := v\<rparr>) st)"
  "trim av = ''ice-options:'' @ v \<Longrightarrow> v \<noteq> [] \<Longrightarrow>
     parse_attribute av st = Some (at_level (\<lambda>s. s\<lparr>sd_ice_options := drop 1 v\<rparr>) (\<lambda>m. m\<lparr>md_ice_options := drop 1 v\<rparr>) st)"
  "trim av = ''fingerprint:'' @ v \<Longrightarrow> parse_attribute av st = Some (parse_fingerprint v st)"
  "trim av = ''setup:'' @ v \<Longrightarrow> parse_attribute av st = Some (at_level (\<lambda>s. s\<lparr>sd_setup := v\<rparr>) (\<lambda>m. m\<lparr>md_setup := v\<rparr>) st)"
  "trim av = ''mid:'' @ v \<Longrightarrow> parse_attribute av st = Some (in_media (\<lambda>m. m\<lparr>md_mid := v\<rparr>) st)"
  "trim av = ''rtpmap:'' @ v \<Longrightarrow> parse_attribute av st =
     Some (in_media (\<lambda>m. let (fmt, rm) = parse_rtpmap v in m\<lparr>md_rtpmap := emplace fmt rm (md_rtpmap m)\<rparr>) st)"
  "trim av = ''fmtp:'' @ v \<Longrightarrow> parse_attribute av st =
     Some (in_media (\<lambda>m. let (k, params) = split_at v CHR '' '' in m\<lparr>md_fmtp := emplace k params (md_fmtp m)\<rparr>) st)"
  "trim av = ''rtcp-fb:'' @ v \<Longrightarrow> parse_attribute av st = Some (in_media (\<lambda>m. m\<lparr>md_rtcp_fb := md_rtcp_fb m @ [v]\<rparr>) st)"
  "trim av = ''extmap:'' @ v \<Longrightarrow> parse_attribute av st = Some (in_media (\<lambda>m. m\<lparr>md_extmap := md_extmap m @ [parse_extmap v]\<rparr>) st)"
  "trim av = ''candidate:'' @ v \<Longrightarrow> parse_attribute av st = Some (in_media (\<lambda>m. m\<lparr>md_candidates := md_candidates m @ [v]\<rparr>) st)"
  "trim av = ''group:BUNDLE'' @ v \<Longrightarrow> parse_attribute av st = Some (in_session (\<lambda>s. s\<lparr>sd_bundle_mids := sd_bundle_mids s @ tokens v\<rparr>) st)"
  "trim av = ''msid:'' @ v \<Longrightarrow> parse_attribute av st = Some (in_media (parse_msid v) st)"
  "trim av = ''msid-semantic: '' @ v \<Longrightarrow> parse_attribute av st = Some (parse_msid_semantic v st)"
  "trim av = ''rtcp-mux'' \<Longrightarrow> parse_attribute av st =
     Some (at_level (session_extra ''a'' ''rtcp-mux'') (\<lambda>m. m\<lparr>md_rtcp_mux := ''rtcp-mux''\<rparr>) st)"
  by (simp_all add: parse_attribute_def substr_def Suc_le_eq) (simp add: Let_def)


lemma parse_direction_string: "parse_direction (direction_string d) = Some d"
  by (cases d) (simp_all add: direction_string_def parse_direction_def)

lemma reads_direction: "reads [attr_line (direction_string d)] (in_block s m) (in_block s (m\<lparr>md_direction := d\<rparr>))"
proof (rule reads_attr)
  have t: "trim (direction_string d) = direction_string d" by (rule trim_trimmed) (cases d; simp add: direction_string_def trimmed_def is_space_def)
  show "parse_attribute (direction_string d) (in_block s m) = Some (in_block s (m\<lparr>md_direction := d\<rparr>))"
    unfolding parse_attribute_def t Let_def parse_direction_string by (cases d) (simp_all add: direction_string_def)
qed

text \<open>An optional attribute, and what an absent one leaves.\<close>

definition opt_attr :: "string \<Rightarrow> string \<Rightarrow> string list" where
  "opt_attr key v = (if v \<noteq> [] then [attr_line (key @ v)] else [])"

lemma reads_opt_attr:
  assumes "v \<noteq> [] \<Longrightarrow> parse_attribute (key @ v) st = Some st'" "v = [] \<Longrightarrow> st' = st"
  shows "reads (opt_attr key v) st st'"
  using assms by (auto simp: opt_attr_def reads_nil intro: reads_attr)

lemma reads_block_attr:
  assumes "trimmed v"
  shows "md_ice_ufrag m = [] \<Longrightarrow> reads (opt_attr ''ice-ufrag:'' v) (in_block s m) (in_block s (m\<lparr>md_ice_ufrag := v\<rparr>))"
    "md_ice_pwd m = [] \<Longrightarrow> reads (opt_attr ''ice-pwd:'' v) (in_block s m) (in_block s (m\<lparr>md_ice_pwd := v\<rparr>))"
    "md_ice_options m = [] \<Longrightarrow> reads (opt_attr ''ice-options:'' v) (in_block s m) (in_block s (m\<lparr>md_ice_options := drop 1 v\<rparr>))"
    "md_setup m = [] \<Longrightarrow> reads (opt_attr ''setup:'' v) (in_block s m) (in_block s (m\<lparr>md_setup := v\<rparr>))"
    "md_mid m = [] \<Longrightarrow> reads (opt_attr ''mid:'' v) (in_block s m) (in_block s (m\<lparr>md_mid := v\<rparr>))"
proof -
  note t = trim_key [OF assms]
  show "md_ice_ufrag m = [] \<Longrightarrow> reads (opt_attr ''ice-ufrag:'' v) (in_block s m) (in_block s (m\<lparr>md_ice_ufrag := v\<rparr>))"
    by (rule reads_opt_attr) (subst parse_attribute_key(1) [OF t], simp_all)
  show "md_ice_pwd m = [] \<Longrightarrow> reads (opt_attr ''ice-pwd:'' v) (in_block s m) (in_block s (m\<lparr>md_ice_pwd := v\<rparr>))"
    by (rule reads_opt_attr) (subst parse_attribute_key(2) [OF t], simp_all)
  show "md_ice_options m = [] \<Longrightarrow> reads (opt_attr ''ice-options:'' v) (in_block s m) (in_block s (m\<lparr>md_ice_options := drop 1 v\<rparr>))"
    by (rule reads_opt_attr) (subst parse_attribute_key(3) [OF t], simp_all)
  show "md_setup m = [] \<Longrightarrow> reads (opt_attr ''setup:'' v) (in_block s m) (in_block s (m\<lparr>md_setup := v\<rparr>))"
    by (rule reads_opt_attr) (subst parse_attribute_key(5) [OF t], simp_all)
  show "md_mid m = [] \<Longrightarrow> reads (opt_attr ''mid:'' v) (in_block s m) (in_block s (m\<lparr>md_mid := v\<rparr>))"
    by (rule reads_opt_attr) (subst parse_attribute_key(6) [OF t], simp_all)
qed

definition fingerprint_lines :: "string \<Rightarrow> string \<Rightarrow> string list" where
  "fingerprint_lines algo hash = (if algo \<noteq> [] \<and> hash \<noteq> [] then [attr_line (''fingerprint:'' @ algo @ CHR '' '' # hash)] else [])"

definition fingerprint_wf :: "string \<Rightarrow> string \<Rightarrow> bool" where
  "fingerprint_wf algo hash \<longleftrightarrow> algo = [] \<and> hash = [] \<or> token algo \<and> hash \<noteq> [] \<and> plain hash"

lemma parse_attribute_fingerprint:
  assumes "fingerprint_wf algo hash" "algo \<noteq> []"
  shows "parse_attribute (''fingerprint:'' @ algo @ CHR '' '' # hash) st = Some (at_level (\<lambda>s. s\<lparr>sd_fingerprint_algo := algo, sd_fingerprint_value := hash\<rparr>)
    (\<lambda>m. m\<lparr>md_fingerprint_algo := algo, md_fingerprint_value := hash\<rparr>) st)"
proof -
  have wf: "token algo" "trimmed hash" "hash \<noteq> []" using assms by (auto simp: fingerprint_wf_def plain_def)
  have "trimmed (algo @ CHR '' '' # hash)" using trimmed_between [of algo hash "'' ''"] wf assms(2) token_trimmed by simp
  from parse_attribute_key(4) [OF trim_key [OF this], of st] show ?thesis
    using token_no_space [OF wf(1)] by (simp add: parse_fingerprint_def)
qed

lemma reads_fingerprint:
  assumes "fingerprint_wf algo hash" "md_fingerprint_algo m = []" "md_fingerprint_value m = []"
  shows "reads (fingerprint_lines algo hash) (in_block s m) (in_block s (m\<lparr>md_fingerprint_algo := algo, md_fingerprint_value := hash\<rparr>))"
proof (cases "algo = []")
  case True
  moreover have "m\<lparr>md_fingerprint_algo := [], md_fingerprint_value := []\<rparr> = m" using assms(2,3) by (cases m) simp
  ultimately show ?thesis using assms(1) by (auto simp: fingerprint_wf_def fingerprint_lines_def reads_nil token_def)
next
  case False
  then have "hash \<noteq> []" using assms(1) by (auto simp: fingerprint_wf_def)
  then show ?thesis using parse_attribute_fingerprint [OF assms(1) False, of "in_block s m"] False
    by (auto simp: fingerprint_lines_def intro: reads_attr)
qed


definition connection_line :: "int \<Rightarrow> string \<Rightarrow> int \<Rightarrow> string" where
  "connection_line family addr t = ''c=IN'' @ spaced [if family = 6 then ''IP6'' else ''IP4'', addr @ (if t > 0 then CHR ''/'' # append_int (to_u64 t) else [])]"

definition connection_wf :: "string \<Rightarrow> int \<Rightarrow> int \<Rightarrow> bool" where
  "connection_wf addr t family \<longleftrightarrow> token addr \<and> CHR ''/'' \<notin> set addr \<and> 0 \<le> t \<and> t < 65536 \<and> family \<in> {4, 6}"

lemma to_u64_small: "0 \<le> i \<Longrightarrow> i < 2 ^ 64 \<Longrightarrow> to_u64 i = nat i"
  by (simp add: to_u64_def)

lemma uint_u16_small: "0 \<le> i \<Longrightarrow> i < 65536 \<Longrightarrow> uint (of_nat (nat i) :: u16) = i"
  by (simp add: unsigned_of_nat take_bit_nat_eq_self uint_nat unsigned_of_int take_bit_int_eq_self)

lemma token_append: "token a \<Longrightarrow> list_all (\<lambda>c. \<not> is_space c \<and> \<not> is_eol c) b \<Longrightarrow> token (a @ b)"
  by (simp add: token_def)

lemma token_slash: "token b \<Longrightarrow> list_all (\<lambda>c. \<not> is_space c \<and> \<not> is_eol c) (CHR ''/'' # b)"
  by (simp add: token_def is_space_def is_eol_def)

lemma next_token_first:
  "token a \<Longrightarrow> token b \<Longrightarrow> list_all token ts \<Longrightarrow> next_token (a @ spaced (b # ts)) = (a, b @ spaced ts)"
  "token a \<Longrightarrow> next_token (a @ spaced []) = (a, [])"
  by (simp_all del: spaced_simps add: next_token_spaced) simp_all

lemma trim_last_token: "token a \<Longrightarrow> trim (a @ spaced []) = a"
  by (simp add: token_trimmed)

lemmas read_tokens = next_token_first trim_last_token

lemma parse_connection_tokens:
  assumes "token n" "token f" "token addr" "CHR ''/'' \<notin> set addr" "list_all is_digit num" "num \<noteq> []"
  shows "parse_connection (n @ spaced [f, addr]) = (addr, 0, if f = ''IP6'' then 6 else 4)"
    "parse_uint16 num = Some t \<Longrightarrow> parse_connection (n @ spaced [f, addr @ CHR ''/'' # num]) = (addr, uint t, if f = ''IP6'' then 6 else 4)"
proof -
  show "parse_connection (n @ spaced [f, addr]) = (addr, 0, if f = ''IP6'' then 6 else 4)"
    using assms(1-4) by (simp only: parse_connection_def read_tokens list.pred_inject simp_thms Let_def prod.case find_char_none option.case)
  have "token (addr @ CHR ''/'' # num)"
    using assms(3,5) digit_not_special by (auto simp: token_def list_all_iff is_space_def is_eol_def)
  then show "parse_uint16 num = Some t \<Longrightarrow> parse_connection (n @ spaced [f, addr @ CHR ''/'' # num]) = (addr, uint t, if f = ''IP6'' then 6 else 4)"
    using assms(1-4) by (simp only: parse_connection_def read_tokens list.pred_inject simp_thms Let_def prod.case find_char_append option.case) simp
qed

lemma token_words: "token ''IN''" "token ''IP4''" "token ''IP6''"
  by (simp_all add: token_def is_space_def is_eol_def)

lemma parse_connection_back:
  assumes "connection_wf addr t family"
  shows "parse_connection (drop 2 (connection_line family addr t)) = (addr, t, family)"
proof -
  have wf: "token addr" "CHR ''/'' \<notin> set addr" "0 \<le> t" "t < 65536" "family = 4 \<or> family = 6"
    using assms by (auto simp: connection_wf_def)
  have t: "parse_uint16 (append_int (to_u64 t)) = Some (of_nat (nat t))" using wf(3,4) by (simp add: to_u64_small)
  have d: "drop 2 (connection_line family addr t) = ''IN'' @ spaced [if family = 6 then ''IP6'' else ''IP4'', addr @ (if t > 0 then CHR ''/'' # append_int (to_u64 t) else [])]"
    by (simp add: connection_line_def)
  note p = parse_connection_tokens [OF token_words(1) _ wf(1,2) conjunct1 [OF append_int_digits] conjunct2 [OF append_int_digits]]
  show ?thesis unfolding d
    using wf(3-5) p(1) [OF token_words(2)] p(1) [OF token_words(3)] p(2) [OF token_words(2) t] p(2) [OF token_words(3) t]
      uint_u16_small [OF wf(3,4)]
    by (cases "t > 0") (auto simp del: spaced_simps)
qed

lemma reads_connection:
  assumes "connection_wf addr t family"
  shows "reads [connection_line family addr t] st (at_level
     (\<lambda>s. s\<lparr>sd_connection_address := addr, sd_connection_ttl := t, sd_address_family := family\<rparr>)
     (\<lambda>m. m\<lparr>md_connection_address := addr, md_ttl := t, md_address_family := family\<rparr>) st)"
proof -
  have "connection_line family addr t = CHR ''c'' # CHR ''='' # drop 2 (connection_line family addr t)" by (simp add: connection_line_def)
  then have "parse_line (connection_line family addr t) st = Some (Inr (parse_connection_line (drop 2 (connection_line family addr t)) st))"
    by (metis parse_line_type(6))
  then show ?thesis using parse_connection_back [OF assms] by (simp add: reads_def parse_connection_line_def)
qed

lemma reads_rtcp_mux: "reads [attr_line ''rtcp-mux''] (in_block s m) (in_block s (m\<lparr>md_rtcp_mux := ''rtcp-mux''\<rparr>))"
  by (rule reads_attr, subst parse_attribute_key(15)) (simp_all add: trimmed_def is_space_def)

definition msid_line :: "msid \<Rightarrow> string" where
  "msid_line x = attr_line (''msid:'' @ stream_id x @ (if track_id x \<noteq> [] then CHR '' '' # track_id x else []))"

definition msid_wf :: "msid \<Rightarrow> bool" where
  "msid_wf x \<longleftrightarrow> token (stream_id x) \<and> plain (track_id x)"

lemma reads_msid:
  assumes "msid_wf x"
  shows "reads [msid_line x] (in_block s m) (in_block s (m\<lparr>md_msid := Some x\<rparr>))"
proof -
  define v where "v = stream_id x @ (if track_id x \<noteq> [] then CHR '' '' # track_id x else [])"
  have wf: "token (stream_id x)" "trimmed (track_id x)" using assms by (auto simp: msid_wf_def plain_def)
  have "trimmed v" using trimmed_between [of "stream_id x" "track_id x" "'' ''"] wf token_trimmed [OF wf(1)]
    by (auto simp: v_def token_def)
  from parse_attribute_key(13) [OF trim_key [OF this]] have "parse_attribute (''msid:'' @ v) (in_block s m) = Some (in_block s (parse_msid v m))" by simp
  moreover have "parse_msid v m = m\<lparr>md_msid := Some x\<rparr>"
    using token_no_space [OF wf(1)] wf(2) token_trimmed [OF wf(1)] by (cases "track_id x = []") (simp_all add: v_def parse_msid_def)
  ultimately show ?thesis by (simp only: msid_line_def v_def [symmetric] reads_attr)
qed


section \<open>Reading back lists of attributes\<close>

lemma emplace_last: "list_all (\<lambda>(k', v'). k' < k) m \<Longrightarrow> emplace k v m = m @ [(k, v)]"
  by (induction k v m rule: emplace.induct) auto

text \<open>Entries read in the order of their keys end up behind those already there.\<close>

lemma reads_map_entries:
  assumes "\<And>k v m. (k, v) \<in> set xs \<Longrightarrow> reads [line (k, v)] (in_block s m) (in_block s (upd (emplace k v (sel m)) m))"
    and "\<And>m e. sel (upd e m) = e" "\<And>m. upd (sel m) m = m" "\<And>m e e'. upd e (upd e' m) = upd e m"
    and "sorted_wrt (<) (map fst (sel m @ xs))"
  shows "reads (map line xs) (in_block s m) (in_block s (upd (sel m @ xs) m))"
  using assms(1,5)
proof (induction xs arbitrary: m)
  case Nil
  then show ?case by (simp add: reads_nil assms(3))
next
  case (Cons x xs)
  obtain k v where x: "x = (k, v)" by fastforce
  have e: "emplace k v (sel m) = sel m @ [(k, v)]"
    using Cons.prems(2) by (intro emplace_last) (auto simp: sorted_wrt_append list_all_iff x)
  have "reads (map line xs) (in_block s (upd (sel m @ [(k, v)]) m)) (in_block s (upd ((sel m @ [(k, v)]) @ xs) m))"
    using Cons.IH [of "upd (sel m @ [(k, v)]) m"] Cons.prems by (simp add: assms(2,4) x)
  then show ?case using reads_Cons [OF Cons.prems(1) [of k v m]] by (simp add: x e)
qed

lemma reads_list_entries:
  assumes "\<And>x m. x \<in> set xs \<Longrightarrow> reads [line x] (in_block s m) (in_block s (upd (sel m @ [f x]) m))"
    and "\<And>m e. sel (upd e m) = e" "\<And>m. upd (sel m) m = m" "\<And>m e e'. upd e (upd e' m) = upd e m"
  shows "reads (map line xs) (in_block s m) (in_block s (upd (sel m @ map f xs) m))"
  using assms(1)
proof (induction xs arbitrary: m)
  case Nil
  then show ?case by (simp add: reads_nil assms(3))
next
  case (Cons x xs)
  have "reads (map line xs) (in_block s (upd (sel m @ [f x]) m)) (in_block s (upd ((sel m @ [f x]) @ map f xs) m))"
    using Cons.IH [of "upd (sel m @ [f x]) m"] Cons.prems by (simp add: assms(2,4))
  then show ?case using reads_Cons [OF Cons.prems [of x m]] by simp
qed

definition rtpmap_line :: "string \<times> rtp_map \<Rightarrow> string" where
  "rtpmap_line = (\<lambda>(fmt, m). attr_line (''rtpmap:'' @ fmt @ spaced [rm_encoding m @ CHR ''/'' # append_int (unat (rm_clock_rate m))
     @ (if rm_channels m \<noteq> 1 then CHR ''/'' # append_int (unat (rm_channels m)) else [])]))"

definition rtpmap_wf :: "string \<times> rtp_map \<Rightarrow> bool" where
  "rtpmap_wf = (\<lambda>(fmt, m). token fmt \<and> token (rm_encoding m) \<and> CHR ''/'' \<notin> set (rm_encoding m))"

lemma parse_rtpmap_back:
  assumes "token fmt" "token (rm_encoding m)" "CHR ''/'' \<notin> set (rm_encoding m)"
    and "e = rm_encoding m @ CHR ''/'' # append_int (unat (rm_clock_rate m)) @ (if rm_channels m \<noteq> 1 then CHR ''/'' # append_int (unat (rm_channels m)) else [])"
  shows "token e" "parse_rtpmap (fmt @ spaced [e]) = (fmt, m)"
proof -
  have num: "token (append_int n)" "CHR ''/'' \<notin> set (append_int n)" for n by (rule append_int_token)+
  show e: "token e" using assms(2) num(1) by (auto simp: token_def assms(4) is_space_def is_eol_def)
  have "split_at e CHR ''/'' = (rm_encoding m, append_int (unat (rm_clock_rate m)) @ (if rm_channels m \<noteq> 1 then CHR ''/'' # append_int (unat (rm_channels m)) else []))"
    using assms(3) by (simp add: assms(4))
  moreover have "next_token (e @ spaced []) = (e, [])" by (rule next_token_first(2) [OF e])
  ultimately show "parse_rtpmap (fmt @ spaced [e]) = (fmt, m)"
    using num(2) assms(1) e
    by (cases m; cases "rm_channels m = 1") (simp_all add: parse_rtpmap_def next_token_first(1) new_rtp_map_def Let_def del: spaced_simps)
qed

lemma reads_rtpmaps:
  assumes "list_all rtpmap_wf xs" "sorted_wrt (<) (map fst (md_rtpmap m @ xs))"
  shows "reads (map rtpmap_line xs) (in_block s m) (in_block s (m\<lparr>md_rtpmap := md_rtpmap m @ xs\<rparr>))"
proof (rule reads_map_entries [where upd = "\<lambda>e m. m\<lparr>md_rtpmap := e\<rparr>" and sel = md_rtpmap])
  fix fmt rm m assume "(fmt, rm) \<in> set xs"
  then have wf: "token fmt" "token (rm_encoding rm)" "CHR ''/'' \<notin> set (rm_encoding rm)" using assms(1) by (auto simp: list_all_iff rtpmap_wf_def)
  note p = parse_rtpmap_back [OF wf refl]
  have "trimmed (fmt @ spaced [rm_encoding rm @ CHR ''/'' # append_int (unat (rm_clock_rate rm))
     @ (if rm_channels rm \<noteq> 1 then CHR ''/'' # append_int (unat (rm_channels rm)) else [])])"
    by (rule token_spaced_trimmed [OF wf(1)]) (simp only: list.pred_inject p(1) simp_thms)
  from parse_attribute_key(7) [OF trim_key [OF this]]
  show "reads [rtpmap_line (fmt, rm)] (in_block s m) (in_block s (m\<lparr>md_rtpmap := emplace fmt rm (md_rtpmap m)\<rparr>))"
    by (auto simp: rtpmap_line_def p(2) simp del: spaced_simps intro!: reads_attr)
qed (use assms(2) in simp_all)

definition fmtp_line :: "string \<times> string \<Rightarrow> string" where
  "fmtp_line = (\<lambda>(fmt, params). attr_line (''fmtp:'' @ fmt @ CHR '' '' # params))"

definition fmtp_wf :: "string \<times> string \<Rightarrow> bool" where
  "fmtp_wf = (\<lambda>(fmt, params). token fmt \<and> plain params \<and> params \<noteq> [])"

lemma reads_fmtps:
  assumes "list_all fmtp_wf xs" "sorted_wrt (<) (map fst (md_fmtp m @ xs))"
  shows "reads (map fmtp_line xs) (in_block s m) (in_block s (m\<lparr>md_fmtp := md_fmtp m @ xs\<rparr>))"
proof (rule reads_map_entries [where upd = "\<lambda>e m. m\<lparr>md_fmtp := e\<rparr>" and sel = md_fmtp])
  fix fmt params m assume "(fmt, params) \<in> set xs"
  then have wf: "token fmt" "trimmed params" "params \<noteq> []" using assms(1) by (auto simp: list_all_iff fmtp_wf_def plain_def)
  have "trimmed (fmt @ CHR '' '' # params)" using trimmed_between [of fmt params "'' ''"] wf token_trimmed [OF wf(1)] by (simp add: token_def)
  from parse_attribute_key(8) [OF trim_key [OF this]]
  show "reads [fmtp_line (fmt, params)] (in_block s m) (in_block s (m\<lparr>md_fmtp := emplace fmt params (md_fmtp m)\<rparr>))"
    by (auto simp: fmtp_line_def token_no_space [OF wf(1)] intro!: reads_attr)
qed (use assms(2) in simp_all)

lemma reads_rtcp_fbs:
  assumes "list_all plain xs"
  shows "reads (map (\<lambda>x. attr_line (''rtcp-fb:'' @ x)) xs) (in_block s m) (in_block s (m\<lparr>md_rtcp_fb := md_rtcp_fb m @ xs\<rparr>))"
proof -
  have "reads [attr_line (''rtcp-fb:'' @ x)] (in_block s m) (in_block s (m\<lparr>md_rtcp_fb := md_rtcp_fb m @ [x]\<rparr>))" if "x \<in> set xs" for x m
    using that assms parse_attribute_key(9) [OF trim_key [of x "''rtcp-fb:''"]] by (auto simp: list_all_iff plain_def intro!: reads_attr)
  from reads_list_entries [where upd = "\<lambda>e m. m\<lparr>md_rtcp_fb := e\<rparr>" and sel = md_rtcp_fb and f = "\<lambda>x. x", OF this] show ?thesis by simp
qed

lemma reads_candidates:
  assumes "list_all plain xs"
  shows "reads (map (\<lambda>x. attr_line (''candidate:'' @ x)) xs) (in_block s m) (in_block s (m\<lparr>md_candidates := md_candidates m @ xs\<rparr>))"
proof -
  have "reads [attr_line (''candidate:'' @ x)] (in_block s m) (in_block s (m\<lparr>md_candidates := md_candidates m @ [x]\<rparr>))" if "x \<in> set xs" for x m
    using that assms parse_attribute_key(11) [OF trim_key [of x "''candidate:''"]] by (auto simp: list_all_iff plain_def intro!: reads_attr)
  from reads_list_entries [where upd = "\<lambda>e m. m\<lparr>md_candidates := e\<rparr>" and sel = md_candidates and f = "\<lambda>x. x", OF this] show ?thesis by simp
qed


definition param_token :: "string \<times> string \<Rightarrow> string" where
  "param_token = (\<lambda>(k, v). k @ (if v \<noteq> [] then CHR ''='' # v else []))"

definition param_wf :: "string \<times> string \<Rightarrow> bool" where
  "param_wf = (\<lambda>(k, v). token k \<and> CHR ''='' \<notin> set k \<and> (v = [] \<or> token v))"

definition ext_id_token :: "ext_map \<Rightarrow> string" where
  "ext_id_token e = append_int (to_u64 (em_id e)) @ (if em_direction e \<noteq> SendRecv then CHR ''/'' # direction_string (em_direction e) else [])"

definition extmap_line :: "ext_map \<Rightarrow> string" where
  "extmap_line e = attr_line (''extmap:'' @ ext_id_token e @ spaced (em_uri e # map param_token (em_params e)))"

definition extmap_wf :: "ext_map \<Rightarrow> bool" where
  "extmap_wf e \<longleftrightarrow> 0 \<le> em_id e \<and> em_id e < 65536 \<and> token (em_uri e) \<and> list_all param_wf (em_params e) \<and> sorted_wrt (<) (map fst (em_params e))"

lemma param_token_token: "param_wf p \<Longrightarrow> token (param_token p)"
  by (cases p) (auto simp: param_wf_def param_token_def token_def is_space_def is_eol_def)

lemma add_param_token: "param_wf p \<Longrightarrow> list_all (\<lambda>(k', v'). k' < fst p) m \<Longrightarrow> add_param (param_token p) m = m @ [p]"
  by (cases p) (auto simp: param_wf_def param_token_def add_param_def token_def emplace_last)

lemma ext_params_tokens: "list_all param_wf ps \<Longrightarrow> sorted_wrt (<) (map fst (acc @ ps)) \<Longrightarrow>
    ext_params (tl (spaced (map param_token ps))) acc = acc @ ps"
proof (induction ps arbitrary: acc)
  case Nil
  then show ?case by (simp add: ext_params.simps)
next
  case (Cons p ps)
  define t where "t = param_token p"
  have t: "token t" "list_all token (map param_token ps)" using Cons.prems param_token_token by (auto simp: t_def list_all_iff)
  then have ne: "t \<noteq> []" by (simp add: token_def)
  have "ext_params (t @ spaced (map param_token ps)) acc = ext_params (tl (spaced (map param_token ps))) (add_param t acc)"
    using ne by (subst ext_params.simps) (simp add: next_token_spaced [OF t])
  also have "add_param t acc = acc @ [p]"
    using Cons.prems by (auto simp: t_def sorted_wrt_append list_all_iff case_prod_unfold intro!: add_param_token)
  finally show ?case using Cons by (simp add: t_def)
qed

lemma direction_token: "list_all (\<lambda>c. \<not> is_space c \<and> \<not> is_eol c) (direction_string d)" "CHR ''/'' \<notin> set (direction_string d)" "direction_string d \<noteq> []"
  by (cases d; simp add: direction_string_def is_space_def is_eol_def)+

lemma ext_id_token_token: "token (ext_id_token e)"
  using append_int_token(1) direction_token(1) by (auto simp: ext_id_token_def token_def is_space_def is_eol_def)

lemma parse_extmap_back:
  assumes "extmap_wf e"
  shows "parse_extmap (ext_id_token e @ spaced (em_uri e # map param_token (em_params e))) = e"
proof -
  have wf: "0 \<le> em_id e" "em_id e < 65536" "token (em_uri e)" "list_all param_wf (em_params e)" "sorted_wrt (<) (map fst (em_params e))"
    using assms by (auto simp: extmap_wf_def)
  have ps: "list_all token (map param_token (em_params e))" using wf(4) param_token_token by (auto simp: list_all_iff)
  have i: "parse_uint16 (append_int (to_u64 (em_id e))) = Some (of_nat (nat (em_id e)))" using wf(1,2) by (simp add: to_u64_small)
  have s: "split_at (ext_id_token e) CHR ''/'' = (append_int (to_u64 (em_id e)), if em_direction e \<noteq> SendRecv then direction_string (em_direction e) else [])"
    using append_int_token(2) by (simp add: ext_id_token_def)
  have p: "ext_params (trim (tl (spaced (map param_token (em_params e))))) [] = em_params e"
    using ext_params_tokens [OF wf(4), of "[]"] wf(5) trimmed_tl_spaced [OF ps] by simp
  show ?thesis
    unfolding parse_extmap_def next_token_first(1) [OF ext_id_token_token wf(3) ps] Let_def prod.case s i next_token_spaced [OF wf(3) ps] p
    using uint_u16_small [OF wf(1,2)] parse_direction_string [of "em_direction e"] direction_token(3) [of "em_direction e"]
    by (cases e) (auto simp: new_ext_map_def)
qed

lemma reads_extmaps:
  assumes "list_all extmap_wf xs"
  shows "reads (map extmap_line xs) (in_block s m) (in_block s (m\<lparr>md_extmap := md_extmap m @ xs\<rparr>))"
proof -
  have "reads [extmap_line e] (in_block s m) (in_block s (m\<lparr>md_extmap := md_extmap m @ [e]\<rparr>))" if "e \<in> set xs" for e m
  proof -
    have e: "extmap_wf e" using that assms by (simp add: list_all_iff)
    then have "list_all token (em_uri e # map param_token (em_params e))" using param_token_token by (auto simp: extmap_wf_def list_all_iff)
    from parse_attribute_key(10) [OF trim_key [OF token_spaced_trimmed [OF ext_id_token_token this]], of e "in_block s m"]
    have "parse_attribute (''extmap:'' @ ext_id_token e @ spaced (em_uri e # map param_token (em_params e))) (in_block s m)
      = Some (in_block s (m\<lparr>md_extmap := md_extmap m @ [e]\<rparr>))" by (simp add: parse_extmap_back [OF e] del: spaced_simps)
    then show ?thesis unfolding extmap_line_def by (rule reads_attr)
  qed
  from reads_list_entries [where upd = "\<lambda>e m. m\<lparr>md_extmap := e\<rparr>" and sel = md_extmap and f = "\<lambda>x. x", OF this] show ?thesis by simp
qed

text \<open>Attributes the parser has no branch for: the text up to the first blank is the key, the rest the value.\<close>

definition known_attribute :: "string \<Rightarrow> bool" where
  "known_attribute av \<longleftrightarrow> av \<in> {''rtcp-mux'', ''sendonly'', ''recvonly'', ''sendrecv'', ''inactive''}
     \<or> list_ex (starts_with av) [''ice-ufrag:'', ''ice-pwd:'', ''ice-options:'', ''fingerprint:'', ''setup:'', ''connection-address:'', ''mid:'',
         ''rtpmap:'', ''fmtp:'', ''rtcp-fb:'', ''extmap:'', ''candidate:'', ''group:'', ''msid-semantic:'', ''msid:'']"

definition extra_text :: "string \<times> string \<Rightarrow> string" where
  "extra_text = (\<lambda>(k, v). k @ (if v \<noteq> [] then CHR '':'' # v else []))"

definition extra_wf :: "string \<times> string \<Rightarrow> bool" where
  "extra_wf x \<longleftrightarrow> plain (extra_text x) \<and> \<not> known_attribute (extra_text x)"

definition reread_extra :: "string \<times> string \<Rightarrow> string \<times> string" where
  "reread_extra x = (takeWhile (\<lambda>c. c \<noteq> CHR '' '') (extra_text x), trim (dropWhile (\<lambda>c. c \<noteq> CHR '' '') (extra_text x)))"

lemma parse_attribute_unknown: "trim av = av \<Longrightarrow> \<not> known_attribute av \<Longrightarrow> parse_attribute av st = Some (parse_generic av st)"
  by (simp add: parse_attribute_def known_attribute_def)

lemma parse_generic_extra:
  "parse_generic (extra_text x) st = at_level (session_extra (fst (reread_extra x)) (snd (reread_extra x))) (media_extra (fst (reread_extra x)) (snd (reread_extra x))) st"
proof -
  have e: "(case find_char CHR '' '' av of Some p \<Rightarrow> p | None \<Rightarrow> length av) = length (takeWhile (\<lambda>c. c \<noteq> CHR '' '') av)" for av
    by (induction av) (auto simp: find_char_def split: if_splits)
  have t: "take (length (takeWhile P av)) av = takeWhile P av" "drop (length (takeWhile P av)) av = dropWhile P av" for P and av :: string
    by (metis takeWhile_eq_take, metis dropWhile_eq_drop)
  show ?thesis unfolding parse_generic_def Let_def e t by (simp add: reread_extra_def)
qed

lemma parse_attribute_extra:
  assumes "extra_wf x"
  shows "parse_attribute (extra_text x) st = Some (at_level (session_extra (fst (reread_extra x)) (snd (reread_extra x)))
    (media_extra (fst (reread_extra x)) (snd (reread_extra x))) st)"
  using parse_attribute_unknown [of "extra_text x" st] parse_generic_extra [of x st] assms by (simp add: extra_wf_def plain_def)

lemma reads_media_extras:
  assumes "list_all extra_wf xs"
  shows "reads (map (\<lambda>x. attr_line (extra_text x)) xs) (in_block s m) (in_block s (m\<lparr>md_extra_attrs := md_extra_attrs m @ map reread_extra xs\<rparr>))"
proof (rule reads_list_entries [where upd = "\<lambda>e m. m\<lparr>md_extra_attrs := e\<rparr>" and sel = md_extra_attrs])
  show "reads [attr_line (extra_text x)] (in_block s m) (in_block s (m\<lparr>md_extra_attrs := md_extra_attrs m @ [reread_extra x]\<rparr>))" if "x \<in> set xs" for x m
    using that assms parse_attribute_extra [of x "in_block s m"] by (auto simp: list_all_iff media_extra_def intro!: reads_attr)
qed simp_all


section \<open>Reading back a media description\<close>

definition media_attr_lines :: "media_description \<Rightarrow> string list" where
  "media_attr_lines m =
     opt_attr ''ice-ufrag:'' (md_ice_ufrag m) @ opt_attr ''ice-pwd:'' (md_ice_pwd m) @ opt_attr ''ice-options:'' (md_ice_options m)
     @ fingerprint_lines (md_fingerprint_algo m) (md_fingerprint_value m) @ opt_attr ''setup:'' (md_setup m)
     @ [connection_line (md_address_family m) (md_connection_address m) (md_ttl m)]
     @ (if md_rtcp_mux m \<noteq> [] then [attr_line ''rtcp-mux''] else [])
     @ opt_attr ''mid:'' (md_mid m)
     @ (if md_direction m \<noteq> SendRecv then [attr_line (direction_string (md_direction m))] else [])
     @ (case md_msid m of Some x \<Rightarrow> [msid_line x] | None \<Rightarrow> [])
     @ map rtpmap_line (md_rtpmap m) @ map fmtp_line (md_fmtp m) @ map (\<lambda>x. attr_line (''rtcp-fb:'' @ x)) (md_rtcp_fb m)
     @ map extmap_line (sort_key em_id (md_extmap m)) @ map (\<lambda>x. attr_line (''candidate:'' @ x)) (md_candidates m)
     @ map (\<lambda>x. attr_line (extra_text x)) (md_extra_attrs m)"

text \<open>Media descriptions whose text can be read back: no field contains a line break, tokens contain no blank, and so on.\<close>

definition media_wf :: "media_description \<Rightarrow> bool" where
  "media_wf m \<longleftrightarrow> token (md_protocol m) \<and> list_all token (md_formats m)
     \<and> list_all plain [md_ice_ufrag m, md_ice_pwd m, md_ice_options m, md_setup m, md_mid m]
     \<and> fingerprint_wf (md_fingerprint_algo m) (md_fingerprint_value m)
     \<and> connection_wf (md_connection_address m) (md_ttl m) (md_address_family m)
     \<and> (md_rtcp_mux m = [] \<or> md_rtcp_mux m = ''rtcp-mux'')
     \<and> (case md_msid m of Some x \<Rightarrow> msid_wf x | None \<Rightarrow> True)
     \<and> list_all rtpmap_wf (md_rtpmap m) \<and> sorted_wrt (<) (map fst (md_rtpmap m))
     \<and> list_all fmtp_wf (md_fmtp m) \<and> sorted_wrt (<) (map fst (md_fmtp m))
     \<and> list_all plain (md_rtcp_fb m) \<and> list_all plain (md_candidates m)
     \<and> list_all extmap_wf (md_extmap m) \<and> distinct (map em_id (md_extmap m))
     \<and> list_all extra_wf (md_extra_attrs m)"

text \<open>What comes back of a media description.\<close>

definition reread_media :: "media_description \<Rightarrow> media_description" where
  "reread_media m = m\<lparr>md_ice_options := drop 1 (md_ice_options m), md_extmap := sort_key em_id (md_extmap m),
     md_extra_attrs := map reread_extra (md_extra_attrs m)\<rparr>"

definition block_start :: "media_description \<Rightarrow> media_description" where
  "block_start m = new_media_description\<lparr>md_type := md_type m, md_port := md_port m, md_protocol := md_protocol m, md_formats := md_formats m\<rparr>"

definition media_first_line :: "media_description \<Rightarrow> string" where
  "media_first_line m = ''m='' @ media_type_string (md_type m) @ spaced (append_int (unat (md_port m)) # md_protocol m # md_formats m)"

lemma media_type_token: "token (media_type_string t)" "media_type_of (media_type_string t) = t"
  by (cases t; simp add: token_def media_type_string_def is_space_def is_eol_def media_type_of_def)+

lemma parse_media_desc_back:
  assumes "token (md_protocol m)" "list_all token (md_formats m)"
  shows "parse_media_desc (media_type_string (md_type m) @ spaced (append_int (unat (md_port m)) # md_protocol m # md_formats m)) new_media_description = block_start m"
proof -
  note t = append_int_token(1) [of "unat (md_port m)"]
  have n: "next_token (media_type_string (md_type m) @ spaced (append_int (unat (md_port m)) # md_protocol m # md_formats m))
      = (media_type_string (md_type m), append_int (unat (md_port m)) @ spaced (md_protocol m # md_formats m))"
    "next_token (append_int (unat (md_port m)) @ spaced (md_protocol m # md_formats m)) = (append_int (unat (md_port m)), md_protocol m @ spaced (md_formats m))"
    "next_token (md_protocol m @ spaced (md_formats m)) = (md_protocol m, tl (spaced (md_formats m)))"
    using assms t media_type_token(1) by (simp_all only: next_token_first list.pred_inject simp_thms) (simp only: next_token_spaced)
  show ?thesis unfolding parse_media_desc_def n Let_def prod.case
    using assms(2) trimmed_tl_spaced [OF assms(2)] by (simp add: block_start_def media_type_token(2) tokens_tl new_media_description_def)
qed

lemma reads_media_line:
  assumes "media_wf m"
  shows "reads [media_first_line m] st (in_block (finish_media st) (block_start m))"
proof -
  have "token (md_protocol m)" "list_all token (md_formats m)" using assms by (simp_all add: media_wf_def)
  from parse_media_desc_back [OF this] show ?thesis
    by (simp add: reads_def media_first_line_def parse_line_type del: spaced_simps)
qed

lemma reads_if: "(c \<Longrightarrow> reads ls st st') \<Longrightarrow> (\<not> c \<Longrightarrow> st' = st) \<Longrightarrow> reads (if c then ls else []) st st'"
  by (simp add: reads_nil)

lemma reads_opt_mux:
  assumes "v = [] \<or> v = ''rtcp-mux''" "md_rtcp_mux m = []"
  shows "reads (if v \<noteq> [] then [attr_line ''rtcp-mux''] else []) (in_block s m) (in_block s (m\<lparr>md_rtcp_mux := v\<rparr>))"
  using assms reads_rtcp_mux [of s m] by (intro reads_if) auto

lemma reads_opt_direction:
  "md_direction m = SendRecv \<Longrightarrow>
     reads (if d \<noteq> SendRecv then [attr_line (direction_string d)] else []) (in_block s m) (in_block s (m\<lparr>md_direction := d\<rparr>))"
  using reads_direction [of d s m] by (intro reads_if) auto

lemma reads_opt_msid:
  assumes "case x of Some x \<Rightarrow> msid_wf x | None \<Rightarrow> True" "md_msid m = None"
  shows "reads (case x of Some x \<Rightarrow> [msid_line x] | None \<Rightarrow> []) (in_block s m) (in_block s (m\<lparr>md_msid := x\<rparr>))"
proof (cases x)
  case None
  have "m\<lparr>md_msid := None\<rparr> = m" using assms(2) by (cases m) simp
  then show ?thesis using None by (simp add: reads_nil)
next
  case (Some y)
  then show ?thesis using assms(1) reads_msid [of y s m] by simp
qed

lemma reads_eq: "reads ls st x \<Longrightarrow> x = st' \<Longrightarrow> reads ls st st'"
  by simp

lemma reads_media_attrs:
  assumes "media_wf m"
  shows "reads (media_attr_lines m) (in_block s (block_start m)) (in_block s (reread_media m))"
proof -
  note wf = assms [unfolded media_wf_def]
  have tr: "trimmed (md_ice_ufrag m)" "trimmed (md_ice_pwd m)" "trimmed (md_ice_options m)" "trimmed (md_setup m)" "trimmed (md_mid m)"
    using wf by (simp_all add: plain_def)
  define b where "b = block_start m"
  have b: "md_ice_ufrag b = []" "md_ice_pwd b = []" "md_ice_options b = []" "md_setup b = []" "md_mid b = []" "md_fingerprint_algo b = []"
    "md_fingerprint_value b = []" "md_rtcp_mux b = []" "md_direction b = SendRecv" "md_msid b = None" "md_rtpmap b = []" "md_fmtp b = []"
    "md_rtcp_fb b = []" "md_extmap b = []" "md_candidates b = []" "md_extra_attrs b = []"
    by (simp_all add: b_def block_start_def new_media_description_def)
  have ext: "list_all extmap_wf (sort_key em_id (md_extmap m))" using wf by (simp add: list_all_iff)
  have "reads (media_attr_lines m) (in_block s b) (in_block s (reread_media m))"
    unfolding media_attr_lines_def
    apply (rule reads_eq)
    apply (rule reads_append [OF reads_block_attr(1) [OF tr(1)]], simp add: b)
    apply (rule reads_append [OF reads_block_attr(2) [OF tr(2)]], simp add: b)
    apply (rule reads_append [OF reads_block_attr(3) [OF tr(3)]], simp add: b)
    apply (rule reads_append [OF reads_fingerprint], use wf in simp, simp add: b, simp add: b)
    apply (rule reads_append [OF reads_block_attr(4) [OF tr(4)]], simp add: b)
    apply (rule reads_append [OF reads_connection], use wf in simp)
    apply (simp only: block_simps)
    apply (rule reads_append [OF reads_opt_mux], use wf in simp, simp add: b)
    apply (rule reads_append [OF reads_block_attr(5) [OF tr(5)]], simp add: b)
    apply (rule reads_append [OF reads_opt_direction], simp add: b)
    apply (rule reads_append [OF reads_opt_msid], use wf in simp, simp add: b)
    apply (rule reads_append [OF reads_rtpmaps], use wf in simp, use wf in \<open>simp add: b\<close>)
    apply (rule reads_append [OF reads_fmtps], use wf in simp, use wf in \<open>simp add: b\<close>)
    apply (rule reads_append [OF reads_rtcp_fbs], use wf in simp)
    apply (rule reads_append [OF reads_extmaps [OF ext]])
    apply (rule reads_append [OF reads_candidates], use wf in simp)
    apply (rule reads_media_extras, use wf in simp)
    apply (cases m)
    apply (simp add: b reread_media_def)
    apply (simp add: b_def block_start_def new_media_description_def)
    done
  then show ?thesis by (simp add: b_def)
qed


section \<open>Reading back a session description\<close>

definition append_media :: "session_description \<Rightarrow> media_description \<Rightarrow> session_description" where
  "append_media s m = s\<lparr>sd_msids := sd_msids s @ [msid_entry m], sd_media := sd_media s @ [inherit_fingerprint s m]\<rparr>"

lemma finish_block: "finish_media (in_block s m) = append_media s m" "finish_media \<lparr>ps_session = s, cur_media = None\<rparr> = s"
  by (simp_all add: finish_media_def append_media_def msid_entry_def Let_def)

lemma inherit_append: "inherit_fingerprint (append_media s m) = inherit_fingerprint s"
  by (rule ext) (simp add: inherit_fingerprint_def append_media_def)

lemma fold_append_media:
  "fold (\<lambda>m s. append_media s m) ms s = s\<lparr>sd_msids := sd_msids s @ map msid_entry ms, sd_media := sd_media s @ map (inherit_fingerprint s) ms\<rparr>"
proof (induction ms arbitrary: s)
  case Nil
  show ?case by (cases s) simp
next
  case (Cons m ms)
  then show ?case by (simp add: inherit_append) (simp add: append_media_def)
qed

definition media_lines :: "media_description \<Rightarrow> string list" where
  "media_lines m = media_first_line m # media_attr_lines m"

lemma reads_media: "media_wf m \<Longrightarrow> reads (media_lines m) st (in_block (finish_media st) (reread_media m))"
  unfolding media_lines_def by (rule reads_Cons [OF reads_media_line reads_media_attrs])

lemma reads_medias:
  "list_all media_wf ms \<Longrightarrow> \<exists>st'. reads (concat (map media_lines ms)) st st' \<and> finish_media st' = fold (\<lambda>m s. append_media s (reread_media m)) ms (finish_media st)"
proof (induction ms arbitrary: st)
  case Nil
  then show ?case using reads_nil by auto
next
  case (Cons m ms)
  then obtain st' where "reads (concat (map media_lines ms)) (in_block (finish_media st) (reread_media m)) st'"
    "finish_media st' = fold (\<lambda>m s. append_media s (reread_media m)) ms (append_media (finish_media st) (reread_media m))"
    using finish_block by (metis list.pred_inject(2))
  then show ?case using reads_append [OF reads_media [of m st]] Cons.prems by auto
qed

abbreviation at_session :: "session_description \<Rightarrow> parse_state" where
  "at_session s \<equiv> \<lparr>ps_session = s, cur_media = None\<rparr>"

lemma session_simps [simp]:
  "at_level f g (at_session s) = at_session (f s)" "in_session f (at_session s) = at_session (f s)"
  by (simp_all add: at_level_def in_session_def)

definition opt_line :: "string \<Rightarrow> string \<Rightarrow> string list" where
  "opt_line prefix v = (if v \<noteq> [] then [prefix @ v] else [])"

definition session_lines :: "session_description \<Rightarrow> string list" where
  "session_lines s =
     [''v='' @ append_int (to_u64 (sd_version s))]
     @ [''o='' @ sd_origin_username s @ spaced [sd_origin_session_id s, sd_origin_session_version s, ''IN'', ''IP4'', sd_origin_address s]]
     @ [''s='' @ sd_session_name s]
     @ opt_line ''i='' (sd_session_info s) @ opt_line ''u='' (sd_uri s)
     @ (if sd_connection_address s \<noteq> [] then [connection_line (sd_address_family s) (sd_connection_address s) 0] else [])
     @ [''t=0 0'']
     @ (if sd_bundle_mids s \<noteq> [] then [attr_line (''group:BUNDLE'' @ spaced (sd_bundle_mids s))] else [])
     @ opt_attr ''ice-options:'' (sd_ice_options s)
     @ [attr_line (''msid-semantic: '' @ sd_msid_semantic_token s @ spaced (sd_msid_semantic_streams s))]
     @ fingerprint_lines (sd_fingerprint_algo s) (sd_fingerprint_value s) @ opt_attr ''setup:'' (sd_setup s)
     @ map (\<lambda>x. attr_line (extra_text x)) (sd_extra_attrs s)"

definition credential :: "string \<times> string \<Rightarrow> bool" where
  "credential x \<longleftrightarrow> fst x \<in> {''ice-ufrag'', ''ice-pwd''} \<and> snd x \<noteq> [] \<and> plain (extra_text x)"

definition session_extra_wf :: "string \<times> string \<Rightarrow> bool" where
  "session_extra_wf x \<longleftrightarrow> extra_wf x \<or> credential x"

definition reread_session_extra :: "string \<times> string \<Rightarrow> string \<times> string" where
  "reread_session_extra x = (if credential x then x else reread_extra x)"

definition session_wf :: "session_description \<Rightarrow> bool" where
  "session_wf s \<longleftrightarrow> 0 \<le> sd_version s \<and> sd_version s < 65536
     \<and> list_all token [sd_origin_username s, sd_origin_session_id s, sd_origin_session_version s, sd_origin_address s, sd_msid_semantic_token s]
     \<and> list_all plain [sd_session_name s, sd_session_info s, sd_uri s, sd_ice_options s, sd_setup s] \<and> sd_session_name s \<noteq> []
     \<and> (sd_connection_address s = [] \<and> sd_address_family s = 4 \<or> connection_wf (sd_connection_address s) 0 (sd_address_family s))
     \<and> list_all token (sd_bundle_mids s) \<and> list_all token (sd_msid_semantic_streams s)
     \<and> fingerprint_wf (sd_fingerprint_algo s) (sd_fingerprint_value s)
     \<and> list_all session_extra_wf (sd_extra_attrs s) \<and> list_all media_wf (sd_media s)"

text \<open>What comes back of a session description, before its media descriptions.\<close>

definition reread_session :: "session_description \<Rightarrow> session_description" where
  "reread_session s = s\<lparr>sd_session_id := [], sd_ice_options := drop 1 (sd_ice_options s),
     sd_msid_semantic_streams := (if sd_msid_semantic_streams s \<noteq> [] then [tl (spaced (sd_msid_semantic_streams s))] else []),
     sd_msids := [], sd_connection_ttl := 0, sd_extra_attrs := (''t'', ''0 0'') # map reread_session_extra (sd_extra_attrs s), sd_media := []\<rparr>"

lemma reads_version:
  assumes "0 \<le> v" "v < 65536"
  shows "reads [''v='' @ append_int (to_u64 v)] (at_session s) (at_session (s\<lparr>sd_version := v\<rparr>))"
  using uint_u16_small [OF assms] to_u64_small [OF assms(1)] assms token_trimmed [OF append_int_token(1)]
  by (simp add: reads_def parse_line_type)

lemma reads_origin:
  assumes "token u" "token i" "token v" "token a"
  shows "reads [''o='' @ u @ spaced [i, v, ''IN'', ''IP4'', a]] (at_session s)
    (at_session (s\<lparr>sd_origin_username := u, sd_origin_session_id := i, sd_origin_session_version := v, sd_origin_address := a\<rparr>))"
proof -
  have "parse_origin (u @ spaced [i, v, n, p, a]) s = s\<lparr>sd_origin_username := u, sd_origin_session_id := i, sd_origin_session_version := v, sd_origin_address := a\<rparr>"
    if "token n" "token p" for n p
    using assms that by (simp only: parse_origin_def read_tokens list.pred_inject simp_thms Let_def prod.case)
  from this [OF token_words(1,2)] show ?thesis by (simp add: reads_def parse_line_type del: spaced_simps)
qed

lemma reads_session_text:
  assumes "trimmed v"
  shows "reads [''s='' @ v] (at_session s) (at_session (s\<lparr>sd_session_name := v\<rparr>))"
    "sd_session_info s = [] \<Longrightarrow> reads (opt_line ''i='' v) (at_session s) (at_session (s\<lparr>sd_session_info := v\<rparr>))"
    "sd_uri s = [] \<Longrightarrow> reads (opt_line ''u='' v) (at_session s) (at_session (s\<lparr>sd_uri := v\<rparr>))"
    "sd_ice_options s = [] \<Longrightarrow> reads (opt_attr ''ice-options:'' v) (at_session s) (at_session (s\<lparr>sd_ice_options := drop 1 v\<rparr>))"
    "sd_setup s = [] \<Longrightarrow> reads (opt_attr ''setup:'' v) (at_session s) (at_session (s\<lparr>sd_setup := v\<rparr>))"
proof -
  show "reads [''s='' @ v] (at_session s) (at_session (s\<lparr>sd_session_name := v\<rparr>))"
    using assms by (simp add: reads_def parse_line_type)
  show "reads (opt_line ''i='' v) (at_session s) (at_session (s\<lparr>sd_session_info := v\<rparr>))" if "sd_session_info s = []"
    using assms that by (cases "v = []") (simp_all add: reads_def opt_line_def parse_line_type)
  show "reads (opt_line ''u='' v) (at_session s) (at_session (s\<lparr>sd_uri := v\<rparr>))" if "sd_uri s = []"
    using assms that by (cases "v = []") (simp_all add: reads_def opt_line_def parse_line_type)
  show "sd_ice_options s = [] \<Longrightarrow> reads (opt_attr ''ice-options:'' v) (at_session s) (at_session (s\<lparr>sd_ice_options := drop 1 v\<rparr>))"
    by (rule reads_opt_attr) (subst parse_attribute_key(3) [OF trim_key [OF assms]], simp_all)
  show "sd_setup s = [] \<Longrightarrow> reads (opt_attr ''setup:'' v) (at_session s) (at_session (s\<lparr>sd_setup := v\<rparr>))"
    by (rule reads_opt_attr) (subst parse_attribute_key(5) [OF trim_key [OF assms]], simp_all)
qed


lemma reads_session_connection:
  assumes "addr = [] \<and> family = 4 \<or> connection_wf addr 0 family" "sd_connection_address s = []" "sd_connection_ttl s = 0" "sd_address_family s = 4"
  shows "reads (if addr \<noteq> [] then [connection_line family addr 0] else []) (at_session s)
    (at_session (s\<lparr>sd_connection_address := addr, sd_connection_ttl := 0, sd_address_family := family\<rparr>))"
proof (cases "addr = []")
  case True
  then have "s\<lparr>sd_connection_address := addr, sd_connection_ttl := 0, sd_address_family := family\<rparr> = s"
    using assms by (cases s) (auto simp: connection_wf_def token_def)
  then show ?thesis using True by (simp add: reads_nil)
next
  case False
  then have "connection_wf addr 0 family" using assms(1) by simp
  from reads_connection [OF this, of "at_session s"] show ?thesis using False by simp
qed

lemma reads_time: "reads [''t=0 0''] (at_session s) (at_session (s\<lparr>sd_extra_attrs := sd_extra_attrs s @ [(''t'', ''0 0'')]\<rparr>))"
  by (simp add: reads_def parse_line_type session_extra_def trimmed_def is_space_def)

lemma trimmed_spaced_end: "list_all token ts \<Longrightarrow> ts \<noteq> [] \<Longrightarrow> \<not> is_space (last (spaced ts))"
proof (induction ts)
  case (Cons t ts)
  then have "\<not> is_space (last t)" "t \<noteq> []" by (auto simp: token_def list_all_iff)
  then show ?case using Cons by (cases "ts = []") (auto simp: spaced_def)
qed simp

lemma reads_bundle:
  assumes "list_all token ts" "sd_bundle_mids s = []"
  shows "reads (if ts \<noteq> [] then [attr_line (''group:BUNDLE'' @ spaced ts)] else []) (at_session s) (at_session (s\<lparr>sd_bundle_mids := ts\<rparr>))"
proof (rule reads_if)
  assume ne: "ts \<noteq> []"
  have "trim (''group:BUNDLE'' @ spaced ts) = ''group:BUNDLE'' @ spaced ts"
    using trimmed_spaced_end [OF assms(1) ne] ne by (intro trim_trimmed) (cases ts, auto simp: trimmed_def is_space_def)
  from parse_attribute_key(12) [OF this, of "at_session s"] show "reads [attr_line (''group:BUNDLE'' @ spaced ts)] (at_session s) (at_session (s\<lparr>sd_bundle_mids := ts\<rparr>))"
    using assms by (intro reads_attr) simp
qed (use assms in simp)

lemma reads_msid_semantic:
  assumes "token t" "list_all token ts" "sd_msid_semantic_streams s = []"
  shows "reads [attr_line (''msid-semantic: '' @ t @ spaced ts)] (at_session s)
    (at_session (s\<lparr>sd_msid_semantic_token := t, sd_msid_semantic_streams := (if ts \<noteq> [] then [tl (spaced ts)] else [])\<rparr>))"
proof (rule reads_attr)
  have tr: "trim (''msid-semantic: '' @ t @ spaced ts) = ''msid-semantic: '' @ t @ spaced ts"
    using token_spaced_trimmed [OF assms(1,2)] trimmed_between [of "''msid-semantic:''" "t @ spaced ts" "'' ''"] assms(1)
    by (intro trim_trimmed) (simp add: trimmed_def is_space_def token_def)
  have sp: "split_at (t @ spaced ts) CHR '' '' = (t, tl (spaced ts))"
    using token_no_space [OF assms(1)] by (cases ts) simp_all
  have ne: "tl (spaced ts) = [] \<longleftrightarrow> ts = []" using assms(2) by (cases ts) (auto simp: token_def)
  show "parse_attribute (''msid-semantic: '' @ t @ spaced ts) (at_session s) =
      Some (at_session (s\<lparr>sd_msid_semantic_token := t, sd_msid_semantic_streams := (if ts \<noteq> [] then [tl (spaced ts)] else [])\<rparr>))"
    unfolding parse_attribute_key(14) [OF tr] parse_msid_semantic_def sp
    using token_trimmed [OF assms(1)] trimmed_tl_spaced [OF assms(2)] assms(3) by (simp add: ne)
qed

lemma reads_session_fingerprint:
  assumes "fingerprint_wf algo hash" "sd_fingerprint_algo s = []" "sd_fingerprint_value s = []"
  shows "reads (fingerprint_lines algo hash) (at_session s) (at_session (s\<lparr>sd_fingerprint_algo := algo, sd_fingerprint_value := hash\<rparr>))"
proof (cases "algo = []")
  case True
  moreover have "s\<lparr>sd_fingerprint_algo := [], sd_fingerprint_value := []\<rparr> = s" using assms(2,3) by (cases s) simp
  ultimately show ?thesis using assms(1) by (auto simp: fingerprint_wf_def fingerprint_lines_def reads_nil token_def)
next
  case False
  then have "hash \<noteq> []" using assms(1) by (auto simp: fingerprint_wf_def)
  then show ?thesis using parse_attribute_fingerprint [OF assms(1) False, of "at_session s"] False
    by (auto simp: fingerprint_lines_def intro: reads_attr)
qed

text \<open>At session level the parser stores ICE credentials as extra attributes, and these come back as they are.\<close>

lemma parse_credential:
  assumes "credential x"
  shows "parse_attribute (extra_text x) st = Some (at_level (session_extra (fst x) (snd x))
    (if fst x = ''ice-ufrag'' then (\<lambda>m. m\<lparr>md_ice_ufrag := snd x\<rparr>) else (\<lambda>m. m\<lparr>md_ice_pwd := snd x\<rparr>)) st)"
proof -
  have t: "trim (extra_text x) = extra_text x" and k: "fst x = ''ice-ufrag'' \<or> fst x = ''ice-pwd''" and v: "snd x \<noteq> []"
    using assms by (auto simp: credential_def plain_def)
  show ?thesis using k
  proof
    assume k: "fst x = ''ice-ufrag''"
    then have e: "extra_text x = ''ice-ufrag:'' @ snd x" using v by (cases x) (simp add: extra_text_def)
    with t have "trim (extra_text x) = ''ice-ufrag:'' @ snd x" by simp
    from parse_attribute_key(1) [OF this, of st] k show ?thesis by simp
  next
    assume k: "fst x = ''ice-pwd''"
    then have e: "extra_text x = ''ice-pwd:'' @ snd x" using v by (cases x) (simp add: extra_text_def)
    with t have "trim (extra_text x) = ''ice-pwd:'' @ snd x" by simp
    from parse_attribute_key(2) [OF this, of st] k show ?thesis by simp
  qed
qed

lemma reads_session_extras:
  "list_all session_extra_wf xs \<Longrightarrow> reads (map (\<lambda>x. attr_line (extra_text x)) xs) (at_session s)
     (at_session (s\<lparr>sd_extra_attrs := sd_extra_attrs s @ map reread_session_extra xs\<rparr>))"
proof (induction xs arbitrary: s)
  case Nil
  then show ?case by (cases s) (simp add: reads_nil)
next
  case (Cons x xs)
  have "reads [attr_line (extra_text x)] (at_session s) (at_session (session_extra (fst (reread_session_extra x)) (snd (reread_session_extra x)) s))"
    using Cons.prems parse_attribute_extra [of x "at_session s"] parse_credential [of x "at_session s"]
    by (intro reads_attr) (auto simp: session_extra_wf_def reread_session_extra_def)
  from reads_Cons [OF this Cons.IH] Cons.prems show ?case by (simp add: session_extra_def)
qed

lemma reads_session:
  assumes "session_wf s"
  shows "reads (session_lines s) new_parse_state (at_session (reread_session s))"
proof -
  note wf = assms [unfolded session_wf_def]
  define b where "b = new_session_description"
  have b: "sd_session_info b = []" "sd_uri b = []" "sd_ice_options b = []" "sd_setup b = []" "sd_fingerprint_algo b = []" "sd_fingerprint_value b = []"
    "sd_bundle_mids b = []" "sd_msid_semantic_streams b = []" "sd_extra_attrs b = []" "sd_connection_address b = []" "sd_connection_ttl b = 0"
    "sd_address_family b = 4" "sd_session_id b = []" "sd_msids b = []" "sd_media b = []"
    by (simp_all add: b_def new_session_description_def)
  have tr: "trimmed (sd_session_name s)" "trimmed (sd_session_info s)" "trimmed (sd_uri s)" "trimmed (sd_ice_options s)" "trimmed (sd_setup s)"
    using wf by (simp_all add: plain_def)
  have "reads (session_lines s) (at_session b) (at_session (reread_session s))"
    unfolding session_lines_def
    apply (rule reads_eq)
    apply (rule reads_append [OF reads_version], use wf in simp, use wf in simp)
    apply (rule reads_append [OF reads_origin], use wf in simp, use wf in simp, use wf in simp, use wf in simp)
    apply (rule reads_append [OF reads_session_text(1) [OF tr(1)]])
    apply (rule reads_append [OF reads_session_text(2) [OF tr(2)]], simp add: b)
    apply (rule reads_append [OF reads_session_text(3) [OF tr(3)]], simp add: b)
    apply (rule reads_append [OF reads_session_connection], use wf in simp, simp add: b, simp add: b, simp add: b)
    apply (rule reads_append [OF reads_time])
    apply (rule reads_append [OF reads_bundle], use wf in simp, simp add: b)
    apply (rule reads_append [OF reads_session_text(4) [OF tr(4)]], simp add: b)
    apply (rule reads_append [OF reads_msid_semantic], use wf in simp, use wf in simp, simp add: b)
    apply (rule reads_append [OF reads_session_fingerprint], use wf in simp, simp add: b, simp add: b)
    apply (rule reads_append [OF reads_session_text(5) [OF tr(5)]], simp add: b)
    apply (rule reads_session_extras, use wf in simp)
    apply (cases s)
    apply (simp add: b reread_session_def)
    done
  then show ?thesis by (simp add: b_def new_parse_state_def)
qed


section \<open>The text as lines\<close>

definition joined :: "string list \<Rightarrow> string" where
  "joined ls = concat (map (\<lambda>l. l @ crlf) ls)"

lemma joined_simps [simp]: "joined [] = []" "joined (l # ls) = l @ crlf @ joined ls" "joined (ls @ ls') = joined ls @ joined ls'"
  by (simp_all add: joined_def)

lemma joined_map: "(\<And>x. x \<in> set xs \<Longrightarrow> f x = line x @ crlf) \<Longrightarrow> concat (map f xs) = joined (map line xs)"
  by (induction xs) simp_all

lemma joined_opt: "joined (opt_attr key v) = (if v \<noteq> [] then ''a='' @ key @ v @ crlf else [])"
  "joined (opt_line p v) = (if v \<noteq> [] then p @ v @ crlf else [])"
  "joined (fingerprint_lines a h) = emit_fingerprint a h"
  by (simp_all add: opt_attr_def opt_line_def fingerprint_lines_def attr_line_def emit_fingerprint_def)

lemma spaced_concat: "concat (map ((#) CHR '' '') ts) = spaced ts" "concat (map ((@) '' '') ts) = spaced ts"
  by (induction ts) simp_all

lemma emit_lines:
  "emit_rtpmap x = rtpmap_line x @ crlf" "emit_fmtp y = fmtp_line y @ crlf" "emit_extmap e = extmap_line e @ crlf"
  "emit_extra z = attr_line (extra_text z) @ crlf" "emit_msid i = msid_line i @ crlf"
proof -
  have "concat (map emit_param ps) = spaced (map param_token ps)" for ps
    by (induction ps) (auto simp: emit_param_def param_token_def)
  then show "emit_extmap e = extmap_line e @ crlf"
    by (simp add: emit_extmap_def extmap_line_def ext_id_token_def attr_line_def)
qed (auto simp: emit_rtpmap_def rtpmap_line_def emit_fmtp_def fmtp_line_def emit_extra_def extra_text_def emit_msid_def msid_line_def attr_line_def
    split: prod.splits)

lemma joined_emit:
  "concat (map emit_rtpmap a) = joined (map rtpmap_line a)" "concat (map emit_fmtp b) = joined (map fmtp_line b)"
  "concat (map emit_extmap c) = joined (map extmap_line c)" "concat (map emit_extra d) = joined (map (\<lambda>x. attr_line (extra_text x)) d)"
  "concat (map (attr ''a=rtcp-fb:'') e) = joined (map (\<lambda>x. attr_line (''rtcp-fb:'' @ x)) e)"
  "concat (map (attr ''a=candidate:'') e) = joined (map (\<lambda>x. attr_line (''candidate:'' @ x)) e)"
  "(case i of Some x \<Rightarrow> emit_msid x | None \<Rightarrow> []) = joined (case i of Some x \<Rightarrow> [msid_line x] | None \<Rightarrow> [])"
  by (rule joined_map, simp add: emit_lines attr_def attr_line_def)+ (simp add: emit_lines split: option.split)

lemma connection_line_text: "connection_line family addr t = ''c=IN IP'' @ (if family = 6 then ''6'' else ''4'') @ '' '' @ addr
    @ (if t > 0 then ''/'' @ append_int (to_u64 t) else [])"
  by (simp add: connection_line_def)

lemma emit_media_lines:
  assumes "media_wf m"
  shows "emit_media m = joined (media_lines m)"
proof -
  have ne: "md_protocol m \<noteq> []" "md_connection_address m \<noteq> []" using assms by (auto simp: media_wf_def token_def connection_wf_def)
  have "emit_media_attrs m = joined (media_attr_lines m)"
    unfolding emit_media_attrs_def media_attr_lines_def joined_simps(3) joined_emit
    by (intro arg_cong2 [where f = "(@)"] refl) (simp_all add: joined_opt attr_def flag_def attr_line_def ne connection_line_text)
  then show ?thesis using ne by (simp add: emit_media_def media_lines_def media_first_line_def or_default_def spaced_concat)
qed

lemma to_sdp_lines:
  assumes "session_wf s"
  shows "to_sdp s = joined (session_lines s @ concat (map media_lines (sd_media s)))"
proof -
  have ne: "sd_origin_username s \<noteq> []" "sd_origin_session_id s \<noteq> []" "sd_origin_session_version s \<noteq> []" "sd_origin_address s \<noteq> []"
    "sd_session_name s \<noteq> []" "sd_msid_semantic_token s \<noteq> []" using assms by (auto simp: session_wf_def token_def)
  have "list_all media_wf ms \<Longrightarrow> concat (map emit_media ms) = joined (concat (map media_lines ms))" for ms
    by (induction ms) (simp_all add: emit_media_lines)
  then have m: "concat (map emit_media (sd_media s)) = joined (concat (map media_lines (sd_media s)))" using assms by (simp add: session_wf_def)
  have p: "(if sd_session_info s \<noteq> [] then ''i='' @ sd_session_info s @ crlf else []) = joined (opt_line ''i='' (sd_session_info s))"
    "(if sd_uri s \<noteq> [] then ''u='' @ sd_uri s @ crlf else []) = joined (opt_line ''u='' (sd_uri s))"
    "(if sd_connection_address s \<noteq> [] then ''c=IN IP'' @ (if sd_address_family s = 6 then ''6'' else ''4'') @ '' '' @ sd_connection_address s @ crlf else [])
      = joined (if sd_connection_address s \<noteq> [] then [connection_line (sd_address_family s) (sd_connection_address s) 0] else [])"
    "(if sd_bundle_mids s \<noteq> [] then ''a=group:BUNDLE'' @ concat (map (\<lambda>mid. '' '' @ mid) (sd_bundle_mids s)) @ crlf else [])
      = joined (if sd_bundle_mids s \<noteq> [] then [attr_line (''group:BUNDLE'' @ spaced (sd_bundle_mids s))] else [])"
    "(if sd_ice_options s \<noteq> [] then attr ''a=ice-options:'' (sd_ice_options s) else []) = joined (opt_attr ''ice-options:'' (sd_ice_options s))"
    "(if sd_setup s \<noteq> [] then attr ''a=setup:'' (sd_setup s) else []) = joined (opt_attr ''setup:'' (sd_setup s))"
    by (simp_all add: joined_opt attr_def connection_line_text attr_line_def spaced_concat)
  show ?thesis
    unfolding to_sdp_def session_lines_def joined_simps(3) p m joined_emit joined_opt(3) [symmetric]
    using ne by (simp add: or_default_def attr_line_def spaced_concat)
qed

section \<open>No line breaks inside lines\<close>

lemma one_line_simps [simp]: "one_line []" "one_line (c # s) \<longleftrightarrow> \<not> is_eol c \<and> one_line s" "one_line (a @ b) \<longleftrightarrow> one_line a \<and> one_line b"
  by (simp_all add: one_line_def)

lemma one_line_text: "token t \<Longrightarrow> one_line t" "plain t \<Longrightarrow> one_line t" "one_line (append_int n)" "one_line (direction_string d)" "one_line (media_type_string mt)"
  "list_all token ts \<Longrightarrow> one_line (spaced ts)"
proof -
  show t: "token t \<Longrightarrow> one_line t" for t by (auto simp: token_def one_line_def list_all_iff)
  show "plain t \<Longrightarrow> one_line t" by (simp add: plain_def)
  show "one_line (append_int n)" "one_line (direction_string d)" "one_line (media_type_string mt)"
    using t append_int_token(1) media_type_token(1) direction_token(1) [of d] by (auto simp: one_line_def list_all_iff)
  show "list_all token ts \<Longrightarrow> one_line (spaced ts)" by (induction ts) (auto simp: t is_eol_def)
qed

lemma one_line_opt: "plain v \<Longrightarrow> one_line p \<Longrightarrow> list_all one_line (opt_line p v)" "plain v \<Longrightarrow> one_line p \<Longrightarrow> list_all one_line (opt_attr p v)"
  "fingerprint_wf a h \<Longrightarrow> list_all one_line (fingerprint_lines a h)" "connection_wf addr t f \<Longrightarrow> one_line (connection_line f addr t)"
  by (auto simp: opt_line_def opt_attr_def attr_line_def fingerprint_lines_def fingerprint_wf_def connection_wf_def connection_line_text one_line_text is_eol_def)

lemma one_line_entries: "rtpmap_wf r \<Longrightarrow> one_line (rtpmap_line r)" "fmtp_wf f \<Longrightarrow> one_line (fmtp_line f)" "extmap_wf e \<Longrightarrow> one_line (extmap_line e)"
  "extra_wf x \<Longrightarrow> one_line (attr_line (extra_text x))" "msid_wf i \<Longrightarrow> one_line (msid_line i)"
proof -
  have "list_all param_wf ps \<Longrightarrow> one_line (spaced (map param_token ps))" for ps
    using param_token_token by (intro one_line_text(6)) (auto simp: list_all_iff)
  then show "extmap_wf e \<Longrightarrow> one_line (extmap_line e)"
    using one_line_text(1) [OF ext_id_token_token] by (auto simp: extmap_wf_def extmap_line_def attr_line_def one_line_text is_eol_def)
qed (auto simp: rtpmap_wf_def rtpmap_line_def fmtp_wf_def fmtp_line_def extra_wf_def msid_wf_def msid_line_def attr_line_def one_line_text is_eol_def)

lemma one_line_map: "list_all P xs \<Longrightarrow> (\<And>x. P x \<Longrightarrow> one_line (f x)) \<Longrightarrow> list_all one_line (map f xs)"
  by (induction xs) auto

lemma one_line_attr: "one_line v \<Longrightarrow> one_line k \<Longrightarrow> one_line (attr_line (k @ v))" "one_line v \<Longrightarrow> one_line (attr_line v)"
  by (simp_all add: attr_line_def is_eol_def)

lemma one_line_keys: "one_line ''ice-ufrag:''" "one_line ''ice-pwd:''" "one_line ''ice-options:''" "one_line ''setup:''" "one_line ''mid:''"
  "one_line ''rtcp-fb:''" "one_line ''candidate:''" "one_line ''rtcp-mux''" "one_line ''m=''" "one_line ''v=''" "one_line ''o=''" "one_line ''s=''"
  "one_line ''i=''" "one_line ''u=''" "one_line ''t=0 0''" "one_line ''group:BUNDLE''" "one_line ''msid-semantic: ''"
  by (simp_all add: is_eol_def)

lemma one_line_if: "(c \<Longrightarrow> one_line l) \<Longrightarrow> list_all one_line (if c then [l] else [])"
  by simp

lemma one_line_media:
  assumes "media_wf m"
  shows "list_all one_line (media_lines m)"
proof -
  note wf = assms [unfolded media_wf_def list.pred_inject]
  note k = one_line_keys
  have "one_line (media_first_line m)" unfolding media_first_line_def
    using wf one_line_text(6) [of "append_int (unat (md_port m)) # md_protocol m # md_formats m"] append_int_token(1) k one_line_text(5)
    by (simp only: one_line_simps(3) list.pred_inject simp_thms)
  moreover have "list_all one_line (case md_msid m of Some x \<Rightarrow> [msid_line x] | None \<Rightarrow> [])"
    using wf by (cases "md_msid m") (simp_all add: one_line_entries(5))
  moreover have "list_all one_line (map extmap_line (sort_key em_id (md_extmap m)))"
    using wf by (intro one_line_map [of extmap_wf] one_line_entries(3)) (simp_all add: list_all_iff)
  moreover have "list_all one_line (map (\<lambda>x. attr_line (''rtcp-fb:'' @ x)) (md_rtcp_fb m))" "list_all one_line (map (\<lambda>x. attr_line (''candidate:'' @ x)) (md_candidates m))"
    using wf by (intro one_line_map [of plain] one_line_attr(1) one_line_text(2) k; simp)+
  moreover have "list_all one_line (map rtpmap_line (md_rtpmap m))" "list_all one_line (map fmtp_line (md_fmtp m))"
    "list_all one_line (map (\<lambda>x. attr_line (extra_text x)) (md_extra_attrs m))"
    using wf one_line_map [of rtpmap_wf "md_rtpmap m"] one_line_map [of fmtp_wf "md_fmtp m"] one_line_map [of extra_wf "md_extra_attrs m"] one_line_entries
    by simp_all
  moreover have "list_all one_line [connection_line (md_address_family m) (md_connection_address m) (md_ttl m)]" using wf by (simp add: one_line_opt(4))
  ultimately show ?thesis unfolding media_lines_def media_attr_lines_def list.pred_inject list_all_append
    by (intro conjI one_line_opt(2,3) one_line_if one_line_attr(2) one_line_text(4) k) (use wf in simp_all)
qed

lemma one_line_session_extra: "session_extra_wf x \<Longrightarrow> one_line (attr_line (extra_text x))"
  using one_line_attr(1) [of "extra_text x" "[]"] one_line_text(2) [of "extra_text x"]
  by (auto simp: session_extra_wf_def extra_wf_def credential_def one_line_def)

lemma one_line_session:
  assumes "session_wf s"
  shows "list_all one_line (session_lines s)"
proof -
  note wf = assms [unfolded session_wf_def list.pred_inject]
  note k = one_line_keys
  have o: "one_line (spaced [sd_origin_session_id s, sd_origin_session_version s, ''IN'', ''IP4'', sd_origin_address s])"
    using wf token_words by (intro one_line_text(6)) (simp only: list.pred_inject simp_thms)
  have "list_all one_line [''o='' @ sd_origin_username s @ spaced [sd_origin_session_id s, sd_origin_session_version s, ''IN'', ''IP4'', sd_origin_address s]]"
    using wf o k one_line_text(1) [of "sd_origin_username s"] by (simp only: list.pred_inject one_line_simps(3) simp_thms)
  moreover have "list_all one_line [''v='' @ append_int (to_u64 (sd_version s))]" "list_all one_line [''s='' @ sd_session_name s]" "list_all one_line [''t=0 0'']"
    using wf k one_line_text(3) one_line_text(2) [of "sd_session_name s"] by (simp_all only: list.pred_inject one_line_simps(3) simp_thms)
  moreover have "one_line (connection_line (sd_address_family s) (sd_connection_address s) 0)" if "sd_connection_address s \<noteq> []"
    using that wf by (simp add: one_line_opt(4))
  moreover have "one_line (attr_line (''group:BUNDLE'' @ spaced (sd_bundle_mids s)))"
    "list_all one_line [attr_line (''msid-semantic: '' @ sd_msid_semantic_token s @ spaced (sd_msid_semantic_streams s))]"
    using wf k one_line_text(6) [of "sd_bundle_mids s"] one_line_text(6) [of "sd_msid_semantic_streams s"] one_line_text(1) [of "sd_msid_semantic_token s"]
    by (simp_all only: list.pred_inject one_line_simps(3) simp_thms one_line_attr)
  moreover have "list_all one_line (map (\<lambda>x. attr_line (extra_text x)) (sd_extra_attrs s))"
    using wf by (intro one_line_map [of session_extra_wf] one_line_session_extra) simp_all
  ultimately show ?thesis unfolding session_lines_def list_all_append
    by (intro conjI one_line_opt(1-3) one_line_if k) (use wf in simp_all)
qed

section \<open>Properties\<close>

definition reread :: "session_description \<Rightarrow> session_description" where
  "reread s = (reread_session s)\<lparr>sd_msids := map msid_entry (sd_media s), sd_media := map (\<lambda>m. inherit_fingerprint s (reread_media m)) (sd_media s)\<rparr>"

lemma sdp_parse_written:
  assumes "session_wf s"
  shows "sdp_parse (to_sdp s) = Some (Inr (reread s))"
proof -
  define ls where "ls = session_lines s @ concat (map media_lines (sd_media s))"
  have "list_all one_line (concat (map media_lines ms))" if "list_all media_wf ms" for ms
    using that by (induction ms) (auto simp: one_line_media)
  then have "list_all one_line ls" using one_line_session [OF assms] assms by (simp add: ls_def session_wf_def)
  then have lines: "text_lines (to_sdp s) = ls"
    unfolding to_sdp_lines [OF assms] ls_def [symmetric] joined_def by (intro text_lines_concat) (simp add: one_line_def [abs_def])
  obtain st where st: "reads (concat (map media_lines (sd_media s))) (at_session (reread_session s)) st"
    "finish_media st = fold (\<lambda>m s. append_media s (reread_media m)) (sd_media s) (reread_session s)"
    using reads_medias [of "sd_media s" "at_session (reread_session s)"] assms finish_block(2) by (auto simp: session_wf_def)
  have "reads ls new_parse_state st" unfolding ls_def by (rule reads_append [OF reads_session [OF assms] st(1)])
  moreover have "finish_media st = reread s"
    using fold_append_media [of "map reread_media (sd_media s)" "reread_session s"]
    by (simp add: st(2) fold_map comp_def reread_def reread_session_def inherit_fingerprint_def msid_entry_def reread_media_def)
  ultimately show ?thesis by (simp add: sdp_parse_def parse_loop_lines lines reads_def)
qed

interpretation sdp_text: wire_codec session_wf "\<lambda>s. Some (to_sdp s)" sdp_parse reread
  by unfold_locales (auto simp: sdp_parse_written)

text \<open>
  C4: parsing the text the writer produces for a session description returns the description again, with every media description and all its formats,
  credentials, fingerprints, codec parameters and candidates. What changes is exactly this: \<open>sd_session_id\<close>, which is not written, is empty; the first character
  of the ICE options is lost; the media stream identifiers of the semantic line come back as one string; the TTL of the session address is not written; the timing line turns into an
  extra attribute; generic attributes are split at the first blank instead of the colon (among them the session-level direction, which the parser stores as an attribute
  \<^verbatim>\<open>a\<close> with value \<^verbatim>\<open>sendonly\<close> for the sake of the round trip, and which comes back as an attribute \<^verbatim>\<open>a:sendonly\<close> without value: \<open>session_direction_lost\<close>
  below; session-level ICE credentials are kept); the header extensions are in the order of their
  identifiers; a media description without fingerprint gets the one of the session; and \<open>msids\<close> is recomputed from the media descriptions. The condition
  \<open>session_wf\<close>: no field contains a line break or starts or ends with a blank, tokens contain no blanks, numbers are in range, formats of codec parameters and
  extension identifiers are distinct, and an extra attribute does not look like an attribute the parser knows when it is written as key:value.
\<close>

theorem sdp_roundtrip:
  assumes "session_wf s"
  shows "sdp_parse (to_sdp s) = Some (Inr (s\<lparr>
      sd_session_id := [], sd_ice_options := drop 1 (sd_ice_options s),
      sd_msid_semantic_streams := (if sd_msid_semantic_streams s \<noteq> [] then [tl (spaced (sd_msid_semantic_streams s))] else []),
      sd_connection_ttl := 0, sd_extra_attrs := (''t'', ''0 0'') # map reread_session_extra (sd_extra_attrs s),
      sd_msids := map msid_entry (sd_media s),
      sd_media := map (\<lambda>m. inherit_fingerprint s (m\<lparr>md_ice_options := drop 1 (md_ice_options m),
        md_extmap := sort_key em_id (md_extmap m), md_extra_attrs := map reread_extra (md_extra_attrs m)\<rparr>)) (sd_media s)\<rparr>))"
  using sdp_text.dec_enc [OF assms refl] by (simp add: reread_def reread_session_def reread_media_def)

definition sample_media :: media_description where
  "sample_media = new_media_description\<lparr>md_protocol := ''RTP/SAVPF'', md_formats := [''111'', ''9''], md_mid := ''0'',
     md_direction := SendOnly, md_ice_options := ''trickle'', md_msid := Some \<lparr>stream_id = ''s'', track_id = ''t''\<rparr>,
     md_rtpmap := [(''111'', \<lparr>rm_encoding = ''opus'', rm_clock_rate = 48000, rm_channels = 2\<rparr>)], md_fmtp := [(''111'', ''minptime=10'')],
     md_extmap := [\<lparr>em_id = 3, em_direction = SendOnly, em_uri = ''urn:x'', em_params = [(''k'', ''v'')]\<rparr>]\<rparr>"

definition sample_session :: session_description where
  "sample_session = new_session_description\<lparr>sd_origin_session_id := ''42'', sd_origin_session_version := ''2'', sd_bundle_mids := [''0''],
     sd_fingerprint_algo := ''sha-256'', sd_fingerprint_value := ''AB:CD'', sd_extra_attrs := [(''x'', ''y z''), (''ice-ufrag'', ''u'')], sd_media := [sample_media]\<rparr>"

lemma sample_session_wf: "session_wf sample_session"
  by (simp add: session_wf_def sample_session_def new_session_description_def sample_media_def media_wf_def new_media_description_def token_def plain_def
      trimmed_def one_line_def is_space_def is_eol_def fingerprint_wf_def connection_wf_def msid_wf_def rtpmap_wf_def fmtp_wf_def extmap_wf_def param_wf_def
      extra_wf_def session_extra_wf_def credential_def extra_text_def known_attribute_def)

theorem sdp_roundtrip_witness:
  "\<exists>s. sdp_parse (to_sdp sample_session) = Some (Inr s) \<and> sd_bundle_mids s = [''0'']
    \<and> map md_ice_options (sd_media s) = [''rickle''] \<and> sd_extra_attrs s = [(''t'', ''0 0''), (''x:y'', ''z''), (''ice-ufrag'', ''u'')]"
  using sdp_roundtrip [OF sample_session_wf]
  by (simp add: sample_session_def sample_media_def new_session_description_def reread_session_extra_def credential_def plain_def trimmed_def one_line_def is_eol_def reread_extra_def extra_text_def trim_def is_space_def inherit_fingerprint_def
      new_media_description_def)

text \<open>A session-level direction attribute is not a direction any more after writing and parsing again.\<close>

lemma session_direction_lost:
  "parse_line ''a=sendonly'' (at_session s) = Some (Inr (at_session (session_extra ''a'' ''sendonly'' s)))
   \<and> reread_session_extra (''a'', ''sendonly'') = (''a:sendonly'', [])"
proof -
  have "parse_attribute ''sendonly'' (at_session s) = Some (at_session (session_extra ''a'' ''sendonly'' s))"
    by (simp add: parse_attribute_def trim_def is_space_def parse_direction_def)
  then show ?thesis
    by (simp add: parse_line_type reread_session_extra_def credential_def reread_extra_def extra_text_def trim_def)
qed

end
