(* ===== verification/Data_Channel.thy ===== *)
theory Data_Channel
  imports Prelude
begin

text \<open>
  Data channels over SCTP: the DCEP codec (RFC 8832) of \<^verbatim>\<open>src/sctp/src/dcep.cpp\<close> and the channel of
  \<^verbatim>\<open>src/modules/datachannel/src/sctp_data_channel.cpp\<close>. The socket is the interface \<^verbatim>\<open>ISctpSocket\<close>: the model keeps
  whether it is there and whether the receive callbacks are installed, the calls made on it are a history, and
  the status each call returns is an argument (\<open>reply\<close>). The user's callbacks are histories too: the states reported and the
  messages delivered. A label is its bytes. \<open>None\<close> is an out-of-bounds read or a call through the null socket pointer.
\<close>

section \<open>The DCEP codec\<close>

datatype reliability = kReliableOrdered | kUnreliable | kPartialReliableTTL | kPartialReliableCount

record data_channel_config =
  dc_label :: bytes
  dc_reliability :: reliability
  dc_max_retransmits :: u16
  dc_max_packet_lifetime_ms :: u16
  dc_priority :: u8
  dc_ordered :: bool

definition default_data_channel_config :: data_channel_config where
  "default_data_channel_config = \<lparr>dc_label = [], dc_reliability = kReliableOrdered, dc_max_retransmits = 0, dc_max_packet_lifetime_ms = 0,
     dc_priority = 128, dc_ordered = True\<rparr>"

definition kPpidDcep :: u32 where "kPpidDcep = 50"
definition kPpidString :: u32 where "kPpidString = 51"
definition kPpidBinary :: u32 where "kPpidBinary = 53"
definition kDcepAck :: u8 where "kDcepAck = 0x02"
definition kDcepOpen :: u8 where "kDcepOpen = 0x03"
definition kDcepReliable :: u8 where "kDcepReliable = 0x00"
definition kDcepPartialReliableRexmit :: u8 where "kDcepPartialReliableRexmit = 0x01"
definition kDcepPartialReliableTimed :: u8 where "kDcepPartialReliableTimed = 0x02"

lemmas dcep_consts = kPpidDcep_def kPpidString_def kPpidBinary_def kDcepAck_def kDcepOpen_def kDcepReliable_def
  kDcepPartialReliableRexmit_def kDcepPartialReliableTimed_def

record dcep_open_params =
  op_reliability :: reliability
  op_ordered :: bool
  op_max_retransmits :: u16
  op_max_packet_lifetime_ms :: u16
  op_label :: bytes

definition dcep_encode_ack :: bytes where
  "dcep_encode_ack = [kDcepAck]"

definition channel_type_of :: "data_channel_config \<Rightarrow> u8 \<times> u16" where
  "channel_type_of cfg = (case dc_reliability cfg of
     kReliableOrdered \<Rightarrow> (kDcepReliable, 0)
   | kUnreliable \<Rightarrow> (kDcepReliable, 0)
   | kPartialReliableTTL \<Rightarrow> (kDcepPartialReliableTimed, dc_max_packet_lifetime_ms cfg)
   | kPartialReliableCount \<Rightarrow> (kDcepPartialReliableRexmit, dc_max_retransmits cfg))"

definition dcep_encode_open :: "data_channel_config \<Rightarrow> bytes" where
  "dcep_encode_open cfg =
     (let label_len = (if length (dc_label cfg) > 65535 then 65535 else length (dc_label cfg));
          (channel_type, reliability_param) = channel_type_of cfg
      in [kDcepOpen, channel_type, 0x00, dc_priority cfg] @ be32 (ucast reliability_param)
         @ be16 (of_nat label_len) @ [0x00, 0x00] @ take label_len (dc_label cfg))"

definition clamp_param :: "u32 \<Rightarrow> u16" where
  "clamp_param p = (if p > 65535 then 65535 else ucast p)"

definition dcep_decode_open :: "bytes \<Rightarrow> dcep_open_params option option" where
  "dcep_decode_open data =
     (if length data < 12 then Some None
      else do {
        t \<leftarrow> rd data 0;
        if t \<noteq> kDcepOpen then Some None
        else do {
          channel_type \<leftarrow> rd data 1;
          reliability_param \<leftarrow> rd_be32 data 4;
          label_len \<leftarrow> rd_be16 data 8;
          proto_len \<leftarrow> rd_be16 data 10;
          if 12 + unat label_len + unat proto_len \<noteq> length data then Some None
          else do {
            label \<leftarrow> subspan data 12 (unat label_len);
            let params = \<lparr>op_reliability = kReliableOrdered, op_ordered = True, op_max_retransmits = 0, op_max_packet_lifetime_ms = 0, op_label = label\<rparr>;
            Some (if channel_type = kDcepReliable then Some params
              else if channel_type = kDcepPartialReliableTimed
              then Some (params\<lparr>op_reliability := kPartialReliableTTL, op_max_packet_lifetime_ms := clamp_param reliability_param\<rparr>)
              else if channel_type = kDcepPartialReliableRexmit
              then Some (params\<lparr>op_reliability := kPartialReliableCount, op_max_retransmits := clamp_param reliability_param\<rparr>)
              else None)
          }
        }
      })"

definition dcep_ppid_for_config :: "data_channel_config \<Rightarrow> u32" where
  "dcep_ppid_for_config cfg = kPpidBinary"

section \<open>The channel\<close>

type_synonym status = u32

definition st_ok :: status where "st_ok = 0x0000"
definition st_err_not_ready :: status where "st_err_not_ready = 0x1002"

datatype socket_call =
    SendStream u16 bytes u32
  | SendDatagram u16 bytes u32
  | SendPartial u16 bytes int u32 bool

record data_channel =
  ch_cfg :: data_channel_config
  ch_on_msg :: bool
  ch_on_state :: bool
  ch_sock :: bool
  ch_recv :: bool
  ch_opened :: bool
  ch_dcep_open_sent :: bool
  ch_sent :: "socket_call list"
  ch_messages :: "bytes list"
  ch_states :: "string list"

definition new_data_channel :: "bool \<Rightarrow> data_channel" where
  "new_data_channel sock = \<lparr>ch_cfg = default_data_channel_config, ch_on_msg = False, ch_on_state = False, ch_sock = sock, ch_recv = False,
     ch_opened = False, ch_dcep_open_sent = False, ch_sent = [], ch_messages = [], ch_states = []\<rparr>"

definition s_stream_from_priority :: "u8 \<Rightarrow> u16" where
  "s_stream_from_priority priority = 0"

definition s_ttl_from_retransmits :: "u16 \<Rightarrow> int" where
  "s_ttl_from_retransmits n = (let ms = uint n * 100 in if ms \<le> 0 then 0 else if ms > 60000 then 60000 else ms)"

definition report_state :: "string \<Rightarrow> data_channel \<Rightarrow> data_channel" where
  "report_state st s = (if ch_on_state s then s\<lparr>ch_states := ch_states s @ [st]\<rparr> else s)"

definition channel_open :: "data_channel \<Rightarrow> status \<times> data_channel" where
  "channel_open s =
     (if ch_opened s then (st_ok, s)
      else if \<not> ch_sock s then (st_err_not_ready, s)
      else (st_ok, report_state ''open'' (report_state ''connecting'' (s\<lparr>ch_recv := True, ch_opened := True\<rparr>))))"

definition channel_close :: "data_channel \<Rightarrow> data_channel" where
  "channel_close s =
     (let s = (if ch_sock s then s\<lparr>ch_recv := False\<rparr> else s);
          s = s\<lparr>ch_sock := False, ch_opened := False, ch_dcep_open_sent := False\<rparr>;
          s = (if ch_on_state s then (report_state ''closed'' s)\<lparr>ch_on_state := False\<rparr> else s)
      in s\<lparr>ch_on_msg := False\<rparr>)"

definition open_config :: "data_channel_config \<Rightarrow> data_channel \<Rightarrow> data_channel" where
  "open_config cfg s = s\<lparr>ch_cfg := cfg\<rparr>"

definition set_on_message :: "bool \<Rightarrow> data_channel \<Rightarrow> data_channel" where
  "set_on_message cb s = s\<lparr>ch_on_msg := cb\<rparr>"

definition set_on_state :: "bool \<Rightarrow> data_channel \<Rightarrow> data_channel" where
  "set_on_state cb s = s\<lparr>ch_on_state := cb\<rparr>"

text \<open>A call on the socket: through a null pointer it is undefined.\<close>

definition socket_send :: "(socket_call \<Rightarrow> status) \<Rightarrow> socket_call \<Rightarrow> data_channel \<Rightarrow> (status \<times> data_channel) option" where
  "socket_send reply c s = (if ch_sock s then Some (reply c, s\<lparr>ch_sent := ch_sent s @ [c]\<rparr>) else None)"

definition route_call :: "data_channel_config \<Rightarrow> bytes \<Rightarrow> socket_call" where
  "route_call cfg data =
     (let stream = s_stream_from_priority (dc_priority cfg);
          ppid = dcep_ppid_for_config cfg;
          unordered = (dc_reliability cfg = kUnreliable \<or> \<not> dc_ordered cfg)
      in case dc_reliability cfg of
           kReliableOrdered \<Rightarrow> SendStream stream data ppid
         | kUnreliable \<Rightarrow> SendDatagram stream data ppid
         | kPartialReliableTTL \<Rightarrow> SendPartial stream data (uint (dc_max_packet_lifetime_ms cfg)) ppid unordered
         | kPartialReliableCount \<Rightarrow> SendPartial stream data (s_ttl_from_retransmits (dc_max_retransmits cfg)) ppid unordered)"

definition route_send :: "(socket_call \<Rightarrow> status) \<Rightarrow> bytes \<Rightarrow> data_channel \<Rightarrow> (status \<times> data_channel) option" where
  "route_send reply data s =
     (if \<not> ch_opened s then Some (st_err_not_ready, s)
      else if \<not> ch_sock s then Some (st_err_not_ready, s)
      else socket_send reply (route_call (ch_cfg s) data) s)"

definition channel_send :: "(socket_call \<Rightarrow> status) \<Rightarrow> bytes \<Rightarrow> data_channel \<Rightarrow> data_channel option" where
  "channel_send reply data s = do {
     (st, s) \<leftarrow> route_send reply data s;
     Some (if st \<noteq> st_ok then report_state ''error'' s else s)
   }"

definition send_dcep_open :: "(socket_call \<Rightarrow> status) \<Rightarrow> data_channel \<Rightarrow> data_channel option" where
  "send_dcep_open reply s =
     (if \<not> ch_opened s \<or> \<not> ch_sock s then Some s
      else if ch_dcep_open_sent s then Some s
      else do {
        (st, s) \<leftarrow> socket_send reply (SendStream (s_stream_from_priority (dc_priority (ch_cfg s))) (dcep_encode_open (ch_cfg s)) kPpidDcep) s;
        Some (if st = st_ok then s\<lparr>ch_dcep_open_sent := True\<rparr> else report_state ''error'' s)
      })"

definition on_sctp_recv :: "bytes \<Rightarrow> data_channel \<Rightarrow> data_channel" where
  "on_sctp_recv data s = (if ch_on_msg s then s\<lparr>ch_messages := ch_messages s @ [data]\<rparr> else s)"

definition adopt_params :: "dcep_open_params \<Rightarrow> data_channel_config \<Rightarrow> data_channel_config" where
  "adopt_params p cfg = cfg\<lparr>dc_label := op_label p, dc_reliability := op_reliability p, dc_ordered := op_ordered p,
     dc_max_retransmits := op_max_retransmits p, dc_max_packet_lifetime_ms := op_max_packet_lifetime_ms p\<rparr>"

definition on_sctp_recv_with_ppid :: "(socket_call \<Rightarrow> status) \<Rightarrow> u32 \<Rightarrow> bytes \<Rightarrow> data_channel \<Rightarrow> data_channel option" where
  "on_sctp_recv_with_ppid reply ppid data s =
     (if ppid = kPpidDcep then
        if data = [] then Some s
        else do {
          t \<leftarrow> rd data 0;
          if t = kDcepAck then Some (report_state ''open'' s)
          else if t = kDcepOpen then do {
            params \<leftarrow> dcep_decode_open data;
            let s = (case params of Some p \<Rightarrow> s\<lparr>ch_cfg := adopt_params p (ch_cfg s)\<rparr> | None \<Rightarrow> s);
            (st, s) \<leftarrow> socket_send reply (SendStream (s_stream_from_priority (dc_priority (ch_cfg s))) dcep_encode_ack kPpidDcep) s;
            Some (report_state ''open'' s)
          }
          else Some s
        }
      else if ppid = kPpidString \<or> ppid = kPpidBinary then Some (on_sctp_recv data s)
      else Some s)"

section \<open>The codec reads back what it writes\<close>

lemma decode_layout:
  assumes "unat ll = length label" "unat pl = length proto"
  shows "dcep_decode_open ([kDcepOpen, ct, p0, p1] @ be32 param @ be16 ll @ be16 pl @ label @ proto) =
    Some (let params = \<lparr>op_reliability = kReliableOrdered, op_ordered = True, op_max_retransmits = 0, op_max_packet_lifetime_ms = 0, op_label = label\<rparr>
      in if ct = kDcepReliable then Some params
         else if ct = kDcepPartialReliableTimed then Some (params\<lparr>op_reliability := kPartialReliableTTL, op_max_packet_lifetime_ms := clamp_param param\<rparr>)
         else if ct = kDcepPartialReliableRexmit then Some (params\<lparr>op_reliability := kPartialReliableCount, op_max_retransmits := clamp_param param\<rparr>)
         else None)"
proof -
  define d where "d = [kDcepOpen, ct, p0, p1] @ be32 param @ be16 ll @ be16 pl @ label @ proto"
  have r: "rd d 0 = Some kDcepOpen" "rd d 1 = Some ct" "rd_be32 d 4 = Some param" "rd_be16 d 8 = Some ll" "rd_be16 d 10 = Some pl"
    "length d = 12 + length label + length proto" "subspan d 12 (length label) = Some label"
    by (simp_all add: d_def be32_def be16_def wire_simps codec_simps)
  show ?thesis unfolding d_def [symmetric] dcep_decode_open_def using r assms by (simp add: Let_def)
qed

lemma decode_total: "dcep_decode_open data \<noteq> None"
proof (cases "length data < 12")
  case False
  then have "rd data 0 = Some (data ! 0)" "rd data 1 = Some (data ! 1)" "\<exists>p. rd_be32 data 4 = Some p" "\<exists>l. rd_be16 data 8 = Some l" "\<exists>p. rd_be16 data 10 = Some p"
    by (auto simp: wire_simps rd_def)
  then show ?thesis using False by (auto simp: dcep_decode_open_def wire_simps Let_def)
qed (simp add: dcep_decode_open_def)

text \<open>What the decoder makes of an encoded configuration: the modes the wire format has survive, the others become reliable and ordered.\<close>

definition announced :: "data_channel_config \<Rightarrow> dcep_open_params" where
  "announced cfg = \<lparr>op_reliability = (if dc_reliability cfg = kUnreliable then kReliableOrdered else dc_reliability cfg), op_ordered = True,
     op_max_retransmits = (if dc_reliability cfg = kPartialReliableCount then dc_max_retransmits cfg else 0),
     op_max_packet_lifetime_ms = (if dc_reliability cfg = kPartialReliableTTL then dc_max_packet_lifetime_ms cfg else 0),
     op_label = take 65535 (dc_label cfg)\<rparr>"

lemma clamp_param_ucast: "clamp_param (ucast w) = w" for w :: u16
proof -
  have "unat w < 65536" by (rule less_le_trans [OF unsigned_less]) simp
  then have "\<not> (ucast w :: u32) > 65535" by (simp add: word_less_nat_alt unsigned_ucast_eq take_bit_nat_eq_self)
  moreover have "ucast (ucast w :: u32) = w" by (rule bit_word_eqI) (simp add: bit_simps)
  ultimately show ?thesis by (simp add: clamp_param_def)
qed

lemma decode_encode: "dcep_decode_open (dcep_encode_open cfg) = Some (Some (announced cfg))"
proof -
  define n where "n = (if length (dc_label cfg) > 65535 then 65535 else length (dc_label cfg))"
  have t: "take n (dc_label cfg) = take 65535 (dc_label cfg)" by (simp add: n_def)
  have u: "unat (of_nat n :: u16) = length (take n (dc_label cfg))" by (simp add: n_def unsigned_of_nat take_bit_nat_eq_self)
  obtain ct param where c: "channel_type_of cfg = (ct, param)" by fastforce
  have e: "dcep_encode_open cfg = [kDcepOpen, ct, 0, dc_priority cfg] @ be32 (ucast param) @ be16 (of_nat n) @ be16 0 @ take n (dc_label cfg) @ []"
    by (simp add: dcep_encode_open_def c n_def [symmetric]) (simp add: be16_def)
  show ?thesis unfolding e using decode_layout [OF u, of 0 "[]" ct 0 "dc_priority cfg" "ucast param"] c
    by (cases "dc_reliability cfg") (auto simp: channel_type_of_def announced_def t clamp_param_ucast dcep_consts Let_def)
qed

section \<open>Runs of a channel\<close>

datatype channel_op = ChOpen | ChClose | ChConfig data_channel_config | ChSend bytes | ChDcepOpen | ChRecv u32 bytes | ChOnMessage bool | ChOnState bool

text \<open>The socket calls back only while the callbacks are installed.\<close>

definition channel_step :: "(socket_call \<Rightarrow> status) \<Rightarrow> channel_op \<Rightarrow> data_channel option \<Rightarrow> data_channel option" where
  "channel_step reply op x = do {
     s \<leftarrow> x;
     case op of
       ChOpen \<Rightarrow> Some (snd (channel_open s))
     | ChClose \<Rightarrow> Some (channel_close s)
     | ChConfig cfg \<Rightarrow> Some (open_config cfg s)
     | ChSend data \<Rightarrow> channel_send reply data s
     | ChDcepOpen \<Rightarrow> send_dcep_open reply s
     | ChRecv ppid data \<Rightarrow> if ch_recv s then on_sctp_recv_with_ppid reply ppid data s else Some s
     | ChOnMessage cb \<Rightarrow> Some (set_on_message cb s)
     | ChOnState cb \<Rightarrow> Some (set_on_state cb s)
   }"

definition channel_ok :: "data_channel option \<Rightarrow> bool" where
  "channel_ok x \<longleftrightarrow> (\<exists>s. x = Some s \<and> (ch_recv s \<longleftrightarrow> ch_opened s) \<and> (ch_opened s \<longrightarrow> ch_sock s) \<and> (ch_dcep_open_sent s \<longrightarrow> ch_opened s))"

lemma report_state_keeps [simp]:
  "ch_recv (report_state st s) = ch_recv s" "ch_opened (report_state st s) = ch_opened s" "ch_sock (report_state st s) = ch_sock s"
  "ch_dcep_open_sent (report_state st s) = ch_dcep_open_sent s" "ch_cfg (report_state st s) = ch_cfg s" "ch_sent (report_state st s) = ch_sent s"
  "ch_on_state (report_state st s) = ch_on_state s" "ch_messages (report_state st s) = ch_messages s" "ch_on_msg (report_state st s) = ch_on_msg s"
  by (simp_all add: report_state_def)

lemma recv_returns:
  assumes "ch_sock s"
  shows "\<exists>s'. on_sctp_recv_with_ppid reply ppid data s = Some s' \<and> ch_recv s' = ch_recv s \<and> ch_opened s' = ch_opened s \<and> ch_sock s' = ch_sock s
    \<and> ch_dcep_open_sent s' = ch_dcep_open_sent s"
proof -
  obtain p where "dcep_decode_open data = Some p" using decode_total by fastforce
  then show ?thesis using assms
    by (cases data) (auto simp: on_sctp_recv_with_ppid_def wire_simps socket_send_def on_sctp_recv_def Let_def split: option.splits)
qed

interpretation chan: component "Some (new_data_channel sock)" "channel_step reply" channel_ok
proof
  show "channel_ok (Some (new_data_channel sock))" by (simp add: channel_ok_def new_data_channel_def)
  show "channel_ok (channel_step reply op x)" if ok: "channel_ok x" for op x
  proof -
    obtain s where s: "x = Some s" "ch_recv s \<longleftrightarrow> ch_opened s" "ch_opened s \<longrightarrow> ch_sock s" "ch_dcep_open_sent s \<longrightarrow> ch_opened s"
      using ok by (auto simp: channel_ok_def)
    show ?thesis using s recv_returns [of s reply]
      by (cases op) (auto simp: channel_step_def channel_ok_def channel_open_def channel_close_def open_config_def channel_send_def route_send_def
          socket_send_def send_dcep_open_def set_on_message_def set_on_state_def Let_def split: if_splits)
  qed
qed


section \<open>Properties\<close>

text \<open>
  Decoding reads no byte out of bounds, whatever arrives, and decoding an encoded channel configuration returns the label (its first 65535
  bytes) with the reliability mode and its parameter, except that an unreliable channel is announced, and read back, as a reliable ordered one.
\<close>

theorem dcep_open_roundtrip:
  "dcep_decode_open data \<noteq> None \<and> dcep_decode_open (dcep_encode_open cfg) = Some (Some \<lparr>
     op_reliability = (if dc_reliability cfg = kUnreliable then kReliableOrdered else dc_reliability cfg), op_ordered = True,
     op_max_retransmits = (if dc_reliability cfg = kPartialReliableCount then dc_max_retransmits cfg else 0),
     op_max_packet_lifetime_ms = (if dc_reliability cfg = kPartialReliableTTL then dc_max_packet_lifetime_ms cfg else 0),
     op_label = take 65535 (dc_label cfg)\<rparr>)"
  using decode_total [of data] decode_encode [of cfg] by (simp add: announced_def)

text \<open>
  C16: whatever calls are made on a data channel and whatever the socket delivers and answers, no call goes through a
  null socket, the channel receives exactly while it is open, and an open announcement is remembered only while it is open; a message
  sent on an open channel becomes exactly one socket call, chosen by the reliability mode, and one sent on a channel that is not open none.
\<close>

theorem data_channel_runs:
  "\<exists>s. fold (channel_step reply) ops (Some (new_data_channel sock)) = Some s
     \<and> (ch_recv s \<longleftrightarrow> ch_opened s) \<and> (ch_opened s \<longrightarrow> ch_sock s) \<and> (ch_dcep_open_sent s \<longrightarrow> ch_opened s)
     \<and> (\<exists>s'. channel_send reply data s = Some s' \<and> ch_sent s' = ch_sent s @ (if ch_opened s then [route_call (ch_cfg s) data] else []))"
proof -
  obtain s where "fold (channel_step reply) ops (Some (new_data_channel sock)) = Some s"
    "ch_recv s \<longleftrightarrow> ch_opened s" "ch_opened s \<longrightarrow> ch_sock s" "ch_dcep_open_sent s \<longrightarrow> ch_opened s"
    using chan.run_inv [of reply ops sock] by (auto simp: channel_ok_def)
  moreover from this have "\<exists>s'. channel_send reply data s = Some s' \<and> ch_sent s' = ch_sent s @ (if ch_opened s then [route_call (ch_cfg s) data] else [])"
    by (auto simp: channel_send_def route_send_def socket_send_def)
  ultimately show ?thesis by blast
qed

theorem data_channel_runs_witness:
  "\<exists>s s'. fold (channel_step (\<lambda>_. st_ok)) [ChOnState True, ChOpen, ChDcepOpen] (Some (new_data_channel True)) = Some s
     \<and> (ch_recv s \<longleftrightarrow> ch_opened s) \<and> channel_send (\<lambda>_. st_ok) [1, 2] s = Some s'"
  using data_channel_runs [of "\<lambda>_. st_ok" "[ChOnState True, ChOpen, ChDcepOpen]" True "[1, 2]"] by blast

text \<open>
  What the announcement loses: an unreliable or unordered configuration reaches the peer as a reliable, respectively ordered one, and no message carries the
  priority of the announcing side into the configuration of the other, although \<^verbatim>\<open>dcep.hpp\<close> lists reliability, ordering and priority as contents of the message.
\<close>

lemma dcep_modes_lost:
  "dcep_decode_open (dcep_encode_open (cfg\<lparr>dc_reliability := kUnreliable, dc_ordered := False\<rparr>))
     = Some (Some \<lparr>op_reliability = kReliableOrdered, op_ordered = True, op_max_retransmits = 0, op_max_packet_lifetime_ms = 0,
         op_label = take 65535 (dc_label cfg)\<rparr>)
   \<and> dc_priority (adopt_params p mine) = dc_priority mine"
  by (simp add: decode_encode announced_def adopt_params_def)

text \<open>
  C11: the opening handshake of two open channels whose first configuration the message can express: reliable or partially reliable, ordered, with a label of at
  most 65535 bytes. The first announces its configuration; the second, on receiving the announcement, has exactly the label, reliability mode, ordering and limit of
  the first, answers with an acknowledgement and reports that it is open; the first reports the same on receiving the answer. An announcement the socket accepted is
  not repeated. The hypotheses exclude the unreliable and unordered configurations, which the peer does not adopt, and nothing is said of the priority, which it never adopts: see \<open>dcep_modes_lost\<close>.
\<close>

theorem dcep_handshake:
  assumes "ch_opened a" "ch_sock a" "ch_on_state a" "\<not> ch_dcep_open_sent a" "ch_opened b" "ch_sock b" "ch_on_state b"
    and "\<And>c. reply c = st_ok"
    and "dc_reliability (ch_cfg a) \<noteq> kUnreliable" "dc_ordered (ch_cfg a)" "length (dc_label (ch_cfg a)) \<le> 65535"
  shows "\<exists>a1 b1 a2. send_dcep_open reply a = Some a1
    \<and> ch_sent a1 = ch_sent a @ [SendStream 0 (dcep_encode_open (ch_cfg a)) kPpidDcep]
    \<and> on_sctp_recv_with_ppid reply' kPpidDcep (dcep_encode_open (ch_cfg a)) b = Some b1
    \<and> dc_label (ch_cfg b1) = dc_label (ch_cfg a) \<and> dc_reliability (ch_cfg b1) = dc_reliability (ch_cfg a) \<and> dc_ordered (ch_cfg b1)
    \<and> (case dc_reliability (ch_cfg a) of kPartialReliableCount \<Rightarrow> dc_max_retransmits (ch_cfg b1) = dc_max_retransmits (ch_cfg a)
        | kPartialReliableTTL \<Rightarrow> dc_max_packet_lifetime_ms (ch_cfg b1) = dc_max_packet_lifetime_ms (ch_cfg a) | _ \<Rightarrow> True)
    \<and> ch_sent b1 = ch_sent b @ [SendStream 0 dcep_encode_ack kPpidDcep] \<and> ch_states b1 = ch_states b @ [''open'']
    \<and> on_sctp_recv_with_ppid reply kPpidDcep dcep_encode_ack a1 = Some a2 \<and> ch_states a2 = ch_states a @ [''open'']
    \<and> send_dcep_open reply a2 = Some a2"
proof -
  define m where "m = dcep_encode_open (ch_cfg a)"
  have m: "m \<noteq> []" "rd m 0 = Some kDcepOpen" by (auto simp: m_def dcep_encode_open_def Let_def rd_def split: prod.splits)
  have d: "dcep_decode_open m = Some (Some (announced (ch_cfg a)))" by (simp add: m_def decode_encode)
  have k: "kDcepOpen \<noteq> kDcepAck" by (simp add: dcep_consts)
  define a1 where "a1 = a\<lparr>ch_sent := ch_sent a @ [SendStream 0 m kPpidDcep], ch_dcep_open_sent := True\<rparr>"
  have 1: "send_dcep_open reply a = Some a1"
    using assms(1,2,4,8) by (simp add: send_dcep_open_def socket_send_def s_stream_from_priority_def m_def a1_def)
  obtain b1 where 2: "on_sctp_recv_with_ppid reply' kPpidDcep m b = Some b1" "ch_cfg b1 = adopt_params (announced (ch_cfg a)) (ch_cfg b)"
    "ch_sent b1 = ch_sent b @ [SendStream 0 dcep_encode_ack kPpidDcep]" "ch_states b1 = ch_states b @ [''open'']"
    using assms(6,7) that by (simp add: on_sctp_recv_with_ppid_def m d k socket_send_def s_stream_from_priority_def report_state_def)
  have 3: "on_sctp_recv_with_ppid reply kPpidDcep dcep_encode_ack a1 = Some (a1\<lparr>ch_states := ch_states a @ [''open'']\<rparr>)"
    using assms(3) by (simp add: on_sctp_recv_with_ppid_def dcep_encode_ack_def rd_def report_state_def a1_def)
  have 4: "send_dcep_open reply (a1\<lparr>ch_states := ch_states a @ [''open'']\<rparr>) = Some (a1\<lparr>ch_states := ch_states a @ [''open'']\<rparr>)"
    by (simp add: send_dcep_open_def a1_def)
  have 5: "dc_label (ch_cfg b1) = dc_label (ch_cfg a)" "dc_reliability (ch_cfg b1) = dc_reliability (ch_cfg a)" "dc_ordered (ch_cfg b1)"
    "case dc_reliability (ch_cfg a) of kPartialReliableCount \<Rightarrow> dc_max_retransmits (ch_cfg b1) = dc_max_retransmits (ch_cfg a)
        | kPartialReliableTTL \<Rightarrow> dc_max_packet_lifetime_ms (ch_cfg b1) = dc_max_packet_lifetime_ms (ch_cfg a) | _ \<Rightarrow> True"
    using assms(9-11) by (simp_all add: 2(2) adopt_params_def announced_def split: reliability.split)
  show ?thesis using 1 2 3 4 5 unfolding m_def [symmetric]
    by (intro exI [of _ a1] exI [of _ b1] exI [of _ "a1\<lparr>ch_states := ch_states a @ [''open'']\<rparr>"]) (simp add: a1_def)
qed

definition sample_channel :: data_channel where
  "sample_channel = snd (channel_open (set_on_state True (open_config (default_data_channel_config\<lparr>dc_label := [0x63],
     dc_reliability := kPartialReliableCount, dc_max_retransmits := 3\<rparr>) (new_data_channel True))))"

theorem dcep_handshake_witness:
  "\<exists>a1 b1 a2. send_dcep_open (\<lambda>_. st_ok) sample_channel = Some a1
    \<and> on_sctp_recv_with_ppid (\<lambda>_. st_ok) kPpidDcep (dcep_encode_open (ch_cfg sample_channel)) sample_channel = Some b1
    \<and> dc_max_retransmits (ch_cfg b1) = 3
    \<and> on_sctp_recv_with_ppid (\<lambda>_. st_ok) kPpidDcep dcep_encode_ack a1 = Some a2 \<and> ch_states a2 = [''connecting'', ''open'', ''open'']"
proof -
  have s: "ch_opened sample_channel" "ch_sock sample_channel" "ch_on_state sample_channel" "\<not> ch_dcep_open_sent sample_channel"
    "dc_reliability (ch_cfg sample_channel) \<noteq> kUnreliable" "dc_ordered (ch_cfg sample_channel)" "length (dc_label (ch_cfg sample_channel)) \<le> 65535"
    "dc_reliability (ch_cfg sample_channel) = kPartialReliableCount" "dc_max_retransmits (ch_cfg sample_channel) = 3"
    "ch_states sample_channel = [''connecting'', ''open'']"
    by (simp_all add: sample_channel_def channel_open_def set_on_state_def open_config_def new_data_channel_def report_state_def default_data_channel_config_def)
  show ?thesis using dcep_handshake [OF s(1-4) s(1-3), of "\<lambda>_. st_ok" "\<lambda>_. st_ok"] s(5-10) by auto
qed

end
