(* ===== verification/Bandwidth_Estimator.thy ===== *)
theory Bandwidth_Estimator
  imports Adaptive_Delay
begin

text \<open>
  The two bandwidth estimators: the AIMD estimator \<^verbatim>\<open>Bwe\<close> (\<^verbatim>\<open>src/modules/bwe/src/bwe.cpp\<close>) and the delay and loss
  hybrid \<^verbatim>\<open>GoogCcBwe\<close> (\<^verbatim>\<open>goog_cc_bwe.cpp\<close>). Bit rates are 32-bit words, so additions wrap. A \<^verbatim>\<open>double\<close> is a rational number and \<open>fl\<close>
  the rounding of the floating-point format, as in \<open>Adaptive_Delay\<close>. Times are integers in nanoseconds, and
  \<^verbatim>\<open>core::Milliseconds\<close> integers in milliseconds. A conversion of a \<^verbatim>\<open>double\<close> outside the range of \<^verbatim>\<open>std::uint32_t\<close> and a \<^verbatim>\<open>std::clamp\<close>
  with crossed bounds are undefined: \<open>None\<close>.
\<close>

section \<open>Data\<close>

record bwe_config =
  initial_bitrate_bps :: u32
  max_bitrate_bps :: u32
  min_bitrate_bps :: u32
  increase_bps :: u32
  decrease_factor :: rat
  change_interval :: int
  smoothing_alpha :: rat

record bwe_feedback =
  loss_rate :: rat
  fb_rtt :: int
  remb_bps :: "u32 option"
  fb_timestamp :: int

datatype bwe_reason = Initial | AIMDIncrease | AIMDDecrease | REMBOverride | RttIncrease

record bwe_estimate =
  target_bitrate_bps :: u32
  pacing_bitrate_bps :: u32
  est_timestamp :: int
  est_reason :: bwe_reason

datatype aimd_state = kIncrease | kDecrease

record aimd =
  a_config :: bwe_config
  a_current :: u32
  a_smoothed :: u32
  a_last_update :: "int option"
  a_last_change :: "int option"
  a_reason :: bwe_reason
  a_last_loss :: rat
  a_loss_pending :: bool
  a_state :: aimd_state
  a_decrease_start :: "int option"

definition default_bwe_config :: bwe_config where
  "default_bwe_config = \<lparr>initial_bitrate_bps = 1000000, max_bitrate_bps = 10000000, min_bitrate_bps = 30000, increase_bps = 50000,
     decrease_factor = 1/2, change_interval = 200, smoothing_alpha = 1/10\<rparr>"

section \<open>Arithmetic\<close>

text \<open>\<^verbatim>\<open>static_cast<std::uint32_t>(double)\<close>, \<^verbatim>\<open>std::clamp\<close>, \<^verbatim>\<open>duration_cast<Milliseconds>\<close> of a number of nanoseconds, and the conversion of a rate to \<^verbatim>\<open>double\<close>, which is exact.\<close>

definition cast_u32 :: "rat \<Rightarrow> u32 option" where
  "cast_u32 x = (if - 1 < x \<and> x < 2 ^ 32 then Some (of_int (truncate_rat x)) else None)"

definition clamp_u32 :: "u32 \<Rightarrow> u32 \<Rightarrow> u32 \<Rightarrow> u32 option" where
  "clamp_u32 v lo hi = (if hi < lo then None else Some (if v < lo then lo else if hi < v then hi else v))"

definition to_ms :: "int \<Rightarrow> int" where
  "to_ms ns = (if ns \<ge> 0 then ns div 1000000 else - ((- ns) div 1000000))"

definition real_of :: "u32 \<Rightarrow> rat" where
  "real_of w = of_nat (unat w)"

definition smooth :: "(rat \<Rightarrow> rat) \<Rightarrow> rat \<Rightarrow> u32 \<Rightarrow> u32 \<Rightarrow> u32 option" where
  "smooth fl alpha current smoothed = cast_u32 (fl (fl (alpha * real_of current) + fl (fl (1 - alpha) * real_of smoothed)))"

section \<open>The AIMD estimator\<close>

definition kRembTrustFactor :: rat where "kRembTrustFactor = 4/5"
definition kIncreasePerRtt :: rat where "kIncreasePerRtt = 1/20"
definition kLossEventThreshold :: rat where "kLossEventThreshold = 1/50"
definition kDecreaseCooldown :: int where "kDecreaseCooldown = 500 * 1000000"

lemmas bwe_consts = kRembTrustFactor_def kIncreasePerRtt_def kLossEventThreshold_def kDecreaseCooldown_def

definition new_aimd :: "bwe_config \<Rightarrow> aimd" where
  "new_aimd c = \<lparr>a_config = c, a_current = initial_bitrate_bps c, a_smoothed = initial_bitrate_bps c, a_last_update = None, a_last_change = None,
     a_reason = Initial, a_last_loss = 0, a_loss_pending = False, a_state = kIncrease, a_decrease_start = None\<rparr>"

text \<open>The parts of \<^verbatim>\<open>Bwe::Impl::on_feedback\<close>: loss event detection, REMB, decrease, increase.\<close>

definition loss_edge :: "(rat \<Rightarrow> rat) \<Rightarrow> rat \<Rightarrow> rat \<Rightarrow> bool \<Rightarrow> bool" where
  "loss_edge fl prev now pending =
     (let was_no_loss = prev < fl kLossEventThreshold;
          is_loss_now = fl kLossEventThreshold \<le> now;
          pending = (if was_no_loss \<and> is_loss_now then True else pending)
      in if \<not> is_loss_now \<and> fl kLossEventThreshold \<le> prev then False else pending)"

definition aimd_remb :: "(rat \<Rightarrow> rat) \<Rightarrow> bwe_feedback \<Rightarrow> aimd \<Rightarrow> aimd option" where
  "aimd_remb fl f s = (case remb_bps f of
     Some remb \<Rightarrow>
       if \<not> a_loss_pending s then do {
         remb \<leftarrow> cast_u32 (fl (real_of remb * fl kRembTrustFactor));
         let remb = (if remb > max_bitrate_bps (a_config s) then max_bitrate_bps (a_config s) else remb);
         let remb = (if remb < min_bitrate_bps (a_config s) then min_bitrate_bps (a_config s) else remb);
         Some (if remb > a_smoothed s then s\<lparr>a_current := remb, a_reason := REMBOverride\<rparr> else s)
       } else Some s
   | None \<Rightarrow> Some s)"

definition aimd_decrease :: "(rat \<Rightarrow> rat) \<Rightarrow> bwe_feedback \<Rightarrow> aimd \<Rightarrow> aimd option" where
  "aimd_decrease fl f s = do {
     new_rate \<leftarrow> cast_u32 (fl (real_of (a_current s) * decrease_factor (a_config s)));
     let new_rate = max new_rate (min_bitrate_bps (a_config s));
     let new_rate = min new_rate (max_bitrate_bps (a_config s));
     let s = (if new_rate \<noteq> a_current s
              then s\<lparr>a_current := new_rate, a_reason := AIMDDecrease, a_decrease_start := Some (fb_timestamp f), a_state := kDecrease\<rparr> else s);
     Some (s\<lparr>a_loss_pending := False\<rparr>)
   }"

definition aimd_rate :: "(rat \<Rightarrow> rat) \<Rightarrow> bwe_feedback \<Rightarrow> int \<Rightarrow> aimd \<Rightarrow> u32 option" where
  "aimd_rate fl f elapsed_ms s = do {
     inc \<leftarrow> cast_u32 (fl (fl (fl (of_int elapsed_ms) / 1000) * real_of (increase_bps (a_config s))));
     let new_rate = a_current s + inc;
     new_rate \<leftarrow> (if fb_rtt f > 0 then do {
        boost \<leftarrow> cast_u32 (fl (fl (real_of (a_current s) * fl kIncreasePerRtt) * fl (fl (of_int (fb_rtt f)) / 1000)));
        Some (new_rate + boost)
      } else Some new_rate);
     Some (min new_rate (max_bitrate_bps (a_config s)))
   }"

definition aimd_increase :: "(rat \<Rightarrow> rat) \<Rightarrow> bwe_feedback \<Rightarrow> aimd \<Rightarrow> aimd option" where
  "aimd_increase fl f s =
     (let s = (if a_state s = kDecrease \<and> (case a_decrease_start s of Some t \<Rightarrow> fb_timestamp f - t \<ge> kDecreaseCooldown | None \<Rightarrow> False)
               then s\<lparr>a_state := kIncrease\<rparr> else s)
      in if a_state s = kIncrease then
           (case a_last_change s of
              Some t \<Rightarrow>
                let elapsed_ms = to_ms (fb_timestamp f - t) in
                if elapsed_ms \<ge> change_interval (a_config s) then do {
                  new_rate \<leftarrow> aimd_rate fl f elapsed_ms s;
                  Some (if new_rate > a_current s
                        then s\<lparr>a_current := new_rate, a_reason := AIMDIncrease, a_last_change := Some (fb_timestamp f)\<rparr> else s)
                } else Some s
            | None \<Rightarrow> Some (s\<lparr>a_last_change := Some (fb_timestamp f)\<rparr>))
         else Some s)"

definition aimd_on_feedback :: "(rat \<Rightarrow> rat) \<Rightarrow> bwe_feedback \<Rightarrow> aimd \<Rightarrow> aimd option" where
  "aimd_on_feedback fl f s = do {
     let s = s\<lparr>a_loss_pending := loss_edge fl (a_last_loss s) (loss_rate f) (a_loss_pending s)\<rparr>;
     s \<leftarrow> aimd_remb fl f s;
     s \<leftarrow> (if a_loss_pending s then aimd_decrease fl f s else aimd_increase fl f s);
     smoothed \<leftarrow> smooth fl (smoothing_alpha (a_config s)) (a_current s) (a_smoothed s);
     Some (s\<lparr>a_smoothed := smoothed, a_last_update := Some (fb_timestamp f), a_last_loss := loss_rate f\<rparr>)
   }"

text \<open>The estimate both classes hand out; \<open>now\<close> is \<^verbatim>\<open>SteadyClock::now()\<close>.\<close>

definition bwe_estimate_of :: "(rat \<Rightarrow> rat) \<Rightarrow> int \<Rightarrow> bwe_config \<Rightarrow> u32 \<Rightarrow> int option \<Rightarrow> bwe_reason \<Rightarrow> bwe_estimate option" where
  "bwe_estimate_of fl now c smoothed last_update reason = do {
     pacing \<leftarrow> cast_u32 (fl (real_of smoothed * fl (11/10)));
     Some \<lparr>target_bitrate_bps = smoothed, pacing_bitrate_bps = (if pacing > max_bitrate_bps c then max_bitrate_bps c else pacing),
       est_timestamp = (case last_update of Some t \<Rightarrow> t | None \<Rightarrow> now), est_reason = reason\<rparr>
   }"

definition aimd_estimate :: "(rat \<Rightarrow> rat) \<Rightarrow> int \<Rightarrow> aimd \<Rightarrow> bwe_estimate option" where
  "aimd_estimate fl now s = bwe_estimate_of fl now (a_config s) (a_smoothed s) (a_last_update s) (a_reason s)"

definition aimd_update_config :: "bwe_config \<Rightarrow> aimd \<Rightarrow> aimd option" where
  "aimd_update_config c s = do {
     current \<leftarrow> clamp_u32 (a_current s) (min_bitrate_bps c) (max_bitrate_bps c);
     smoothed \<leftarrow> clamp_u32 (a_smoothed s) (min_bitrate_bps c) (max_bitrate_bps c);
     Some (s\<lparr>a_config := c, a_current := current, a_smoothed := smoothed\<rparr>)
   }"

definition aimd_reset :: "aimd \<Rightarrow> aimd" where
  "aimd_reset s = s\<lparr>a_current := initial_bitrate_bps (a_config s), a_smoothed := initial_bitrate_bps (a_config s), a_last_update := None,
     a_last_change := None, a_last_loss := 0, a_loss_pending := False, a_state := kIncrease, a_decrease_start := None, a_reason := Initial\<rparr>"

section \<open>The delay and loss hybrid\<close>

record goog_cc =
  g_config :: bwe_config
  g_current :: u32
  g_smoothed :: u32
  g_last_update :: "int option"
  g_last_change :: "int option"
  g_decrease_start :: "int option"
  g_reason :: bwe_reason
  g_min_rtt :: "int option"
  g_last_loss :: rat
  g_loss_pending :: bool

definition kOveruseAbsoluteMs :: int where "kOveruseAbsoluteMs = 25"
definition kOveruseRelativeRatio :: rat where "kOveruseRelativeRatio = 6/5"
definition kDelayBackoffFactor :: rat where "kDelayBackoffFactor = 17/20"
definition kProbePerSecond :: rat where "kProbePerSecond = 1/20"

definition new_goog_cc :: "bwe_config \<Rightarrow> goog_cc" where
  "new_goog_cc c = \<lparr>g_config = c, g_current = initial_bitrate_bps c, g_smoothed = initial_bitrate_bps c, g_last_update = None, g_last_change = None,
     g_decrease_start = None, g_reason = Initial, g_min_rtt = None, g_last_loss = 0, g_loss_pending = False\<rparr>"

definition in_cooldown :: "int \<Rightarrow> goog_cc \<Rightarrow> bool" where
  "in_cooldown now s = (case g_decrease_start s of Some t \<Rightarrow> now - t < kDecreaseCooldown | None \<Rightarrow> False)"

definition is_overuse :: "(rat \<Rightarrow> rat) \<Rightarrow> int \<Rightarrow> goog_cc \<Rightarrow> bool" where
  "is_overuse fl rtt s = (case g_min_rtt s of
     None \<Rightarrow> False
   | Some baseline \<Rightarrow>
       if rtt \<le> 0 then False
       else rtt - baseline > kOveruseAbsoluteMs
         \<and> fl (fl (of_int rtt) / fl (of_int (if baseline > 0 then baseline else 1))) > fl kOveruseRelativeRatio)"

definition apply_decrease :: "u32 \<Rightarrow> int \<Rightarrow> bwe_reason \<Rightarrow> goog_cc \<Rightarrow> goog_cc option" where
  "apply_decrease nxt now reason s = do {
     nxt \<leftarrow> clamp_u32 nxt (min_bitrate_bps (g_config s)) (max_bitrate_bps (g_config s));
     Some (if nxt \<noteq> g_current s
           then s\<lparr>g_current := nxt, g_reason := reason, g_decrease_start := Some now, g_last_change := Some now\<rparr> else s)
   }"

definition track_min_rtt :: "int \<Rightarrow> goog_cc \<Rightarrow> goog_cc" where
  "track_min_rtt rtt s =
     (if rtt > 0 \<and> (case g_min_rtt s of None \<Rightarrow> True | Some m \<Rightarrow> rtt < m) then s\<lparr>g_min_rtt := Some rtt\<rparr> else s)"

definition goog_remb :: "(rat \<Rightarrow> rat) \<Rightarrow> bwe_feedback \<Rightarrow> goog_cc \<Rightarrow> goog_cc option" where
  "goog_remb fl f s = (case remb_bps f of
     Some remb \<Rightarrow>
       if \<not> g_loss_pending s then do {
         remb \<leftarrow> cast_u32 (fl (real_of remb * fl kRembTrustFactor));
         remb \<leftarrow> clamp_u32 remb (min_bitrate_bps (g_config s)) (max_bitrate_bps (g_config s));
         Some (if remb > g_smoothed s then s\<lparr>g_current := remb, g_reason := REMBOverride, g_last_change := Some (fb_timestamp f)\<rparr> else s)
       } else Some s
   | None \<Rightarrow> Some s)"

definition goog_probe :: "(rat \<Rightarrow> rat) \<Rightarrow> bwe_feedback \<Rightarrow> goog_cc \<Rightarrow> goog_cc option" where
  "goog_probe fl f s = (case g_last_change s of
     Some t \<Rightarrow>
       let elapsed_ms = to_ms (fb_timestamp f - t) in
       if elapsed_ms \<ge> change_interval (g_config s) then do {
         let elapsed_s = fl (fl (of_int elapsed_ms) / 1000);
         let additive = fl (real_of (increase_bps (g_config s)) * elapsed_s);
         let multiplicative = fl (fl (real_of (g_current s) * fl kProbePerSecond) * elapsed_s);
         inc \<leftarrow> cast_u32 (max additive multiplicative);
         let nxt = min (g_current s + inc) (max_bitrate_bps (g_config s));
         Some (if nxt > g_current s
               then s\<lparr>g_current := nxt, g_reason := AIMDIncrease, g_last_change := Some (fb_timestamp f)\<rparr> else s)
       } else Some s
   | None \<Rightarrow> Some (s\<lparr>g_last_change := Some (fb_timestamp f)\<rparr>))"

definition goog_adjust :: "(rat \<Rightarrow> rat) \<Rightarrow> bwe_feedback \<Rightarrow> goog_cc \<Rightarrow> goog_cc option" where
  "goog_adjust fl f s =
     (if g_loss_pending s then do {
        nxt \<leftarrow> cast_u32 (fl (real_of (g_current s) * decrease_factor (g_config s)));
        s \<leftarrow> apply_decrease nxt (fb_timestamp f) AIMDDecrease s;
        Some (s\<lparr>g_loss_pending := False\<rparr>)
      }
      else if is_overuse fl (fb_rtt f) s then do {
        nxt \<leftarrow> cast_u32 (fl (real_of (g_current s) * fl kDelayBackoffFactor));
        apply_decrease nxt (fb_timestamp f) RttIncrease s
      }
      else if \<not> (fl kLossEventThreshold \<le> loss_rate f) \<and> \<not> in_cooldown (fb_timestamp f) s then goog_probe fl f s
      else Some s)"

definition goog_on_feedback :: "(rat \<Rightarrow> rat) \<Rightarrow> bwe_feedback \<Rightarrow> goog_cc \<Rightarrow> goog_cc option" where
  "goog_on_feedback fl f s = do {
     let s = track_min_rtt (fb_rtt f) s;
     let s = s\<lparr>g_loss_pending := loss_edge fl (g_last_loss s) (loss_rate f) (g_loss_pending s)\<rparr>;
     s \<leftarrow> goog_remb fl f s;
     s \<leftarrow> goog_adjust fl f s;
     smoothed \<leftarrow> smooth fl (smoothing_alpha (g_config s)) (g_current s) (g_smoothed s);
     Some (s\<lparr>g_smoothed := smoothed, g_last_update := Some (fb_timestamp f), g_last_loss := loss_rate f\<rparr>)
   }"

definition goog_estimate :: "(rat \<Rightarrow> rat) \<Rightarrow> int \<Rightarrow> goog_cc \<Rightarrow> bwe_estimate option" where
  "goog_estimate fl now s = bwe_estimate_of fl now (g_config s) (g_smoothed s) (g_last_update s) (g_reason s)"

definition goog_update_config :: "bwe_config \<Rightarrow> goog_cc \<Rightarrow> goog_cc option" where
  "goog_update_config c s = do {
     current \<leftarrow> clamp_u32 (g_current s) (min_bitrate_bps c) (max_bitrate_bps c);
     smoothed \<leftarrow> clamp_u32 (g_smoothed s) (min_bitrate_bps c) (max_bitrate_bps c);
     Some (s\<lparr>g_config := c, g_current := current, g_smoothed := smoothed\<rparr>)
   }"

definition goog_reset :: "goog_cc \<Rightarrow> goog_cc" where
  "goog_reset s = s\<lparr>g_current := initial_bitrate_bps (g_config s), g_smoothed := initial_bitrate_bps (g_config s), g_last_update := None,
     g_last_change := None, g_decrease_start := None, g_reason := Initial, g_min_rtt := None, g_last_loss := 0, g_loss_pending := False\<rparr>"

section \<open>Bounds of the arithmetic\<close>

lemma cast_le:
  assumes "0 \<le> x" "x < of_nat n + 1" "n < 2 ^ 32"
  shows "\<exists>w. cast_u32 x = Some w \<and> unat w \<le> n"
proof -
  have f: "0 \<le> \<lfloor>x\<rfloor>" "\<lfloor>x\<rfloor> \<le> int n" using assms(1,2) by (simp_all add: floor_le_iff)
  have lt: "x < 2 ^ 32" proof -
    have "(of_nat n :: rat) + 1 \<le> of_nat (2 ^ 32)" using assms(3) by (metis Suc_leI add.commute of_nat_Suc of_nat_le_iff)
    then show ?thesis using assms(2) by simp
  qed
  have "int n < 2 ^ 32" using assms(3) by simp
  then have "\<lfloor>x\<rfloor> < 2 ^ 32" using f(2) by linarith
  then have "unat (of_int \<lfloor>x\<rfloor> :: u32) = nat \<lfloor>x\<rfloor>" using f(1) by (simp add: unsigned_of_int take_bit_int_eq_self)
  then show ?thesis using assms(1) f lt by (auto simp: cast_u32_def truncate_rat_def)
qed

lemma real_of_bound: "0 \<le> real_of w" "real_of w \<le> 2 ^ 32 - 1" "unat w < 2 ^ 32" "u \<le> v \<Longrightarrow> real_of u \<le> real_of v"
proof -
  show u: "unat w < 2 ^ 32" by (rule less_le_trans [OF unsigned_less]) simp
  then have "unat w \<le> 2 ^ 32 - 1" by simp
  then have "of_nat (unat w) \<le> (of_nat (2 ^ 32 - 1) :: rat)" by (rule of_nat_mono)
  then show "real_of w \<le> 2 ^ 32 - 1" unfolding real_of_def by (simp del: of_nat_unat)
  show "0 \<le> real_of w" unfolding real_of_def by (rule of_nat_0_le_iff)
  show "u \<le> v \<Longrightarrow> real_of u \<le> real_of v" unfolding real_of_def word_le_nat_alt by (rule of_nat_mono)
qed

lemma fl_real_of: "double_rounding fl \<Longrightarrow> fl (real_of w) = real_of w"
  unfolding real_of_def by (rule double_rounding_facts(2)) (use real_of_bound(3) [of w] in simp_all)

lemma cast_scaled:
  assumes fl: "double_rounding fl" and "0 \<le> k" "k \<le> 1"
  shows "\<exists>w'. cast_u32 (fl (real_of w * k)) = Some w' \<and> w' \<le> w"
proof -
  note f = double_rounding_facts [OF fl]
  have "fl (real_of w * k) \<le> fl (real_of w)" using assms mult_right_le_one_le [of "real_of w" k] real_of_bound(1) [of w] by (intro f(1)) simp
  then have "fl (real_of w * k) \<le> real_of w" by (simp only: fl_real_of [OF fl])
  then have "fl (real_of w * k) < of_nat (unat w) + 1" unfolding real_of_def by linarith
  moreover have "0 \<le> fl (real_of w * k)" using assms real_of_bound(1) by (intro f(3)) simp
  ultimately show ?thesis using cast_le [OF _ _ real_of_bound(3)] by (simp add: word_le_nat_alt)
qed

lemma smooth_bound:
  assumes fl: "double_rounding fl" and "0 \<le> alpha" "alpha \<le> 1" "c \<le> m" "s \<le> m"
  shows "\<exists>w. smooth fl alpha c s = Some w \<and> w \<le> m"
proof -
  note f = double_rounding_facts [OF fl]
  have cs: "real_of c \<le> real_of m" "real_of s \<le> real_of m" using assms(4,5) by (simp_all add: real_of_bound(4))
  define M where "M = real_of m"
  have M: "M \<le> 2 ^ 32" "0 \<le> M" "real_of c \<le> M" "real_of s \<le> M" using cs real_of_bound(1,2) [of m] by (simp_all add: M_def)
  have a: "0 \<le> alpha * real_of c" "alpha * real_of c \<le> alpha * M" "alpha * M \<le> M"
    using assms(2,3) M real_of_bound(1) [of c] by (simp_all add: mult_left_mono mult_left_le_one_le)
  have x1: "fl (alpha * real_of c) \<le> alpha * M + 1 / 8" using f(4) [of "alpha * real_of c"] a M(1) by simp
  define b where "b = fl (1 - alpha)"
  have b: "0 \<le> b" "b \<le> 1" "b \<le> 1 - alpha + 1 / 2 ^ 50" using assms(2,3) f(3,5,6) [of "1 - alpha"] by (simp_all add: b_def)
  have "b * real_of s \<le> b * M" using b(1) M(4) by (rule mult_left_mono [rotated])
  also have "\<dots> \<le> (1 - alpha + 1 / 2 ^ 50) * M" using b(3) M(2) by (rule mult_right_mono)
  also have "\<dots> \<le> (1 - alpha) * M + 1 / 8" using M(1) by (simp add: algebra_simps)
  finally have bs: "b * real_of s \<le> (1 - alpha) * M + 1 / 8" .
  have bs': "0 \<le> b * real_of s" "b * real_of s \<le> M" using b M real_of_bound(1) [of s] mult_left_le_one_le [of "real_of s" b] by simp_all
  have x2: "fl (b * real_of s) \<le> (1 - alpha) * M + 2 / 8" using f(4) [OF bs'(1)] bs' bs M(1) by simp
  define y where "y = fl (alpha * real_of c) + fl (b * real_of s)"
  have y: "0 \<le> y" "y \<le> M + 3 / 8" using f(3) [OF a(1)] f(3) [OF bs'(1)] x1 x2 by (simp_all add: y_def algebra_simps)
  have "fl y < of_nat (unat m) + 1" using f(4) [OF y(1)] y(2) M(1) by (simp only: M_def real_of_def) simp
  from cast_le [OF f(3) [OF y(1)] this real_of_bound(3)] show ?thesis
    by (simp add: smooth_def y_def b_def word_le_nat_alt)
qed

lemma seconds_bound:
  assumes fl: "double_rounding fl" and "0 \<le> e" "e \<le> 2 ^ 49"
  shows "0 \<le> fl (fl (of_int e) / 1000)" "fl (fl (of_int e) / 1000) \<le> of_int e / 1000 + 1 / 8"
proof -
  note f = double_rounding_facts [OF fl]
  have "fl (of_nat (nat e)) = of_nat (nat e)" using assms(3) by (intro f(2)) simp
  then have e: "fl (of_int e) = of_int e" using assms(2) by simp
  have q: "0 \<le> (of_int e :: rat) / 1000" "(of_int e :: rat) / 1000 \<le> 2 ^ 40" 
  proof -
    have "(of_int e :: rat) \<le> of_int (2 ^ 49)" using assms(3) by (simp only: of_int_le_iff)
    then show "(of_int e :: rat) / 1000 \<le> 2 ^ 40" by simp
  qed (use assms(2) in simp)
  show "0 \<le> fl (fl (of_int e) / 1000)" "fl (fl (of_int e) / 1000) \<le> of_int e / 1000 + 1 / 8"
    using f(3,4) [OF q(1)] q(2) by (simp_all add: e)
qed


lemma cast_small:
  assumes fl: "double_rounding fl" and "0 \<le> x" "x \<le> 2 ^ 31"
  shows "\<exists>w. cast_u32 (fl x) = Some w"
proof -
  have "fl x < of_nat (2 ^ 31) + 1" using double_rounding_facts(4) [OF fl assms(2)] assms(3) by simp
  then show ?thesis using cast_le [OF double_rounding_facts(3) [OF fl assms(2)], of "2 ^ 31"] by auto
qed

section \<open>Configurations and feedback\<close>

text \<open>
  The rates an estimator can have: its configured limits, widened by the initial rate, which the constructor and \<^verbatim>\<open>reset()\<close> take unclamped.
\<close>

definition rate_hi :: "bwe_config \<Rightarrow> u32" where
  "rate_hi c = max (max_bitrate_bps c) (initial_bitrate_bps c)"

definition rate_lo :: "bwe_config \<Rightarrow> u32" where
  "rate_lo c = min (min_bitrate_bps c) (initial_bitrate_bps c)"

lemma rate_bounds [simp]:
  "max_bitrate_bps c \<le> rate_hi c" "initial_bitrate_bps c \<le> rate_hi c" "rate_lo c \<le> min_bitrate_bps c" "rate_lo c \<le> initial_bitrate_bps c"
  "x \<le> max_bitrate_bps c \<Longrightarrow> x \<le> rate_hi c" "min_bitrate_bps c \<le> x \<Longrightarrow> rate_lo c \<le> x"
  by (auto simp: rate_hi_def rate_lo_def le_max_iff_disj min_le_iff_disj)

text \<open>
  A configuration with ordered limits and factors between 0 and 1, for feedback that spans at most \<open>W\<close> milliseconds: the increase
  that accumulates over this time stays below \<open>2\<^sup>3\<^sup>1\<close> bits per second. The initial rate may lie outside the limits.
\<close>

definition bwe_config_wf :: "nat \<Rightarrow> bwe_config \<Rightarrow> bool" where
  "bwe_config_wf W c \<longleftrightarrow> min_bitrate_bps c \<le> max_bitrate_bps c
     \<and> unat (rate_hi c) \<le> 2 ^ 31 \<and> 0 \<le> smoothing_alpha c \<and> smoothing_alpha c \<le> 1 \<and> 0 \<le> decrease_factor c \<and> decrease_factor c \<le> 1
     \<and> 0 \<le> change_interval c \<and> W \<le> 2 ^ 32 \<and> (W + 125) * unat (increase_bps c) \<le> 1000 * 2 ^ 31
     \<and> (W + 125) * unat (rate_hi c) \<le> 16000 * 2 ^ 31"

definition in_window :: "int \<Rightarrow> nat \<Rightarrow> int \<Rightarrow> bool" where
  "in_window t0 W t \<longleftrightarrow> t0 \<le> t \<and> t \<le> t0 + int W * 1000000"

definition feedback_wf :: "int \<Rightarrow> nat \<Rightarrow> bwe_feedback \<Rightarrow> bool" where
  "feedback_wf t0 W f \<longleftrightarrow> in_window t0 W (fb_timestamp f) \<and> fb_rtt f \<le> 10000"

lemma to_ms_window: "in_window t0 W a \<Longrightarrow> in_window t0 W b \<Longrightarrow> to_ms (b - a) \<le> int W"
proof -
  assume w: "in_window t0 W a" "in_window t0 W b"
  then have "b - a \<le> int W * 1000000" by (simp add: in_window_def)
  then have "b - a \<ge> 0 \<Longrightarrow> (b - a) div 1000000 \<le> int W" by simp
  then show ?thesis by (auto simp: to_ms_def div_nonneg_neg_le0 intro: order_trans [of _ 0])
qed

lemma increase_defined:
  assumes fl: "double_rounding fl" and "0 \<le> e" "e \<le> int W" "W \<le> 2 ^ 32" "0 \<le> r" "r * of_nat (W + 125) \<le> 1000 * 2 ^ 31"
  shows "0 \<le> fl (fl (of_int e) / 1000) * r" "fl (fl (of_int e) / 1000) * r \<le> 2 ^ 31"
proof -
  note f = double_rounding_facts [OF fl]
  have "int W \<le> 2 ^ 32" using assms(4) by simp
  then have e: "e \<le> 2 ^ 49" using assms(3) by simp
  note sec = seconds_bound [OF fl assms(2) e]
  show "0 \<le> fl (fl (of_int e) / 1000) * r" using sec(1) assms(5) by simp
  have "(of_int e :: rat) \<le> of_nat W" using assms(3) by (metis of_int_le_iff of_int_of_nat_eq)
  then have "fl (fl (of_int e) / 1000) \<le> of_nat (W + 125) / 1000" using sec(2) by simp
  then have "fl (fl (of_int e) / 1000) * r \<le> of_nat (W + 125) / 1000 * r" using assms(5) by (rule mult_right_mono)
  also have "\<dots> \<le> 2 ^ 31" using assms(6) by (simp add: algebra_simps)
  finally show "fl (fl (of_int e) / 1000) * r \<le> 2 ^ 31" .
qed

lemma real_of_product: "(W + 125) * unat w \<le> n \<Longrightarrow> real_of w * of_nat (W + 125) \<le> of_nat n"
  unfolding real_of_def by (metis mult.commute of_nat_le_iff of_nat_mult)

text \<open>A twentieth of a rate, as a \<^verbatim>\<open>double\<close>.\<close>

lemma twentieth:
  assumes fl: "double_rounding fl"
  shows "0 \<le> fl (real_of w * fl (1 / 20))" "fl (real_of w * fl (1 / 20)) \<le> real_of w * (3 / 50) + 1 / 8"
proof -
  note f = double_rounding_facts [OF fl]
  have k: "0 \<le> fl (1 / 20)" "fl (1 / 20) \<le> 3 / 50" using f(3,5) [of "1 / 20"] by simp_all
  have p: "0 \<le> real_of w * fl (1 / 20)" "real_of w * fl (1 / 20) \<le> real_of w * (3 / 50)"
    using real_of_bound(1) k(1) mult_left_mono [OF k(2) real_of_bound(1)] by (simp, blast)
  show "0 \<le> fl (real_of w * fl (1 / 20))" by (rule f(3) [OF p(1)])
  show "fl (real_of w * fl (1 / 20)) \<le> real_of w * (3 / 50) + 1 / 8"
    using f(4) [OF p(1)] p(2) real_of_bound(2) [of w] by simp
qed

lemma boost_defined:
  assumes fl: "double_rounding fl" and "0 < rtt" "rtt \<le> 10000" "unat w \<le> 2 ^ 31"
  shows "\<exists>x. cast_u32 (fl (fl (real_of w * fl (1 / 20)) * fl (fl (of_int rtt) / 1000))) = Some x"
proof (rule cast_small [OF fl])
  note t = twentieth [OF fl, of w]
  have sec: "0 \<le> fl (fl (of_int rtt) / 1000)" "fl (fl (of_int rtt) / 1000) \<le> of_int rtt / 1000 + 1 / 8"
    using seconds_bound [OF fl, of rtt] assms(2,3) by simp_all
  have "(of_int rtt :: rat) \<le> of_int 10000" using assms(3) by (simp only: of_int_le_iff)
  then have s: "fl (fl (of_int rtt) / 1000) \<le> 81 / 8" using sec(2) by simp
  have "real_of w \<le> of_nat (2 ^ 31)" unfolding real_of_def using assms(4) by (rule of_nat_mono)
  then have a: "fl (real_of w * fl (1 / 20)) \<le> 2 ^ 31 * (3 / 50) + 1 / 8" using t(2) by simp
  show "0 \<le> fl (real_of w * fl (1 / 20)) * fl (fl (of_int rtt) / 1000)" using t(1) sec(1) by simp
  have "fl (real_of w * fl (1 / 20)) * fl (fl (of_int rtt) / 1000) \<le> (2 ^ 31 * (3 / 50) + 1 / 8) * (81 / 8)"
    by (rule mult_mono [OF a s]) (use sec(1) in simp_all)
  then show "fl (real_of w * fl (1 / 20)) * fl (fl (of_int rtt) / 1000) \<le> 2 ^ 31" by simp
qed

section \<open>Invariants\<close>

definition aimd_bounded :: "int \<Rightarrow> nat \<Rightarrow> aimd \<Rightarrow> bool" where
  "aimd_bounded t0 W s \<longleftrightarrow> bwe_config_wf W (a_config s) \<and> rate_lo (a_config s) \<le> a_current s \<and> (a_current s \<le> max_bitrate_bps (a_config s) \<or> a_current s = initial_bitrate_bps (a_config s))
     \<and> a_smoothed s \<le> rate_hi (a_config s) \<and> (\<forall>t. a_last_change s = Some t \<longrightarrow> in_window t0 W t)"

lemma aimd_bounded_hi:
  assumes "aimd_bounded t0 W s"
  shows "a_current s \<le> rate_hi (a_config s)" "unat (a_current s) \<le> 2 ^ 31"
proof -
  show c: "a_current s \<le> rate_hi (a_config s)" using assms by (auto simp: aimd_bounded_def)
  have "unat (rate_hi (a_config s)) \<le> 2 ^ 31" using assms by (simp add: aimd_bounded_def bwe_config_wf_def)
  then show "unat (a_current s) \<le> 2 ^ 31" using c unfolding word_le_nat_alt by linarith
qed

lemma aimd_remb_bounded:
  assumes fl: "double_rounding fl" and "aimd_bounded t0 W s"
  shows "\<exists>s'. aimd_remb fl f s = Some s' \<and> aimd_bounded t0 W s' \<and> a_loss_pending s' = a_loss_pending s \<and> a_last_loss s' = a_last_loss s
    \<and> (remb_bps f = None \<longrightarrow> s' = s)"
proof -
  have k: "0 \<le> fl kRembTrustFactor" "fl kRembTrustFactor \<le> 1"
    using double_rounding_facts(3,6) [OF fl, of "4 / 5"] by (simp_all add: kRembTrustFactor_def)
  show ?thesis
  proof (cases "remb_bps f")
    case (Some r)
    from cast_scaled [OF fl k, of r] obtain w where "cast_u32 (fl (real_of r * fl kRembTrustFactor)) = Some w" by blast
    then show ?thesis using Some assms(2) by (auto simp: aimd_remb_def aimd_bounded_def bwe_config_wf_def Let_def)
  qed (use assms(2) in \<open>simp add: aimd_remb_def\<close>)
qed

lemma aimd_decrease_bounded:
  assumes fl: "double_rounding fl" and "aimd_bounded t0 W s"
  shows "\<exists>s'. aimd_decrease fl f s = Some s' \<and> aimd_bounded t0 W s' \<and> \<not> a_loss_pending s'"
proof -
  have k: "0 \<le> decrease_factor (a_config s)" "decrease_factor (a_config s) \<le> 1" using assms(2) by (simp_all add: aimd_bounded_def bwe_config_wf_def)
  from cast_scaled [OF fl k, of "a_current s"] obtain w where "cast_u32 (fl (real_of (a_current s) * decrease_factor (a_config s))) = Some w" by blast
  then show ?thesis using assms(2) by (auto simp: aimd_decrease_def aimd_bounded_def bwe_config_wf_def Let_def min_def max_def)
qed

lemma aimd_rate_defined:
  assumes fl: "double_rounding fl" and "aimd_bounded t0 W s" "0 \<le> e" "e \<le> int W" "fb_rtt f \<le> 10000"
  shows "\<exists>r. aimd_rate fl f e s = Some r \<and> r \<le> max_bitrate_bps (a_config s)"
proof -
  have wf: "W \<le> 2 ^ 32" "(W + 125) * unat (increase_bps (a_config s)) \<le> 1000 * 2 ^ 31" "unat (a_current s) \<le> 2 ^ 31"
    using assms(2) aimd_bounded_hi(2) [OF assms(2)] by (simp_all add: aimd_bounded_def bwe_config_wf_def)
  have "real_of (increase_bps (a_config s)) * of_nat (W + 125) \<le> 1000 * 2 ^ 31" using real_of_product [OF wf(2)] by simp
  from cast_small [OF fl increase_defined [OF fl assms(3,4) wf(1) real_of_bound(1) this]]
  obtain i where "cast_u32 (fl (fl (fl (of_int e) / 1000) * real_of (increase_bps (a_config s)))) = Some i" by blast
  moreover have "0 < fb_rtt f \<Longrightarrow> \<exists>b. cast_u32 (fl (fl (real_of (a_current s) * fl kIncreasePerRtt) * fl (fl (of_int (fb_rtt f)) / 1000))) = Some b"
    using boost_defined [OF fl _ assms(5) wf(3)] by (simp add: kIncreasePerRtt_def)
  ultimately show ?thesis by (auto simp: aimd_rate_def Let_def)
qed

lemma u32_above: "m \<le> a \<Longrightarrow> a < r \<Longrightarrow> m \<le> r \<and> a \<le> r" for a :: u32
  by auto

lemma aimd_bounded_raise:
  assumes "aimd_bounded t0 W s" "a_current s < r" "r \<le> max_bitrate_bps (a_config s)" "in_window t0 W t"
  shows "aimd_bounded t0 W (s\<lparr>a_current := r, a_reason := x, a_last_change := Some t\<rparr>)"
proof -
  have "rate_lo (a_config s) \<le> a_current s" using assms(1) by (simp add: aimd_bounded_def)
  then have "rate_lo (a_config s) \<le> r" using u32_above [OF _ assms(2)] by blast
  then show ?thesis using assms(1,3,4) by (simp add: aimd_bounded_def)
qed

lemma aimd_increase_bounded:
  assumes fl: "double_rounding fl" and "aimd_bounded t0 W s" "feedback_wf t0 W f" "\<not> a_loss_pending s"
  shows "\<exists>s'. aimd_increase fl f s = Some s' \<and> aimd_bounded t0 W s' \<and> \<not> a_loss_pending s' \<and> a_current s \<le> a_current s'"
proof -
  define s1 where "s1 = (if a_state s = kDecrease \<and> (case a_decrease_start s of Some t \<Rightarrow> fb_timestamp f - t \<ge> kDecreaseCooldown | None \<Rightarrow> False)
    then s\<lparr>a_state := kIncrease\<rparr> else s)"
  have s1: "aimd_bounded t0 W s1" "\<not> a_loss_pending s1" "a_current s1 = a_current s" "a_last_change s1 = a_last_change s"
    using assms(2,4) by (auto simp: s1_def aimd_bounded_def)
  have ts: "in_window t0 W (fb_timestamp f)" "fb_rtt f \<le> 10000" using assms(3) by (simp_all add: feedback_wf_def)
  have rate: "\<exists>r. aimd_rate fl f (to_ms (fb_timestamp f - t)) s1 = Some r \<and> r \<le> max_bitrate_bps (a_config s1)"
    if "a_last_change s1 = Some t" "change_interval (a_config s1) \<le> to_ms (fb_timestamp f - t)" for t
  proof (rule aimd_rate_defined [OF fl s1(1) _ _ ts(2)])
    have "0 \<le> change_interval (a_config s1)" using s1(1) by (simp add: aimd_bounded_def bwe_config_wf_def)
    then show "0 \<le> to_ms (fb_timestamp f - t)" using that(2) by simp
    have "in_window t0 W t" using that(1) s1(1) by (simp add: aimd_bounded_def)
    from to_ms_window [OF this ts(1)] show "to_ms (fb_timestamp f - t) \<le> int W" .
  qed
  have e: "aimd_increase fl f s = (if a_state s1 = kIncrease then
      (case a_last_change s1 of
         Some t \<Rightarrow> if to_ms (fb_timestamp f - t) \<ge> change_interval (a_config s1) then do {
             new_rate \<leftarrow> aimd_rate fl f (to_ms (fb_timestamp f - t)) s1;
             Some (if new_rate > a_current s1 then s1\<lparr>a_current := new_rate, a_reason := AIMDIncrease, a_last_change := Some (fb_timestamp f)\<rparr> else s1) }
           else Some s1
       | None \<Rightarrow> Some (s1\<lparr>a_last_change := Some (fb_timestamp f)\<rparr>)) else Some s1)"
    unfolding aimd_increase_def Let_def s1_def [symmetric] by (rule refl)
  show ?thesis
  proof (cases "a_last_change s1")
    case None
    then show ?thesis using s1 ts(1) by (auto simp: e aimd_bounded_def)
  next
    case (Some t)
    show ?thesis
    proof (cases "a_state s1 = kIncrease \<and> to_ms (fb_timestamp f - t) \<ge> change_interval (a_config s1)")
      case True
      with rate [OF Some] obtain r where r: "aimd_rate fl f (to_ms (fb_timestamp f - t)) s1 = Some r" "r \<le> max_bitrate_bps (a_config s1)" by blast
      show ?thesis
      proof (cases "a_current s1 < r")
        case up: True
        from aimd_bounded_raise [OF s1(1) up r(2) ts(1)] show ?thesis using True Some r(1) up s1(2,3) by (simp add: e order.strict_implies_order)
      qed (use True Some r(1) s1 in \<open>simp add: e\<close>)
    qed (use Some s1 in \<open>auto simp: e\<close>)
  qed
qed

lemma aimd_on_feedback_bounded:
  assumes fl: "double_rounding fl" and "aimd_bounded t0 W s" "feedback_wf t0 W f" "\<not> a_loss_pending s"
  shows "\<exists>s'. aimd_on_feedback fl f s = Some s' \<and> aimd_bounded t0 W s' \<and> \<not> a_loss_pending s'
    \<and> (remb_bps f = None \<longrightarrow> \<not> (a_last_loss s < fl kLossEventThreshold \<and> fl kLossEventThreshold \<le> loss_rate f) \<longrightarrow> a_current s \<le> a_current s')"
proof -
  define p where "p = loss_edge fl (a_last_loss s) (loss_rate f) (a_loss_pending s)"
  have p: "p \<longleftrightarrow> a_last_loss s < fl kLossEventThreshold \<and> fl kLossEventThreshold \<le> loss_rate f"
    using assms(4) by (auto simp: p_def loss_edge_def Let_def)
  define s0 where "s0 = s\<lparr>a_loss_pending := p\<rparr>"
  have s0: "aimd_bounded t0 W s0" "a_loss_pending s0 = p" "a_current s0 = a_current s" using assms(2) by (simp_all add: s0_def aimd_bounded_def)
  obtain s1 where s1: "aimd_remb fl f s0 = Some s1" "aimd_bounded t0 W s1" "a_loss_pending s1 = p" "remb_bps f = None \<longrightarrow> s1 = s0"
    using aimd_remb_bounded [OF fl s0(1), of f] s0(2) by auto
  obtain s2 where s2: "(if a_loss_pending s1 then aimd_decrease fl f s1 else aimd_increase fl f s1) = Some s2" "aimd_bounded t0 W s2"
      "\<not> a_loss_pending s2" "\<not> p \<longrightarrow> a_current s1 \<le> a_current s2"
    using aimd_decrease_bounded [OF fl s1(2), of f] aimd_increase_bounded [OF fl s1(2) assms(3)] s1(3) by (cases p) auto
  have wf: "0 \<le> smoothing_alpha (a_config s2)" "smoothing_alpha (a_config s2) \<le> 1" "a_current s2 \<le> rate_hi (a_config s2)"
    "a_smoothed s2 \<le> rate_hi (a_config s2)" using aimd_bounded_hi(1) [OF s2(2)] s2(2) by (simp_all add: aimd_bounded_def bwe_config_wf_def)
  obtain w where w: "smooth fl (smoothing_alpha (a_config s2)) (a_current s2) (a_smoothed s2) = Some w" "w \<le> rate_hi (a_config s2)"
    using smooth_bound [OF fl wf] by blast
  have "aimd_on_feedback fl f s = Some (s2\<lparr>a_smoothed := w, a_last_update := Some (fb_timestamp f), a_last_loss := loss_rate f\<rparr>)"
    unfolding aimd_on_feedback_def Let_def p_def [symmetric] s0_def [symmetric] using s1(1) s2(1) w(1) by (simp split: if_splits)
  then show ?thesis using s2 w(2) s1(4) s0(3) p by (auto simp: aimd_bounded_def)
qed


definition goog_bounded :: "int \<Rightarrow> nat \<Rightarrow> goog_cc \<Rightarrow> bool" where
  "goog_bounded t0 W s \<longleftrightarrow> bwe_config_wf W (g_config s) \<and> rate_lo (g_config s) \<le> g_current s \<and> (g_current s \<le> max_bitrate_bps (g_config s) \<or> g_current s = initial_bitrate_bps (g_config s))
     \<and> g_smoothed s \<le> rate_hi (g_config s) \<and> (\<forall>t. g_last_change s = Some t \<longrightarrow> in_window t0 W t)"

lemma clamp_bounds: "lo \<le> hi \<Longrightarrow> \<exists>r. clamp_u32 v lo hi = Some r \<and> lo \<le> r \<and> r \<le> hi"
  by (auto simp: clamp_u32_def)

lemma goog_limits: "goog_bounded t0 W s \<Longrightarrow> min_bitrate_bps (g_config s) \<le> max_bitrate_bps (g_config s)"
  by (auto simp: goog_bounded_def bwe_config_wf_def)

lemma goog_bounded_hi: "goog_bounded t0 W s \<Longrightarrow> g_current s \<le> rate_hi (g_config s)"
  by (auto simp: goog_bounded_def)

lemma goog_remb_bounded:
  assumes fl: "double_rounding fl" and "goog_bounded t0 W s" "feedback_wf t0 W f"
  shows "\<exists>s'. goog_remb fl f s = Some s' \<and> goog_bounded t0 W s' \<and> g_loss_pending s' = g_loss_pending s"
proof -
  have k: "0 \<le> fl kRembTrustFactor" "fl kRembTrustFactor \<le> 1"
    using double_rounding_facts(3,6) [OF fl, of "4 / 5"] by (simp_all add: kRembTrustFactor_def)
  show ?thesis
  proof (cases "remb_bps f")
    case (Some r)
    from cast_scaled [OF fl k, of r] obtain w where "cast_u32 (fl (real_of r * fl kRembTrustFactor)) = Some w" by blast
    then show ?thesis using Some assms(2,3) clamp_bounds [OF goog_limits [OF assms(2)], of w]
      by (auto simp: goog_remb_def goog_bounded_def feedback_wf_def)
  qed (use assms(2) in \<open>simp add: goog_remb_def\<close>)
qed

lemma apply_decrease_bounded:
  assumes "goog_bounded t0 W s" "in_window t0 W now"
  shows "\<exists>s'. apply_decrease nxt now reason s = Some s' \<and> goog_bounded t0 W s' \<and> g_loss_pending s' = g_loss_pending s"
  using assms clamp_bounds [OF goog_limits [OF assms(1)], of nxt] by (auto simp: apply_decrease_def goog_bounded_def)

lemma goog_bounded_raise:
  assumes "goog_bounded t0 W s" "g_current s < r" "r \<le> max_bitrate_bps (g_config s)" "in_window t0 W t"
  shows "goog_bounded t0 W (s\<lparr>g_current := r, g_reason := x, g_last_change := Some t\<rparr>)"
proof -
  have "rate_lo (g_config s) \<le> g_current s" using assms(1) by (simp add: goog_bounded_def)
  then have "rate_lo (g_config s) \<le> r" using u32_above [OF _ assms(2)] by blast
  then show ?thesis using assms(1,3,4) by (simp add: goog_bounded_def)
qed

lemma goog_probe_bounded:
  assumes fl: "double_rounding fl" and "goog_bounded t0 W s" "feedback_wf t0 W f"
  shows "\<exists>s'. goog_probe fl f s = Some s' \<and> goog_bounded t0 W s' \<and> g_loss_pending s' = g_loss_pending s"
proof (cases "g_last_change s")
  case None
  then show ?thesis using assms(2,3) by (auto simp: goog_probe_def goog_bounded_def feedback_wf_def)
next
  case (Some t)
  define e where "e = to_ms (fb_timestamp f - t)"
  define sec where "sec = fl (fl (of_int e) / 1000)"
  have "\<exists>i. cast_u32 (max (fl (real_of (increase_bps (g_config s)) * sec)) (fl (fl (real_of (g_current s) * fl kProbePerSecond) * sec))) = Some i"
    if "change_interval (g_config s) \<le> e"
  proof -
    have wf: "W \<le> 2 ^ 32" "(W + 125) * unat (increase_bps (g_config s)) \<le> 1000 * 2 ^ 31" "(W + 125) * unat (rate_hi (g_config s)) \<le> 16000 * 2 ^ 31"
        "unat (g_current s) \<le> unat (rate_hi (g_config s))" "0 \<le> change_interval (g_config s)"
      using assms(2) goog_bounded_hi [OF assms(2)] by (simp_all add: goog_bounded_def bwe_config_wf_def word_le_nat_alt)
    have e: "0 \<le> e" "e \<le> int W" using that wf(5) to_ms_window [of t0 W t "fb_timestamp f"] Some assms(2,3)
      by (auto simp: e_def goog_bounded_def feedback_wf_def)
    have "real_of (increase_bps (g_config s)) * of_nat (W + 125) \<le> 1000 * 2 ^ 31" using real_of_product [OF wf(2)] by simp
    note a = increase_defined [OF fl e wf(1) real_of_bound(1) this, folded sec_def]
    note tw = twentieth [OF fl, of "g_current s"]
    have "(W + 125) * unat (g_current s) \<le> 16000 * 2 ^ 31" using wf(3,4) by (meson le_trans mult_le_mono2)
    from real_of_product [OF this] have c: "real_of (g_current s) * of_nat (W + 125) \<le> 16000 * 2 ^ 31" by simp
    have w: "(of_nat (W + 125) :: rat) \<le> of_nat (2 ^ 32 + 125)" using wf(1) by (intro of_nat_mono) simp
    define Y :: rat where "Y = of_nat (W + 125)"
    define X where "X = real_of (g_current s) * Y"
    have "fl (real_of (g_current s) * fl (1 / 20)) * Y \<le> (real_of (g_current s) * (3 / 50) + 1 / 8) * Y"
      by (rule mult_right_mono [OF tw(2)]) (simp add: Y_def)
    also have "\<dots> = X * (3 / 50) + Y / 8" by (simp add: X_def algebra_simps)
    also have "\<dots> \<le> 1000 * 2 ^ 31" using c w unfolding Y_def [symmetric] X_def [symmetric] by simp
    finally have m: "fl (real_of (g_current s) * fl (1 / 20)) * of_nat (W + 125) \<le> 1000 * 2 ^ 31" by (simp only: Y_def)
    note b = increase_defined [OF fl e wf(1) tw(1) m, folded sec_def]
    show ?thesis using cast_small [OF fl a] cast_small [OF fl b] by (simp add: max_def mult.commute kProbePerSecond_def)
  qed
  then obtain i where i: "change_interval (g_config s) \<le> e \<Longrightarrow>
      cast_u32 (max (fl (real_of (increase_bps (g_config s)) * sec)) (fl (fl (real_of (g_current s) * fl kProbePerSecond) * sec))) = Some i" by blast
  define nxt where "nxt = min (g_current s + i) (max_bitrate_bps (g_config s))"
  have "goog_probe fl f s = Some (if change_interval (g_config s) \<le> e \<and> nxt > g_current s
      then s\<lparr>g_current := nxt, g_reason := AIMDIncrease, g_last_change := Some (fb_timestamp f)\<rparr> else s)"
    using Some i by (simp add: goog_probe_def e_def [symmetric] sec_def [symmetric] nxt_def Let_def)
  moreover have "in_window t0 W (fb_timestamp f)" using assms(3) by (simp add: feedback_wf_def)
  ultimately show ?thesis using goog_bounded_raise [OF assms(2), of nxt "fb_timestamp f" AIMDIncrease] assms(2) by (simp add: nxt_def)
qed


lemma goog_adjust_bounded:
  assumes fl: "double_rounding fl" and "goog_bounded t0 W s" "feedback_wf t0 W f"
  shows "\<exists>s'. goog_adjust fl f s = Some s' \<and> goog_bounded t0 W s' \<and> \<not> g_loss_pending s'"
proof -
  have k: "0 \<le> decrease_factor (g_config s)" "decrease_factor (g_config s) \<le> 1" using assms(2) by (simp_all add: goog_bounded_def bwe_config_wf_def)
  have k': "0 \<le> fl kDelayBackoffFactor" "fl kDelayBackoffFactor \<le> 1"
    using double_rounding_facts(3,6) [OF fl, of "17 / 20"] by (simp_all add: kDelayBackoffFactor_def)
  obtain v w where "cast_u32 (fl (real_of (g_current s) * decrease_factor (g_config s))) = Some v"
    "cast_u32 (fl (real_of (g_current s) * fl kDelayBackoffFactor)) = Some w"
    using cast_scaled [OF fl k] cast_scaled [OF fl k'] by blast
  moreover have "in_window t0 W (fb_timestamp f)" using assms(3) by (simp add: feedback_wf_def)
  ultimately show ?thesis
    using apply_decrease_bounded [OF assms(2), of "fb_timestamp f" v AIMDDecrease] apply_decrease_bounded [OF assms(2), of "fb_timestamp f" w RttIncrease]
      goog_probe_bounded [OF fl assms(2,3)] assms(2)
    by (cases "g_loss_pending s") (auto simp: goog_adjust_def goog_bounded_def)
qed

lemma goog_on_feedback_bounded:
  assumes fl: "double_rounding fl" and "goog_bounded t0 W s" "feedback_wf t0 W f"
  shows "\<exists>s'. goog_on_feedback fl f s = Some s' \<and> goog_bounded t0 W s' \<and> \<not> g_loss_pending s'"
proof -
  define s0 where "s0 = (let s = track_min_rtt (fb_rtt f) s in s\<lparr>g_loss_pending := loss_edge fl (g_last_loss s) (loss_rate f) (g_loss_pending s)\<rparr>)"
  have s0: "goog_bounded t0 W s0" using assms(2) by (simp add: s0_def track_min_rtt_def goog_bounded_def Let_def)
  obtain s1 where s1: "goog_remb fl f s0 = Some s1" "goog_bounded t0 W s1" using goog_remb_bounded [OF fl s0 assms(3)] by blast
  obtain s2 where s2: "goog_adjust fl f s1 = Some s2" "goog_bounded t0 W s2" "\<not> g_loss_pending s2" using goog_adjust_bounded [OF fl s1(2) assms(3)] by blast
  have wf: "0 \<le> smoothing_alpha (g_config s2)" "smoothing_alpha (g_config s2) \<le> 1" "g_current s2 \<le> rate_hi (g_config s2)"
    "g_smoothed s2 \<le> rate_hi (g_config s2)" using goog_bounded_hi [OF s2(2)] s2(2) by (simp_all add: goog_bounded_def bwe_config_wf_def)
  obtain w where w: "smooth fl (smoothing_alpha (g_config s2)) (g_current s2) (g_smoothed s2) = Some w" "w \<le> rate_hi (g_config s2)"
    using smooth_bound [OF fl wf] by blast
  have "goog_on_feedback fl f s = Some (s2\<lparr>g_smoothed := w, g_last_update := Some (fb_timestamp f), g_last_loss := loss_rate f\<rparr>)"
    using s1(1) s2(1) w(1) by (simp add: goog_on_feedback_def Let_def s0_def)
  then show ?thesis using s2 w(2) by (auto simp: goog_bounded_def)
qed

section \<open>Runs\<close>

datatype bwe_op = OnFeedback bwe_feedback | UpdateConfig bwe_config | Reset

definition bwe_op_wf :: "int \<Rightarrow> nat \<Rightarrow> bwe_op \<Rightarrow> bool" where
  "bwe_op_wf t0 W op = (case op of OnFeedback f \<Rightarrow> feedback_wf t0 W f | UpdateConfig c \<Rightarrow> bwe_config_wf W c | Reset \<Rightarrow> True)"

definition aimd_step :: "(rat \<Rightarrow> rat) \<Rightarrow> bwe_op \<Rightarrow> aimd option \<Rightarrow> aimd option" where
  "aimd_step fl op x = x \<bind> (\<lambda>s. case op of OnFeedback f \<Rightarrow> aimd_on_feedback fl f s | UpdateConfig c \<Rightarrow> aimd_update_config c s | Reset \<Rightarrow> Some (aimd_reset s))"

definition goog_step :: "(rat \<Rightarrow> rat) \<Rightarrow> bwe_op \<Rightarrow> goog_cc option \<Rightarrow> goog_cc option" where
  "goog_step fl op x = x \<bind> (\<lambda>s. case op of OnFeedback f \<Rightarrow> goog_on_feedback fl f s | UpdateConfig c \<Rightarrow> goog_update_config c s | Reset \<Rightarrow> Some (goog_reset s))"

text \<open>Calls outside the contract are not made.\<close>

definition guarded :: "('op \<Rightarrow> bool) \<Rightarrow> ('op \<Rightarrow> 's \<Rightarrow> 's) \<Rightarrow> 'op \<Rightarrow> 's \<Rightarrow> 's" where
  "guarded ok step op s = (if ok op then step op s else s)"

lemma fold_guarded: "list_all ok ops \<Longrightarrow> fold (guarded ok step) ops s = fold step ops s"
  by (induction ops arbitrary: s) (simp_all add: guarded_def)

definition bwe_contract :: "(rat \<Rightarrow> rat) \<Rightarrow> int \<Rightarrow> nat \<Rightarrow> bwe_config \<Rightarrow> bool" where
  "bwe_contract fl t0 W c \<longleftrightarrow> double_rounding fl \<and> bwe_config_wf W c"

definition aimd_ok :: "(rat \<Rightarrow> rat) \<Rightarrow> int \<Rightarrow> nat \<Rightarrow> bwe_config \<Rightarrow> aimd option \<Rightarrow> bool" where
  "aimd_ok fl t0 W c x \<longleftrightarrow> (bwe_contract fl t0 W c \<longrightarrow> (\<exists>s. x = Some s \<and> aimd_bounded t0 W s \<and> \<not> a_loss_pending s))"

definition goog_ok :: "(rat \<Rightarrow> rat) \<Rightarrow> int \<Rightarrow> nat \<Rightarrow> bwe_config \<Rightarrow> goog_cc option \<Rightarrow> bool" where
  "goog_ok fl t0 W c x \<longleftrightarrow> (bwe_contract fl t0 W c \<longrightarrow> (\<exists>s. x = Some s \<and> goog_bounded t0 W s \<and> \<not> g_loss_pending s))"

lemma aimd_update_bounded:
  assumes "aimd_bounded t0 W s" "bwe_config_wf W c"
  shows "\<exists>s'. aimd_update_config c s = Some s' \<and> aimd_bounded t0 W s' \<and> a_loss_pending s' = a_loss_pending s"
proof -
  have "min_bitrate_bps c \<le> max_bitrate_bps c" using assms(2) by (auto simp: bwe_config_wf_def)
  from clamp_bounds [OF this, of "a_current s"] clamp_bounds [OF this, of "a_smoothed s"] show ?thesis
    using assms by (auto simp: aimd_update_config_def aimd_bounded_def)
qed

lemma goog_update_bounded:
  assumes "goog_bounded t0 W s" "bwe_config_wf W c"
  shows "\<exists>s'. goog_update_config c s = Some s' \<and> goog_bounded t0 W s' \<and> g_loss_pending s' = g_loss_pending s"
proof -
  have "min_bitrate_bps c \<le> max_bitrate_bps c" using assms(2) by (auto simp: bwe_config_wf_def)
  from clamp_bounds [OF this, of "g_current s"] clamp_bounds [OF this, of "g_smoothed s"] show ?thesis
    using assms by (auto simp: goog_update_config_def goog_bounded_def)
qed

interpretation aimd: component "Some (new_aimd c)" "guarded (bwe_op_wf t0 W) (aimd_step fl)" "aimd_ok fl t0 W c"
proof
  show "aimd_ok fl t0 W c (Some (new_aimd c))"
    by (auto simp: aimd_ok_def bwe_contract_def aimd_bounded_def new_aimd_def bwe_config_wf_def)
  show "aimd_ok fl t0 W c (guarded (bwe_op_wf t0 W) (aimd_step fl) op x)" if ok: "aimd_ok fl t0 W c x" for op x
    unfolding aimd_ok_def
  proof
    assume con: "bwe_contract fl t0 W c"
    then obtain s where s: "x = Some s" "aimd_bounded t0 W s" "\<not> a_loss_pending s" using ok by (auto simp: aimd_ok_def)
    have reset: "aimd_bounded t0 W (aimd_reset s)" using s(2) by (simp add: aimd_reset_def aimd_bounded_def bwe_config_wf_def)
    show "\<exists>s. guarded (bwe_op_wf t0 W) (aimd_step fl) op x = Some s \<and> aimd_bounded t0 W s \<and> \<not> a_loss_pending s"
    proof (cases op)
      case (OnFeedback f)
      then show ?thesis using s con aimd_on_feedback_bounded [of fl t0 W s f] by (auto simp: guarded_def bwe_op_wf_def aimd_step_def bwe_contract_def)
    next
      case (UpdateConfig c')
      then show ?thesis using s aimd_update_bounded [OF s(2), of c'] by (auto simp: guarded_def bwe_op_wf_def aimd_step_def)
    next
      case Reset
      then show ?thesis using s reset by (auto simp: guarded_def aimd_step_def aimd_reset_def)
    qed
  qed
qed

interpretation goog: component "Some (new_goog_cc c)" "guarded (bwe_op_wf t0 W) (goog_step fl)" "goog_ok fl t0 W c"
proof
  show "goog_ok fl t0 W c (Some (new_goog_cc c))"
    by (auto simp: goog_ok_def bwe_contract_def goog_bounded_def new_goog_cc_def bwe_config_wf_def)
  show "goog_ok fl t0 W c (guarded (bwe_op_wf t0 W) (goog_step fl) op x)" if ok: "goog_ok fl t0 W c x" for op x
    unfolding goog_ok_def
  proof
    assume con: "bwe_contract fl t0 W c"
    then obtain s where s: "x = Some s" "goog_bounded t0 W s" "\<not> g_loss_pending s" using ok by (auto simp: goog_ok_def)
    have reset: "goog_bounded t0 W (goog_reset s)" using s(2) by (simp add: goog_reset_def goog_bounded_def bwe_config_wf_def)
    show "\<exists>s. guarded (bwe_op_wf t0 W) (goog_step fl) op x = Some s \<and> goog_bounded t0 W s \<and> \<not> g_loss_pending s"
    proof (cases op)
      case (OnFeedback f)
      then show ?thesis using s con goog_on_feedback_bounded [of fl t0 W s f] by (auto simp: guarded_def bwe_op_wf_def goog_step_def bwe_contract_def)
    next
      case (UpdateConfig c')
      then show ?thesis using s goog_update_bounded [OF s(2), of c'] by (auto simp: guarded_def bwe_op_wf_def goog_step_def)
    next
      case Reset
      then show ?thesis using s reset by (auto simp: guarded_def goog_step_def goog_reset_def)
    qed
  qed
qed

lemma estimate_defined:
  assumes fl: "double_rounding fl" and "smoothed \<le> rate_hi c" "unat (rate_hi c) \<le> 2 ^ 31"
  shows "\<exists>e. bwe_estimate_of fl now c smoothed lu r = Some e \<and> target_bitrate_bps e = smoothed \<and> pacing_bitrate_bps e \<le> max_bitrate_bps c"
proof -
  note f = double_rounding_facts [OF fl]
  have k: "0 \<le> fl (11 / 10)" "fl (11 / 10) \<le> 5 / 4" using f(3,4) [of "11 / 10"] by simp_all
  have "unat smoothed \<le> 2 ^ 31" using assms(2,3) by (simp add: word_le_nat_alt)
  then have "(of_nat (unat smoothed) :: rat) \<le> of_nat (2 ^ 31)" by (rule of_nat_mono)
  then have r: "real_of smoothed \<le> 2 ^ 31" by (simp add: real_of_def)
  define x where "x = real_of smoothed * fl (11 / 10)"
  have x: "0 \<le> x" "x \<le> 2 ^ 31 * (5 / 4)" unfolding x_def using mult_mono [OF r k(2)] k(1) real_of_bound(1) by simp_all
  have "fl x < of_nat (2 ^ 31 + 2 ^ 30) + 1" using f(4) [OF x(1)] x(2) by simp
  from cast_le [OF f(3) [OF x(1)] this] obtain w where "cast_u32 (fl x) = Some w" by auto
  then show ?thesis by (auto simp: bwe_estimate_of_def x_def)
qed


section \<open>Properties\<close>

text \<open>
  C12: whatever feedback arrives, and however it is reconfigured and reset, the AIMD estimator never evaluates an undefined conversion, although its
  rate additions may wrap. Its rate is at most the configured maximum or is still the initial rate, and is never below both the configured minimum and the
  initial rate; the target it hands out is at most the larger of maximum and initial rate, the pacing rate at most the maximum. So all rates respect the limits when the initial rate does;
  when it does not, the constructor and \<^verbatim>\<open>reset()\<close> hand it out unclamped, although the maximum is documented as a hard upper cap (\<open>aimd_initial_exceeds_cap\<close> below).
  The conditions (\<open>bwe_config_wf\<close>, \<open>bwe_op_wf\<close>): rounding within the IEEE bounds, limits in order, rates of at most \<open>2\<^sup>3\<^sup>1\<close> bits per second, factors between 0 and 1,
  round-trip times of at most 10 seconds, and feedback within a time span of \<open>W\<close> milliseconds so short that the increase accumulated in it stays below \<open>2\<^sup>3\<^sup>1\<close> bits per second;
  beyond it the conversion can be undefined (\<open>goog_cc_long_run\<close>).
\<close>

theorem aimd_capped:
  assumes "double_rounding fl" "bwe_config_wf W c" "list_all (bwe_op_wf t0 W) ops"
  shows "\<exists>s e. fold (aimd_step fl) ops (Some (new_aimd c)) = Some s \<and> aimd_estimate fl now s = Some e
    \<and> min (min_bitrate_bps (a_config s)) (initial_bitrate_bps (a_config s)) \<le> a_current s
    \<and> (a_current s \<le> max_bitrate_bps (a_config s) \<or> a_current s = initial_bitrate_bps (a_config s))
    \<and> target_bitrate_bps e \<le> max (max_bitrate_bps (a_config s)) (initial_bitrate_bps (a_config s))
    \<and> pacing_bitrate_bps e \<le> max_bitrate_bps (a_config s)"
proof -
  obtain s where s: "fold (aimd_step fl) ops (Some (new_aimd c)) = Some s" "aimd_bounded t0 W s"
    using aimd.run_inv [of fl t0 W c ops] assms by (auto simp: aimd_ok_def bwe_contract_def fold_guarded)
  then have "a_smoothed s \<le> rate_hi (a_config s)" "unat (rate_hi (a_config s)) \<le> 2 ^ 31" by (simp_all add: aimd_bounded_def bwe_config_wf_def)
  from estimate_defined [OF assms(1) this, of now "a_last_update s" "a_reason s"] s show ?thesis
    unfolding aimd_bounded_def aimd_estimate_def rate_lo_def [symmetric] rate_hi_def [symmetric] by auto
qed

definition sample_feedback :: "rat \<Rightarrow> int \<Rightarrow> bwe_feedback" where
  "sample_feedback loss t = \<lparr>loss_rate = loss, fb_rtt = 50, remb_bps = Some 2000000, fb_timestamp = t\<rparr>"

lemma sample_bwe_wf: "bwe_config_wf 180000 default_bwe_config"
  "list_all (bwe_op_wf 0 180000) [OnFeedback (sample_feedback 0 0), OnFeedback (sample_feedback (1/10) 1000000000), Reset]"
  by (simp_all add: bwe_config_wf_def rate_hi_def default_bwe_config_def bwe_op_wf_def feedback_wf_def in_window_def sample_feedback_def)

theorem aimd_capped_witness:
  "\<exists>s e. fold (aimd_step (\<lambda>x. x)) [OnFeedback (sample_feedback 0 0), OnFeedback (sample_feedback (1/10) 1000000000), Reset] (Some (new_aimd default_bwe_config)) = Some s
    \<and> aimd_estimate (\<lambda>x. x) 7 s = Some e \<and> target_bitrate_bps e \<le> max (max_bitrate_bps (a_config s)) (initial_bitrate_bps (a_config s))
    \<and> pacing_bitrate_bps e \<le> max_bitrate_bps (a_config s)"
  using aimd_capped [OF exact_double sample_bwe_wf(1,2), of 7] by blast

text \<open>
  C25: the delay and loss hybrid, under the same conditions on the rounding, the configurations, the feedback and the time span: it never evaluates an
  undefined conversion or a clamp with crossed limits, its rate is at most the maximum or still the initial rate and never below both the minimum and the initial rate, the target is at most the
  larger of maximum and initial rate, and the pacing rate at most the maximum. As for the AIMD estimator, an initial rate outside the limits is handed out unclamped.
\<close>

theorem goog_cc_capped:
  assumes "double_rounding fl" "bwe_config_wf W c" "list_all (bwe_op_wf t0 W) ops"
  shows "\<exists>s e. fold (goog_step fl) ops (Some (new_goog_cc c)) = Some s \<and> goog_estimate fl now s = Some e
    \<and> min (min_bitrate_bps (g_config s)) (initial_bitrate_bps (g_config s)) \<le> g_current s
    \<and> (g_current s \<le> max_bitrate_bps (g_config s) \<or> g_current s = initial_bitrate_bps (g_config s))
    \<and> target_bitrate_bps e \<le> max (max_bitrate_bps (g_config s)) (initial_bitrate_bps (g_config s))
    \<and> pacing_bitrate_bps e \<le> max_bitrate_bps (g_config s)"
proof -
  obtain s where s: "fold (goog_step fl) ops (Some (new_goog_cc c)) = Some s" "goog_bounded t0 W s"
    using goog.run_inv [of fl t0 W c ops] assms by (auto simp: goog_ok_def bwe_contract_def fold_guarded)
  then have "g_smoothed s \<le> rate_hi (g_config s)" "unat (rate_hi (g_config s)) \<le> 2 ^ 31" by (simp_all add: goog_bounded_def bwe_config_wf_def)
  from estimate_defined [OF assms(1) this, of now "g_last_update s" "g_reason s"] s show ?thesis
    unfolding goog_bounded_def goog_estimate_def rate_lo_def [symmetric] rate_hi_def [symmetric] by auto
qed

theorem goog_cc_capped_witness:
  "\<exists>s e. fold (goog_step (\<lambda>x. x)) [OnFeedback (sample_feedback 0 0), OnFeedback (sample_feedback (1/10) 1000000000), Reset] (Some (new_goog_cc default_bwe_config)) = Some s
    \<and> goog_estimate (\<lambda>x. x) 7 s = Some e \<and> target_bitrate_bps e \<le> max (max_bitrate_bps (g_config s)) (initial_bitrate_bps (g_config s))
    \<and> pacing_bitrate_bps e \<le> max_bitrate_bps (g_config s)"
  using goog_cc_capped [OF exact_double sample_bwe_wf(1,2), of 7] by blast

text \<open>
  C17: the AIMD estimator lowers its rate at most once per loss event. In every state it can reach, a feedback without a receiver estimate
  lowers the rate only when the loss rate crosses the threshold from below; while the loss persists, and when it recedes, the rate does not fall.
\<close>

theorem aimd_single_decrease:
  assumes "double_rounding fl" "bwe_config_wf W c" "list_all (bwe_op_wf t0 W) ops" "feedback_wf t0 W f" "remb_bps f = None"
  shows "\<exists>s s'. fold (aimd_step fl) ops (Some (new_aimd c)) = Some s \<and> aimd_on_feedback fl f s = Some s'
    \<and> (a_current s' < a_current s \<longrightarrow> a_last_loss s < fl kLossEventThreshold \<and> fl kLossEventThreshold \<le> loss_rate f)"
proof -
  obtain s where s: "fold (aimd_step fl) ops (Some (new_aimd c)) = Some s" "aimd_bounded t0 W s" "\<not> a_loss_pending s"
    using aimd.run_inv [of fl t0 W c ops] assms by (auto simp: aimd_ok_def bwe_contract_def fold_guarded)
  from aimd_on_feedback_bounded [OF assms(1) s(2) assms(4) s(3)] assms(5) obtain s' where "aimd_on_feedback fl f s = Some s'"
    "\<not> (a_last_loss s < fl kLossEventThreshold \<and> fl kLossEventThreshold \<le> loss_rate f) \<longrightarrow> a_current s \<le> a_current s'" by blast
  then show ?thesis using s(1) by (metis leD)
qed

theorem aimd_single_decrease_witness:
  "\<exists>s s'. fold (aimd_step (\<lambda>x. x)) [OnFeedback (sample_feedback 0 0), OnFeedback (sample_feedback (1/10) 1000000000), Reset] (Some (new_aimd default_bwe_config)) = Some s
    \<and> aimd_on_feedback (\<lambda>x. x) (sample_feedback 0 5\<lparr>remb_bps := None\<rparr>) s = Some s' \<and> \<not> a_current s' < a_current s"
proof -
  have "feedback_wf 0 180000 (sample_feedback 0 5\<lparr>remb_bps := None\<rparr>)" by (simp add: feedback_wf_def in_window_def sample_feedback_def)
  from aimd_single_decrease [OF exact_double sample_bwe_wf(1,2) this] show ?thesis by (auto simp: sample_feedback_def kLossEventThreshold_def)
qed

text \<open>The constructor and \<^verbatim>\<open>reset()\<close> do not clamp the initial rate: with one above the maximum the first target exceeds the documented cap.\<close>

lemma aimd_initial_exceeds_cap:
  "\<exists>e g. aimd_estimate (\<lambda>x. x) 0 (aimd_reset (new_aimd (default_bwe_config\<lparr>initial_bitrate_bps := 20000000\<rparr>))) = Some e
     \<and> goog_estimate (\<lambda>x. x) 0 (goog_reset (new_goog_cc (default_bwe_config\<lparr>initial_bitrate_bps := 20000000\<rparr>))) = Some g
     \<and> max_bitrate_bps default_bwe_config < target_bitrate_bps e \<and> max_bitrate_bps default_bwe_config < target_bitrate_bps g"
proof -
  have "real_of 20000000 = 20000000" by (simp add: real_of_def)
  then show ?thesis
    by (simp add: aimd_estimate_def goog_estimate_def bwe_estimate_of_def aimd_reset_def goog_reset_def new_aimd_def new_goog_cc_def cast_u32_def default_bwe_config_def)
qed

text \<open>
  At the maximum rate the time of the last change is not refreshed, so the accumulated increase grows with the time spent there: with the
  default limits the conversion of the hybrid estimator is out of range after two and a half hours.
\<close>

lemma goog_cc_long_run:
  assumes "g_config s = default_bwe_config" "g_current s = 10000000" "g_last_change s = Some 0" "fb_timestamp f = 9000000000000"
  shows "goog_probe (\<lambda>x. x) f s = None"
proof -
  have "real_of 10000000 = 10000000" "real_of 50000 = 50000" by (simp_all add: real_of_def)
  then show ?thesis using assms
    by (simp add: goog_probe_def default_bwe_config_def to_ms_def kProbePerSecond_def cast_u32_def Let_def)
qed

text \<open>A receiver estimate above the smoothed rate but below the current one lowers the current rate.\<close>

lemma aimd_remb_lowers:
  assumes "a_config s = default_bwe_config" "a_current s = 5000000" "a_smoothed s = 1000000" "\<not> a_loss_pending s" "remb_bps f = Some 2000000"
  shows "\<exists>s'. aimd_remb (\<lambda>x. x) f s = Some s' \<and> a_current s' = 1600000"
proof -
  have "real_of 2000000 = 2000000" by (simp add: real_of_def)
  then show ?thesis using assms
    by (simp add: aimd_remb_def default_bwe_config_def kRembTrustFactor_def cast_u32_def truncate_rat_def Let_def)
qed

end
