(* ===== verification/Rtp_Timeline.thy ===== *)
theory Rtp_Timeline
  imports Rtcp Adaptive_Delay "HOL-Library.AList"
begin

text \<open>
  The cross-end timeline, \<^verbatim>\<open>src/modules/rtp/src/timeline.cpp\<close> and \<^verbatim>\<open>timeline.hpp\<close>: NTP timestamps, the 24-bit abs-send-time counter, and
  \<^verbatim>\<open>SenderReportTracker\<close>, which maps the RTP timestamps of a peer to its wall clock. Instants and \<^verbatim>\<open>int64_t\<close> differences are integers;
  the one product that can leave the range of \<^verbatim>\<open>int64_t\<close> is checked. A \<^verbatim>\<open>double\<close> is a rational number with the rounding \<open>fl\<close>, as in \<open>Adaptive_Delay\<close>. A
  \<^verbatim>\<open>std::unordered_map\<close> is an association list. \<open>None\<close> at the outermost level is undefined: a conversion or product out of
  range. The pointer to the implementation is null only in a moved-from tracker, which is not modelled.
\<close>

section \<open>NTP timestamps\<close>

type_synonym ntp64 = u64

definition kNtpEpochOffset :: int where "kNtpEpochOffset = 2208988800"

definition ntp_seconds :: "ntp64 \<Rightarrow> u32" where
  "ntp_seconds v = ucast (drop_bit 32 v)"

definition ntp_fraction :: "ntp64 \<Rightarrow> u32" where
  "ntp_fraction v = ucast (v AND 0xFFFFFFFF)"

definition mid_32 :: "ntp64 \<Rightarrow> u32" where
  "mid_32 v = ucast (drop_bit 16 v AND 0xFFFFFFFF)"

definition unix_us_from_ntp64 :: "ntp64 \<Rightarrow> int" where
  "unix_us_from_ntp64 ntp =
     (let frac_us = uint (ntp_fraction ntp) * 1000000 div 4294967296;
          unix_seconds = uint (ntp_seconds ntp) - kNtpEpochOffset
      in if unix_seconds < 0 then frac_us else unix_seconds * 1000000 + frac_us)"

text \<open>The argument is the time point in microseconds since 1970.\<close>

definition ntp64_from :: "int \<Rightarrow> ntp64" where
  "ntp64_from since_epoch_us =
     (if since_epoch_us < 0 then 0
      else
        let unix_seconds = since_epoch_us div 1000000;
            unix_micros = since_epoch_us mod 1000000;
            seconds = of_int unix_seconds + of_int kNtpEpochOffset :: u64;
            frac_u = (of_int unix_micros * 4294967296) div 1000000 :: u64;
            frac_u = (if frac_u \<ge> 0x100000000 then 0x100000000 - 1 else frac_u)
        in push_bit 32 seconds OR frac_u)"

definition system_clock_from_ntp64 :: "ntp64 \<Rightarrow> int" where
  "system_clock_from_ntp64 ntp =
     (let unix_seconds = uint (ntp_seconds ntp) - kNtpEpochOffset;
          unix_seconds = (if unix_seconds < 0 then 0 else unix_seconds);
          frac_us = uint (ntp_fraction ntp) * 1000000 div 4294967296
      in unix_seconds * 1000000 + frac_us)"

section \<open>The abs-send-time counter\<close>

definition kAbsSendTimeClockRateHz :: int where "kAbsSendTimeClockRateHz = 65536"
definition kAbsSendTimeMask :: u32 where "kAbsSendTimeMask = 0x00FFFFFF"
definition kAbsSendTimeModulus :: int where "kAbsSendTimeModulus = 2 ^ 24"

definition encode_abs_send_time_24 :: "int \<Rightarrow> ntp64 \<Rightarrow> u32" where
  "encode_abs_send_time_24 monotonic_us monotonic_origin_ntp64 =
     (let unix_us = unix_us_from_ntp64 monotonic_origin_ntp64 + monotonic_us;
          us_int = (if unix_us < 0 then 0 else unix_us div 1000000);
          us_rem = (if unix_us < 0 then 0 else unix_us mod 1000000);
          ticks = of_int us_int * of_int kAbsSendTimeClockRateHz + (of_int us_rem * of_int kAbsSendTimeClockRateHz) div 1000000 :: u64
      in ucast (ticks AND 0xFFFFFF))"

definition decode_abs_send_time_24 :: "u32 \<Rightarrow> ntp64 \<Rightarrow> int" where
  "decode_abs_send_time_24 raw_24 monotonic_origin_ntp64 = uint (raw_24 AND 0xFFFFFF) * 1000000 div kAbsSendTimeClockRateHz"

text \<open>Integer division and remainder of C++ truncate towards zero.\<close>

definition tdiv :: "int \<Rightarrow> int \<Rightarrow> int" where
  "tdiv a b = (if a \<ge> 0 then a div b else - (- a div b))"

definition tmod :: "int \<Rightarrow> int \<Rightarrow> int" where
  "tmod a b = a - tdiv a b * b"

definition rtp_ts_signed_diff :: "u32 \<Rightarrow> u32 \<Rightarrow> int" where
  "rtp_ts_signed_diff a b = (let d = a - b in if d \<le> 0x7FFFFFFF then uint d else uint d - 2 ^ 32)"

definition ast_ticks_to_us :: "int \<Rightarrow> int" where
  "ast_ticks_to_us ticks =
     (let num = ticks * 1000000 in if num \<ge> 0 then (num + 32768) div 65536 else - ((- num + 32768) div 65536))"

definition ast24_signed_diff :: "u32 \<Rightarrow> u32 \<Rightarrow> int" where
  "ast24_signed_diff a b = (let d = (a - b) AND kAbsSendTimeMask in if d \<le> 0x7FFFFF then uint d else uint d - 2 ^ 24)"

section \<open>The slope of the media clock\<close>

record sr_sample =
  smp_ntp_unix_us :: int
  smp_rtp_ts :: u32
  smp_local_recv_us :: int
  smp_tick_pos :: int

definition nominal_slope_psec :: "u32 \<Rightarrow> int" where
  "nominal_slope_psec clock_rate_hz = (if clock_rate_hz = 0 then 0 else 1000000000000 div uint clock_rate_hz)"

definition kMinFitSpanUs :: int where "kMinFitSpanUs = 50000"
definition kMaxFitDeviationRatio :: rat where "kMaxFitDeviationRatio = 1 / 20"

text \<open>\<^verbatim>\<open>static_cast<std::int64_t>(double)\<close>\<close>

definition cast_i64 :: "rat \<Rightarrow> int option" where
  "cast_i64 x = (if - (2 ^ 63) - 1 < x \<and> x < 2 ^ 63 then Some (truncate_rat x) else None)"

record fit_sums =
  f_sx :: rat
  f_sy :: rat
  f_sxx :: rat
  f_sxy :: rat
  f_ymin :: rat
  f_ymax :: rat

definition fit_step :: "(rat \<Rightarrow> rat) \<Rightarrow> rat \<Rightarrow> rat \<Rightarrow> bool \<Rightarrow> sr_sample \<Rightarrow> fit_sums \<Rightarrow> fit_sums" where
  "fit_step fl x0 y0 first smp a =
     (let x = fl (fl (of_int (smp_tick_pos smp)) - x0);
          y = fl (fl (of_int (smp_ntp_unix_us smp)) - y0)
      in a\<lparr>f_sx := fl (f_sx a + x), f_sy := fl (f_sy a + y), f_sxx := fl (f_sxx a + fl (x * x)), f_sxy := fl (f_sxy a + fl (x * y)),
           f_ymin := (if first \<or> y < f_ymin a then y else f_ymin a), f_ymax := (if first \<or> y > f_ymax a then y else f_ymax a)\<rparr>)"

fun fit_loop :: "(rat \<Rightarrow> rat) \<Rightarrow> rat \<Rightarrow> rat \<Rightarrow> bool \<Rightarrow> sr_sample list \<Rightarrow> fit_sums \<Rightarrow> fit_sums" where
  "fit_loop fl x0 y0 first [] a = a"
| "fit_loop fl x0 y0 first (smp # smps) a = fit_loop fl x0 y0 False smps (fit_step fl x0 y0 first smp a)"

definition fit_slope_psec :: "(rat \<Rightarrow> rat) \<Rightarrow> sr_sample list \<Rightarrow> int option" where
  "fit_slope_psec fl smps =
     (if length smps < 2 then Some 0
      else
        let x0 = fl (of_int (smp_tick_pos (hd smps)));
            y0 = fl (of_int (smp_ntp_unix_us (hd smps)));
            a = fit_loop fl x0 y0 True smps \<lparr>f_sx = 0, f_sy = 0, f_sxx = 0, f_sxy = 0, f_ymin = 0, f_ymax = 0\<rparr>;
            dn = fl (of_nat (length smps));
            den = fl (f_sxx a - fl (fl (f_sx a * f_sx a) / dn))
        in if \<not> den > 0 then Some 0
           else if fl (f_ymax a - f_ymin a) < fl (of_int kMinFitSpanUs) then Some 0
           else
             let num = fl (f_sxy a - fl (fl (f_sx a * f_sy a) / dn));
                 us_per_tick = fl (num / den)
             in if \<not> us_per_tick > 0 then Some 0
                else cast_i64 (fl (us_per_tick * 1000000)))"

section \<open>The tracker\<close>

record slope_filter_config =
  min_samples :: u32
  max_samples :: u32
  ewma_alpha_permille :: u32

definition default_slope_filter_config :: slope_filter_config where
  "default_slope_filter_config = \<lparr>min_samples = 2, max_samples = 16, ewma_alpha_permille = 250\<rparr>"

record timeline_state =
  st_ntp64 :: ntp64
  st_rtp_ts :: u32
  st_local_recv_us :: int
  st_slope_nsec :: int
  st_slope_psec :: int
  st_clock_rate_hz :: u32
  st_sr_count :: u32
  st_sample_count :: u32
  st_slope_fitted :: bool
  st_abs_send_us :: int
  st_abs_send_anchored :: bool

definition new_timeline_state :: timeline_state where
  "new_timeline_state = \<lparr>st_ntp64 = 0, st_rtp_ts = 0, st_local_recv_us = 0, st_slope_nsec = 0, st_slope_psec = 0, st_clock_rate_hz = 90000,
     st_sr_count = 0, st_sample_count = 0, st_slope_fitted = False, st_abs_send_us = 0, st_abs_send_anchored = False\<rparr>"

text \<open>An observed pair of RTP timestamp and abs-send-time, the anchor, and the fit of an SSRC.\<close>

record ast_observation =
  obs_rtp_ts :: u32
  obs_ast :: u32

record ast_anchor =
  anchor_valid :: bool
  anchor_ticks :: u32

record ssrc_fit =
  fit_samples :: "sr_sample list"
  fit_ewma_psec :: int
  fit_seeded :: bool

definition no_anchor :: ast_anchor where
  "no_anchor = \<lparr>anchor_valid = False, anchor_ticks = 0\<rparr>"

definition new_ssrc_fit :: ssrc_fit where
  "new_ssrc_fit = \<lparr>fit_samples = [], fit_ewma_psec = 0, fit_seeded = False\<rparr>"

record sr_tracker =
  tr_origin :: ntp64
  tr_tolerance_us :: int
  tr_by_ssrc :: "(u32 \<times> timeline_state) list"
  tr_ast_obs :: "(u32 \<times> ast_observation list) list"
  tr_ast_anchor :: "(u32 \<times> ast_anchor) list"
  tr_fits :: "(u32 \<times> ssrc_fit) list"
  tr_slope_cfg :: slope_filter_config

definition new_sr_tracker :: sr_tracker where
  "new_sr_tracker = \<lparr>tr_origin = 0, tr_tolerance_us = 1000000, tr_by_ssrc = [], tr_ast_obs = [], tr_ast_anchor = [], tr_fits = [],
     tr_slope_cfg = default_slope_filter_config\<rparr>"

text \<open>\<^verbatim>\<open>map[key]\<close> of an \<^verbatim>\<open>unordered_map\<close>, which inserts a default value.\<close>

definition at_or :: "'v \<Rightarrow> ('k \<times> 'v) list \<Rightarrow> 'k \<Rightarrow> 'v" where
  "at_or d m k = (case map_of m k of Some v \<Rightarrow> v | None \<Rightarrow> d)"

definition set_monotonic_origin :: "ntp64 \<Rightarrow> sr_tracker \<Rightarrow> sr_tracker" where
  "set_monotonic_origin origin s = s\<lparr>tr_origin := origin\<rparr>"

definition set_ast_agreement_tolerance_us :: "int \<Rightarrow> sr_tracker \<Rightarrow> sr_tracker" where
  "set_ast_agreement_tolerance_us tolerance_us s = s\<lparr>tr_tolerance_us := (if tolerance_us < 0 then 0 else tolerance_us)\<rparr>"

definition tracked_ssrc_count :: "sr_tracker \<Rightarrow> nat" where
  "tracked_ssrc_count s = length (tr_by_ssrc s)"

definition set_ssrc_clock_rate :: "u32 \<Rightarrow> u32 \<Rightarrow> sr_tracker \<Rightarrow> sr_tracker" where
  "set_ssrc_clock_rate ssrc clock_rate_hz s =
     (if clock_rate_hz = 0 then s
      else
        let nominal = nominal_slope_psec clock_rate_hz;
            st = (at_or new_timeline_state (tr_by_ssrc s) ssrc)\<lparr>st_clock_rate_hz := clock_rate_hz, st_slope_fitted := False, st_sample_count := 0,
              st_slope_psec := nominal, st_slope_nsec := (nominal + 500) div 1000\<rparr>
        in s\<lparr>tr_by_ssrc := AList.update ssrc st (tr_by_ssrc s), tr_fits := AList.delete ssrc (tr_fits s)\<rparr>)"

text \<open>\<^verbatim>\<open>refit_ssrc\<close>, on the fit and the state of one SSRC and then on the tracker.\<close>

definition refit :: "(rat \<Rightarrow> rat) \<Rightarrow> slope_filter_config \<Rightarrow> ssrc_fit \<Rightarrow> timeline_state \<Rightarrow> (ssrc_fit \<times> timeline_state) option" where
  "refit fl cfg fit st =
     (let nominal = nominal_slope_psec (st_clock_rate_hz st);
          st = st\<lparr>st_sample_count := of_nat (length (fit_samples fit))\<rparr>
      in if min_samples cfg < 2 \<or> length (fit_samples fit) < unat (min_samples cfg) then
           Some (fit, st\<lparr>st_slope_fitted := False, st_slope_psec := nominal, st_slope_nsec := (nominal + 500) div 1000\<rparr>)
         else do {
           fitted \<leftarrow> fit_slope_psec fl (fit_samples fit);
           if fitted \<le> 0 then Some (fit, st)
           else
             let deviation = (if fitted > nominal then fitted - nominal else nominal - fitted) in
             if fl (of_int deviation) > fl (fl (of_int nominal) * fl kMaxFitDeviationRatio) then Some (fit, st)
             else
               let alpha = uint (ewma_alpha_permille cfg);
                   fit = (if \<not> fit_seeded fit then fit\<lparr>fit_ewma_psec := fitted, fit_seeded := True\<rparr>
                          else fit\<lparr>fit_ewma_psec := tdiv (fit_ewma_psec fit * (1000 - alpha) + fitted * alpha) 1000\<rparr>)
               in Some (fit, st\<lparr>st_slope_fitted := True, st_slope_psec := fit_ewma_psec fit, st_slope_nsec := tdiv (fit_ewma_psec fit + 500) 1000\<rparr>)
         })"

definition refit_ssrc :: "(rat \<Rightarrow> rat) \<Rightarrow> u32 \<Rightarrow> sr_tracker \<Rightarrow> sr_tracker option" where
  "refit_ssrc fl ssrc s =
     (case (map_of (tr_fits s) ssrc, map_of (tr_by_ssrc s) ssrc) of
        (Some fit, Some st) \<Rightarrow> do {
          (fit, st) \<leftarrow> refit fl (tr_slope_cfg s) fit st;
          Some (s\<lparr>tr_fits := AList.update ssrc fit (tr_fits s), tr_by_ssrc := AList.update ssrc st (tr_by_ssrc s)\<rparr>)
        }
      | _ \<Rightarrow> Some s)"

definition clamp_config :: "slope_filter_config \<Rightarrow> slope_filter_config" where
  "clamp_config cfg =
     (let cfg = (if min_samples cfg < 1 then cfg\<lparr>min_samples := 1\<rparr> else cfg);
          cfg = (if max_samples cfg < min_samples cfg then cfg\<lparr>max_samples := min_samples cfg\<rparr> else cfg);
          cfg = (if ewma_alpha_permille cfg < 1 then cfg\<lparr>ewma_alpha_permille := 1\<rparr> else cfg)
      in if ewma_alpha_permille cfg > 1000 then cfg\<lparr>ewma_alpha_permille := 1000\<rparr> else cfg)"

definition set_slope_filter_config :: "(rat \<Rightarrow> rat) \<Rightarrow> slope_filter_config \<Rightarrow> sr_tracker \<Rightarrow> sr_tracker option" where
  "set_slope_filter_config fl config s =
     fold (\<lambda>(ssrc, _) x. Option.bind x (refit_ssrc fl ssrc)) (tr_fits s) (Some (s\<lparr>tr_slope_cfg := clamp_config config\<rparr>))"

text \<open>\<^verbatim>\<open>try_anchor_ast\<close>: the newest observation at the time of the report, or else the nearest one in the window.\<close>

definition nearest_observation :: "int \<Rightarrow> u32 \<Rightarrow> ast_observation list \<Rightarrow> ast_observation option" where
  "nearest_observation window_ticks sr_rtp_ts obs =
     map_option fst (fold (\<lambda>ob best.
       let d = rtp_ts_signed_diff (obs_rtp_ts ob) sr_rtp_ts;
           ad = (if d < 0 then - d else d)
       in if ad > window_ticks then best
          else case best of
                 None \<Rightarrow> Some (ob, ad)
               | Some (_, best_dist) \<Rightarrow> if ad < best_dist then Some (ob, ad) else best) obs None)"

definition anchor_from :: "u32 \<Rightarrow> u32 \<Rightarrow> ast_observation \<Rightarrow> u32" where
  "anchor_from rate sr_rtp_ts ob =
     (let media_ticks = rtp_ts_signed_diff sr_rtp_ts (obs_rtp_ts ob);
          ast_ticks_delta = tdiv (media_ticks * kAbsSendTimeClockRateHz) (uint rate);
          ticks = tmod (uint (obs_ast ob) + ast_ticks_delta) kAbsSendTimeModulus
      in of_int (if ticks < 0 then ticks + kAbsSendTimeModulus else ticks))"

definition set_anchor :: "u32 \<Rightarrow> ast_anchor \<Rightarrow> timeline_state \<Rightarrow> sr_tracker \<Rightarrow> sr_tracker" where
  "set_anchor ssrc a st s =
     s\<lparr>tr_ast_anchor := AList.update ssrc a (tr_ast_anchor s),
       tr_by_ssrc := AList.update ssrc (st\<lparr>st_abs_send_anchored := anchor_valid a,
         st_abs_send_us := (if anchor_valid a then decode_abs_send_time_24 (anchor_ticks a) 0 else 0)\<rparr>) (tr_by_ssrc s)\<rparr>"

definition try_anchor_ast :: "u32 \<Rightarrow> sr_tracker \<Rightarrow> sr_tracker" where
  "try_anchor_ast ssrc s =
     (case map_of (tr_by_ssrc s) ssrc of
        None \<Rightarrow> s\<lparr>tr_ast_anchor := AList.update ssrc no_anchor (tr_ast_anchor s)\<rparr>
      | Some st \<Rightarrow>
          let obs = at_or [] (tr_ast_obs s) ssrc in
          if st_sr_count st = 0 \<or> obs = [] then set_anchor ssrc no_anchor st s
          else
            let rate = (if st_clock_rate_hz st \<noteq> 0 then st_clock_rate_hz st else 90000) in
            case find (\<lambda>ob. obs_rtp_ts ob = st_rtp_ts st) (rev obs) of
              Some ob \<Rightarrow> set_anchor ssrc \<lparr>anchor_valid = True, anchor_ticks = obs_ast ob\<rparr> st s
            | None \<Rightarrow>
                (case nearest_observation (uint rate * 250 div 1000) (st_rtp_ts st) obs of
                   None \<Rightarrow> set_anchor ssrc no_anchor st s
                 | Some best \<Rightarrow> set_anchor ssrc \<lparr>anchor_valid = True, anchor_ticks = anchor_from rate (st_rtp_ts st) best\<rparr> st s))"

definition kMaxAstObservations :: nat where "kMaxAstObservations = 64"

definition observe_abs_send_time :: "u32 \<Rightarrow> u32 \<Rightarrow> u32 \<Rightarrow> sr_tracker \<Rightarrow> sr_tracker" where
  "observe_abs_send_time ssrc rtp_ts abs_send_time_24 s =
     (if abs_send_time_24 > kAbsSendTimeMask then s
      else
        let ring = at_or [] (tr_ast_obs s) ssrc @ [\<lparr>obs_rtp_ts = rtp_ts, obs_ast = abs_send_time_24\<rparr>];
            ring = (if length ring > kMaxAstObservations then tl ring else ring)
        in try_anchor_ast ssrc (s\<lparr>tr_ast_obs := AList.update ssrc ring (tr_ast_obs s)\<rparr>))"

text \<open>The sample of a report is appended to the window of its SSRC, or starts a new one.\<close>

definition add_sample :: "u32 \<Rightarrow> u32 \<Rightarrow> int \<Rightarrow> sender_report \<Rightarrow> ssrc_fit \<Rightarrow> ssrc_fit" where
  "add_sample max_count rate local_recv sr fit =
     (let smp = \<lparr>smp_ntp_unix_us = unix_us_from_ntp64 (sr_ntp_timestamp sr), smp_rtp_ts = sr_rtp_timestamp sr, smp_local_recv_us = local_recv, smp_tick_pos = 0\<rparr>;
          (fit, smp) =
            (if fit_samples fit = [] then (fit, smp)
             else
               let delta = rtp_ts_signed_diff (sr_rtp_timestamp sr) (smp_rtp_ts (last (fit_samples fit))) in
               if delta < 0 \<or> delta > uint rate * 3600 then (fit\<lparr>fit_samples := [], fit_seeded := False\<rparr>, smp)
               else (fit, smp\<lparr>smp_tick_pos := smp_tick_pos (last (fit_samples fit)) + delta\<rparr>));
          smps = fit_samples fit @ [smp]
      in fit\<lparr>fit_samples := drop (length smps - unat max_count) smps\<rparr>)"

definition on_sender_report :: "(rat \<Rightarrow> rat) \<Rightarrow> sender_report \<Rightarrow> int \<Rightarrow> sr_tracker \<Rightarrow> sr_tracker option" where
  "on_sender_report fl sr local_recv s =
     (let ssrc = sr_ssrc sr;
          st = (at_or new_timeline_state (tr_by_ssrc s) ssrc)\<lparr>st_ntp64 := sr_ntp_timestamp sr, st_rtp_ts := sr_rtp_timestamp sr,
            st_local_recv_us := local_recv, st_abs_send_us := 0\<rparr>;
          st = (if st_clock_rate_hz st = 0 then st\<lparr>st_clock_rate_hz := 90000\<rparr> else st);
          st = st\<lparr>st_sr_count := st_sr_count st + 1\<rparr>;
          rate = (if st_clock_rate_hz st \<noteq> 0 then st_clock_rate_hz st else 90000);
          fit = add_sample (max_samples (tr_slope_cfg s)) rate local_recv sr (at_or new_ssrc_fit (tr_fits s) ssrc);
          s = s\<lparr>tr_by_ssrc := AList.update ssrc st (tr_by_ssrc s), tr_fits := AList.update ssrc fit (tr_fits s)\<rparr>
      in do {
        s \<leftarrow> refit_ssrc fl ssrc s;
        Some (try_anchor_ast ssrc s)
      })"

definition state_for :: "u32 \<Rightarrow> sr_tracker \<Rightarrow> timeline_state option" where
  "state_for ssrc s = (case map_of (tr_by_ssrc s) ssrc of None \<Rightarrow> None | Some st \<Rightarrow> if st_sr_count st = 0 then None else Some st)"

section \<open>Capture times\<close>

definition mul_i64 :: "int \<Rightarrow> int \<Rightarrow> int option" where
  "mul_i64 a b = (if - (2 ^ 63) \<le> a * b \<and> a * b < 2 ^ 63 then Some (a * b) else None)"

text \<open>The ticks from the report to the packet: none when the packet is more than a second older, zero when it is older.\<close>

definition forward_ticks :: "int \<Rightarrow> int \<Rightarrow> int option" where
  "forward_ticks rate_hz d = (if d < 0 then (if - d > rate_hz then None else Some 0) else Some d)"

definition extrapolate :: "timeline_state \<Rightarrow> int \<Rightarrow> int \<Rightarrow> int option" where
  "extrapolate st rate_hz ticks =
     (if st_slope_fitted st \<and> st_slope_psec st > 0 then do { p \<leftarrow> mul_i64 ticks (st_slope_psec st); Some (p div 1000000) }
      else do { p \<leftarrow> mul_i64 ticks 1000000; Some (p div rate_hz) })"

definition refine :: "int \<Rightarrow> bool \<Rightarrow> u32 \<Rightarrow> timeline_state \<Rightarrow> ast_anchor option \<Rightarrow> int \<Rightarrow> int \<Rightarrow> int" where
  "refine tolerance has_abs_send_time ast st anchor sr_unix_us capture =
     (if has_abs_send_time \<and> tolerance > 0 \<and> ast \<le> kAbsSendTimeMask \<and> st_abs_send_anchored st then
        (case anchor of
           Some a \<Rightarrow>
             if anchor_valid a then
               let refined_us = sr_unix_us + ast_ticks_to_us (ast24_signed_diff ast (anchor_ticks a));
                   disagreement = refined_us - capture
               in if (if disagreement < 0 then - disagreement else disagreement) \<le> tolerance then refined_us else capture
             else capture
         | None \<Rightarrow> capture)
      else capture)"

definition clock_skew :: "ntp64 \<Rightarrow> int \<Rightarrow> timeline_state \<Rightarrow> int \<Rightarrow> int \<Rightarrow> int" where
  "clock_skew origin local_recv st sr_unix_us capture =
     (if origin \<noteq> 0 then
        let origin_unix_us = unix_us_from_ntp64 origin;
            offset_at_packet = origin_unix_us + local_recv - capture;
            offset_at_sr = origin_unix_us + st_local_recv_us st - sr_unix_us
        in offset_at_packet - offset_at_sr
      else 0)"

text \<open>The capture time, when there is one, with the skew; and the tracker, which may have recorded an observation.\<close>

definition capture_ts_us_for ::
  "u32 \<Rightarrow> u32 \<Rightarrow> u32 \<Rightarrow> bool \<Rightarrow> u32 \<Rightarrow> int \<Rightarrow> sr_tracker \<Rightarrow> ((int \<times> int) option \<times> sr_tracker) option" where
  "capture_ts_us_for ssrc rtp_ts ast has_abs_send_time clock_rate_hz local_recv s =
     (let s = (if has_abs_send_time then observe_abs_send_time ssrc rtp_ts ast s else s) in
      case map_of (tr_by_ssrc s) ssrc of
        None \<Rightarrow> Some (None, s)
      | Some st \<Rightarrow>
          if st_sr_count st = 0 then Some (None, s)
          else
            let sr_unix_us = system_clock_from_ntp64 (st_ntp64 st);
                rate_hz = (if clock_rate_hz \<noteq> 0 then uint clock_rate_hz else uint (st_clock_rate_hz st))
            in if rate_hz \<le> 0 then Some (None, s)
               else case forward_ticks rate_hz (rtp_ts_signed_diff rtp_ts (st_rtp_ts st)) of
                 None \<Rightarrow> Some (None, s)
               | Some ticks \<Rightarrow> do {
                   delta_us \<leftarrow> extrapolate st rate_hz ticks;
                   let capture = refine (tr_tolerance_us s) has_abs_send_time ast st (map_of (tr_ast_anchor s) ssrc) sr_unix_us (sr_unix_us + delta_us);
                   Some (Some (capture, clock_skew (tr_origin s) local_recv st sr_unix_us capture), s)
                 })"

definition capture_ts_us_for_sr :: "u32 \<Rightarrow> u32 \<Rightarrow> u32 \<Rightarrow> u32 \<Rightarrow> int \<Rightarrow> sr_tracker \<Rightarrow> ((int \<times> int) option \<times> sr_tracker) option" where
  "capture_ts_us_for_sr ssrc rtp_ts ast clock_rate_hz local_recv s = capture_ts_us_for ssrc rtp_ts ast False clock_rate_hz local_recv s"

section \<open>NTP and abs-send-time round trips\<close>

lemma ntp_parts:
  assumes "uint s < 2 ^ 32" "uint f < 2 ^ 32"
  shows "uint (ntp_seconds (push_bit 32 s OR f)) = uint s" "uint (ntp_fraction (push_bit 32 s OR f)) = uint f"
proof -
  have s: "take_bit 32 s = s" and f: "take_bit 32 f = f"
    using assms by (simp_all add: word_uint_eq_iff unsigned_take_bit_eq take_bit_int_eq_self)
  have d: "drop_bit 32 (push_bit 32 s OR f) = s"
  proof (rule bit_word_eqI)
    fix n assume "n < LENGTH(64)"
    have "\<not> bit f (32 + n)" using f by (metis bit_take_bit_iff not_add_less1)
    moreover have "bit s n \<Longrightarrow> n < 32" using s by (metis bit_take_bit_iff)
    ultimately show "bit (drop_bit 32 (push_bit 32 s OR f)) n = bit s n" by (auto simp: bit_simps)
  qed
  have m: "(push_bit 32 s OR f) AND 0xFFFFFFFF = f"
  proof (rule bit_word_eqI)
    fix n assume "n < LENGTH(64)"
    have k: "(0xFFFFFFFF :: u64) = mask 32" by (simp add: mask_eq_exp_minus_1)
    have "bit f n \<Longrightarrow> n < 32" using f by (metis bit_take_bit_iff)
    then show "bit ((push_bit 32 s OR f) AND 0xFFFFFFFF) n = bit f n" unfolding k by (auto simp: bit_simps)
  qed
  show "uint (ntp_seconds (push_bit 32 s OR f)) = uint s" "uint (ntp_fraction (push_bit 32 s OR f)) = uint f"
    using assms unfolding ntp_seconds_def ntp_fraction_def d m by (simp_all add: unsigned_ucast_eq take_bit_int_eq_self)
qed

lemma uint_of_int_small: "0 \<le> i \<Longrightarrow> i < 2 ^ LENGTH('a::len) \<Longrightarrow> uint (of_int i :: 'a word) = i"
  by (simp add: unsigned_of_int take_bit_int_eq_self)

lemma div_between:
  fixes n k d :: int
  assumes "0 < d"
  shows "k * d \<le> n \<Longrightarrow> k \<le> n div d" "n \<le> k * d \<Longrightarrow> n div d \<le> k"
  using assms zdiv_mono1 [of "k * d" n d] zdiv_mono1 [of n "k * d" d] by simp_all

lemma div_bounds:
  fixes a b :: int
  assumes "0 < b"
  shows "a div b * b \<le> a" "a < (a div b + 1) * b"
proof -
  define x m where "x = a div b" and "m = a mod b"
  have "a = x * b + m" "0 \<le> m" "m < b" using assms unfolding x_def m_def by (simp_all add: div_mult_mod_eq)
  then show "a div b * b \<le> a" "a < (a div b + 1) * b" unfolding x_def [symmetric] by (simp_all add: algebra_simps)
qed

lemma fraction_back:
  fixes m :: int
  assumes "0 \<le> m" "m < 1000000"
  shows "m - 1 \<le> (m * 4294967296 div 1000000) * 1000000 div 4294967296" "(m * 4294967296 div 1000000) * 1000000 div 4294967296 \<le> m"
proof -
  define q where "q = m * 4294967296 div 1000000"
  have q: "q * 1000000 \<le> m * 4294967296" "m * 4294967296 < (q + 1) * 1000000" unfolding q_def by (intro div_bounds; simp)+
  show "q * 1000000 div 4294967296 \<le> m" "m - 1 \<le> q * 1000000 div 4294967296" using q by (intro div_between; simp)+
qed

lemma ntp64_parts:
  assumes "0 \<le> t" "t < (2 ^ 32 - kNtpEpochOffset) * 1000000"
  shows "uint (ntp_seconds (ntp64_from t)) = t div 1000000 + kNtpEpochOffset"
    "uint (ntp_fraction (ntp64_from t)) = (t mod 1000000) * 4294967296 div 1000000"
proof -
  define s where "s = (of_int (t div 1000000) + of_int kNtpEpochOffset :: u64)"
  define f where "f = ((of_int (t mod 1000000) * 4294967296) div 1000000 :: u64)"
  have b: "0 \<le> t div 1000000 + kNtpEpochOffset" "t div 1000000 + kNtpEpochOffset < 2 ^ 32" using assms by (simp_all add: kNtpEpochOffset_def)
  have s: "uint s = t div 1000000 + kNtpEpochOffset"
    unfolding s_def of_int_add [symmetric] using b by (subst uint_of_int_small) simp_all
  have m: "0 \<le> t mod 1000000" "t mod 1000000 < 1000000" by simp_all
  then have "uint (of_int (t mod 1000000 * 4294967296) :: u64) = t mod 1000000 * 4294967296" by (subst uint_of_int_small) simp_all
  then have f: "uint f = (t mod 1000000) * 4294967296 div 1000000" unfolding f_def by (simp add: uint_div)
  have f32: "uint f < 2 ^ 32" using m unfolding f by simp
  have "\<not> f \<ge> 0x100000000" using f32 by (simp add: word_le_def)
  then have e: "ntp64_from t = push_bit 32 s OR f" using assms(1) by (simp add: ntp64_from_def Let_def s_def f_def)
  show "uint (ntp_seconds (ntp64_from t)) = t div 1000000 + kNtpEpochOffset"
    "uint (ntp_fraction (ntp64_from t)) = (t mod 1000000) * 4294967296 div 1000000"
    using ntp_parts [of s f] b(2) f32 s f by (simp_all add: e)
qed

text \<open>
  A time between 1970 and the end of the NTP era (2036), converted to an NTP timestamp and back, is the same up to one microsecond, never later; and
  the capture-time code reads an NTP timestamp as the same instant.
\<close>

theorem ntp_roundtrip:
  assumes "0 \<le> t" "t < (2 ^ 32 - kNtpEpochOffset) * 1000000"
  shows "t - 1 \<le> system_clock_from_ntp64 (ntp64_from t) \<and> system_clock_from_ntp64 (ntp64_from t) \<le> t
    \<and> unix_us_from_ntp64 (ntp64_from t) = system_clock_from_ntp64 (ntp64_from t)"
proof -
  have m: "0 \<le> t mod 1000000" "t mod 1000000 < 1000000" "t = t div 1000000 * 1000000 + t mod 1000000" by simp_all
  have "0 \<le> t div 1000000" using assms(1) by simp
  then have e: "system_clock_from_ntp64 (ntp64_from t) = t div 1000000 * 1000000 + (t mod 1000000) * 4294967296 div 1000000 * 1000000 div 4294967296"
    "unix_us_from_ntp64 (ntp64_from t) = t div 1000000 * 1000000 + (t mod 1000000) * 4294967296 div 1000000 * 1000000 div 4294967296"
    unfolding system_clock_from_ntp64_def unix_us_from_ntp64_def Let_def ntp64_parts [OF assms] by simp_all
  show ?thesis unfolding e using fraction_back [OF m(1,2)] m(3) by linarith
qed

theorem ntp_roundtrip_witness: "1700000000123456 \<le> system_clock_from_ntp64 (ntp64_from 1700000000123457)"
  using ntp_roundtrip [of 1700000000123457] by (simp add: kNtpEpochOffset_def)

lemma ast_parts:
  fixes u :: int
  assumes "0 \<le> u" "u < 2 ^ 63"
  shows "uint (of_int (u div 1000000) * of_int kAbsSendTimeClockRateHz + (of_int (u mod 1000000) * of_int kAbsSendTimeClockRateHz) div 1000000 :: u64)
    = u div 1000000 * 65536 + (u mod 1000000) * 65536 div 1000000"
proof -
  have d: "0 \<le> u div 1000000" "u div 1000000 < 2 ^ 44" using assms by simp_all
  have m: "0 \<le> u mod 1000000" "u mod 1000000 < 1000000" by simp_all
  have "uint (of_int (u mod 1000000 * 65536) :: u64) = u mod 1000000 * 65536" using m by (subst uint_of_int_small) simp_all
  then have r: "(of_int (u mod 1000000) * of_int kAbsSendTimeClockRateHz) div (1000000 :: u64) = of_int (u mod 1000000 * 65536 div 1000000)"
    by (simp add: kAbsSendTimeClockRateHz_def word_uint_eq_iff uint_div unsigned_of_int take_bit_int_eq_self)
  have "0 \<le> u mod 1000000 * 65536 div 1000000" "u mod 1000000 * 65536 div 1000000 < 65536" using m by simp_all
  then have "uint (of_int (u div 1000000 * 65536 + u mod 1000000 * 65536 div 1000000) :: u64) = u div 1000000 * 65536 + u mod 1000000 * 65536 div 1000000"
    using d by (subst uint_of_int_small) simp_all
  then show ?thesis unfolding r by (simp add: kAbsSendTimeClockRateHz_def)
qed

lemma ticks_back:
  fixes m :: int
  assumes "0 \<le> m"
  shows "m - 16 \<le> (m * 65536 div 1000000) * 1000000 div 65536" "(m * 65536 div 1000000) * 1000000 div 65536 \<le> m"
proof -
  define q where "q = m * 65536 div 1000000"
  have q: "q * 1000000 \<le> m * 65536" "m * 65536 < (q + 1) * 1000000" unfolding q_def by (intro div_bounds; simp)+
  show "q * 1000000 div 65536 \<le> m" "m - 16 \<le> q * 1000000 div 65536" using q by (intro div_between; simp)+
qed

text \<open>
  C23: the abs-send-time of an instant, decoded, is the position of the instant in the 256-second cycle of the counter, at most 16 microseconds early, and never
  late; and it fits the 24 bits of the header extension.
\<close>

theorem abs_send_time_position:
  assumes "0 \<le> unix_us_from_ntp64 origin + m" "unix_us_from_ntp64 origin + m < 2 ^ 63"
  shows "(unix_us_from_ntp64 origin + m) mod 256000000 - 16 \<le> decode_abs_send_time_24 (encode_abs_send_time_24 m origin) origin
    \<and> decode_abs_send_time_24 (encode_abs_send_time_24 m origin) origin \<le> (unix_us_from_ntp64 origin + m) mod 256000000
    \<and> encode_abs_send_time_24 m origin \<le> kAbsSendTimeMask"
proof -
  define u where "u = unix_us_from_ntp64 origin + m"
  define d where "d = u div 1000000"
  define f where "f = u mod 1000000 * 65536 div 1000000"
  define c r where "c = d div 256" and "r = d mod 256"
  have d: "d = c * 256 + r" unfolding c_def r_def by (rule div_mult_mod_eq [symmetric])
  have r: "0 \<le> r" "r < 256" unfolding r_def by simp_all
  have f: "0 \<le> f" "f < 65536" unfolding f_def by simp_all
  have k: "(0xFFFFFF :: u64) = mask 24" "(0xFFFFFF :: u32) = mask 24" by (simp_all add: mask_eq_exp_minus_1)
  define w where "w = (of_int d * of_int kAbsSendTimeClockRateHz + (of_int (u mod 1000000) * of_int kAbsSendTimeClockRateHz) div 1000000 :: u64)"
  have w: "uint w = d * 65536 + f" unfolding w_def d_def f_def using assms by (intro ast_parts) (simp_all add: u_def)
  have "encode_abs_send_time_24 m origin = ucast (w AND mask 24)"
    using assms unfolding encode_abs_send_time_24_def Let_def k by (simp add: u_def [symmetric] w_def d_def)
  then have "uint (encode_abs_send_time_24 m origin) = take_bit 24 (d * 65536 + f)"
    by (simp add: unsigned_ucast_eq unsigned_take_bit_eq w flip: take_bit_eq_mask)
  also have "d * 65536 + f = c * 2 ^ 24 + (r * 65536 + f)" unfolding d by simp
  also have "take_bit 24 \<dots> = r * 65536 + f" using f r by (simp add: take_bit_eq_mod)
  finally have e: "uint (encode_abs_send_time_24 m origin) = r * 65536 + f" .
  have t: "take_bit 24 (r * 65536 + f) = r * 65536 + f" using f r by (simp add: take_bit_eq_mod)
  have "encode_abs_send_time_24 m origin AND 0xFFFFFF = encode_abs_send_time_24 m origin"
    unfolding k by (simp add: word_uint_eq_iff unsigned_take_bit_eq e t flip: take_bit_eq_mask)
  then have "decode_abs_send_time_24 (encode_abs_send_time_24 m origin) origin = (r * 65536 + f) * 1000000 div 65536"
    by (simp add: decode_abs_send_time_24_def e kAbsSendTimeClockRateHz_def)
  also have "\<dots> = r * 1000000 + f * 1000000 div 65536"
  proof -
    have "(r * 65536 + f) * 1000000 = f * 1000000 + r * 1000000 * 65536" by simp
    then show ?thesis by (simp only: div_mult_self1 zero_neq_numeral [symmetric] not_False_eq_True)
  qed
  finally have dec: "decode_abs_send_time_24 (encode_abs_send_time_24 m origin) origin = r * 1000000 + f * 1000000 div 65536" .
  have "u = d * 1000000 + u mod 1000000" unfolding d_def by (rule div_mult_mod_eq [symmetric])
  then have "u = r * 1000000 + u mod 1000000 + c * 256000000" unfolding d by simp
  moreover have "0 \<le> r * 1000000 + u mod 1000000" "r * 1000000 + u mod 1000000 < 256000000"
    using r pos_mod_sign [of 1000000 u] pos_mod_bound [of 1000000 u] by linarith+
  ultimately have um: "u mod 256000000 = r * 1000000 + u mod 1000000" by (metis mod_mult_self1 mod_pos_pos_trivial)
  have "encode_abs_send_time_24 m origin \<le> kAbsSendTimeMask" using e f r by (simp add: word_le_def kAbsSendTimeMask_def)
  moreover have "u mod 1000000 - 16 \<le> f * 1000000 div 65536" "f * 1000000 div 65536 \<le> u mod 1000000"
    unfolding f_def by (rule ticks_back, simp)+
  ultimately show ?thesis unfolding u_def [symmetric] dec um by simp
qed

theorem abs_send_time_position_witness:
  "encode_abs_send_time_24 300000000 0 \<le> kAbsSendTimeMask \<and> 43999984 \<le> decode_abs_send_time_24 (encode_abs_send_time_24 300000000 0) 0"
proof -
  have "unix_us_from_ntp64 0 = 0" by (simp add: unix_us_from_ntp64_def ntp_fraction_def ntp_seconds_def kNtpEpochOffset_def)
  then show ?thesis using abs_send_time_position [of 0 300000000] by simp
qed

section \<open>The fitted slope stays near the nominal one\<close>

definition in_band :: "u32 \<Rightarrow> int \<Rightarrow> bool" where
  "in_band rate p \<longleftrightarrow> 20 * \<bar>p - nominal_slope_psec rate\<bar> \<le> nominal_slope_psec rate"

lemma nominal_bounds:
  assumes "rate \<noteq> 0"
  shows "232 \<le> nominal_slope_psec rate" "nominal_slope_psec rate \<le> 1000000000000"
proof -
  have r: "0 < uint rate" "uint rate < 2 ^ 32" using assms uint_lt2p [of rate] by (auto simp: uint_0_iff [symmetric] less_le) 
  have "1000000000000 div 4294967296 \<le> 1000000000000 div uint rate" using r by (intro zdiv_mono2) simp_all
  then show "232 \<le> nominal_slope_psec rate" using assms by (simp add: nominal_slope_psec_def)
  have "1000000000000 div uint rate \<le> 1000000000000 div 1" using r(1) by (intro zdiv_mono2) simp_all
  then show "nominal_slope_psec rate \<le> 1000000000000" by (simp add: nominal_slope_psec_def)
qed

lemma deviation_accepted:
  assumes fl: "double_rounding fl" and n: "0 \<le> n" "n \<le> 1000000000000" and d: "0 \<le> d"
    and acc: "\<not> fl (of_int d) > fl (fl (of_int n) * fl kMaxFitDeviationRatio)"
  shows "20 * d \<le> n"
proof -
  note f = double_rounding_facts [OF fl]
  have up: "0 \<le> x \<Longrightarrow> x \<le> 2 ^ 100 \<Longrightarrow> fl x \<le> x + x / 2 ^ 52 + 1 / 2 ^ 100" for x using fl by (simp add: double_rounding_def algebra_simps)
  have en: "fl (of_int n) = of_int n" using f(2) [of "nat n"] n by simp
  have nr: "0 \<le> (of_int n :: rat)" "(of_int n :: rat) \<le> 1000000000000" using n by simp_all
  define k where "k = fl kMaxFitDeviationRatio"
  have k: "0 \<le> k" "k \<le> 1 / 20 + 1 / 2 ^ 50" unfolding k_def using f(3,5) [of kMaxFitDeviationRatio] by (simp_all add: kMaxFitDeviationRatio_def)
  define x where "x = of_int n * k"
  have "x \<le> of_int n * (1 / 20 + 1 / 2 ^ 50)" unfolding x_def using k nr by (intro mult_left_mono) simp_all
  then have x: "0 \<le> x" "x \<le> of_int n / 20 + 1 / 1000" using k(1) nr by (simp_all add: x_def algebra_simps)
  have "fl x \<le> x + x / 2 ^ 52 + 1 / 2 ^ 100" using x nr by (intro up) simp_all
  then have q: "fl x < of_int n / 20 + 1 / 20" using x nr by simp
  have a: "fl (of_int d) \<le> fl x" using acc by (simp add: en x_def k_def)
  show ?thesis
  proof (cases "d \<le> 2 ^ 53")
    case True
    then have "fl (of_int d) = of_int d" using f(2) [of "nat d"] d by simp
    then have "(of_int (20 * d) :: rat) < of_int (n + 1)" using a q by simp
    then show ?thesis by (simp only: of_int_less_iff)
  next
    case False
    then have "2 ^ 53 \<le> d" by simp
    then have "fl (of_int (2 ^ 53)) \<le> fl (of_int d)" by (intro f(1)) (simp only: of_int_le_iff)
    moreover have "fl (of_int (2 ^ 53)) = 2 ^ 53" using f(2) [of "2 ^ 53"] by simp
    ultimately show ?thesis using a q nr by simp
  qed
qed

lemma ewma_between:
  assumes "lo \<le> a" "a \<le> hi" "lo \<le> b" "b \<le> hi" "0 \<le> k" "k \<le> 1000" "0 \<le> lo"
  shows "lo \<le> tdiv (a * (1000 - k) + b * k) 1000 \<and> tdiv (a * (1000 - k) + b * k) 1000 \<le> hi"
proof -
  define v where "v = a * (1000 - k) + b * k"
  have "lo * (1000 - k) \<le> a * (1000 - k)" "lo * k \<le> b * k" "a * (1000 - k) \<le> hi * (1000 - k)" "b * k \<le> hi * k"
    using assms by (simp_all add: mult_right_mono)
  then have v: "lo * 1000 \<le> v" "v \<le> hi * 1000" unfolding v_def by (simp_all add: algebra_simps)
  have "0 \<le> v" using v(1) assms(7) by simp
  then have "tdiv v 1000 = v div 1000" by (simp add: tdiv_def)
  moreover have "lo \<le> v div 1000" "v div 1000 \<le> hi" using v by (intro div_between; simp)+
  ultimately show ?thesis by (simp add: v_def)
qed

lemma in_band_ewma:
  assumes "rate \<noteq> 0" "in_band rate a" "in_band rate b" "0 \<le> k" "k \<le> 1000"
  shows "in_band rate (tdiv (a * (1000 - k) + b * k) 1000)"
proof -
  define n where "n = nominal_slope_psec rate"
  define w where "w = n div 20"
  have n: "0 \<le> n" using nominal_bounds [OF assms(1)] by (simp add: n_def)
  have "n = w * 20 + n mod 20" unfolding w_def by (rule div_mult_mod_eq [symmetric])
  then have "w * 20 \<le> n" "n < w * 20 + 20" using pos_mod_sign [of 20 n] pos_mod_bound [of 20 n] by linarith+
  then have eq: "20 * x \<le> n \<longleftrightarrow> x \<le> w" for x by linarith
  have iff: "in_band rate p \<longleftrightarrow> n - w \<le> p \<and> p \<le> n + w" for p
  proof -
    have "in_band rate p \<longleftrightarrow> \<bar>p - n\<bar> \<le> w" unfolding in_band_def n_def [symmetric] by (rule eq)
    also have "\<dots> \<longleftrightarrow> n - w \<le> p \<and> p \<le> n + w" by auto
    finally show ?thesis .
  qed
  have "0 \<le> n - w" using n \<open>w * 20 \<le> n\<close> by linarith
  then show ?thesis using ewma_between [of "n - w" a "n + w" b k] assms by (simp add: iff)
qed

section \<open>The invariant of the tracker\<close>

definition config_ok :: "slope_filter_config \<Rightarrow> bool" where
  "config_ok c \<longleftrightarrow> max_samples c \<noteq> 0 \<and> ewma_alpha_permille c \<le> 1000"

definition fit_ok :: "u32 \<Rightarrow> ssrc_fit \<Rightarrow> bool" where
  "fit_ok rate f \<longleftrightarrow> fit_samples f \<noteq> [] \<and> sorted (map smp_tick_pos (fit_samples f)) \<and> (fit_seeded f \<longrightarrow> in_band rate (fit_ewma_psec f))"

definition anchored_ok :: "ast_anchor option \<Rightarrow> timeline_state \<Rightarrow> bool" where
  "anchored_ok a st \<longleftrightarrow> (st_abs_send_anchored st \<longrightarrow> (\<exists>x. a = Some x \<and> anchor_valid x \<and> anchor_ticks x \<le> kAbsSendTimeMask))"

definition slope_ok :: "timeline_state \<Rightarrow> bool" where
  "slope_ok st \<longleftrightarrow> st_clock_rate_hz st \<noteq> 0 \<and> (st_slope_fitted st \<longrightarrow> in_band (st_clock_rate_hz st) (st_slope_psec st))"

definition ring_ok :: "ast_observation list \<Rightarrow> bool" where
  "ring_ok obs \<longleftrightarrow> length obs \<le> 64 \<and> list_all (\<lambda>ob. obs_ast ob \<le> kAbsSendTimeMask) obs"

definition tracker_inv :: "sr_tracker \<Rightarrow> bool" where
  "tracker_inv s \<longleftrightarrow> 0 \<le> tr_tolerance_us s \<and> config_ok (tr_slope_cfg s)
     \<and> (\<forall>k st. map_of (tr_by_ssrc s) k = Some st \<longrightarrow> slope_ok st \<and> anchored_ok (map_of (tr_ast_anchor s) k) st)
     \<and> (\<forall>k f. map_of (tr_fits s) k = Some f \<longrightarrow> (\<exists>st. map_of (tr_by_ssrc s) k = Some st \<and> fit_ok (st_clock_rate_hz st) f))
     \<and> (\<forall>k obs. map_of (tr_ast_obs s) k = Some obs \<longrightarrow> ring_ok obs)"

lemma refit_ok:
  assumes fl: "double_rounding fl" and "refit fl cfg f st = Some (f', st')" "config_ok cfg" "fit_ok (st_clock_rate_hz st) f" "slope_ok st"
  shows "fit_ok (st_clock_rate_hz st') f' \<and> slope_ok st' \<and> (anchored_ok a st \<longrightarrow> anchored_ok a st')"
proof -
  define n where "n = nominal_slope_psec (st_clock_rate_hz st)"
  have r: "st_clock_rate_hz st \<noteq> 0" using assms(5) by (simp add: slope_ok_def)
  have nb: "0 \<le> n" "n \<le> 1000000000000" using nominal_bounds [OF r] by (simp_all add: n_def)
  have band: "in_band (st_clock_rate_hz st) p" if "p > 0" "\<not> fl (of_int (if p > n then p - n else n - p)) > fl (fl (of_int n) * fl kMaxFitDeviationRatio)" for p
  proof -
    have "(if p > n then p - n else n - p) = \<bar>p - n\<bar>" by simp
    then show ?thesis using deviation_accepted [OF fl nb _ that(2)] unfolding in_band_def n_def [symmetric] by simp
  qed
  have al: "0 \<le> uint (ewma_alpha_permille cfg)" "uint (ewma_alpha_permille cfg) \<le> 1000"
    using assms(3) by (simp_all add: config_ok_def word_le_def)
  note e = in_band_ewma [OF r _ _ al]
  show ?thesis using assms(2) unfolding refit_def Let_def n_def [symmetric]
    apply (split if_split_asm)
    subgoal using assms(4,5) by (auto simp: fit_ok_def slope_ok_def anchored_ok_def)
    apply (cases "fit_slope_psec fl (fit_samples f)")
    subgoal by simp
    subgoal for p
      using band [of p] e [of "fit_ewma_psec f" p] assms(4,5)
      by (simp add: fit_ok_def slope_ok_def anchored_ok_def split: if_split_asm) auto
    done
qed

lemma tracker_invD:
  assumes "tracker_inv s"
  shows "0 \<le> tr_tolerance_us s" "config_ok (tr_slope_cfg s)" "map_of (tr_by_ssrc s) k = Some st \<Longrightarrow> slope_ok st"
    "map_of (tr_by_ssrc s) k = Some st \<Longrightarrow> anchored_ok (map_of (tr_ast_anchor s) k) st"
    "map_of (tr_fits s) k = Some f \<Longrightarrow> \<exists>st. map_of (tr_by_ssrc s) k = Some st \<and> fit_ok (st_clock_rate_hz st) f"
    "map_of (tr_ast_obs s) k = Some obs \<Longrightarrow> ring_ok obs"
  using assms unfolding tracker_inv_def by blast+

text \<open>Putting a state, and a fit for it, keeps the invariant.\<close>

lemma put_fit_inv:
  assumes "tracker_inv s" "slope_ok st" "anchored_ok (map_of (tr_ast_anchor s) k) st" "fit_ok (st_clock_rate_hz st) f"
  shows "tracker_inv (s\<lparr>tr_fits := AList.update k f (tr_fits s), tr_by_ssrc := AList.update k st (tr_by_ssrc s)\<rparr>)"
  using assms(2-4) tracker_invD [OF assms(1)] unfolding tracker_inv_def by (auto simp: update_conv' split: if_splits)

lemma refit_ssrc_inv:
  assumes "double_rounding fl" "tracker_inv s" "refit_ssrc fl k s = Some s'"
  shows "tracker_inv s'"
proof -
  note i = tracker_invD [OF assms(2)]
  show ?thesis
  proof (cases "map_of (tr_fits s) k")
    case None
    then show ?thesis using assms by (simp add: refit_ssrc_def)
  next
    case (Some f)
    from i(5) [OF this] obtain st where st: "map_of (tr_by_ssrc s) k = Some st" "fit_ok (st_clock_rate_hz st) f" by blast
    from assms(3) Some st(1) obtain f' st' where r: "refit fl (tr_slope_cfg s) f st = Some (f', st')"
      "s' = s\<lparr>tr_fits := AList.update k f' (tr_fits s), tr_by_ssrc := AList.update k st' (tr_by_ssrc s)\<rparr>"
      by (auto simp: refit_ssrc_def split: option.splits bind_splits)
    from refit_ok [OF assms(1) r(1) i(2) st(2) i(3) [OF st(1)]] i(4) [OF st(1)] show ?thesis
      unfolding r(2) by (intro put_fit_inv assms(2)) blast+
  qed
qed

lemma set_anchor_inv:
  assumes "tracker_inv s" "map_of (tr_by_ssrc s) k = Some st" "anchor_valid a \<longrightarrow> anchor_ticks a \<le> kAbsSendTimeMask"
  shows "tracker_inv (set_anchor k a st s)"
proof -
  note i = tracker_invD [OF assms(1)]
  have f: "map_of (tr_fits s) j = Some f \<Longrightarrow> \<exists>st'. map_of (tr_by_ssrc (set_anchor k a st s)) j = Some st' \<and> fit_ok (st_clock_rate_hz st') f" for j f
    using i(5) [of j f] assms(2) by (auto simp: set_anchor_def update_conv')
  show ?thesis using i(1,2,6) i(3) [OF assms(2)] i(3,4) assms(3) f unfolding tracker_inv_def
    by (auto simp: set_anchor_def update_conv' slope_ok_def anchored_ok_def split: if_splits)
qed

lemma anchor_from_bound: "anchor_from rate ts ob \<le> kAbsSendTimeMask"
proof -
  define v where "v = uint (obs_ast ob) + tdiv (rtp_ts_signed_diff ts (obs_rtp_ts ob) * kAbsSendTimeClockRateHz) (uint rate)"
  define w where "w = tmod v kAbsSendTimeModulus"
  have "w = (if v \<ge> 0 then v mod kAbsSendTimeModulus else - (- v mod kAbsSendTimeModulus))"
    unfolding w_def tmod_def tdiv_def using minus_div_mult_eq_mod [of v kAbsSendTimeModulus] minus_div_mult_eq_mod [of "- v" kAbsSendTimeModulus] by simp
  moreover have b: "0 \<le> x mod kAbsSendTimeModulus" "x mod kAbsSendTimeModulus < kAbsSendTimeModulus" for x by (simp_all add: kAbsSendTimeModulus_def)
  ultimately consider "w = v mod kAbsSendTimeModulus" | "w = - (- v mod kAbsSendTimeModulus)" by presburger
  then have "- kAbsSendTimeModulus < w \<and> w < kAbsSendTimeModulus" by cases (use b [of v] b [of "- v"] in linarith)+
  then have "0 \<le> (if w < 0 then w + kAbsSendTimeModulus else w)" "(if w < 0 then w + kAbsSendTimeModulus else w) < 2 ^ 24"
    by (simp_all add: kAbsSendTimeModulus_def)
  then show ?thesis unfolding anchor_from_def Let_def v_def [symmetric] w_def [symmetric]
    by (simp add: word_le_def kAbsSendTimeMask_def uint_of_int_small)
qed

lemma ring_find: "ring_ok obs \<Longrightarrow> find P (rev obs) = Some ob \<Longrightarrow> obs_ast ob \<le> kAbsSendTimeMask"
  using find_Some_iff [of P "rev obs" ob] nth_mem [of _ "rev obs"] by (fastforce simp: ring_ok_def list_all_iff)

lemma try_anchor_inv:
  assumes "tracker_inv s"
  shows "tracker_inv (try_anchor_ast k s)"
proof (cases "map_of (tr_by_ssrc s) k")
  case None
  then show ?thesis using tracker_invD [OF assms] unfolding tracker_inv_def by (auto simp: try_anchor_ast_def update_conv')
next
  case (Some st)
  have ring: "ring_ok (at_or [] (tr_ast_obs s) k)" using tracker_invD(6) [OF assms, of k]
    by (auto simp: at_or_def ring_ok_def split: option.splits)
  show ?thesis unfolding try_anchor_ast_def Some Let_def
    by (auto simp: no_anchor_def anchor_from_bound intro!: set_anchor_inv assms Some ring_find [OF ring] split: option.splits)
qed

lemma observe_inv:
  assumes "tracker_inv s"
  shows "tracker_inv (observe_abs_send_time k ts ast s)"
proof (cases "ast > kAbsSendTimeMask")
  case False
  define old where "old = at_or [] (tr_ast_obs s) k"
  have ring: "ring_ok old" using tracker_invD(6) [OF assms, of k] by (auto simp: old_def at_or_def ring_ok_def split: option.splits)
  define new where "new = old @ [\<lparr>obs_rtp_ts = ts, obs_ast = ast\<rparr>]"
  have r: "ring_ok (if length new > kMaxAstObservations then tl new else new)"
    using ring False by (cases old) (auto simp: new_def ring_ok_def kMaxAstObservations_def)
  have "tracker_inv (s\<lparr>tr_ast_obs := AList.update k (if length new > kMaxAstObservations then tl new else new) (tr_ast_obs s)\<rparr>)"
    using tracker_invD [OF assms] r unfolding tracker_inv_def by (auto simp: update_conv' simp del: if_split split: if_split_asm)
  from try_anchor_inv [OF this, of k] show ?thesis
    using False unfolding observe_abs_send_time_def Let_def new_def old_def by (simp only: if_False)
qed (simp add: observe_abs_send_time_def assms)

lemma signed_diff_range: "- (2 ^ 31) \<le> rtp_ts_signed_diff a b" "rtp_ts_signed_diff a b < 2 ^ 31"
proof -
  define u where "u = uint (a - b)"
  have u: "0 \<le> u" "u < 2 ^ 32" using uint_lt2p [of "a - b"] by (simp_all add: u_def)
  have "rtp_ts_signed_diff a b = (if u \<le> 2147483647 then u else u - 2 ^ 32)" by (simp add: rtp_ts_signed_diff_def Let_def word_le_def u_def)
  then show "- (2 ^ 31) \<le> rtp_ts_signed_diff a b" "rtp_ts_signed_diff a b < 2 ^ 31" using u by (simp_all split: if_splits)
qed

lemma add_sample_ok:
  assumes "n \<noteq> 0" "fit_samples f = [] \<and> \<not> fit_seeded f \<or> fit_ok rate f"
  shows "fit_ok rate (add_sample n r t sr f)"
proof -
  have n: "0 < unat n" using assms(1) by (simp add: unat_gt_0)
  have trimmed: "drop (length xs - unat n) xs \<noteq> [] \<and> sorted (map smp_tick_pos (drop (length xs - unat n) xs))"
    if "sorted (map smp_tick_pos xs)" "xs \<noteq> []" for xs
    using that diff_less [OF n, of "length xs"] by (simp add: drop_map [symmetric] sorted_wrt_drop)
  have snoc: "sorted (map smp_tick_pos (xs @ [x]))" if "sorted (map smp_tick_pos xs)" "xs \<noteq> []" "smp_tick_pos (last xs) \<le> smp_tick_pos x" for xs x
  proof -
    have "\<forall>y\<in>set (map smp_tick_pos xs). y \<le> smp_tick_pos (last xs)"
    proof (cases xs rule: rev_cases)
      case (snoc ys y)
      then show ?thesis using that(1) by (simp add: sorted_append)
    qed simp
    then show ?thesis using that by (auto simp: sorted_append)
  qed
  define d where "d = rtp_ts_signed_diff (sr_rtp_timestamp sr) (smp_rtp_ts (last (fit_samples f)))"
  define smp where "smp = \<lparr>smp_ntp_unix_us = unix_us_from_ntp64 (sr_ntp_timestamp sr), smp_rtp_ts = sr_rtp_timestamp sr, smp_local_recv_us = t, smp_tick_pos = 0\<rparr>"
  consider "fit_samples f = []" | "fit_samples f \<noteq> []" "d < 0 \<or> d > uint r * 3600" | "fit_samples f \<noteq> []" "\<not> (d < 0 \<or> d > uint r * 3600)" by blast
  then show ?thesis
  proof cases
    case 1
    then show ?thesis using assms(2) trimmed [of "[smp]"] unfolding add_sample_def Let_def fit_ok_def smp_def [symmetric] by auto
  next
    case 2
    then show ?thesis using trimmed [of "[smp]"] unfolding add_sample_def Let_def fit_ok_def smp_def [symmetric] d_def [symmetric] by auto
  next
    case 3
    then have f: "fit_ok rate f" using assms(2) by simp
    have "sorted (map smp_tick_pos (fit_samples f @ [smp\<lparr>smp_tick_pos := smp_tick_pos (last (fit_samples f)) + d\<rparr>]))"
      using f 3 by (intro snoc) (simp_all add: fit_ok_def)
    from trimmed [OF this] show ?thesis using f 3 unfolding add_sample_def Let_def fit_ok_def smp_def [symmetric] d_def [symmetric] by simp
  qed
qed

lemma on_sender_report_inv:
  assumes "double_rounding fl" "tracker_inv s" "on_sender_report fl sr t s = Some s'"
  shows "tracker_inv s'"
proof -
  note i = tracker_invD [OF assms(2)]
  define k where "k = sr_ssrc sr"
  define old where "old = at_or new_timeline_state (tr_by_ssrc s) k"
  define st where "st = old\<lparr>st_ntp64 := sr_ntp_timestamp sr, st_rtp_ts := sr_rtp_timestamp sr, st_local_recv_us := t, st_abs_send_us := 0,
    st_sr_count := st_sr_count old + 1\<rparr>"
  have o: "slope_ok old" "anchored_ok (map_of (tr_ast_anchor s) k) old" using i(3,4) [of k]
    by (auto simp: old_def at_or_def slope_ok_def anchored_ok_def new_timeline_state_def split: option.splits)
  then have st: "slope_ok st" "anchored_ok (map_of (tr_ast_anchor s) k) st" "st_clock_rate_hz st = st_clock_rate_hz old" "st_clock_rate_hz old \<noteq> 0"
    by (simp_all add: st_def slope_ok_def anchored_ok_def)
  define f where "f = add_sample (max_samples (tr_slope_cfg s)) (st_clock_rate_hz st) t sr (at_or new_ssrc_fit (tr_fits s) k)"
  have "fit_ok (st_clock_rate_hz st) f" unfolding f_def
  proof (rule add_sample_ok)
    show "max_samples (tr_slope_cfg s) \<noteq> 0" using i(2) by (simp add: config_ok_def)
    show "fit_samples (at_or new_ssrc_fit (tr_fits s) k) = [] \<and> \<not> fit_seeded (at_or new_ssrc_fit (tr_fits s) k) \<or> fit_ok (st_clock_rate_hz st) (at_or new_ssrc_fit (tr_fits s) k)"
      using i(5) [of k] by (auto simp: at_or_def new_ssrc_fit_def st(3) old_def split: option.splits)
  qed
  from put_fit_inv [OF assms(2) st(1,2) this]
  have inv: "tracker_inv (s\<lparr>tr_by_ssrc := AList.update k st (tr_by_ssrc s), tr_fits := AList.update k f (tr_fits s)\<rparr>)" by (simp add: tracker_inv_def)
  have "on_sender_report fl sr t s = do { s \<leftarrow> refit_ssrc fl k (s\<lparr>tr_by_ssrc := AList.update k st (tr_by_ssrc s), tr_fits := AList.update k f (tr_fits s)\<rparr>);
      Some (try_anchor_ast k s) }"
    unfolding on_sender_report_def Let_def k_def [symmetric] old_def [symmetric] f_def using st(3,4) by (simp add: st_def)
  then obtain s1 where "refit_ssrc fl k (s\<lparr>tr_by_ssrc := AList.update k st (tr_by_ssrc s), tr_fits := AList.update k f (tr_fits s)\<rparr>) = Some s1" "s' = try_anchor_ast k s1"
    using assms(3) by (auto split: bind_splits)
  then show ?thesis using refit_ssrc_inv [OF assms(1) inv] try_anchor_inv by simp
qed

lemma set_rate_inv:
  assumes "tracker_inv s"
  shows "tracker_inv (set_ssrc_clock_rate k r s)"
proof (cases "r = 0")
  case False
  note i = tracker_invD [OF assms]
  define old where "old = at_or new_timeline_state (tr_by_ssrc s) k"
  have "anchored_ok (map_of (tr_ast_anchor s) k) old" using i(4) [of k]
    by (auto simp: old_def at_or_def anchored_ok_def new_timeline_state_def split: option.splits)
  then show ?thesis using False i unfolding tracker_inv_def set_ssrc_clock_rate_def Let_def old_def [symmetric]
    by (auto simp: update_conv' delete_conv' slope_ok_def anchored_ok_def split: if_splits)
qed (simp add: set_ssrc_clock_rate_def assms)

lemma set_config_inv:
  assumes "double_rounding fl" "tracker_inv s" "set_slope_filter_config fl c s = Some s'"
  shows "tracker_inv s'"
proof -
  have "config_ok (clamp_config c)" by (auto simp: clamp_config_def config_ok_def Let_def not_less)
  then have "tracker_inv (s\<lparr>tr_slope_cfg := clamp_config c\<rparr>)" using assms(2) by (simp add: tracker_inv_def)
  moreover have "tracker_inv x \<Longrightarrow> fold (\<lambda>(ssrc, _) x. Option.bind x (refit_ssrc fl ssrc)) ks (Some x) = Some s' \<Longrightarrow> tracker_inv s'" for ks :: "(u32 \<times> ssrc_fit) list" and x
  proof (induction ks arbitrary: x)
    case (Cons kf ks)
    have stop: "fold (\<lambda>a b. Option.bind b (refit_ssrc fl (fst a))) ks None = None" by (induction ks) auto
    show ?case using Cons refit_ssrc_inv [OF assms(1) Cons.prems(1)] stop by (cases "refit_ssrc fl (fst kf) x") (auto simp: split_beta)
  qed simp
  ultimately show ?thesis using assms(3) unfolding set_slope_filter_config_def by blast
qed

section \<open>Runs of the tracker\<close>

datatype tracker_op =
    SetOrigin ntp64
  | SetTolerance int
  | SetSlopeConfig slope_filter_config
  | SetClockRate u32 u32
  | Report sender_report int
  | Observe u32 u32 u32
  | Capture u32 u32 u32 bool u32 int

definition tracker_step :: "(rat \<Rightarrow> rat) \<Rightarrow> tracker_op \<Rightarrow> sr_tracker option \<Rightarrow> sr_tracker option" where
  "tracker_step fl op x = Option.bind x (\<lambda>s. case op of
     SetOrigin n \<Rightarrow> Some (set_monotonic_origin n s)
   | SetTolerance t \<Rightarrow> Some (set_ast_agreement_tolerance_us t s)
   | SetSlopeConfig c \<Rightarrow> set_slope_filter_config fl c s
   | SetClockRate k r \<Rightarrow> Some (set_ssrc_clock_rate k r s)
   | Report sr t \<Rightarrow> on_sender_report fl sr t s
   | Observe k ts ast \<Rightarrow> Some (observe_abs_send_time k ts ast s)
   | Capture k ts ast has r t \<Rightarrow> map_option snd (capture_ts_us_for k ts ast has r t s))"

definition tracker_ok :: "(rat \<Rightarrow> rat) \<Rightarrow> sr_tracker option \<Rightarrow> bool" where
  "tracker_ok fl x \<longleftrightarrow> (double_rounding fl \<longrightarrow> (\<forall>s. x = Some s \<longrightarrow> tracker_inv s))"

lemma capture_tracker:
  "capture_ts_us_for k ts ast has r t s = Some (x, s') \<Longrightarrow> s' = (if has then observe_abs_send_time k ts ast s else s)"
  by (auto simp: capture_ts_us_for_def Let_def split: option.splits if_splits bind_splits)

interpretation timeline: component "Some new_sr_tracker" "tracker_step fl" "tracker_ok fl"
proof
  show "tracker_ok fl (Some new_sr_tracker)"
    by (simp add: tracker_ok_def tracker_inv_def new_sr_tracker_def config_ok_def default_slope_filter_config_def)
next
  fix x op assume ok: "tracker_ok fl x"
  show "tracker_ok fl (tracker_step fl op x)" unfolding tracker_ok_def
  proof (intro impI allI)
    fix s' assume fl: "double_rounding fl" and s': "tracker_step fl op x = Some s'"
    then obtain s where s: "x = Some s" "tracker_inv s" using ok by (cases x) (auto simp: tracker_ok_def tracker_step_def)
    show "tracker_inv s'"
    proof (cases op)
      case (Capture k ts ast has r t)
      then obtain y where "capture_ts_us_for k ts ast has r t s = Some (y, s')" using s' s(1) by (auto simp: tracker_step_def)
      then show ?thesis using capture_tracker observe_inv [OF s(2)] s(2) by (metis (full_types))
    qed (use s s' set_config_inv [OF fl s(2)] on_sender_report_inv [OF fl s(2)] set_rate_inv [OF s(2)] observe_inv [OF s(2)] in
      \<open>auto simp: tracker_step_def set_monotonic_origin_def set_ast_agreement_tolerance_us_def tracker_inv_def\<close>)
  qed
qed

section \<open>Capture times\<close>

text \<open>Recording an observation changes nothing of a state but the anchor.\<close>

definition same_report :: "timeline_state \<Rightarrow> timeline_state \<Rightarrow> bool" where
  "same_report st st' \<longleftrightarrow> st_ntp64 st' = st_ntp64 st \<and> st_rtp_ts st' = st_rtp_ts st \<and> st_sr_count st' = st_sr_count st
     \<and> st_clock_rate_hz st' = st_clock_rate_hz st \<and> st_slope_fitted st' = st_slope_fitted st \<and> st_slope_psec st' = st_slope_psec st"

lemma try_anchor_same:
  assumes "map_of (tr_by_ssrc s) k = Some st"
  shows "(\<exists>st'. map_of (tr_by_ssrc (try_anchor_ast k s)) k = Some st' \<and> same_report st st') \<and> tr_tolerance_us (try_anchor_ast k s) = tr_tolerance_us s"
  using assms by (auto simp: try_anchor_ast_def Let_def set_anchor_def update_conv' same_report_def split: option.splits)

lemma observe_same:
  assumes "map_of (tr_by_ssrc s) k = Some st"
  shows "(\<exists>st'. map_of (tr_by_ssrc (observe_abs_send_time k ts ast s)) k = Some st' \<and> same_report st st')
    \<and> tr_tolerance_us (observe_abs_send_time k ts ast s) = tr_tolerance_us s"
proof (cases "ast > kAbsSendTimeMask")
  case False
  obtain ring where "observe_abs_send_time k ts ast s = try_anchor_ast k (s\<lparr>tr_ast_obs := ring\<rparr>)"
    using False unfolding observe_abs_send_time_def Let_def by (simp only: if_False)
  then show ?thesis using try_anchor_same [of "s\<lparr>tr_ast_obs := ring\<rparr>" k st] assms by simp
qed (simp add: observe_abs_send_time_def assms same_report_def)

lemma extrapolate_bounds:
  assumes "slope_ok st" "1000 \<le> st_clock_rate_hz st" "0 \<le> n" "n < 2 ^ 31"
  shows "\<exists>d. extrapolate st (uint (st_clock_rate_hz st)) n = Some d
    \<and> 19 * nominal_slope_psec (st_clock_rate_hz st) * n \<le> 20000000 * (d + 1) \<and> 20000000 * d \<le> 21 * nominal_slope_psec (st_clock_rate_hz st) * n"
proof -
  define r N where "r = uint (st_clock_rate_hz st)" and "N = nominal_slope_psec (st_clock_rate_hz st)"
  have r: "1000 \<le> r" using assms(2) by (simp add: r_def word_le_def)
  have r0: "st_clock_rate_hz st \<noteq> 0" using assms(1) by (simp add: slope_ok_def)
  have N: "232 \<le> N" using nominal_bounds [OF r0] by (simp add: N_def)
  have Nr: "N = 1000000000000 div r" using r0 by (simp add: N_def r_def nominal_slope_psec_def)
  have N9: "N \<le> 1000000000" unfolding Nr using r by (intro div_between(2)) linarith+
  show ?thesis
  proof (cases "st_slope_fitted st \<and> st_slope_psec st > 0")
    case True
    define p where "p = st_slope_psec st"
    define a where "a = \<bar>p - N\<bar>"
    have "20 * a \<le> N" using True assms(1) by (simp add: slope_ok_def in_band_def N_def p_def a_def)
    moreover have "p - N \<le> a" "N - p \<le> a" by (simp_all add: a_def)
    ultimately have p: "19 * N \<le> 20 * p" "20 * p \<le> 21 * N" by linarith+
    define q where "q = n * p"
    have q: "19 * N * n \<le> 20 * q" "20 * q \<le> 21 * N * n" unfolding q_def
      using mult_right_mono [OF p(1) assms(3)] mult_right_mono [OF p(2) assms(3)] by (simp_all add: algebra_simps)
    have "N * n \<le> 1000000000 * 2 ^ 31" using N N9 assms(3,4) by (intro mult_mono) simp_all
    then have "0 \<le> q" "q < 2 ^ 63" using q N assms(3) True by (simp_all add: q_def p_def)
    define x m where "x = q div 1000000" and "m = q mod 1000000"
    have e: "extrapolate st r n = Some x" using True \<open>0 \<le> q\<close> \<open>q < 2 ^ 63\<close> by (simp add: extrapolate_def mul_i64_def q_def p_def x_def)
    have "q = x * 1000000 + m" "0 \<le> m" "m < 1000000" unfolding x_def m_def by (simp_all add: div_mult_mod_eq)
    then have "20 * q \<le> 20000000 * (x + 1)" "20000000 * x \<le> 20 * q" by simp_all
    then have "19 * N * n \<le> 20000000 * (x + 1)" "20000000 * x \<le> 21 * N * n" using q by (blast intro: order_trans)+
    then show ?thesis using e unfolding r_def N_def by blast
  next
    case False
    define d where "d = n * 1000000 div r"
    have "n * 1000000 < 2 ^ 63" "0 \<le> n * 1000000" using assms(3,4) by simp_all
    then have e: "extrapolate st r n = Some d" using False by (auto simp: extrapolate_def mul_i64_def d_def)
    have d: "d * r \<le> n * 1000000" "n * 1000000 < (d + 1) * r" unfolding d_def using r by (intro div_bounds; simp)+
    have n: "N * r \<le> 1000000000000" "1000000000000 < (N + 1) * r" unfolding Nr using r by (intro div_bounds; simp)+
    have "(N * n) * r \<le> (1000000 * (d + 1)) * r"
      using mult_right_mono [OF n(1) assms(3)] d(2) by (simp add: algebra_simps)
    then have lo: "N * n \<le> 1000000 * (d + 1)" using r by (simp only: mult_le_cancel_right)
    have "(1000000 * d) * r \<le> ((N + 1) * n) * r"
      using mult_right_mono [OF less_imp_le [OF n(2)] assms(3)] d(1) by (simp add: algebra_simps)
    then have "1000000 * d \<le> (N + 1) * n" using r by (simp only: mult_le_cancel_right)
    moreover have "20 * ((N + 1) * n) \<le> 21 * N * n" using mult_right_mono [of "20 * (N + 1)" "21 * N" n] N assms(3) by (simp add: algebra_simps)
    moreover have "0 \<le> N * n" using N assms(3) by simp
    ultimately have "19 * N * n \<le> 20000000 * (d + 1)" "20000000 * d \<le> 21 * N * n" using lo by linarith+
    then show ?thesis using e unfolding r_def N_def by blast
  qed
qed

lemma refine_within: "0 \<le> tol \<Longrightarrow> \<bar>refine tol has ast st a sr c - c\<bar> \<le> tol"
  by (auto simp: refine_def Let_def split: option.splits)

text \<open>
  C7: the capture time of a packet, after a sequence of operations that is itself defined, for a source with a sender report, a configured clock rate of at
  least 1000 Hz and no override of it in the call; doubles are rounded correctly (\<open>double_rounding\<close>). The query is defined: no product leaves the 64-bit range.
  The tracker refuses a packet exactly when its RTP timestamp is more than a second of media time before the report, whatever the 32-bit timestamps
  have wrapped to in between. For every other packet it returns a time: the instant of the report plus the ticks since then (none for an older packet) at the nominal rate,
  within 5 percent of the elapsed time (the fitted slope), one microsecond of rounding and the tolerance granted to the abs-send-time refinement.
  Not every sequence is defined: the conversion of a fitted slope can leave \<^verbatim>\<open>int64_t\<close> (\<open>clock_jump_undefined\<close> below), and the theorem says nothing after that.
\<close>

theorem capture_time_bounded:
  assumes "double_rounding fl" "fold (tracker_step fl) ops (Some new_sr_tracker) = Some s" "state_for k s = Some st" "1000 \<le> st_clock_rate_hz st"
    and "d = rtp_ts_signed_diff ts (st_rtp_ts st)" "N = nominal_slope_psec (st_clock_rate_hz st)"
  shows "\<exists>res s'. capture_ts_us_for k ts ast has 0 t s = Some (res, s')
    \<and> (res = None \<longleftrightarrow> d < - uint (st_clock_rate_hz st))
    \<and> (\<forall>c skew. res = Some (c, skew) \<longrightarrow>
         19 * N * max 0 d \<le> 20000000 * (c - system_clock_from_ntp64 (st_ntp64 st) + tr_tolerance_us s + 1)
       \<and> 20000000 * (c - system_clock_from_ntp64 (st_ntp64 st) - tr_tolerance_us s) \<le> 21 * N * max 0 d)"
proof -
  have inv: "tracker_inv s" using timeline.run_inv [of fl ops] assms(1,2) by (simp add: tracker_ok_def)
  have st: "map_of (tr_by_ssrc s) k = Some st" "st_sr_count st \<noteq> 0" using assms(3) by (auto simp: state_for_def split: option.splits if_splits)
  define s1 where "s1 = (if has then observe_abs_send_time k ts ast s else s)"
  obtain st1 where s1: "map_of (tr_by_ssrc s1) k = Some st1" "same_report st st1" "tr_tolerance_us s1 = tr_tolerance_us s" "tracker_inv s1"
    using observe_same [OF st(1), of ts ast] observe_inv [OF inv, of k ts ast] st(1) inv by (cases has) (auto simp: s1_def same_report_def)
  note e = s1(2) [unfolded same_report_def]
  define r sr_us where "r = uint (st_clock_rate_hz st)" and "sr_us = system_clock_from_ntp64 (st_ntp64 st)"
  have r: "0 < r" using assms(4) by (simp add: r_def word_le_def)
  have d: "d < 2 ^ 31" using signed_diff_range(2) assms(5) by simp
  have c: "capture_ts_us_for k ts ast has 0 t s = (case forward_ticks r d of None \<Rightarrow> Some (None, s1) | Some ticks \<Rightarrow> do {
      delta_us \<leftarrow> extrapolate st1 r ticks;
      let capture = refine (tr_tolerance_us s) has ast st1 (map_of (tr_ast_anchor s1) k) sr_us (sr_us + delta_us);
      Some (Some (capture, clock_skew (tr_origin s1) t st1 sr_us capture), s1) })"
    unfolding capture_ts_us_for_def s1_def [symmetric] Let_def using st(2) s1(1,3) e r assms(5) by (simp add: r_def sr_us_def split: option.split)
  show ?thesis
  proof (cases "d < - r")
    case True
    then have "forward_ticks r d = None" using r by (simp add: forward_ticks_def)
    then show ?thesis using True by (simp add: c r_def)
  next
    case False
    then have f: "forward_ticks r d = Some (max 0 d)" by (simp add: forward_ticks_def)
    obtain x where x: "extrapolate st1 r (max 0 d) = Some x" "19 * N * max 0 d \<le> 20000000 * (x + 1)" "20000000 * x \<le> 21 * N * max 0 d"
      using extrapolate_bounds [of st1 "max 0 d"] tracker_invD(3) [OF s1(4,1)] e assms(4,6) d by (auto simp: r_def)
    have "\<bar>refine (tr_tolerance_us s) has ast st1 (map_of (tr_ast_anchor s1) k) sr_us (sr_us + x) - (sr_us + x)\<bar> \<le> tr_tolerance_us s"
      by (rule refine_within) (rule tracker_invD(1) [OF inv])
    then show ?thesis using x False unfolding c f sr_us_def [symmetric] r_def [symmetric] by (simp add: Let_def abs_le_iff)
  qed
qed

definition sample_report :: "int \<Rightarrow> u32 \<Rightarrow> sender_report" where
  "sample_report t ts = new_sr\<lparr>sr_ssrc := 7, sr_ntp_timestamp := ntp64_from t, sr_rtp_timestamp := ts\<rparr>"

text \<open>A report just before the RTP timestamp wraps, and a packet one second later, behind the wrap.\<close>

theorem capture_time_bounded_witness:
  "\<exists>s c skew s'. fold (tracker_step (\<lambda>x. x)) [Report (sample_report 1700000000000000 0xFFFFFF00) 5] (Some new_sr_tracker) = Some s
    \<and> capture_ts_us_for 7 89744 0 False 0 6 s = Some (Some (c, skew), s') \<and> 20000000 * (c - 1700000000000000 - 1000000) \<le> 21 * 11111111 * 90000"
proof -
  define s where "s = the (fold (tracker_step (\<lambda>x. x)) [Report (sample_report 1700000000000000 0xFFFFFF00) 5] (Some new_sr_tracker))"
  have s: "fold (tracker_step (\<lambda>x. x)) [Report (sample_report 1700000000000000 0xFFFFFF00) 5] (Some new_sr_tracker) = Some s"
    unfolding s_def by code_simp
  define st where "st = the (state_for 7 s)"
  have st: "state_for 7 s = Some st" unfolding st_def s_def by code_simp
  have v: "1000 \<le> st_clock_rate_hz st" "rtp_ts_signed_diff 89744 (st_rtp_ts st) = 90000" "nominal_slope_psec (st_clock_rate_hz st) = 11111111"
    "uint (st_clock_rate_hz st) = 90000" "system_clock_from_ntp64 (st_ntp64 st) = 1700000000000000" "tr_tolerance_us s = 1000000"
    unfolding st_def s_def by code_simp+
  from capture_time_bounded [OF exact_double s st v(1) v(2) [symmetric] v(3) [symmetric], of 0 False 6] v(4-6)
  obtain c skew s' where "capture_ts_us_for 7 89744 0 False 0 6 s = Some (Some (c, skew), s')" "20000000 * (c - 1700000000000000 - 1000000) \<le> 21 * 11111111 * 90000"
    by auto
  then show ?thesis using s by blast
qed

text \<open>
  A report whose wall clock jumps while the media clock advances by one tick makes the conversion of the fitted slope overflow, before the
  test that rejects implausible slopes.
\<close>

lemma clock_jump_undefined:
  "fold (tracker_step (\<lambda>x. x)) [Report (sample_report 0 5) 5, Report (sample_report 1900000000000000 6) 6] (Some new_sr_tracker) = None"
  by code_simp

text \<open>Nothing else in the processing of a report is undefined.\<close>

lemma report_defined: "fit_slope_psec fl (fit_samples f) \<noteq> None \<Longrightarrow> refit fl cfg f st \<noteq> None"
  by (auto simp: refit_def Let_def)

text \<open>With a fitted slope the clock rate given with the call plays no role.\<close>

lemma fitted_ignores_rate: "st_slope_fitted st \<Longrightarrow> st_slope_psec st > 0 \<Longrightarrow> extrapolate st r n = extrapolate st r' n"
  by (simp add: extrapolate_def)

end
