(* ===== verification/Spec2Isabelle.thy ===== *)
theory Spec2Isabelle
  imports Rtp_Builder Rtcp_Transport_Cc H264_Payload Vpx_Payload Raw_Udp_Arq Jitter_Buffer Dtls_Reassembler Scheduler Qpack Video_Pipeline
    Sdp_Munger Data_Channel Bandwidth_Estimator Rtp_Timeline
begin

text \<open>
  \<^bold>\<open>NimRTC: the media and transport core, verified.\<close>

  NimRTC is a WebRTC stack in C++. An engine negotiates a session in SDP, opens a transport (ICE, DTLS and SRTP; or
  UDP with its own ARQ; or WebTransport), and moves media and data over it. The engine and most transports drive
  libraries; what the repository computes itself is the codecs of the wire formats and the state machines between them. This
  development models those and proves what makes them correct. Paths below are relative to \<^verbatim>\<open>src/src\<close>.

  \<^bold>\<open>How the parts interact.\<close>
  A video frame enters \<open>Video_Sender\<close>, which splits it into NAL units, packs these into RTP payloads (\<open>H264_Payload\<close>,
  \<open>Vpx_Payload\<close>) and keeps the packets for retransmission. The packets are written by \<open>Rtp_Builder\<close>, queued by the
  \<open>Scheduler\<close> under the rate that a \<open>Bandwidth_Estimator\<close> derives from feedback, and read again by \<open>Rtp_Parser\<close>.
  \<open>Video_Receiver\<close> follows the sequence numbers, reassembles NAL units and hands frames out through
  \<open>Video_Jitter_Buffer\<close>, which shares its delay policy (\<open>Adaptive_Delay\<close>) with the audio \<open>Jitter_Buffer\<close>. What is
  missing goes back as RTCP (\<open>Rtcp\<close>, \<open>Rtcp_Transport_Cc\<close>, \<open>Video_Rtcp_Feedback\<close>), and \<open>Video_Pipeline\<close> closes the loop: feedback becomes
  retransmissions and key frames. Beside the media path stand the session description (\<open>Sdp_Parser\<close>, \<open>Sdp_Munger\<close>), data channels
  (\<open>Data_Channel\<close>), the mapping of RTP timestamps to the wall clock of the peer (\<open>Rtp_Timeline\<close>, fed by the sender reports of \<open>Rtcp\<close>), the ARQ over UDP (\<open>Raw_Udp_Arq\<close>), the reassembly of DTLS handshake messages (\<open>Dtls_Reassembler\<close>) and the header compression
  of WebTransport (\<open>Qpack\<close>).

  \<^bold>\<open>How the code is modelled.\<close>
  A struct is a record with the fields of the code, an enum a datatype, and an operation a function that takes the state
  and returns it updated. Integers keep their width (\<open>u8\<close>, \<open>u16\<close>, \<open>u32\<close>, \<open>u64\<close> are words) wherever they can wrap. A \<^verbatim>\<open>Result\<close> is \<open>'a result\<close>, a
  sum whose left side is an error code. \<open>None\<close> at the outermost level is undefined behaviour or an exception that leaves the function:
  a read or write out of bounds, a null pointer, a conversion out of range. So memory safety of a parser is
  the statement that it never returns \<open>None\<close>. A \<^verbatim>\<open>double\<close> is a rational number and the rounding \<open>fl\<close> is an
  argument; the theorems hold for every rounding with the properties they name, which IEEE double precision has. Clocks
  are arguments, callbacks are call histories, and a mutex makes the call it guards one step. A thread is a
  step of its own, so that interleavings are sequences of steps.

  \<^bold>\<open>Theories.\<close>
  \<^item> \<open>Prelude\<close>: words, checked access to byte spans, big-endian fields, the error codes of \<^verbatim>\<open>core/error.hpp\<close>, and the locales (below).
  \<^item> \<open>Rtp_Parser\<close>, \<open>Rtp_Builder\<close>: \<^verbatim>\<open>modules/rtp/src/parser.cpp\<close> and \<^verbatim>\<open>builder.cpp\<close>. The parser stays in bounds on every
    input and returns exactly the structure of RFC 3550; it reads back what the builder writes, header extensions and padding included.
  \<^item> \<open>Rtcp\<close>, \<open>Rtcp_Transport_Cc\<close>: the RTCP parts of the same files. Parsers are safe, reports and NACKs survive the round
    trip, and the walk over the chunks of a transport feedback ends within its bounds.
  \<^item> \<open>H264_Payload\<close>, \<open>Vpx_Payload\<close>: \<^verbatim>\<open>modules/video_payload\<close>. Parsers are safe, builders write nothing beyond the
    output span, and payloads survive the round trip.
  \<^item> \<open>Adaptive_Delay\<close>, \<open>Jitter_Buffer\<close>: \<^verbatim>\<open>modules/jb_strategy\<close> and \<^verbatim>\<open>modules/jb\<close>. While the buffer stays within its configured cap, every pushed packet is
    handed out once, discarded by a reset or still buffered (the cap itself is never enforced, which is a finding); the
    frame handed out is the earliest one and is due; the jitter estimate is bounded.
  \<^item> \<open>Video_Jitter_Buffer\<close>: \<^verbatim>\<open>modules/video_jb\<close>. An invariant over all operations, reassembly of a fragmented NAL unit, the playout
    window, and the list of missing packets while numbers neither wrap around nor start with a reordered packet.
  \<^item> \<open>Video_Rtcp_Feedback\<close>: \<^verbatim>\<open>modules/video_rtcp_feedback\<close>. PLI, FIR, SLI and NACK round trips, the exact error of each
    malformed message, and the packing of sequence numbers into NACK entries.
  \<^item> \<open>Video_Sender\<close>, \<open>Video_Receiver\<close>, \<open>Video_Pipeline\<close>: \<^verbatim>\<open>modules/video_pipeline\<close>. In non-interleaved mode the payloads of a frame whose
    units the sender can send carry exactly these units within the MTU (units of MTU - 2 to MTU bytes, and large units after small ones, are not sent or read out of bounds, which
    are findings); the receiver returns on every packet and reports exactly the missing sequence numbers; frames of one NAL unit sent over a lossless link
    arrive whole; feedback causes exactly the retransmissions and key frames it asks for.
  \<^item> \<open>Scheduler\<close>: \<^verbatim>\<open>modules/sched\<close>. A ledger for every run and every send callback: each packet, of the plain queues and of the
    streams, is queued, sent, counted as dropped or taken out by a drain whose callback refused it. With an accepting callback a drain sends
    the earliest packets of the highest priority, and the five queues refine one list kept in priority order; that last theorem describes the eviction order of the
    code, which is not the documented one (a finding), and treats the stream operations, which do not touch these queues, as the identity.
  \<^item> \<open>Bandwidth_Estimator\<close>: \<^verbatim>\<open>modules/bwe\<close>. Both estimators stay within the configured limits, widened by the initial rate, which the constructors
    do not clamp (a finding); the AIMD
    estimator lowers its rate once per loss event.
  \<^item> \<open>Rtp_Timeline\<close>: \<^verbatim>\<open>modules/rtp/src/timeline.cpp\<close>. NTP and abs-send-time conversions lose at most their resolution; the slope fitted to the
    sender reports of a peer stays within 5 percent of the nominal one, so in every run without overflow the capture time of a packet is bounded around its nominal value.
  \<^item> \<open>Raw_Udp_Arq\<close>: \<^verbatim>\<open>raw_udp\<close>. The invariant of the selective-repeat protocol over interleavings of its threads, for a configured retransmission limit
    and as long as no acknowledgement makes the signed subtraction of \<^verbatim>\<open>is_acked\<close> overflow (then the model is undefined, like the code); and in-order delivery
    of pipelined datagrams over a link that neither loses nor reorders them. A call of \<^verbatim>\<open>send()\<close> is one step.
  \<^item> \<open>Dtls_Reassembler\<close>: \<^verbatim>\<open>modules/dtls/include/nimrtc/dtls/dtls_handshake_reassembler.hpp\<close>. Fragments in any order that cover
    a message give the message back, and every run on arbitrary bytes stays inside its buffers.
  \<^item> \<open>Qpack_Tables\<close>, \<open>Qpack\<close>: \<^verbatim>\<open>web_transport/src/web_transport_qpack.cpp\<close> and \<^verbatim>\<open>qpack_tables.hpp\<close>. The Huffman
    decoder inverts the code that the tables of \<^verbatim>\<open>qpack_tables.hpp\<close> define (that these are the tables of RFC 7541 is not a theorem), field sections survive the round trip, the decoder is safe on every input, and the dynamic
    table refines a window on the sequence of insertions.
  \<^item> \<open>Sdp_Parser\<close>, \<open>Sdp_Munger\<close>: \<^verbatim>\<open>modules/sdp\<close>. Which texts are accepted, rejected or make the parser throw; what the
    accepted session looks like; and exactly which fields survive writing and parsing.
  \<^item> \<open>Data_Channel\<close>: \<^verbatim>\<open>sctp/src/dcep.cpp\<close> and \<^verbatim>\<open>modules/datachannel\<close>. The DCEP codec, the opening handshake (the modes that a peer does not learn are a finding), and that no operation uses a socket that is gone.

  \<^bold>\<open>Interfaces.\<close>
  What several components have in common is stated as a locale of the prelude and proved there once. \<open>wire_codec\<close>, \<open>payload_format\<close>
  and \<open>message_codec\<close> are the contracts between builders and parsers, for the three ways the code returns what it
  built; RTP, RTCP, SDP, the payload formats and the feedback messages interpret them. \<open>component\<close> is a state machine with an invariant, and its
  lemmas carry the invariant to every sequence of operations; every stateful component interprets it on its own
  operations. \<open>refinement\<close> extends it with an abstract machine (the scheduler, the QPACK table). \<open>item_source\<close> is the
  contract between the receiver and the jitter buffer it drains: each frame takes away some of the work, so the loop ends.

  \<^bold>\<open>Loops and bounds.\<close>
  No definition uses fuel. Loops over data are structural recursions or have a measure. The two loops that need not end, the cutting of a NAL
  unit into fragments (an MTU without room for a fragment body makes no progress) and the draining of the jitter buffer, are partial functions into an option, with
  theorems that they return. Bounds in hypotheses are those of the code: an MTU that fits a fragment header, lengths that fit their 16-bit fields, a configuration with ordered
  limits, and for the bandwidth estimators a time span in which the configured increase cannot exceed \<open>2\<^sup>3\<^sup>1\<close> bits per second,
  beyond which the conversions of the code are indeed undefined.
  Where a theorem needs more than that (a frame of one NAL unit, distinct timestamps, a callback that accepts), its text says so.

  \<^bold>\<open>Not modelled.\<close>
  The engine, ICE, SRTP, the DTLS sessions, the SCTP and UDP sockets, the WebTransport sessions, the
  audio and video codecs and audio processing drive third-party libraries, devices and threads: their
  behaviour is that of code outside the repository. The plugin registry, the plugin adapters, the transport
  stacks and the session containers only construct and forward. Pixel conversion, capture, statistics for display and logging are left
  out as output. Error messages are left out everywhere; the error codes are not.
\<close>

end
